(* ===== verification/Prelude.thy ===== *)
theory Prelude
  imports Main "HOL-Library.Word" "HOL-Library.Monad_Syntax" "HOL-Library.Char_ord"
    "HOL-Library.List_Lexorder"
begin

section \<open>Shared conventions: C strings, machine sizes, memory and faults\<close>

text \<open>
  What every component of the development uses.

  A C function that may trip over undefined behaviour (a NULL dereference, an access
  outside an allocated block) or over an \<^verbatim>\<open>assert\<close> is modelled in the option monad:
  \<^term>\<open>None\<close> is that fault, \<open>Some r\<close> a normal return. That a component never faults is
  then a theorem about it. Return codes are integers, with the names of \<^verbatim>\<open>upnp.h\<close>.

  \<^verbatim>\<open>size_t\<close> values are naturals below \<open>2 ^ 64\<close>, with the wrap-around of the additions and
  subtractions written out (\<open>size_add\<close>, \<open>size_sub\<close>). A C string is the list of its
  characters without the terminator; a block of memory is the list of its bytes.
  The character classes are those of the C locale.
\<close>

named_theorems c_simps \<open>return codes and constants of the C headers\<close>

type_synonym c_string = string
type_synonym c_block = "char list"

abbreviation NUL :: char where
  "NUL \<equiv> CHR 0x00"

subsection \<open>Return codes of upnp.h\<close>

abbreviation (input) UPNP_E_SUCCESS :: int where "UPNP_E_SUCCESS \<equiv> 0"
abbreviation (input) UPNP_E_OUTOF_MEMORY :: int where "UPNP_E_OUTOF_MEMORY \<equiv> -104"
abbreviation (input) UPNP_E_INVALID_URL :: int where "UPNP_E_INVALID_URL \<equiv> -108"
abbreviation (input) UPNP_E_OUTOF_BOUNDS :: int where "UPNP_E_OUTOF_BOUNDS \<equiv> -506"

subsection \<open>Size arithmetic\<close>

definition size_add :: "nat \<Rightarrow> nat \<Rightarrow> nat" where
  "size_add a b = (a + b) mod 2 ^ 64"

definition size_sub :: "nat \<Rightarrow> nat \<Rightarrow> nat" where
  "size_sub a b = (a + (2 ^ 64 - b)) mod 2 ^ 64"

lemma size_add_small [simp]: "a + b < 2 ^ 64 \<Longrightarrow> size_add a b = a + b"
  by (simp add: size_add_def)

lemma size_sub_small [simp]: "b \<le> a \<Longrightarrow> a < 2 ^ 64 \<Longrightarrow> size_sub a b = a - b"
proof -
  assume "b \<le> a" and "a < 2 ^ 64"
  then have "a + (2 ^ 64 - b) = (a - b) + 2 ^ 64" by simp
  then have "size_sub a b = ((a - b) + 2 ^ 64) mod 2 ^ 64" by (simp only: size_sub_def)
  also have "\<dots> = (a - b) mod 2 ^ 64" by (rule mod_add_self2)
  also have "\<dots> = a - b" using \<open>a < 2 ^ 64\<close> by simp
  finally show ?thesis .
qed

abbreviation (input) INT_MAX :: nat where
  "INT_MAX \<equiv> 2147483647"

subsection \<open>Character classes and case folding\<close>

definition code :: "char \<Rightarrow> nat" where
  "code c = of_char c"

definition isdigit :: "char \<Rightarrow> bool" where
  "isdigit c \<longleftrightarrow> 48 \<le> code c \<and> code c \<le> 57"

definition isupper :: "char \<Rightarrow> bool" where
  "isupper c \<longleftrightarrow> 65 \<le> code c \<and> code c \<le> 90"

definition islower :: "char \<Rightarrow> bool" where
  "islower c \<longleftrightarrow> 97 \<le> code c \<and> code c \<le> 122"

definition isalpha :: "char \<Rightarrow> bool" where
  "isalpha c \<longleftrightarrow> isupper c \<or> islower c"

definition isalnum :: "char \<Rightarrow> bool" where
  "isalnum c \<longleftrightarrow> isalpha c \<or> isdigit c"

definition isxdigit :: "char \<Rightarrow> bool" where
  "isxdigit c \<longleftrightarrow> isdigit c \<or> (65 \<le> code c \<and> code c \<le> 70) \<or> (97 \<le> code c \<and> code c \<le> 102)"

definition isspace :: "char \<Rightarrow> bool" where
  "isspace c \<longleftrightarrow> code c = 32 \<or> (9 \<le> code c \<and> code c \<le> 13)"

definition tolower :: "char \<Rightarrow> char" where
  "tolower c = (if isupper c then char_of (code c + 32) else c)"

lemmas ctype_defs = isdigit_def isupper_def islower_def isalpha_def isalnum_def
  isxdigit_def isspace_def

lemma code_less [simp]: "code c < 256"
  by (simp add: code_def)

lemma code_eq_iff [simp]: "code a = code b \<longleftrightarrow> a = b"
  by (simp add: code_def)

lemma code_char_of [simp]: "code (char_of n) = n mod 256"
  by (simp add: code_def)

lemma char_of_code [simp]: "char_of (code c) = c"
  by (simp add: code_def)

lemma code_less_iff: "code a < code b \<longleftrightarrow> a < b"
  by (simp add: code_def less_char_def)

lemma code_NUL [simp]: "code NUL = 0"
  by (simp add: code_def)

lemma code_0_iff [simp]: "code c = 0 \<longleftrightarrow> c = NUL"
  using code_eq_iff [of c NUL] by simp

lemma tolower_NUL_iff [simp]: "tolower c = NUL \<longleftrightarrow> c = NUL"
proof (cases "isupper c")
  case True
  then have "code (tolower c) = code c + 32" and "c \<noteq> NUL"
    by (auto simp: tolower_def isupper_def)
  then have "code (tolower c) \<noteq> 0" by simp
  then show ?thesis using \<open>c \<noteq> NUL\<close> by auto
qed (simp add: tolower_def)

lemma tolower_idem [simp]: "tolower (tolower c) = tolower c"
  by (simp add: tolower_def isupper_def)

subsection \<open>String comparison\<close>

text \<open>
  \<^verbatim>\<open>strncmp\<close> reads a string one character at a time and sees the terminator where the list
  ends; the characters are compared as unsigned. \<^verbatim>\<open>strncasecmp\<close> does so after \<open>tolower\<close>.
\<close>

fun cur :: "c_string \<Rightarrow> char" where
  "cur [] = NUL"
| "cur (c # _) = c"

fun strncmp :: "nat \<Rightarrow> c_string \<Rightarrow> c_string \<Rightarrow> int" where
  "strncmp 0 a b = 0"
| "strncmp (Suc n) a b =
     (if cur a \<noteq> cur b then int (code (cur a)) - int (code (cur b))
      else if cur a = NUL then 0
      else strncmp n (tl a) (tl b))"

definition strncasecmp :: "nat \<Rightarrow> c_string \<Rightarrow> c_string \<Rightarrow> int" where
  "strncasecmp n a b = strncmp n (map tolower a) (map tolower b)"

definition no_nul :: "c_string \<Rightarrow> bool" where
  "no_nul s \<longleftrightarrow> NUL \<notin> set s"

lemma no_nul_simps [simp]:
  "no_nul []" "no_nul (c # s) \<longleftrightarrow> c \<noteq> NUL \<and> no_nul s"
  "no_nul (s @ t) \<longleftrightarrow> no_nul s \<and> no_nul t"
  by (auto simp: no_nul_def)

lemma no_nul_map_tolower [simp]: "no_nul (map tolower s) \<longleftrightarrow> no_nul s"
  by (induction s) auto

text \<open>
  The sign of \<^verbatim>\<open>strncmp\<close> over the whole length of the first string is the lexicographic
  order of the first string and that prefix of the second.
\<close>

lemma strncmp_length_less:
  "no_nul a \<Longrightarrow> no_nul b \<Longrightarrow> strncmp (length a) a b < 0 \<longleftrightarrow> a < b \<and> take (length a) b \<noteq> a"
proof (induction a arbitrary: b)
  case (Cons x a)
  then show ?case by (cases b) (auto simp: code_less_iff)
qed simp

lemma strncmp_length_greater:
  "no_nul a \<Longrightarrow> no_nul b \<Longrightarrow> strncmp (length a) a b > 0 \<longleftrightarrow> b < a"
proof (induction a arbitrary: b)
  case (Cons x a)
  then have "0 < code x" by (metis code_0_iff gr0I no_nul_simps(2))
  with Cons show ?case by (cases b) (auto simp: code_less_iff)
qed simp

lemma strncmp_length_zero:
  "no_nul a \<Longrightarrow> no_nul b \<Longrightarrow> strncmp (length a) a b = 0 \<longleftrightarrow> take (length a) b = a"
proof (induction a arbitrary: b)
  case (Cons x a)
  then show ?case by (cases b) auto
qed simp

subsection \<open>Blocks of memory\<close>

text \<open>
  Reads and writes fault outside the block. An allocator is described by which requests it
  grants and by the bytes that a fresh piece of memory holds; no request above
  \<^verbatim>\<open>PTRDIFF_MAX\<close> is ever granted.
\<close>

record allocator =
  can_alloc :: "nat \<Rightarrow> bool"
  junk :: "nat \<Rightarrow> char"

definition grants :: "allocator \<Rightarrow> nat \<Rightarrow> bool" where
  "grants A n \<longleftrightarrow> n < 2 ^ 63 \<and> can_alloc A n"

text \<open>Evaluation of the large bounds works on binary numerals.\<close>

lemma grants_code [code]:
  "grants A n \<longleftrightarrow> int n < 9223372036854775808 \<and> can_alloc A n"
  by (auto simp: grants_def)

lemma size_add_code [code]: "size_add a b = nat ((int a + int b) mod 18446744073709551616)"
  by (simp add: size_add_def nat_mod_as_int)

lemma size_sub_code [code]:
  "size_sub a b = nat ((int a + max 0 (18446744073709551616 - int b)) mod 18446744073709551616)"
  by (simp add: size_sub_def nat_mod_as_int of_nat_diff max_def)

text \<open>An allocator that grants every request it can, for concrete runs.\<close>

definition all_granted :: allocator where
  "all_granted = \<lparr>can_alloc = (\<lambda>_. True), junk = (\<lambda>_. NUL)\<rparr>"

definition c_malloc :: "allocator \<Rightarrow> nat \<Rightarrow> c_block option" where
  "c_malloc A n = (if grants A n then Some (map (junk A) [0..<n]) else None)"

definition c_realloc :: "allocator \<Rightarrow> c_block option \<Rightarrow> nat \<Rightarrow> c_block option" where
  "c_realloc A b n =
     (let old = (case b of None \<Rightarrow> [] | Some xs \<Rightarrow> xs) in
      if grants A n then Some (take n old @ map (junk A) [length old..<n]) else None)"

definition mem_read :: "c_block \<Rightarrow> nat \<Rightarrow> nat \<Rightarrow> c_block option" where
  "mem_read b off n = (if off + n \<le> length b then Some (take n (drop off b)) else None)"

definition mem_write :: "c_block \<Rightarrow> nat \<Rightarrow> c_block \<Rightarrow> c_block option" where
  "mem_write b off src =
     (if off + length src \<le> length b
      then Some (take off b @ src @ drop (off + length src) b) else None)"

definition memmove :: "c_block \<Rightarrow> nat \<Rightarrow> nat \<Rightarrow> nat \<Rightarrow> c_block option" where
  "memmove b dst src n = do { xs \<leftarrow> mem_read b src n; mem_write b dst xs }"

lemma length_c_realloc: "c_realloc A b n = Some b' \<Longrightarrow> length b' = n"
  by (auto simp: c_realloc_def Let_def split: if_splits option.splits)

lemma take_c_realloc:
  "c_realloc A (Some b) n = Some b' \<Longrightarrow> k \<le> length b \<Longrightarrow> k \<le> n \<Longrightarrow> take k b' = take k b"
  by (auto simp: c_realloc_def split: if_splits)

lemma mem_write_length: "mem_write b off src = Some b' \<Longrightarrow> length b' = length b"
  by (auto simp: mem_write_def split: if_splits)

lemma mem_write_Some: "off + length src \<le> length b \<Longrightarrow>
  mem_write b off src = Some (take off b @ src @ drop (off + length src) b)"
  by (simp add: mem_write_def)

lemma mem_write_terminator:
  assumes "off < length b"
  obtains b' where "mem_write b off [c] = Some b'" and "length b' = length b"
    and "b' ! off = c" and "take off b' = take off b"
proof (rule that)
  show "mem_write b off [c] = Some (take off b @ [c] @ drop (Suc off) b)"
    using assms by (simp add: mem_write_def)
qed (use assms in \<open>simp_all add: nth_append\<close>)

lemma mem_read_Some: "off + n \<le> length b \<Longrightarrow> mem_read b off n = Some (take n (drop off b))"
  by (simp add: mem_read_def)

lemma memmove_Some: "src + n \<le> length b \<Longrightarrow> dst + n \<le> length b \<Longrightarrow>
  memmove b dst src n = Some (take dst b @ take n (drop src b) @ drop (dst + n) b)"
  by (simp add: memmove_def mem_read_def mem_write_def)

subsection \<open>Transition systems\<close>

text \<open>
  An invariant of a transition system: it holds initially and every step keeps it. So it holds in
  every state that a run reaches.
\<close>

locale transitions =
  fixes init :: "'s \<Rightarrow> bool"
    and step :: "'s \<Rightarrow> 's \<Rightarrow> bool"
    and inv :: "'s \<Rightarrow> bool"
  assumes init_inv: "init s \<Longrightarrow> inv s"
    and step_inv: "inv s \<Longrightarrow> step s t \<Longrightarrow> inv t"
begin

lemma run_inv: "step\<^sup>*\<^sup>* s t \<Longrightarrow> inv s \<Longrightarrow> inv t"
  by (induction rule: rtranclp_induct) (auto intro: step_inv)

lemma reachable_inv: "init s \<Longrightarrow> step\<^sup>*\<^sup>* s t \<Longrightarrow> inv t"
  using run_inv init_inv by blast

end

end
