(* ===== verification/Membuffer.thy ===== *)
theory Membuffer
  imports Prelude
begin

section \<open>Growable buffers (upnp/src/genlib/util/membuffer.c)\<close>

text \<open>
  The buffer under every HTTP message. A \<open>membuffer\<close> is the struct of \<^verbatim>\<open>membuffer.h\<close>: the
  allocated block (\<^term>\<open>None\<close> for NULL), the number of bytes in use, the capacity (the block
  has one byte more, for a terminator) and the growth increment. Operations take the
  allocator as their first argument, since \<^verbatim>\<open>realloc\<close> may refuse, and fault (\<^term>\<open>None\<close>) on an
  access outside the block and on a failed \<^verbatim>\<open>assert\<close>; a normal return carries the code and
  the new buffer. The lemmas show that under \<open>mb_inv\<close> no operation faults and that each one
  implements its list operation on \<open>mb_data\<close>; the header's rule that a buffer never exceeds
  \<^verbatim>\<open>MAX_INT\<close> bytes is a premise where the code relies on it.
\<close>

record membuffer =
  mb_buf :: "c_block option"
  mb_length :: nat
  mb_capacity :: nat
  mb_size_inc :: nat

record memptr =
  mp_buf :: c_string
  mp_length :: nat

definition str_alloc :: "allocator \<Rightarrow> c_block \<Rightarrow> nat \<Rightarrow> c_block option option" where
  "str_alloc A str str_len =
     (case c_malloc A (size_add str_len 1) of
        None \<Rightarrow> Some None
      | Some s \<Rightarrow>
          do { xs \<leftarrow> mem_read str 0 str_len;
               s1 \<leftarrow> mem_write s 0 xs;
               s2 \<leftarrow> mem_write s1 str_len [NUL];
               Some (Some s2) })"

definition memptr_cmp :: "memptr \<Rightarrow> c_string \<Rightarrow> int" where
  "memptr_cmp m s =
     (let cmp = strncmp (mp_length m) (mp_buf m) s in
      if cmp = 0 \<and> mp_length m < length s then -1 else cmp)"

definition memptr_cmp_nocase :: "memptr \<Rightarrow> c_string \<Rightarrow> int" where
  "memptr_cmp_nocase m s =
     (let cmp = strncasecmp (mp_length m) (mp_buf m) s in
      if cmp = 0 \<and> mp_length m < length s then -1 else cmp)"

definition membuffer_initialize :: "membuffer \<Rightarrow> membuffer" where
  "membuffer_initialize m = m\<lparr>mb_buf := None, mb_length := 0, mb_capacity := 0\<rparr>"

definition membuffer_set_size ::
  "allocator \<Rightarrow> membuffer \<Rightarrow> nat \<Rightarrow> (int \<times> membuffer) option" where
  "membuffer_set_size A m new_length =
     (let grow = (new_length \<ge> mb_length m);
          alloc_len = (if grow
                       then size_add (max (mb_size_inc m) (size_sub new_length (mb_length m)))
                              (mb_capacity m)
                       else size_add new_length (mb_size_inc m)) in
      if grow \<and> new_length \<le> mb_capacity m then Some (0, m)
      else if \<not> grow \<and> size_sub (mb_capacity m) new_length \<le> mb_size_inc m then Some (0, m)
      else if \<not> alloc_len \<ge> new_length then None
      else
        (case c_realloc A (mb_buf m) (size_add alloc_len 1) of
           Some b \<Rightarrow> Some (0, m\<lparr>mb_buf := Some b, mb_capacity := alloc_len\<rparr>)
         | None \<Rightarrow>
             (case c_realloc A (mb_buf m) (size_add new_length 1) of
                Some b \<Rightarrow> Some (0, m\<lparr>mb_buf := Some b, mb_capacity := new_length\<rparr>)
              | None \<Rightarrow> Some (UPNP_E_OUTOF_MEMORY, m))))"

abbreviation (input) MEMBUF_DEF_SIZE_INC :: nat where
  "MEMBUF_DEF_SIZE_INC \<equiv> 5"

definition membuffer_init :: "membuffer \<Rightarrow> membuffer" where
  "membuffer_init m = membuffer_initialize (m\<lparr>mb_size_inc := MEMBUF_DEF_SIZE_INC\<rparr>)"

definition membuffer_destroy :: "membuffer \<Rightarrow> membuffer" where
  "membuffer_destroy m = membuffer_init m"

text \<open>
  The source buffer of a copy is \<^term>\<open>None\<close> for NULL, else the bytes that can be read from
  the pointer.
\<close>

definition membuffer_assign ::
  "allocator \<Rightarrow> membuffer \<Rightarrow> c_block option \<Rightarrow> nat \<Rightarrow> (int \<times> membuffer) option" where
  "membuffer_assign A m buf buf_len =
     (case buf of
        None \<Rightarrow> Some (0, membuffer_destroy m)
      | Some src \<Rightarrow>
          do { (rc, m1) \<leftarrow> membuffer_set_size A m buf_len;
               if rc \<noteq> 0 then Some (rc, m1)
               else if buf_len = 0 then Some (0, m1\<lparr>mb_length := 0\<rparr>)
               else do { b \<leftarrow> mb_buf m1;
                         xs \<leftarrow> mem_read src 0 buf_len;
                         b1 \<leftarrow> mem_write b 0 xs;
                         b2 \<leftarrow> mem_write b1 buf_len [NUL];
                         Some (0, m1\<lparr>mb_buf := Some b2, mb_length := buf_len\<rparr>) } })"

definition membuffer_assign_str ::
  "allocator \<Rightarrow> membuffer \<Rightarrow> c_string \<Rightarrow> (int \<times> membuffer) option" where
  "membuffer_assign_str A m s = membuffer_assign A m (Some (s @ [NUL])) (length s)"

definition membuffer_insert ::
  "allocator \<Rightarrow> membuffer \<Rightarrow> c_block option \<Rightarrow> nat \<Rightarrow> int \<Rightarrow> (int \<times> membuffer) option" where
  "membuffer_insert A m buf buf_len index =
     (if index < 0 \<or> index > int (mb_length m) then Some (UPNP_E_OUTOF_BOUNDS, m)
      else
        (case buf of
           None \<Rightarrow> Some (0, m)
         | Some src \<Rightarrow>
             if buf_len = 0 then Some (0, m)
             else do { (rc, m1) \<leftarrow> membuffer_set_size A m (size_add (mb_length m) buf_len);
                       if rc \<noteq> 0 then Some (rc, m1)
                       else do { b \<leftarrow> mb_buf m1;
                                 let i = nat index;
                                 b1 \<leftarrow> memmove b (i + buf_len) i (mb_length m1 - i);
                                 xs \<leftarrow> mem_read src 0 buf_len;
                                 b2 \<leftarrow> mem_write b1 i xs;
                                 let l = size_add (mb_length m1) buf_len;
                                 b3 \<leftarrow> mem_write b2 l [NUL];
                                 Some (0, m1\<lparr>mb_buf := Some b3, mb_length := l\<rparr>) } }))"

definition membuffer_append ::
  "allocator \<Rightarrow> membuffer \<Rightarrow> c_block option \<Rightarrow> nat \<Rightarrow> (int \<times> membuffer) option" where
  "membuffer_append A m buf buf_len = membuffer_insert A m buf buf_len (int (mb_length m))"

definition membuffer_append_str ::
  "allocator \<Rightarrow> membuffer \<Rightarrow> c_string \<Rightarrow> (int \<times> membuffer) option" where
  "membuffer_append_str A m s =
     membuffer_insert A m (Some (s @ [NUL])) (length s) (int (mb_length m))"

definition membuffer_delete ::
  "allocator \<Rightarrow> membuffer \<Rightarrow> int \<Rightarrow> nat \<Rightarrow> membuffer option" where
  "membuffer_delete A m index num_bytes =
     (if mb_length m = 0 then Some m
      else if \<not> (index \<ge> 0 \<and> index < int (mb_length m)) then None
      else
        (let i = nat index;
             beyond = (size_add i num_bytes > mb_length m);
             n = (if beyond then size_sub (mb_length m) i else num_bytes);
             copy_len = (if beyond then 0
                         else size_sub (mb_length m) (size_add i num_bytes));
             new_length = size_sub (mb_length m) n in
         do { b \<leftarrow> mb_buf m;
              b1 \<leftarrow> memmove b i (i + n) copy_len;
              (rc, m1) \<leftarrow> membuffer_set_size A (m\<lparr>mb_buf := Some b1\<rparr>) new_length;
              if rc \<noteq> 0 then None
              else do { b2 \<leftarrow> mb_buf m1;
                        b3 \<leftarrow> mem_write b2 new_length [NUL];
                        Some (m1\<lparr>mb_buf := Some b3, mb_length := new_length\<rparr>) } }))"

definition membuffer_detach :: "membuffer \<Rightarrow> c_block option \<times> membuffer" where
  "membuffer_detach m = (mb_buf m, membuffer_initialize m)"

definition membuffer_attach :: "membuffer \<Rightarrow> c_block option \<Rightarrow> nat \<Rightarrow> membuffer" where
  "membuffer_attach m new_buf buf_len =
     (membuffer_destroy m)\<lparr>mb_buf := new_buf, mb_length := buf_len, mb_capacity := buf_len\<rparr>"

subsection \<open>Invariant and abstraction\<close>

definition mb_data :: "membuffer \<Rightarrow> c_block" where
  "mb_data m = (case mb_buf m of None \<Rightarrow> [] | Some b \<Rightarrow> take (mb_length m) b)"

definition mb_inv :: "membuffer \<Rightarrow> bool" where
  "mb_inv m \<longleftrightarrow>
     mb_length m \<le> mb_capacity m \<and> mb_capacity m < 2 ^ 63 \<and> mb_size_inc m \<le> INT_MAX \<and>
     (case mb_buf m of
        None \<Rightarrow> mb_capacity m = 0
      | Some b \<Rightarrow> length b = Suc (mb_capacity m))"

definition mb_terminated :: "membuffer \<Rightarrow> bool" where
  "mb_terminated m \<longleftrightarrow> (case mb_buf m of None \<Rightarrow> True | Some b \<Rightarrow> b ! mb_length m = NUL)"

lemma length_mb_data: "mb_inv m \<Longrightarrow> length (mb_data m) = mb_length m"
  by (auto simp: mb_inv_def mb_data_def split: option.splits)

lemma mb_inv_init [simp]: "mb_inv (membuffer_init m)" "mb_data (membuffer_init m) = []"
  by (simp_all add: mb_inv_def mb_data_def membuffer_init_def membuffer_initialize_def)

text \<open>
  \<open>membuffer_set_size\<close> keeps the contents and the length, and makes room for the requested
  number of bytes, or reports that memory ran out and changes nothing.
\<close>

definition resized :: "membuffer \<Rightarrow> nat \<Rightarrow> membuffer \<Rightarrow> bool" where
  "resized m n m' \<longleftrightarrow>
     mb_length m' = mb_length m \<and> mb_size_inc m' = mb_size_inc m \<and> n \<le> mb_capacity m' \<and>
     mb_capacity m' < 2 ^ 63 \<and>
     (n > 0 \<or> mb_buf m \<noteq> None \<longrightarrow> mb_buf m' \<noteq> None) \<and>
     (case mb_buf m' of
        None \<Rightarrow> mb_capacity m' = 0
      | Some b \<Rightarrow> length b = Suc (mb_capacity m') \<and>
          (\<forall>k \<le> min n (mb_length m). take k b = take k (case mb_buf m of None \<Rightarrow> [] | Some b \<Rightarrow> b)))"

lemma resized_refl: "mb_inv m \<Longrightarrow> n \<le> mb_capacity m \<Longrightarrow> resized m n m"
  by (auto simp: resized_def mb_inv_def split: option.splits)

lemma c_realloc_resized:
  assumes "mb_inv m" and "c_realloc A (mb_buf m) (Suc c) = Some b" and "n \<le> c"
  shows "resized m n (m\<lparr>mb_buf := Some b, mb_capacity := c\<rparr>)"
proof -
  have "length b = Suc c" using assms(2) by (rule length_c_realloc)
  moreover have "Suc c < 2 ^ 63"
    using assms(2) by (auto simp: c_realloc_def grants_def Let_def split: if_splits)
  moreover have "take k b = take k (case mb_buf m of None \<Rightarrow> [] | Some b \<Rightarrow> b)"
    if "k \<le> min n (mb_length m)" for k
  proof (cases "mb_buf m")
    case None
    with assms(1) that have "k = 0" by (simp add: mb_inv_def)
    then show ?thesis by simp
  next
    case (Some old)
    with assms(1,3) that have "k \<le> length old" and "k \<le> Suc c" by (auto simp: mb_inv_def)
    with assms(2) Some show ?thesis by (simp add: take_c_realloc)
  qed
  ultimately show ?thesis using assms(3) by (simp add: resized_def)
qed

lemma membuffer_set_size_spec:
  assumes inv: "mb_inv m" and n: "n < 2 ^ 63"
  shows "\<exists>rc m'. membuffer_set_size A m n = Some (rc, m') \<and>
           (rc = 0 \<and> resized m n m' \<or>
            rc = UPNP_E_OUTOF_MEMORY \<and> m' = m \<and> \<not> grants A (Suc n))"
proof -
  define al where "al = (if n \<ge> mb_length m then max (mb_size_inc m) (n - mb_length m) + mb_capacity m
                         else n + mb_size_inc m)"
  have bounds: "mb_length m \<le> mb_capacity m" "mb_capacity m < 2 ^ 63" "mb_size_inc m \<le> INT_MAX"
    using inv by (auto simp: mb_inv_def)
  then have al: "n \<le> al" "al < 2 ^ 64 - 1"
    using n by (auto simp: al_def)
  have al_code: "(if n \<ge> mb_length m
       then size_add (max (mb_size_inc m) (size_sub n (mb_length m))) (mb_capacity m)
       else size_add n (mb_size_inc m)) = al"
    using bounds n by (auto simp: al_def max_def)
  have sub: "\<not> n \<ge> mb_length m \<Longrightarrow> size_sub (mb_capacity m) n = mb_capacity m - n"
    using bounds by simp
  have refuse: "c_realloc A (mb_buf m) (Suc n) = None \<Longrightarrow> \<not> grants A (Suc n)"
    by (auto simp: c_realloc_def Let_def split: if_splits)
  show ?thesis
    using refuse resized_refl [OF inv, of n] c_realloc_resized [OF inv, of A al _ n]
      c_realloc_resized [OF inv, of A n _ n] al sub bounds n
    unfolding membuffer_set_size_def Let_def al_code
    by (auto split: option.splits)
qed

text \<open>What a grown buffer looks like: a block with room, holding the old bytes.\<close>

lemma resized_grow:
  assumes "mb_inv m" and "resized m n m'" and "mb_length m \<le> n" and "0 < n"
  obtains b where "mb_buf m' = Some b" and "length b = Suc (mb_capacity m')"
    and "take (mb_length m) b = mb_data m" and "mb_inv m'" and "n \<le> mb_capacity m'"
    and "mb_length m' = mb_length m" and "mb_size_inc m' = mb_size_inc m"
proof -
  from assms(2,4) obtain b where b: "mb_buf m' = Some b"
    by (auto simp: resized_def)
  have "take (mb_length m) b = mb_data m"
    using assms b by (auto simp: resized_def mb_data_def mb_inv_def split: option.splits)
  moreover have "mb_inv m'"
    using assms b by (auto simp: resized_def mb_inv_def split: option.splits)
  ultimately show ?thesis using that b assms by (auto simp: resized_def)
qed

lemma mb_inv_store:
  assumes "mb_inv m" and "length b = Suc (mb_capacity m)" and "l \<le> mb_capacity m"
  shows "mb_inv (m\<lparr>mb_buf := Some b, mb_length := l\<rparr>)"
  using assms by (auto simp: mb_inv_def)

lemma block_insert:
  assumes "length b = Suc c" and "i \<le> l" and "l + n \<le> c" and "n \<le> length src"
  shows "\<exists>b'. do { b1 \<leftarrow> memmove b (i + n) i (l - i); xs \<leftarrow> mem_read src 0 n;
                    b2 \<leftarrow> mem_write b1 i xs; mem_write b2 (l + n) [NUL] } = Some b' \<and>
              length b' = Suc c \<and> b' ! (l + n) = NUL \<and>
              take (l + n) b' = take i b @ take n src @ drop i (take l b)"
proof -
  define b1 where "b1 = take (i + n) b @ take (l - i) (drop i b) @ drop (l + n) b"
  define b2 where "b2 = take i b @ take n src @ take (l - i) (drop i b) @ drop (l + n) b"
  have 1: "memmove b (i + n) i (l - i) = Some b1"
    using assms by (simp add: memmove_Some b1_def add.commute [of n l])
  have len1: "length b1 = Suc c" using assms by (simp add: b1_def)
  have "take i b1 = take i b" and "drop (i + n) b1 = take (l - i) (drop i b) @ drop (l + n) b"
    using assms by (simp_all add: b1_def ac_simps)
  then have 2: "mem_write b1 i (take n src) = Some b2"
    using assms len1 by (simp add: mem_write_Some b2_def)
  have len2: "length b2 = Suc c" using assms by (simp add: b2_def)
  have pre: "take (l + n) b2 = take i b @ take n src @ drop i (take l b)"
  proof -
    have "length (take i b @ take n src @ take (l - i) (drop i b)) = l + n"
      using assms by simp
    then have "take (l + n) b2 = take i b @ take n src @ take (l - i) (drop i b)"
      unfolding b2_def by (metis append_assoc append_eq_conv_conj)
    then show ?thesis by (simp add: drop_take)
  qed
  obtain b' where "mem_write b2 (l + n) [NUL] = Some b'" "length b' = Suc c"
    "b' ! (l + n) = NUL" "take (l + n) b' = take (l + n) b2"
    using mem_write_terminator [of "l + n" b2 NUL] len2 assms by auto
  then show ?thesis
    using assms 1 2 pre by (simp add: mem_read_Some)
qed

lemma membuffer_insert_spec:
  assumes inv: "mb_inv m" and i: "0 \<le> index" "index \<le> int (mb_length m)"
    and src: "n \<le> length src" and room: "mb_length m + n < 2 ^ 63"
  shows "\<exists>rc m'. membuffer_insert A m (Some src) n index = Some (rc, m') \<and>
    (rc = 0 \<and> mb_inv m' \<and> (0 < n \<or> mb_terminated m \<longrightarrow> mb_terminated m') \<and>
       mb_size_inc m' = mb_size_inc m \<and>
       mb_data m' = take (nat index) (mb_data m) @ take n src @ drop (nat index) (mb_data m)
     \<or> rc = UPNP_E_OUTOF_MEMORY \<and> m' = m)"
proof (cases "n = 0")
  case True
  then show ?thesis using inv i by (simp add: membuffer_insert_def)
next
  case False
  let ?l = "mb_length m" and ?i = "nat index"
  have size: "size_add ?l n = ?l + n" using room by simp
  obtain rc m1 where set: "membuffer_set_size A m (?l + n) = Some (rc, m1)"
    and rc: "rc = 0 \<and> resized m (?l + n) m1 \<or>
             rc = UPNP_E_OUTOF_MEMORY \<and> m1 = m \<and> \<not> grants A (Suc (?l + n))"
    using membuffer_set_size_spec [OF inv room] by blast
  show ?thesis
  proof (cases "rc = 0")
    case False
    with rc set size i show ?thesis
      using \<open>n \<noteq> 0\<close> by (auto simp: membuffer_insert_def)
  next
    case True
    with rc have "resized m (?l + n) m1" by simp
    with inv obtain b where b: "mb_buf m1 = Some b" "length b = Suc (mb_capacity m1)"
      "take ?l b = mb_data m" "mb_inv m1" "?l + n \<le> mb_capacity m1"
      "mb_length m1 = ?l" "mb_size_inc m1 = mb_size_inc m"
      using \<open>n \<noteq> 0\<close> by (elim resized_grow [of m "?l + n" m1]) auto
    have il: "?i \<le> ?l" using i by simp
    from block_insert [OF b(2) il b(5) src] obtain b' where
      b': "do { b1 \<leftarrow> memmove b (?i + n) ?i (?l - ?i); xs \<leftarrow> mem_read src 0 n;
                b2 \<leftarrow> mem_write b1 ?i xs; mem_write b2 (?l + n) [NUL] } = Some b'"
      "length b' = Suc (mb_capacity m1)" "b' ! (?l + n) = NUL"
      "take (?l + n) b' = take ?i b @ take n src @ drop ?i (take ?l b)"
      by blast
    have tk: "take ?i b = take ?i (mb_data m)" using b(3) il by (metis min.absorb1 take_take)
    have run: "membuffer_insert A m (Some src) n index =
        Some (0, m1\<lparr>mb_buf := Some b', mb_length := ?l + n\<rparr>)"
      using i \<open>n \<noteq> 0\<close> set True b(1,6) size b'(1)
      by (auto simp: membuffer_insert_def bind_eq_Some_conv)
    have "mb_inv (m1\<lparr>mb_buf := Some b', mb_length := ?l + n\<rparr>)"
      using b(4) b'(2) b(5) by (rule mb_inv_store)
    with run b' b tk show ?thesis by (simp add: mb_terminated_def mb_data_def)
  qed
qed

subsection \<open>Deletion and assignment\<close>

lemma block_delete:
  assumes "length b = Suc c" and "i + n \<le> l" and "l \<le> c"
  shows "\<exists>b1. memmove b i (i + n) (l - (i + n)) = Some b1 \<and> length b1 = Suc c \<and>
              take (l - n) b1 = take i b @ drop (i + n) (take l b)"
proof -
  have "memmove b i (i + n) (l - (i + n)) =
      Some (take i b @ take (l - (i + n)) (drop (i + n) b) @ drop (l - n) b)" (is "_ = Some ?b1")
    using assms by (simp add: memmove_Some)
  moreover have "length ?b1 = Suc c" using assms by simp
  moreover have "take (l - n) ?b1 = take i b @ drop (i + n) (take l b)"
    using assms by (simp add: drop_take ac_simps)
  ultimately show ?thesis by blast
qed

text \<open>Trimming a buffer to \<open>n\<close> bytes and terminating it there.\<close>

lemma trim_spec:
  assumes inv: "mb_inv m" and n: "n \<le> mb_length m" and buf: "mb_buf m = Some old"
  shows "(\<exists>m'. do { (rc, m1) \<leftarrow> membuffer_set_size A m n;
              if rc \<noteq> 0 then None
              else do { b2 \<leftarrow> mb_buf m1; b3 \<leftarrow> mem_write b2 n [NUL];
                        Some (m1\<lparr>mb_buf := Some b3, mb_length := n\<rparr>) } } = Some m' \<and>
            mb_inv m' \<and> mb_terminated m' \<and> mb_data m' = take n (mb_data m))
         \<or> \<not> grants A (Suc n)"
proof -
  have n63: "n < 2 ^ 63" using inv n by (simp add: mb_inv_def)
  obtain rc m1 where set: "membuffer_set_size A m n = Some (rc, m1)"
    and rc: "rc = 0 \<and> resized m n m1 \<or>
             rc = UPNP_E_OUTOF_MEMORY \<and> m1 = m \<and> \<not> grants A (Suc n)"
    using membuffer_set_size_spec [OF inv n63] by blast
  show ?thesis
  proof (cases "rc = 0")
    case True
    with rc buf obtain b where b: "mb_buf m1 = Some b" "length b = Suc (mb_capacity m1)"
      "n \<le> mb_capacity m1" "mb_capacity m1 < 2 ^ 63" "mb_size_inc m1 = mb_size_inc m"
      and tk: "take n b = take n old"
      using n by (auto simp: resized_def)
    obtain nb where nb: "mem_write b n [NUL] = Some nb" "length nb = Suc (mb_capacity m1)"
      "nb ! n = NUL" "take n nb = take n b"
      using b by (metis mem_write_terminator less_Suc_eq_le)
    have "take n b = take n (mb_data m)"
      using n buf tk by (simp add: mb_data_def)
    with set True b(1,3-5) inv nb show ?thesis
      by (auto simp: mb_inv_def mb_terminated_def mb_data_def)
  qed (use rc in auto)
qed

lemma membuffer_delete_spec:
  assumes inv: "mb_inv m" and i: "0 \<le> index" "index < int (mb_length m)"
    and n: "nat index + n < 2 ^ 64"
  shows "(\<exists>m'. membuffer_delete A m index n = Some m' \<and> mb_inv m' \<and> mb_terminated m' \<and>
            mb_data m' = take (nat index) (mb_data m) @ drop (nat index + n) (mb_data m))
         \<or> \<not> grants A (Suc (mb_length m - min n (mb_length m - nat index)))"
proof -
  let ?i = "nat index" and ?l = "mb_length m"
  define k where "k = min n (?l - ?i)"
  have l: "?i < ?l" "?l \<le> mb_capacity m" "?l < 2 ^ 64" using i inv by (auto simp: mb_inv_def)
  obtain b where b: "mb_buf m = Some b" "length b = Suc (mb_capacity m)"
    using inv l by (auto simp: mb_inv_def split: option.splits)
  have ik: "?i + k \<le> ?l" using l by (simp add: k_def)
  obtain b1 where b1: "memmove b ?i (?i + k) (?l - (?i + k)) = Some b1"
    "length b1 = Suc (mb_capacity m)"
    "take (?l - k) b1 = take ?i b @ drop (?i + k) (take ?l b)"
    using block_delete [OF b(2) ik l(2)] by blast
  let ?m = "m\<lparr>mb_buf := Some b1\<rparr>"
  have inv': "mb_inv ?m" using inv b1(2) by (auto simp: mb_inv_def)
  have data: "take (?l - k) (mb_data ?m) = take ?i (mb_data m) @ drop (?i + n) (mb_data m)"
    using b b1(3) l by (auto simp: mb_data_def k_def min_def)
  have num: "(if size_add ?i n > ?l then size_sub ?l ?i else n) = k"
    "(if size_add ?i n > ?l then 0 else size_sub ?l (size_add ?i n)) = ?l - (?i + k)"
    "size_sub ?l k = ?l - k"
    using l n by (auto simp: k_def)
  have code: "membuffer_delete A m index n =
     do { (rc, m1) \<leftarrow> membuffer_set_size A ?m (?l - k);
          if rc \<noteq> 0 then None
          else do { b2 \<leftarrow> mb_buf m1; b3 \<leftarrow> mem_write b2 (?l - k) [NUL];
                    Some (m1\<lparr>mb_buf := Some b3, mb_length := ?l - k\<rparr>) } }"
    using i l b(1) b1(1) unfolding membuffer_delete_def Let_def num by simp
  show ?thesis
    using trim_spec [OF inv', of "?l - k" b1 A] data unfolding code by (simp add: k_def)
qed

lemma membuffer_assign_spec:
  assumes inv: "mb_inv m" and n: "0 < n" "n \<le> length src" "n < 2 ^ 63"
  shows "\<exists>rc m'. membuffer_assign A m (Some src) n = Some (rc, m') \<and>
    (rc = 0 \<and> mb_inv m' \<and> mb_terminated m' \<and> mb_data m' = take n src
     \<or> rc = UPNP_E_OUTOF_MEMORY \<and> m' = m)"
proof -
  obtain rc m1 where set: "membuffer_set_size A m n = Some (rc, m1)"
    and rc: "rc = 0 \<and> resized m n m1 \<or>
             rc = UPNP_E_OUTOF_MEMORY \<and> m1 = m \<and> \<not> grants A (Suc n)"
    using membuffer_set_size_spec [OF inv n(3)] by blast
  show ?thesis
  proof (cases "rc = 0")
    case True
    with rc n obtain b where b: "mb_buf m1 = Some b" "length b = Suc (mb_capacity m1)"
      "n \<le> mb_capacity m1" "mb_capacity m1 < 2 ^ 63" "mb_size_inc m1 = mb_size_inc m"
      by (auto simp: resized_def)
    let ?b1 = "take n src @ drop n b"
    have "mem_read src 0 n = Some (take n src)" "mem_write b 0 (take n src) = Some ?b1"
      "mem_write ?b1 n [NUL] = Some (take n src @ [NUL] @ drop (Suc n) b)"
      using b n by (simp_all add: mem_read_Some mem_write_Some)
    then show ?thesis
      using set True b n inv
      by (simp add: membuffer_assign_def mb_inv_def mb_terminated_def mb_data_def nth_append)
  qed (use rc set in \<open>auto simp: membuffer_assign_def\<close>)
qed

subsection \<open>The contract of a byte buffer\<close>

text \<open>
  What the HTTP code relies on: bytes can be put at a position and taken out again, the rest
  stays. \<open>refused\<close> says which block sizes the allocator does not grant. The clients append
  chunk after chunk (messages are built and received that way) and cut pieces out.
\<close>

locale byte_buffer =
  fixes inv :: "'m \<Rightarrow> bool"
    and data :: "'m \<Rightarrow> c_block"
    and ins :: "'m \<Rightarrow> c_block option \<Rightarrow> nat \<Rightarrow> int \<Rightarrow> (int \<times> 'm) option"
    and del :: "'m \<Rightarrow> int \<Rightarrow> nat \<Rightarrow> 'm option"
    and refused :: "nat \<Rightarrow> bool"
  assumes data_bound: "inv m \<Longrightarrow> length (data m) < 2 ^ 63"
    and ins_law: "inv m \<Longrightarrow> i \<le> length (data m) \<Longrightarrow> n \<le> length src \<Longrightarrow>
      length (data m) + n < 2 ^ 63 \<Longrightarrow>
      \<exists>rc m'. ins m (Some src) n (int i) = Some (rc, m') \<and> inv m' \<and>
        (rc = 0 \<and> data m' = take i (data m) @ take n src @ drop i (data m) \<or>
         rc = UPNP_E_OUTOF_MEMORY \<and> m' = m)"
    and del_law: "inv m \<Longrightarrow> i < length (data m) \<Longrightarrow> i + n \<le> length (data m) \<Longrightarrow>
      (\<exists>m'. del m (int i) n = Some m' \<and> inv m' \<and>
         data m' = take i (data m) @ drop (i + n) (data m)) \<or>
      refused (Suc (length (data m) - n))"
begin

primrec append_all :: "c_block list \<Rightarrow> 'm \<Rightarrow> (int \<times> 'm) option" where
  "append_all [] m = Some (0, m)"
| "append_all (s # ss) m =
     do { (rc, m1) \<leftarrow> ins m (Some s) (length s) (int (length (data m)));
          if rc \<noteq> 0 then Some (rc, m1) else append_all ss m1 }"

lemma append_all_data:
  assumes "inv m" and "length (data m) + length (concat ss) < 2 ^ 63"
  shows "\<exists>rc m'. append_all ss m = Some (rc, m') \<and> inv m' \<and>
    (\<exists>k \<le> length ss. data m' = data m @ concat (take k ss) \<and>
       (rc = 0 \<and> k = length ss \<or> rc = UPNP_E_OUTOF_MEMORY))"
  using assms
proof (induction ss arbitrary: m)
  case (Cons s ss)
  from Cons.prems obtain rc m1 where m1: "ins m (Some s) (length s) (int (length (data m))) = Some (rc, m1)"
    "inv m1" "rc = 0 \<and> data m1 = data m @ s \<or> rc = UPNP_E_OUTOF_MEMORY \<and> m1 = m"
    using ins_law [of m "length (data m)" "length s" s] by auto
  show ?case
  proof (cases "rc = 0")
    case True
    with m1 have d: "data m1 = data m @ s" by auto
    with Cons.IH [OF m1(2)] Cons.prems(2) obtain rc' m' k where
      "append_all ss m1 = Some (rc', m')" "inv m'" "k \<le> length ss"
      "data m' = data m1 @ concat (take k ss)" "rc' = 0 \<and> k = length ss \<or> rc' = UPNP_E_OUTOF_MEMORY"
      by auto
    then show ?thesis using True m1(1) d by (auto intro!: exI [of _ "Suc k"])
  qed (use m1 Cons.prems in auto)
qed simp

lemma ins_del:
  assumes "inv m" and "i \<le> length (data m)" and "0 < length src"
    and "length (data m) + length src < 2 ^ 63" and "\<not> refused (Suc (length (data m)))"
  shows "\<exists>rc m1. ins m (Some src) (length src) (int i) = Some (rc, m1) \<and>
    (rc = UPNP_E_OUTOF_MEMORY \<and> m1 = m \<or>
     rc = 0 \<and> (\<exists>m2. del m1 (int i) (length src) = Some m2 \<and> inv m2 \<and> data m2 = data m))"
proof -
  obtain rc m1 where m1: "ins m (Some src) (length src) (int i) = Some (rc, m1)" "inv m1"
    "rc = 0 \<and> data m1 = take i (data m) @ src @ drop i (data m) \<or> rc = UPNP_E_OUTOF_MEMORY \<and> m1 = m"
    using ins_law [of m i "length src" src] assms by auto
  show ?thesis
  proof (cases "rc = 0")
    case True
    with m1 have d: "data m1 = take i (data m) @ src @ drop i (data m)" by auto
    with assms(2) have len: "length (data m1) = length (data m) + length src" by simp
    then have "i < length (data m1)" "i + length src \<le> length (data m1)" using assms(2,3) by linarith+
    with len assms(5) del_law [OF m1(2), of i "length src"] obtain m2 where
      "del m1 (int i) (length src) = Some m2" "inv m2"
      "data m2 = take i (data m1) @ drop (i + length src) (data m1)" by auto
    then show ?thesis using True m1(1) d assms(2) by auto
  qed (use m1 in auto)
qed

end

interpretation mb: byte_buffer mb_inv mb_data "membuffer_insert A" "membuffer_delete A"
    "\<lambda>n. \<not> grants A n" for A
proof
  fix m i n src
  assume m: "mb_inv m"
  show "length (mb_data m) < 2 ^ 63"
    using m by (simp add: length_mb_data) (simp add: mb_inv_def)
  show "\<exists>rc m'. membuffer_insert A m (Some src) n (int i) = Some (rc, m') \<and> mb_inv m' \<and>
      (rc = 0 \<and> mb_data m' = take i (mb_data m) @ take n src @ drop i (mb_data m) \<or>
       rc = UPNP_E_OUTOF_MEMORY \<and> m' = m)"
    if "i \<le> length (mb_data m)" "n \<le> length src" "length (mb_data m) + n < 2 ^ 63"
    using membuffer_insert_spec [OF m, of "int i" n src A] that m by (auto simp: length_mb_data)
  show "(\<exists>m'. membuffer_delete A m (int i) n = Some m' \<and> mb_inv m' \<and>
         mb_data m' = take i (mb_data m) @ drop (i + n) (mb_data m)) \<or>
      \<not> grants A (Suc (length (mb_data m) - n))"
    if "i < length (mb_data m)" "i + n \<le> length (mb_data m)"
  proof -
    have "mb_length m < 2 ^ 63" "i + n \<le> mb_length m" "i < mb_length m"
      using m that by (auto simp: length_mb_data mb_inv_def)
    moreover from this have "min n (mb_length m - i) = n" by simp
    ultimately show ?thesis using membuffer_delete_spec [OF m, of "int i" n A] m
      by (auto simp: length_mb_data)
  qed
qed

subsection \<open>Properties\<close>


definition hello_buffer :: membuffer where
  "hello_buffer = \<lparr>mb_buf = Some ''held'', mb_length = 3, mb_capacity = 3, mb_size_inc = 5\<rparr>"

lemma hello_buffer_simps:
  "mb_inv hello_buffer" "mb_data hello_buffer = ''hel''" "mb_length hello_buffer = 3"
  by (simp_all add: hello_buffer_def mb_inv_def mb_data_def)

lemma grants_all_granted: "grants all_granted n \<longleftrightarrow> n < 2 ^ 63"
  by (simp add: grants_def all_granted_def)


text \<open>
  Deleting what was inserted restores the contents. In a well-formed buffer, cutting out
  with \<^verbatim>\<open>membuffer_delete\<close> the bytes that \<^verbatim>\<open>membuffer_insert\<close> put at an index gives the contents
  from before, provided the allocator grants the smaller block: neither the bounds assertion
  of the deletion nor its assertion that shrinking succeeds can fail.
\<close>

lemma membuffer_insert_delete:
  assumes "mb_inv m" and "i \<le> length (mb_data m)" and "0 < length src"
    and "length (mb_data m) + length src < 2 ^ 63" and "grants A (Suc (length (mb_data m)))"
  shows "\<exists>rc m1. membuffer_insert A m (Some src) (length src) (int i) = Some (rc, m1) \<and>
    (rc = UPNP_E_OUTOF_MEMORY \<and> m1 = m \<or>
     rc = 0 \<and> (\<exists>m2. membuffer_delete A m1 (int i) (length src) = Some m2 \<and> mb_inv m2 \<and>
                 mb_data m2 = mb_data m))"
  using mb.ins_del [of m i src A] assms by blast

primrec membuffer_append_all :: "allocator \<Rightarrow> c_block list \<Rightarrow> membuffer \<Rightarrow> (int \<times> membuffer) option" where
  "membuffer_append_all A [] m = Some (0, m)"
| "membuffer_append_all A (s # ss) m =
     do { (rc, m1) \<leftarrow> membuffer_append A m (Some s) (length s);
          if rc \<noteq> 0 then Some (rc, m1) else membuffer_append_all A ss m1 }"

lemma append_all_loop:
  "mb_inv m \<Longrightarrow> length (mb_data m) + length (concat ss) < 2 ^ 63 \<Longrightarrow>
   membuffer_append_all A ss m = mb.append_all A ss m"
proof (induction ss arbitrary: m)
  case (Cons s ss)
  from Cons.prems obtain rc m1 where m1: "membuffer_insert A m (Some s) (length s) (int (mb_length m)) = Some (rc, m1)"
    "mb_inv m1" "rc = 0 \<and> mb_data m1 = mb_data m @ s \<or> rc = UPNP_E_OUTOF_MEMORY \<and> m1 = m"
    using mb.ins_law [of m "length (mb_data m)" "length s" s A] by (auto simp: length_mb_data)
  moreover have "length (mb_data m1) + length (concat ss) < 2 ^ 63" if "rc = 0"
    using m1(3) that Cons.prems(2) by auto
  ultimately show ?case
    using Cons.IH [of m1] Cons.prems(1) by (auto simp: membuffer_append_def length_mb_data)
qed simp

text \<open>
  Appending a sequence of chunks. Starting from a well-formed buffer, appending chunk after
  chunk with \<^verbatim>\<open>membuffer_append\<close>, stopping at the first error, never faults and leaves the old
  contents followed by the chunks appended so far; without an allocation failure that is all of
  them, however the buffer was grown on the way.
\<close>

lemma membuffer_append_chunks:
  assumes "mb_inv m" and "length (mb_data m) + length (concat ss) < 2 ^ 63"
  shows "\<exists>rc m'. membuffer_append_all A ss m = Some (rc, m') \<and> mb_inv m' \<and>
    (\<exists>k \<le> length ss. mb_data m' = mb_data m @ concat (take k ss) \<and>
       (rc = 0 \<and> k = length ss \<or> rc = UPNP_E_OUTOF_MEMORY))"
  using mb.append_all_data [OF assms] append_all_loop [OF assms] by simp

text \<open>
  A block attached at its exact size is overrun. \<^verbatim>\<open>membuffer_attach\<close> records the size of the
  block as the capacity, while every other operation keeps one more byte than the capacity for
  the terminator. After deleting one byte of such a buffer, appending one byte finds enough
  capacity, does not reallocate and writes the terminator one byte behind the block.
\<close>

theorem membuffer_attach_overrun:
  assumes "b \<noteq> []" and "length b < 2 ^ 63"
  shows "\<exists>m. membuffer_delete A (membuffer_attach m0 (Some b) (length b)) 0 1 = Some m \<and>
           membuffer_append A m (Some [c]) 1 = None"
proof -
  obtain n where n: "length b = Suc n" using assms(1) by (cases b) auto
  let ?m = "membuffer_attach m0 (Some b) (length b)"
  have m: "mb_buf ?m = Some b" "mb_length ?m = Suc n" "mb_capacity ?m = Suc n" "mb_size_inc ?m = 5"
    by (simp_all add: n membuffer_attach_def membuffer_destroy_def membuffer_init_def
        membuffer_initialize_def)
  let ?b = "take n (drop 1 b) @ [NUL]"
  have del: "membuffer_delete A ?m 0 1 = Some (?m\<lparr>mb_buf := Some ?b, mb_length := n\<rparr>)"
    using assms(2) m n
    by (auto simp: membuffer_delete_def memmove_Some membuffer_set_size_def mem_write_Some Let_def)
  have "membuffer_append A (?m\<lparr>mb_buf := Some ?b, mb_length := n\<rparr>) (Some [c]) 1 = None"
    using assms(2) m n
    by (auto simp: membuffer_append_def membuffer_insert_def membuffer_set_size_def
        memmove_Some mem_read_Some mem_write_def Let_def)
  with del show ?thesis by blast
qed

theorem membuffer_attach_overrun_witness:
  "\<exists>m. membuffer_delete all_granted (membuffer_attach hello_buffer (Some ''abc'') (length ''abc'')) 0 1 = Some m \<and>
     membuffer_append all_granted m (Some ''d'') 1 = None"
  using membuffer_attach_overrun [of "''abc''" all_granted hello_buffer "CHR ''d''"] by simp

end
