(* ===== verification/Strintmap.thy ===== *)
theory Strintmap
  imports Membuffer
begin

section \<open>Name tables (upnp/src/genlib/util/strintmap.c)\<close>

text \<open>
  HTTP methods and header names are found by binary search in tables that the sources keep
  in alphabetical order, and the names of codes by a linear scan. The search is modelled as
  the loop of the source over \<^verbatim>\<open>top\<close> and \<^verbatim>\<open>bot\<close>; an access outside the table is a fault.
  The locale \<open>sorted_table\<close> states what the search needs of a comparison and a table, and
  shows that the search finds exactly the matching entries.
\<close>

record str_int_entry =
  se_name :: c_string
  se_id :: int

text \<open>The order that the two comparison functions induce on names without NUL.\<close>

definition as_memptr :: "c_string \<Rightarrow> memptr" where
  "as_memptr s = \<lparr>mp_buf = s, mp_length = length s\<rparr>"

lemma less_prefix: "take (length a) b = a \<Longrightarrow> length a < length b \<Longrightarrow> a < (b :: string)"
proof (induction a arbitrary: b)
  case Nil
  then show ?case by (cases b) auto
next
  case (Cons x a)
  then show ?case by (cases b) auto
qed

lemma sgn_memptr_cmp:
  assumes "no_nul a" and "no_nul s"
  shows "memptr_cmp (as_memptr a) s > 0 \<longleftrightarrow> s < a"
    and "memptr_cmp (as_memptr a) s < 0 \<longleftrightarrow> a < s"
    and "memptr_cmp (as_memptr a) s = 0 \<longleftrightarrow> a = s"
proof -
  note cmp = strncmp_length_less [OF assms] strncmp_length_greater [OF assms]
    strncmp_length_zero [OF assms]
  show gt: "memptr_cmp (as_memptr a) s > 0 \<longleftrightarrow> s < a"
    using cmp by (auto simp: memptr_cmp_def as_memptr_def Let_def dest: less_prefix)
  show eq: "memptr_cmp (as_memptr a) s = 0 \<longleftrightarrow> a = s"
    using cmp by (auto simp: memptr_cmp_def as_memptr_def Let_def)
  show "memptr_cmp (as_memptr a) s < 0 \<longleftrightarrow> a < s"
    using gt eq by (metis linorder_neqE linorder_less_linear order_less_asym)
qed

lemma memptr_cmp_nocase_fold:
  "memptr_cmp_nocase (as_memptr a) s = memptr_cmp (as_memptr (map tolower a)) (map tolower s)"
  by (simp add: memptr_cmp_nocase_def memptr_cmp_def strncasecmp_def as_memptr_def)

subsection \<open>Binary search\<close>

function map_str_loop ::
  "(c_string \<Rightarrow> int) \<Rightarrow> str_int_entry list \<Rightarrow> int \<Rightarrow> int \<Rightarrow> int option" where
  "map_str_loop cmp table tp bt =
     (if tp \<le> bt then
        (let mid = (tp + bt) div 2 in
         if mid < 0 \<or> int (length table) \<le> mid then None
         else
           (let c = cmp (se_name (table ! nat mid)) in
            if c > 0 then map_str_loop cmp table (mid + 1) bt
            else if c < 0 then map_str_loop cmp table tp (mid - 1)
            else Some mid))
      else Some (-1))"
  by pat_completeness auto
termination
  by (relation "measure (\<lambda>(cmp, table, tp, bt). nat (bt - tp + 1))") auto

declare map_str_loop.simps [simp del]

definition map_str_to_int ::
  "c_string \<Rightarrow> nat \<Rightarrow> str_int_entry list \<Rightarrow> int \<Rightarrow> bool \<Rightarrow> int option" where
  "map_str_to_int name name_len table num_entries case_sensitive =
     (let name_ptr = \<lparr>mp_buf = name, mp_length = name_len\<rparr> in
      map_str_loop (if case_sensitive then memptr_cmp name_ptr else memptr_cmp_nocase name_ptr)
        table 0 (num_entries - 1))"

fun map_int_loop :: "int \<Rightarrow> str_int_entry list \<Rightarrow> nat \<Rightarrow> nat \<Rightarrow> int option" where
  "map_int_loop ident table i 0 = Some (-1)"
| "map_int_loop ident table i (Suc n) =
     (if i < length table
      then if se_id (table ! i) = ident then Some (int i) else map_int_loop ident table (Suc i) n
      else None)"

definition map_int_to_str :: "int \<Rightarrow> str_int_entry list \<Rightarrow> int \<Rightarrow> int option" where
  "map_int_to_str ident table num_entries = map_int_loop ident table 0 (nat num_entries)"

subsection \<open>What the search needs, and what it gives\<close>

text \<open>
  The client's view: a comparison against table entries that is positive left of the place
  where it stops being positive, and negative right of the place where it stops being so.
\<close>

locale sorted_table =
  fixes cmp :: "c_string \<Rightarrow> int"
    and table :: "str_int_entry list"
  assumes left: "i < j \<Longrightarrow> j < length table \<Longrightarrow> cmp (se_name (table ! j)) \<ge> 0 \<Longrightarrow>
      cmp (se_name (table ! i)) > 0"
begin

lemma right:
  assumes "i < j" and "j < length table" and "cmp (se_name (table ! i)) \<le> 0"
  shows "cmp (se_name (table ! j)) < 0"
  using left [OF assms(1,2)] assms(3) by linarith

lemma match_unique:
  assumes "i < length table" "j < length table"
    and "cmp (se_name (table ! i)) = 0" "cmp (se_name (table ! j)) = 0"
  shows "i = j"
  using left [of i j] left [of j i] assms by (cases i j rule: linorder_cases) auto

lemma map_str_loop_spec:
  assumes "0 \<le> tp" and "bt < int (length table)"
    and "\<And>k. k < length table \<Longrightarrow> cmp (se_name (table ! k)) = 0 \<Longrightarrow> tp \<le> int k \<and> int k \<le> bt"
  shows "\<exists>r. map_str_loop cmp table tp bt = Some r \<and>
     (r = -1 \<and> (\<forall>k < length table. cmp (se_name (table ! k)) \<noteq> 0) \<or>
      0 \<le> r \<and> r < int (length table) \<and> cmp (se_name (table ! nat r)) = 0)"
  using assms
proof (induction cmp' \<equiv> cmp table' \<equiv> table tp bt rule: map_str_loop.induct)
  case (1 tp bt)
  define mid where "mid = (tp + bt) div 2"
  note unf = map_str_loop.simps [of cmp table tp bt, folded mid_def]
  show ?case
  proof (cases "tp \<le> bt")
    case False
    with "1.prems"(3) have "\<forall>k < length table. cmp (se_name (table ! k)) \<noteq> 0" by force
    with False show ?thesis by (simp add: unf)
  next
    case True
    then have mid: "tp \<le> mid" "mid \<le> bt" by (auto simp: mid_def)
    with "1.prems" have in_range: "\<not> (mid < 0 \<or> int (length table) \<le> mid)" by simp
    then have nm: "nat mid < length table" by (simp add: nat_less_iff)
    consider (gt) "cmp (se_name (table ! nat mid)) > 0" | (lt) "cmp (se_name (table ! nat mid)) < 0"
      | (eq) "cmp (se_name (table ! nat mid)) = 0" by linarith
    then show ?thesis
    proof cases
      case gt
      have above: "mid + 1 \<le> int k"
        if "k < length table" "cmp (se_name (table ! k)) = 0" for k
        using right [of k "nat mid"] gt that in_range nm
        by (cases k "nat mid" rule: linorder_cases) auto
      have below: "\<And>k. k < length table \<Longrightarrow> cmp (se_name (table ! k)) = 0 \<Longrightarrow> int k \<le> bt"
        using "1.prems"(3) by blast
      show ?thesis
        using "1.hyps"(1) [OF True mid_def in_range refl gt] "1.prems"(1,2) mid in_range gt True
          above below by (auto simp: unf)
    next
      case lt
      have below: "int k \<le> mid - 1"
        if "k < length table" "cmp (se_name (table ! k)) = 0" for k
        using left [of "nat mid" k] lt that in_range nm
        by (cases k "nat mid" rule: linorder_cases) auto
      have above: "\<And>k. k < length table \<Longrightarrow> cmp (se_name (table ! k)) = 0 \<Longrightarrow> tp \<le> int k"
        using "1.prems"(3) by blast
      have "\<not> cmp (se_name (table ! nat mid)) > 0" using lt by simp
      then show ?thesis
        using "1.hyps"(2) [OF True mid_def in_range refl _ lt] "1.prems"(1,2) mid in_range lt True
          above below by (auto simp: unf)
    next
      case eq
      with True in_range show ?thesis by (auto simp: unf)
    qed
  qed
qed

lemma search_spec:
  "\<exists>r. map_str_loop cmp table 0 (int (length table) - 1) = Some r \<and>
     (r = -1 \<and> (\<forall>k < length table. cmp (se_name (table ! k)) \<noteq> 0) \<or>
      0 \<le> r \<and> r < int (length table) \<and> cmp (se_name (table ! nat r)) = 0)"
  by (rule map_str_loop_spec) auto

lemma search_iff:
  assumes "k < length table"
  shows "map_str_loop cmp table 0 (int (length table) - 1) = Some (int k) \<longleftrightarrow>
         cmp (se_name (table ! k)) = 0"
proof -
  obtain r where r: "map_str_loop cmp table 0 (int (length table) - 1) = Some r"
    "r = -1 \<and> (\<forall>k < length table. cmp (se_name (table ! k)) \<noteq> 0) \<or>
     0 \<le> r \<and> r < int (length table) \<and> cmp (se_name (table ! nat r)) = 0"
    using search_spec by blast
  show ?thesis
  proof (cases "r = -1")
    case True
    with r assms show ?thesis by auto
  next
    case False
    with r have "nat r < length table" "cmp (se_name (table ! nat r)) = 0" "r = int (nat r)"
      by auto
    then show ?thesis using r(1) match_unique [of "nat r" k] assms by auto
  qed
qed

end

lemma map_int_loop_spec:
  assumes "i + n = length table"
  shows "map_int_loop ident table i n =
     Some (case find (\<lambda>j. se_id (table ! j) = ident) [i..<length table] of
             None \<Rightarrow> -1 | Some j \<Rightarrow> int j)"
  using assms
proof (induction n arbitrary: i)
  case (Suc n)
  then have "[i..<length table] = i # [Suc i..<length table]" by (simp add: upt_conv_Cons)
  with Suc show ?case by simp
qed simp

text \<open>A table whose folded names ascend strictly satisfies the law of the locale.\<close>

definition ascending :: "(c_string \<Rightarrow> c_string) \<Rightarrow> str_int_entry list \<Rightarrow> bool" where
  "ascending f table \<longleftrightarrow> sorted_wrt (<) (map (\<lambda>e. f (se_name e)) table)"

lemma sorted_table_nocase:
  assumes "ascending (map tolower) table" and "\<forall>e \<in> set table. no_nul (se_name e)"
    and "no_nul name"
  shows "sorted_table (memptr_cmp_nocase (as_memptr name)) table"
proof
  fix i j
  assume ij: "i < j" "j < length table"
    and ge: "memptr_cmp_nocase (as_memptr name) (se_name (table ! j)) \<ge> 0"
  have "no_nul (map tolower name)" using assms(3) by simp
  moreover have "no_nul (map tolower (se_name (table ! k)))" if "k < length table" for k
    using assms(2) that by simp
  ultimately have cmp: "memptr_cmp_nocase (as_memptr name) (se_name (table ! k)) > 0 \<longleftrightarrow>
        map tolower (se_name (table ! k)) < map tolower name"
      "memptr_cmp_nocase (as_memptr name) (se_name (table ! k)) < 0 \<longleftrightarrow>
        map tolower name < map tolower (se_name (table ! k))"
    if "k < length table" for k
    using that by (simp_all add: memptr_cmp_nocase_fold sgn_memptr_cmp)
  have "map tolower (se_name (table ! i)) < map tolower (se_name (table ! j))"
    using assms(1) ij by (simp add: ascending_def sorted_wrt_iff_nth_less)
  moreover have "\<not> map tolower name < map tolower (se_name (table ! j))"
    using ge cmp(2) [of j] ij by simp
  ultimately show "memptr_cmp_nocase (as_memptr name) (se_name (table ! i)) > 0"
    using cmp(1) [of i] ij by simp
qed

end
