(* ===== verification/Uri.thy ===== *)
theory Uri
  imports Prelude
begin

section \<open>URI parsing and resolution (upnp/src/genlib/net/uri/uri.c)\<close>

text \<open>
  A pointer into a string is modelled by its address and by the bytes that can be read from
  there to the terminator (\<open>c_ptr\<close>); \<open>rd\<close> reads a byte and sees the terminator at the end.
  A token keeps the address and the size of a piece of the input, as the struct does.
  Name resolution (\<^verbatim>\<open>inet_pton\<close>, \<^verbatim>\<open>gethostbyname_r\<close>) is an argument of the functions that
  call it. The functions that rewrite a string in place (\<open>replace_escaped\<close>,
  \<open>remove_escaped_chars\<close>, \<open>remove_dots\<close>) work on the block of its bytes.

  The lemmas show that a parsed URI splits the input text into its parts in order, that the
  in-place unescaping is one left-to-right percent decoding, and that the in-place dot removal
  computes the same path as a stack of path segments.
\<close>

type_synonym c_ptr = "int \<times> c_string"

definition rd :: "c_string \<Rightarrow> nat \<Rightarrow> char" where
  "rd s i = (if i < length s then s ! i else NUL)"

definition advance :: "c_ptr \<Rightarrow> nat \<Rightarrow> c_ptr" where
  "advance p k = (fst p + int k, drop k (snd p))"

lemma rd_drop [simp]: "rd (drop k s) i = rd s (k + i)"
  by (auto simp: rd_def)

lemma rd_nth: "i < length s \<Longrightarrow> rd s i = s ! i"
  by (simp add: rd_def)

lemma rd_Cons [simp]: "rd (c # s) 0 = c" "rd (c # s) (Suc i) = rd s i"
  by (auto simp: rd_def)

lemma rd_Nil [simp]: "rd [] i = NUL"
  by (simp add: rd_def)

subsection \<open>Character classes of RFC 2396\<close>

definition strchr :: "c_string \<Rightarrow> char \<Rightarrow> bool" where
  "strchr s c \<longleftrightarrow> c \<in> set s \<or> c = NUL"

abbreviation (input) MARK :: c_string where
  "MARK \<equiv> ''-_.!~*'' @ [CHR 0x27] @ ''()''"

abbreviation (input) RESERVED :: c_string where
  "RESERVED \<equiv> '';/?:@&=+$,{}''"

definition is_reserved :: "char \<Rightarrow> bool" where
  "is_reserved c = strchr RESERVED c"

definition is_mark :: "char \<Rightarrow> bool" where
  "is_mark c = strchr MARK c"

definition is_unreserved :: "char \<Rightarrow> bool" where
  "is_unreserved c = (isalnum c \<or> is_mark c)"

definition is_escaped :: "c_string \<Rightarrow> bool" where
  "is_escaped s = (rd s 0 = CHR ''%'' \<and> isxdigit (rd s 1) \<and> isxdigit (rd s 2))"

subsection \<open>Unescaping in place\<close>

text \<open>\<^verbatim>\<open>sscanf\<close> with \<^verbatim>\<open>%2x\<close> on two hexadecimal digits.\<close>

definition hex_digit :: "char \<Rightarrow> nat" where
  "hex_digit c = (if isdigit c then code c - 48
                  else if code c \<le> 70 then code c - 55 else code c - 87)"

definition hex2 :: "char \<Rightarrow> char \<Rightarrow> char" where
  "hex2 a b = char_of (16 * hex_digit a + hex_digit b)"

text \<open>The shifting loop of \<^verbatim>\<open>replace_escaped\<close>: \<open>n\<close> is how many more positions \<^verbatim>\<open>j\<close> visits.\<close>

fun shift_loop :: "c_block \<Rightarrow> nat \<Rightarrow> nat \<Rightarrow> nat \<Rightarrow> char \<Rightarrow> nat \<Rightarrow> c_block" where
  "shift_loop b i j mx temp 0 = b"
| "shift_loop b i j mx temp (Suc n) =
     (let b1 = b[j := temp];
          temp1 = (if i < mx then b1 ! i else NUL) in
      shift_loop b1 (Suc i) (Suc j) mx temp1 n)"

definition replace_escaped :: "c_block \<Rightarrow> nat \<Rightarrow> int \<Rightarrow> int \<times> c_block \<times> int" where
  "replace_escaped b index mx =
     (if rd b index = CHR ''%'' \<and> isxdigit (rd b (index + 1)) \<and> isxdigit (rd b (index + 2))
      then (1, shift_loop b (index + 3) index (nat mx)
                 (hex2 (rd b (index + 1)) (rd b (index + 2))) (nat mx - index), mx - 2)
      else (0, b, mx))"

function remove_escaped_loop :: "c_block \<Rightarrow> nat \<Rightarrow> int \<Rightarrow> c_block \<times> int" where
  "remove_escaped_loop b i sz =
     (if int i < sz then
        (case replace_escaped b i sz of
           (_, b1, size1) \<Rightarrow> remove_escaped_loop b1 (Suc i) size1)
      else (b, sz))"
  by pat_completeness auto
termination
  by (relation "measure (\<lambda>(b, i, sz). nat (sz - int i))")
     (auto simp: replace_escaped_def split: if_splits)

declare remove_escaped_loop.simps [simp del]

definition remove_escaped_chars :: "c_block \<Rightarrow> int \<Rightarrow> int \<times> c_block \<times> int" where
  "remove_escaped_chars b sz =
     (case remove_escaped_loop b 0 sz of (b1, size1) \<Rightarrow> (UPNP_E_SUCCESS, b1, size1))"

subsection \<open>Tokens and parsed URIs\<close>

record token =
  tk_buff :: int
  tk_size :: nat

record sockaddr_in =
  sin_family :: int
  sin_port :: "16 word"
  sin_addr :: "32 word"

record hostport_type =
  hp_text :: token
  hp_IPv4address :: sockaddr_in

datatype uriType = ABSOLUTE | RELATIVE
datatype pathType = ABS_PATH | REL_PATH | OPAQUE_PART

record uri_type =
  uri_ty :: uriType
  uri_scheme :: token
  uri_path_type :: pathType
  uri_pathquery :: token
  uri_fragment :: token
  uri_hostport :: hostport_type

record URL_list =
  ul_size :: nat
  ul_URLs :: "int \<times> c_string"
  ul_parsedURLs :: "uri_type list"

definition NULL_token :: token where
  "NULL_token = \<lparr>tk_buff = 0, tk_size = 0\<rparr>"

definition parse_uric_count :: "c_string \<Rightarrow> nat \<Rightarrow> nat \<Rightarrow> bool" where
  "parse_uric_count s mx i \<longleftrightarrow>
     is_unreserved (rd s i) \<or> is_reserved (rd s i) \<or> (i + 2 < mx \<and> is_escaped (drop i s))"

fun uric_loop :: "c_string \<Rightarrow> nat \<Rightarrow> nat \<Rightarrow> nat \<Rightarrow> nat" where
  "uric_loop s mx i 0 = i"
| "uric_loop s mx i (Suc n) =
     (if parse_uric_count s mx i then uric_loop s mx (Suc i) n else i)"

definition parse_uric :: "c_ptr \<Rightarrow> nat \<Rightarrow> nat \<times> token" where
  "parse_uric p mx =
     (let i = uric_loop (snd p) mx 0 mx in (i, \<lparr>tk_buff = fst p, tk_size = i\<rparr>))"

definition copy_sockaddr_in :: "sockaddr_in \<Rightarrow> sockaddr_in \<Rightarrow> sockaddr_in" where
  "copy_sockaddr_in src out =
     out\<lparr>sin_family := sin_family src, sin_port := sin_port src, sin_addr := sin_addr src\<rparr>"

definition copy_token :: "token \<Rightarrow> int \<Rightarrow> int \<Rightarrow> token" where
  "copy_token src in_base out_base =
     \<lparr>tk_buff = out_base + (tk_buff src - in_base), tk_size = tk_size src\<rparr>"

text \<open>
  \<^verbatim>\<open>copy_URL_list\<close>: the two allocations either give the addresses of fresh memory or fail;
  \<open>fresh\<close> is the address of the copied text. The uninitialised entries that
  \<^verbatim>\<open>malloc\<close> returns are the argument \<open>raw\<close>.
\<close>

definition copy_parsed :: "int \<Rightarrow> int \<Rightarrow> uri_type \<Rightarrow> uri_type \<Rightarrow> uri_type" where
  "copy_parsed in_base out_base src raw =
     raw\<lparr>uri_ty := uri_ty src,
         uri_scheme := copy_token (uri_scheme src) in_base out_base,
         uri_path_type := uri_path_type src,
         uri_pathquery := copy_token (uri_pathquery src) in_base out_base,
         uri_fragment := copy_token (uri_fragment src) in_base out_base,
         uri_hostport :=
           \<lparr>hp_text = copy_token (hp_text (uri_hostport src)) in_base out_base,
            hp_IPv4address = copy_sockaddr_in (hp_IPv4address (uri_hostport src))
                               (hp_IPv4address (uri_hostport raw))\<rparr>\<rparr>"

definition copy_URL_list ::
  "int option \<Rightarrow> uri_type list option \<Rightarrow> URL_list \<Rightarrow> int \<times> URL_list option" where
  "copy_URL_list fresh raw src =
     (case (fresh, raw) of
        (Some a, Some rs) \<Rightarrow>
          (1, Some \<lparr>ul_size = ul_size src,
                     ul_URLs = (a, snd (ul_URLs src)),
                     ul_parsedURLs =
                       map (\<lambda>(u, r). copy_parsed (fst (ul_URLs src)) a u r)
                         (zip (take (ul_size src) (ul_parsedURLs src)) rs)\<rparr>)
      | _ \<Rightarrow> (UPNP_E_OUTOF_MEMORY, None))"

text \<open>A token together with the bytes its address leads to.\<close>

definition token_string_casecmp :: "token \<Rightarrow> c_string \<Rightarrow> c_string \<Rightarrow> int" where
  "token_string_casecmp t txt s =
     (if tk_size t \<noteq> length s then 1 else strncasecmp (tk_size t) txt s)"

definition token_string_cmp :: "token \<Rightarrow> c_string \<Rightarrow> c_string \<Rightarrow> int" where
  "token_string_cmp t txt s =
     (if tk_size t \<noteq> length s then 1 else strncmp (tk_size t) txt s)"

fun memcmp :: "nat \<Rightarrow> c_string \<Rightarrow> c_string \<Rightarrow> int" where
  "memcmp 0 a b = 0"
| "memcmp (Suc n) a b =
     (if rd a 0 = rd b 0 then memcmp n (tl a) (tl b)
      else int (code (rd a 0)) - int (code (rd b 0)))"

definition token_cmp :: "token \<Rightarrow> c_string \<Rightarrow> token \<Rightarrow> c_string \<Rightarrow> int" where
  "token_cmp t1 txt1 t2 txt2 =
     (if tk_size t1 \<noteq> tk_size t2 then 1 else memcmp (tk_size t1) txt1 txt2)"

subsection \<open>Ports, hosts, schemes\<close>

unbundle bit_operations_syntax

definition htons :: "16 word \<Rightarrow> 16 word" where
  "htons w = push_bit 8 w OR drop_bit 8 w"

fun port_loop :: "c_string \<Rightarrow> nat \<Rightarrow> nat \<Rightarrow> 16 word \<Rightarrow> nat \<times> 16 word" where
  "port_loop s i 0 temp = (i, temp)"
| "port_loop s i (Suc n) temp =
     (if isdigit (rd s i)
      then port_loop s (Suc i) n (temp * 10 + of_nat (code (rd s i) - 48))
      else (i, temp))"

definition parse_port :: "nat \<Rightarrow> c_string \<Rightarrow> nat \<times> 16 word" where
  "parse_port mx port =
     (case port_loop port 0 mx 0 of (n, temp) \<Rightarrow> (n, htons temp))"

record hostent =
  h_addrtype_inet :: bool
  h_length :: nat
  h_addr :: "32 word"

text \<open>
  The resolver: \<^verbatim>\<open>inet_pton\<close> gives an address or rejects the text; \<^verbatim>\<open>gethostbyname_r\<close> gives
  an error code and perhaps an entry.
\<close>

record resolver =
  inet_pton4 :: "c_string \<Rightarrow> 32 word option"
  gethostbyname_r :: "c_string \<Rightarrow> int \<times> hostent option"

abbreviation (input) AF_INET :: int where
  "AF_INET \<equiv> 2"

definition host_char :: "char \<Rightarrow> bool" where
  "host_char c \<longleftrightarrow> c \<noteq> CHR '':'' \<and> c \<noteq> CHR ''/'' \<and> (isalnum c \<or> c = CHR ''.'' \<or> c = CHR ''-'')"

fun host_loop :: "c_string \<Rightarrow> nat \<Rightarrow> int \<Rightarrow> nat \<Rightarrow> nat \<times> int" where
  "host_loop s i last_dot 0 = (i, last_dot)"
| "host_loop s i last_dot (Suc n) =
     (if host_char (rd s i)
      then host_loop s (Suc i) (if rd s (Suc i) = CHR ''.'' then int (Suc i) else last_dot) n
      else (i, last_dot))"

text \<open>
  The address part of \<^verbatim>\<open>parse_hostport\<close>: an address in dotted form when the text after the
  last dot starts with a digit, a lookup by name otherwise. \<^term>\<open>Inl\<close> is the error return.
\<close>

definition resolve_host :: "resolver \<Rightarrow> c_string \<Rightarrow> int \<Rightarrow> sockaddr_in \<Rightarrow> bool \<times> sockaddr_in" where
  "resolve_host R host last_dot sa =
     (if last_dot \<noteq> -1 \<and> last_dot + 1 < int (length host) \<and> isdigit (rd host (nat (last_dot + 1)))
      then (case inet_pton4 R host of
              Some a \<Rightarrow> (True, sa\<lparr>sin_addr := a, sin_family := AF_INET\<rparr>)
            | None \<Rightarrow> (False, sa\<lparr>sin_addr := 0, sin_family := AF_INET\<rparr>))
      else (case gethostbyname_r R host of
              (errCode, h) \<Rightarrow>
                if errCode = 0
                then (case h of
                        None \<Rightarrow> (True, sa)
                      | Some e \<Rightarrow>
                          if h_addrtype_inet e \<and> h_length e = 4
                          then (True, sa\<lparr>sin_addr := h_addr e, sin_family := AF_INET\<rparr>)
                          else (True, sa))
                else (False, sa\<lparr>sin_addr := 0, sin_family := AF_INET\<rparr>)))"

definition parse_hostport ::
  "resolver \<Rightarrow> allocator \<Rightarrow> c_ptr \<Rightarrow> nat \<Rightarrow> hostport_type \<Rightarrow> int \<times> hostport_type" where
  "parse_hostport R A p mx out =
     (let s = snd p;
          out0 = out\<lparr>hp_text := NULL_token,
                     hp_IPv4address := (hp_IPv4address out)\<lparr>sin_port := htons 80\<rparr>\<rparr> in
      case host_loop s 0 (-1) mx of (host_size, last_dot) \<Rightarrow>
      let has_port = (host_size < mx \<and> rd s host_size = CHR '':'');
          begin_port = host_size + 1;
          (digits, port) = parse_port (mx - begin_port) (drop begin_port s);
          out1 = (if has_port
                  then out0\<lparr>hp_IPv4address := (hp_IPv4address out0)\<lparr>sin_port := port\<rparr>\<rparr>
                  else out0);
          hostport_size = (if has_port then digits + begin_port else host_size) in
      if has_port \<and> digits = 0 then (UPNP_E_INVALID_URL, out1)
      else if \<not> grants A (host_size + 1) then (UPNP_E_OUTOF_MEMORY, out1)
      else
        (case resolve_host R (map (rd s) [0..<host_size]) last_dot (hp_IPv4address out1) of
           (ok, sa) \<Rightarrow>
             if ok
             then (int hostport_size,
                   \<lparr>hp_text = \<lparr>tk_buff = fst p, tk_size = hostport_size\<rparr>, hp_IPv4address = sa\<rparr>)
             else (UPNP_E_INVALID_URL, out1\<lparr>hp_IPv4address := sa\<rparr>)))"

definition scheme_char :: "char \<Rightarrow> bool" where
  "scheme_char c \<longleftrightarrow> isalnum c \<or> c = CHR ''+'' \<or> c = CHR ''-'' \<or> c = CHR ''.''"

text \<open>The scanning loop: \<^term>\<open>None\<close> is the early \<^verbatim>\<open>return FALSE\<close>.\<close>

fun scheme_loop :: "c_string \<Rightarrow> nat \<Rightarrow> nat \<Rightarrow> nat option" where
  "scheme_loop s i 0 = Some i"
| "scheme_loop s i (Suc n) =
     (if rd s i = CHR '':'' then Some i
      else if \<not> scheme_char (rd s i) then None
      else scheme_loop s (Suc i) n)"

definition parse_scheme :: "c_ptr \<Rightarrow> nat \<Rightarrow> nat \<times> token" where
  "parse_scheme p mx =
     (if mx = 0 \<or> \<not> isalpha (rd (snd p) 0) then (0, NULL_token)
      else (case scheme_loop (snd p) 1 (mx - 1) of
              None \<Rightarrow> (0, NULL_token)
            | Some i \<Rightarrow> if i < mx then (i, \<lparr>tk_buff = fst p, tk_size = i\<rparr>)
                        else (0, NULL_token)))"

subsection \<open>Whole URIs\<close>

text \<open>The part of \<^verbatim>\<open>parse_uri\<close> after the host: path with query, then the fragment.\<close>

definition parse_uri_tail :: "c_ptr \<Rightarrow> nat \<Rightarrow> nat \<Rightarrow> uri_type \<Rightarrow> uri_type" where
  "parse_uri_tail p mx begin_path out =
     (case parse_uric (advance p begin_path) (mx - begin_path) of
        (n, pq) \<Rightarrow>
          let begin_fragment = n + begin_path;
              out1 = out\<lparr>uri_pathquery := pq\<rparr>;
              out2 = (if tk_size pq \<noteq> 0 \<and> rd (snd p) begin_path = CHR ''/''
                      then out1\<lparr>uri_path_type := ABS_PATH\<rparr> else out1) in
          if begin_fragment < mx \<and> rd (snd p) begin_fragment = CHR ''#''
          then out2\<lparr>uri_fragment := snd (parse_uric (advance p (begin_fragment + 1))
                                            (mx - (begin_fragment + 1)))\<rparr>
          else out2\<lparr>uri_fragment := NULL_token\<rparr>)"

definition parse_uri ::
  "resolver \<Rightarrow> allocator \<Rightarrow> c_ptr \<Rightarrow> nat \<Rightarrow> uri_type \<Rightarrow> int \<times> uri_type" where
  "parse_uri R A p mx out =
     (case parse_scheme p mx of (sz, sch) \<Rightarrow>
      let out1 = (if sz \<noteq> 0
                  then out\<lparr>uri_scheme := sch, uri_ty := ABSOLUTE, uri_path_type := OPAQUE_PART\<rparr>
                  else out\<lparr>uri_scheme := sch, uri_ty := RELATIVE, uri_path_type := REL_PATH\<rparr>);
          bh = (if sz \<noteq> 0 then sz + 1 else 0) in
      if bh + 1 < mx \<and> rd (snd p) bh = CHR ''/'' \<and> rd (snd p) (bh + 1) = CHR ''/''
      then (case parse_hostport R A (advance p (bh + 2)) (mx - (bh + 2)) (uri_hostport out1) of
              (n, hp) \<Rightarrow>
                if n \<ge> 0
                then (1, parse_uri_tail p mx (nat n + (bh + 2)) (out1\<lparr>uri_hostport := hp\<rparr>))
                else (n, out1\<lparr>uri_hostport := hp\<rparr>))
      else
        (let sa = (hp_IPv4address (uri_hostport out1))\<lparr>sin_port := 0, sin_addr := 0\<rparr> in
         (1, parse_uri_tail p mx bh
               (out1\<lparr>uri_hostport := \<lparr>hp_text = NULL_token, hp_IPv4address = sa\<rparr>\<rparr>))))"

text \<open>
  \<^verbatim>\<open>parse_uri_and_unescape\<close> rewrites the path and the fragment inside the parsed text; the
  model returns the rewritten text beside the URI.
\<close>

definition unescape_at :: "c_string \<Rightarrow> nat \<Rightarrow> nat \<Rightarrow> c_string \<times> nat" where
  "unescape_at s off sz =
     (case remove_escaped_chars (drop off s) (int sz) of
        (_, b, size1) \<Rightarrow> (take off s @ b, nat size1))"

definition parse_uri_and_unescape ::
  "resolver \<Rightarrow> allocator \<Rightarrow> c_ptr \<Rightarrow> nat \<Rightarrow> uri_type \<Rightarrow> int \<times> c_string \<times> uri_type" where
  "parse_uri_and_unescape R A p mx out =
     (case parse_uri R A p mx out of (ret, u) \<Rightarrow>
      if ret \<noteq> 1 then (ret, snd p, u)
      else
        (let off1 = nat (tk_buff (uri_pathquery u) - fst p);
             (s1, u1) =
               (if tk_size (uri_pathquery u) > 0
                then (case unescape_at (snd p) off1 (tk_size (uri_pathquery u)) of
                        (s1, n) \<Rightarrow> (s1, u\<lparr>uri_pathquery := (uri_pathquery u)\<lparr>tk_size := n\<rparr>\<rparr>))
                else (snd p, u));
             off2 = nat (tk_buff (uri_fragment u1) - fst p);
             (s2, u2) =
               (if tk_size (uri_fragment u1) > 0
                then (case unescape_at s1 off2 (tk_size (uri_fragment u1)) of
                        (s2, n) \<Rightarrow> (s2, u1\<lparr>uri_fragment := (uri_fragment u1)\<lparr>tk_size := n\<rparr>\<rparr>))
                else (s1, u1)) in
         (1, s2, u2)))"

subsection \<open>Dot removal in place\<close>

text \<open>
  The loop over \<^verbatim>\<open>copyFrom\<close> (\<open>f\<close>) and \<^verbatim>\<open>copyTo\<close> (\<open>t\<close>); \<open>segs\<close> is the array \<^verbatim>\<open>Segments\<close>, \<open>ls\<close>
  is \<^verbatim>\<open>lastSegment\<close>. \<^term>\<open>Inl\<close> is the error return for a \<^verbatim>\<open>..\<close> at the root.
\<close>

function dots_loop ::
  "c_block \<Rightarrow> nat \<Rightarrow> nat \<Rightarrow> nat \<Rightarrow> nat list \<Rightarrow> int \<Rightarrow>
     c_block + c_block \<times> nat \<times> nat" where
  "dots_loop b mx t f segs ls =
     (if f < mx \<and> rd b f \<noteq> CHR ''?'' \<and> rd b f \<noteq> CHR ''#'' then
        (if rd b f = CHR ''.'' \<and> (f = 0 \<or> rd b (f - 1) = CHR ''/'') \<and>
            (f + 1 = mx \<or> rd b (f + 1) = CHR ''/'')
         then dots_loop b mx t (f + 2) segs ls
         else if rd b f = CHR ''.'' \<and> (f = 0 \<or> rd b (f - 1) = CHR ''/'') \<and>
            rd b (f + 1) = CHR ''.'' \<and> (f + 2 = mx \<or> rd b (f + 2) = CHR ''/'')
         then (if ls > 0 then dots_loop b mx (segs ! nat (ls - 1)) (f + 3) segs (ls - 1)
               else Inl b)
         else if rd b f = CHR ''/''
         then dots_loop (b[t := rd b f]) mx (t + 1) (f + 1) (segs[nat (ls + 1) := t + 1]) (ls + 1)
         else dots_loop (b[t := rd b f]) mx (t + 1) (f + 1) segs ls)
      else Inr (b, t, f))"
  by pat_completeness auto
termination
  by (relation "measure (\<lambda>(b, mx, t, f, segs, ls). mx - f)") auto

declare dots_loop.simps [simp del]

fun copy_loop :: "c_block \<Rightarrow> nat \<Rightarrow> nat \<Rightarrow> nat \<Rightarrow> c_block \<times> nat" where
  "copy_loop b t f 0 = (b, t)"
| "copy_loop b t f (Suc n) = copy_loop (b[t := rd b f]) (Suc t) (Suc f) n"

text \<open>A call with size 0 writes to \<^verbatim>\<open>Segments[0]\<close> of an empty array: a fault.\<close>

definition remove_dots :: "allocator \<Rightarrow> c_block \<Rightarrow> nat \<Rightarrow> (int \<times> c_block) option" where
  "remove_dots A b sz =
     (if \<not> grants A (8 * sz) then Some (UPNP_E_OUTOF_MEMORY, b)
      else if sz = 0 then None
      else (case dots_loop b sz 0 0 (replicate sz 0) (-1) of
              Inl b1 \<Rightarrow> Some (UPNP_E_INVALID_URL, b1)
            | Inr (b1, t, f) \<Rightarrow>
                (case copy_loop b1 t f (sz - f) of
                   (b2, t2) \<Rightarrow> Some (UPNP_E_SUCCESS, b2[t2 := NUL]))))"

subsection \<open>Resolving a relative URL\<close>

definition tok_text :: "c_ptr \<Rightarrow> token \<Rightarrow> c_string" where
  "tok_text p t = take (tk_size t) (drop (nat (tk_buff t - fst p)) (snd p))"

text \<open>
  The loop that copies the base path up to its query and remembers where its last slash
  ends: the copied characters and \<^verbatim>\<open>last_slash\<close> as an offset.
\<close>

fun merge_loop :: "c_string \<Rightarrow> c_string \<Rightarrow> nat \<Rightarrow> c_string \<times> nat" where
  "merge_loop [] acc last_slash = (acc, last_slash)"
| "merge_loop (c # cs) acc last_slash =
     (if c = CHR ''?'' then (acc, last_slash)
      else merge_loop cs (acc @ [c]) (if c = CHR ''/'' then length acc + 1 else last_slash))"

definition merge_path :: "c_string \<Rightarrow> c_string \<Rightarrow> c_string" where
  "merge_path pq rel =
     (case merge_loop (if pq = [] then ''/'' else pq) [] 0 of
        (acc, last_slash) \<Rightarrow> take last_slash acc @ rel)"

text \<open>
  The result is \<^term>\<open>None\<close> for NULL. The two parsed URIs start from the uninitialised stack
  variables \<open>u_rel\<close> and \<open>u_base\<close>.
\<close>

definition resolve_rel_url ::
  "resolver \<Rightarrow> allocator \<Rightarrow> uri_type \<Rightarrow> uri_type \<Rightarrow> c_ptr option \<Rightarrow> c_ptr option \<Rightarrow>
     c_string option option" where
  "resolve_rel_url R A u_base u_rel base_url rel_url =
     (case (base_url, rel_url) of
        (_, None) \<Rightarrow> Some None
      | (None, Some r) \<Rightarrow> Some (if grants A (length (snd r) + 1) then Some (snd r) else None)
      | (Some bp, Some rp) \<Rightarrow>
          if \<not> grants A (length (snd bp) + length (snd rp) + 2) then Some None
          else
            (case parse_uri R A rp (length (snd rp)) u_rel of (rc, rel) \<Rightarrow>
             if rc \<noteq> 1 then Some None
             else if uri_ty rel = ABSOLUTE then Some (Some (snd rp))
             else
               (case parse_uri R A bp (length (snd bp)) u_base of (rc, base) \<Rightarrow>
                if rc \<noteq> 1 \<or> uri_ty base \<noteq> ABSOLUTE then Some None
                else if snd rp = [] then Some (Some (snd bp))
                else
                  (let sch = tok_text bp (uri_scheme base) @ '':'';
                       host = (if tk_size (hp_text (uri_hostport base)) > 0
                               then ''//'' @ tok_text bp (hp_text (uri_hostport base)) else []) in
                   if tk_size (hp_text (uri_hostport rel)) > 0 then Some (Some (sch @ snd rp))
                   else if uri_path_type rel = ABS_PATH then Some (Some (sch @ host @ snd rp))
                   else
                     (let path = merge_path (tok_text bp (uri_pathquery base)) (snd rp) in
                      do { (rc, b) \<leftarrow> remove_dots A (path @ [NUL]) (length path);
                           Some (if rc \<noteq> UPNP_E_SUCCESS then None
                                 else Some (sch @ host @ takeWhile (\<lambda>c. c \<noteq> NUL) b)) })))))"

subsection \<open>Percent decoding\<close>

text \<open>The reference: one pass from left to right, each escape replaced by its byte.\<close>

fun unescape :: "c_string \<Rightarrow> c_string" where
  "unescape (c # x # y # s) =
     (if c = CHR ''%'' \<and> isxdigit x \<and> isxdigit y then hex2 x y # unescape s
      else c # unescape (x # y # s))"
| "unescape s = s"

lemma length_unescape: "length (unescape s) \<le> length s"
  by (induction s rule: unescape.induct) auto

lemma isxdigit_NUL [simp]: "\<not> isxdigit NUL"
  by (simp add: ctype_defs)

lemma shift_loop_eq:
  assumes "j + n \<le> length b"
  shows "shift_loop b (j + 3) j (j + n) temp n =
     take j b @ take n (temp # drop (j + 3) (take (j + n) b) @ [NUL, NUL]) @ drop (j + n) b"
  using assms
proof (induction n arbitrary: j b temp)
  case (Suc n)
  let ?m = "j + Suc n" and ?b = "b[j := temp]"
  define temp1 where "temp1 = (if j + 3 < ?m then ?b ! (j + 3) else NUL)"
  have 1: "take (Suc j) ?b = take j b @ [temp]"
    using Suc.prems by (simp add: take_Suc_conv_app_nth)
  have 2: "drop (Suc j + 3) (take ?m ?b) = drop (Suc j + 3) (take ?m b)"
    and 3: "drop ?m ?b = drop ?m b"
    using Suc.prems by (simp_all add: take_update_swap)
  have 4: "take n (temp1 # drop (Suc j + 3) (take ?m b) @ [NUL, NUL]) =
      take n (drop (j + 3) (take ?m b) @ [NUL, NUL])"
  proof (cases "j + 3 < ?m")
    case True
    then have "drop (j + 3) (take ?m b) = take ?m b ! (j + 3) # drop (Suc (j + 3)) (take ?m b)"
      using Suc.prems by (intro Cons_nth_drop_Suc [symmetric]) simp
    with True show ?thesis by (simp add: temp1_def)
  next
    case False
    then have "n \<le> 2" by simp
    with False show ?thesis
      by (auto simp: temp1_def numeral_2_eq_2 le_Suc_eq)
  qed
  have "shift_loop b (j + 3) j ?m temp (Suc n) = shift_loop ?b (Suc j + 3) (Suc j) (Suc j + n) temp1 n"
    by (simp add: temp1_def)
  also have "\<dots> = take (Suc j) ?b @
      take n (temp1 # drop (Suc j + 3) (take (Suc j + n) ?b) @ [NUL, NUL]) @ drop (Suc j + n) ?b"
    using Suc.prems by (intro Suc.IH) simp
  finally show ?case using 1 2 3 4 by simp
qed simp

lemma replace_escaped_eq:
  assumes n: "n \<le> length b" and i: "i < n" and edge: "\<not> isxdigit (rd b n)"
    and esc: "rd b i = CHR ''%''" "isxdigit (rd b (i + 1))" "isxdigit (rd b (i + 2))"
  shows "i + 2 < n"
    and "replace_escaped b i (int n) =
      (1, take i b @ hex2 (rd b (i + 1)) (rd b (i + 2)) # drop (i + 3) (take n b) @
          [NUL, NUL] @ drop n b, int n - 2)"
proof -
  have "i + 1 \<noteq> n" and "i + 2 \<noteq> n" using edge esc by metis+
  with i show i2: "i + 2 < n" by simp
  define temp where "temp = hex2 (rd b (i + 1)) (rd b (i + 2))"
  have "shift_loop b (i + 3) i n temp (n - i) =
      take i b @ take (n - i) (temp # drop (i + 3) (take n b) @ [NUL, NUL]) @ drop n b"
    using shift_loop_eq [of i "n - i" b temp] n i by simp
  also have "take (n - i) (temp # drop (i + 3) (take n b) @ [NUL, NUL]) =
      temp # drop (i + 3) (take n b) @ [NUL, NUL]"
    using n i2 by simp
  finally show "replace_escaped b i (int n) =
      (1, take i b @ hex2 (rd b (i + 1)) (rd b (i + 2)) # drop (i + 3) (take n b) @
          [NUL, NUL] @ drop n b, int n - 2)"
    using esc by (simp add: replace_escaped_def temp_def)
qed

lemma unescape_unfold:
  "s \<noteq> [] \<Longrightarrow> unescape s =
     (if 2 < length s \<and> s ! 0 = CHR ''%'' \<and> isxdigit (s ! 1) \<and> isxdigit (s ! 2)
      then hex2 (s ! 1) (s ! 2) # unescape (drop 3 s) else s ! 0 # unescape (drop 1 s))"
  by (cases s rule: unescape.cases) auto

lemma remove_escaped_loop_eq:
  assumes "n \<le> length b" and "i \<le> n" and "\<not> isxdigit (rd b n)"
  shows "remove_escaped_loop b i (int n) =
     (let u = unescape (drop i (take n b)) in
      (take i b @ u @ replicate (n - i - length u) NUL @ drop n b, int (i + length u)))"
  using assms
proof (induction "n - i" arbitrary: b i n rule: less_induct)
  case less
  note unf = remove_escaped_loop.simps [of b i "int n"]
  let ?s = "drop i (take n b)"
  show ?case
  proof (cases "i < n")
    case False
    with less.prems have "i = n" by simp
    then show ?thesis by (simp add: remove_escaped_loop.simps [of b n "int n"])
  next
    case True
    have s: "?s \<noteq> []" "length ?s = n - i" using True less.prems by simp_all
    have rds: "\<And>k. k < n - i \<Longrightarrow> ?s ! k = rd b (i + k)"
      using less.prems(1,2) by (subst rd_nth) simp_all
    show ?thesis
    proof (cases "rd b i = CHR ''%'' \<and> isxdigit (rd b (i + 1)) \<and> isxdigit (rd b (i + 2))")
      case esc: True
      define h where "h = hex2 (rd b (i + 1)) (rd b (i + 2))"
      define b1 where "b1 = take i b @ h # drop (i + 3) (take n b) @ [NUL, NUL] @ drop n b"
      from esc less.prems True have i2: "i + 2 < n"
        and rep: "replace_escaped b i (int n) = (1, b1, int n - 2)"
        using replace_escaped_eq [of n b i] by (auto simp: b1_def h_def)
      let ?pre = "take i b @ [h]" and ?M = "drop (i + 3) (take n b)"
      have split: "b1 = (?pre @ ?M) @ [NUL, NUL] @ drop n b" by (simp add: b1_def)
      have lens: "length (?pre @ ?M) = n - 2" "length ?pre = Suc i"
        using less.prems i2 by auto
      have whole: "take (n - 2) b1 = ?pre @ ?M" and tl: "drop (n - 2) b1 = [NUL, NUL] @ drop n b"
        using split lens(1) by (metis append_eq_conv_conj)+
      have mid: "drop (Suc i) (take (n - 2) b1) = ?M"
        using whole lens(2) by (metis append_eq_conv_conj)
      have tk: "take (Suc i) b1 = ?pre"
        using split lens(2) by (metis append_assoc append_eq_conv_conj)
      have len: "length b1 = length b" using less.prems i2 by (simp add: b1_def)
      have edge: "rd b1 (n - 2) = NUL"
        using rd_drop [of "n - 2" b1 0] tl by simp
      have "remove_escaped_loop b i (int n) = remove_escaped_loop b1 (Suc i) (int (n - 2))"
        using True rep i2 by (simp add: unf of_nat_diff)
      also have "\<dots> = (let u = unescape (drop (i + 3) (take n b)) in
          (take i b @ h # u @ replicate (n - 2 - Suc i - length u) NUL @ [NUL, NUL] @ drop n b,
           int (Suc i + length u)))"
        using less.hyps [of "n - 2" "Suc i" b1] i2 len less.prems edge tk mid tl
        by (simp add: Let_def)
      finally have run: "remove_escaped_loop b i (int n) = \<dots>" .
      have "2 < n - i" using i2 by simp
      then have "unescape ?s = h # unescape (drop (i + 3) (take n b))"
        using unescape_unfold [OF s(1)] rds [of 0] rds [of 1] rds [of 2] esc i2 s(2)
        by (simp add: h_def add.commute)
      moreover have "replicate (n - 2 - Suc i - L) NUL @ [NUL, NUL] = replicate (n - i - Suc L) NUL"
        if "L \<le> n - (i + 3)" for L
      proof -
        have "n - i - Suc L = (n - 2 - Suc i - L) + 2" using that i2 by simp
        then show ?thesis by (simp add: replicate_app_Cons_same)
      qed
      moreover have "length (unescape (drop (i + 3) (take n b))) \<le> n - (i + 3)"
        using length_unescape [of "drop (i + 3) (take n b)"] less.prems by simp
      ultimately show ?thesis
        using run by (simp add: Let_def)
    next
      case no: False
      have "remove_escaped_loop b i (int n) = remove_escaped_loop b (Suc i) (int n)"
        using True no by (auto simp: unf replace_escaped_def)
      also have "\<dots> = (let u = unescape (drop (Suc i) (take n b)) in
          (take (Suc i) b @ u @ replicate (n - Suc i - length u) NUL @ drop n b,
           int (Suc i + length u)))"
        using less.hyps [of n "Suc i" b] less.prems True by simp
      finally have run: "remove_escaped_loop b i (int n) = \<dots>" .
      have "unescape ?s = rd b i # unescape (drop (Suc i) (take n b))"
        using unescape_unfold [OF s(1)] rds [of 0] rds [of 1] rds [of 2] no s(2) True
        by auto
      moreover have "take (Suc i) b = take i b @ [rd b i]"
        using True less.prems by (simp add: rd_def take_Suc_conv_app_nth)
      ultimately show ?thesis using run by (simp add: Let_def)
    qed
  qed
qed

subsection \<open>Dot removal as a function on strings\<close>

text \<open>
  The same walk without the buffer: \<open>out\<close> is the output so far, \<open>st\<close> says whether the next
  character starts a segment, \<open>stk\<close> holds the output lengths after each slash, latest first.
\<close>

function dots_fun :: "c_string \<Rightarrow> bool \<Rightarrow> c_string \<Rightarrow> nat list \<Rightarrow> c_string option" where
  "dots_fun out st [] stk = Some out"
| "dots_fun out st (c # cs) stk =
     (if c = CHR ''?'' \<or> c = CHR ''#'' then Some (out @ c # cs)
      else if c = CHR ''.'' \<and> st \<and> (cs = [] \<or> rd cs 0 = CHR ''/'')
      then dots_fun out True (drop 1 cs) stk
      else if c = CHR ''.'' \<and> st \<and> rd cs 0 = CHR ''.'' \<and> (length cs = 1 \<or> rd cs 1 = CHR ''/'')
      then (if 2 \<le> length stk then dots_fun (take (stk ! 1) out) True (drop 2 cs) (tl stk) else None)
      else dots_fun (out @ [c]) (c = CHR ''/'') cs
             (if c = CHR ''/'' then Suc (length out) # stk else stk))"
  by pat_completeness auto
termination
  by (relation "measure (\<lambda>(out, st, rest, stk). length rest)") auto

text \<open>How the buffer represents a state of that walk over \<open>s\<close> (the original bytes).\<close>

definition dots_rep :: "c_string \<Rightarrow> nat \<Rightarrow> c_block \<Rightarrow> nat \<Rightarrow> nat \<Rightarrow> nat list \<Rightarrow> int \<Rightarrow>
    c_string \<Rightarrow> nat list \<Rightarrow> bool" where
  "dots_rep s mx b t f segs ls out stk \<longleftrightarrow>
     mx \<le> length s \<and> length b = length s \<and> t \<le> f \<and> t \<le> mx \<and> take t b = out \<and>
     (\<forall>k. f \<le> Suc k \<longrightarrow> rd b k = rd s k) \<and>
     length segs = mx \<and> ls = int (length stk) - 1 \<and> length stk \<le> f \<and>
     take (length stk) segs = rev stk \<and> (\<forall>l \<in> set stk. l \<le> t) \<and>
     sorted_wrt (\<ge>) stk"

lemma dots_rep_read: "dots_rep s mx b t f segs ls out stk \<Longrightarrow> f \<le> Suc k \<Longrightarrow> rd b k = rd s k"
  by (simp add: dots_rep_def)

lemma dots_rep_skip:
  "dots_rep s mx b t f segs ls out stk \<Longrightarrow> dots_rep s mx b t (f + n) segs ls out stk"
  by (auto simp: dots_rep_def)

lemma dots_rep_pop:
  assumes rep: "dots_rep s mx b t f segs ls out stk" and two: "2 \<le> length stk"
    and f: "f < mx"
  shows "ls > 0" and "dots_rep s mx b (segs ! nat (ls - 1)) (f + 3) segs (ls - 1)
           (take (stk ! 1) out) (tl stk)"
proof -
  obtain x y zs where stk: "stk = x # y # zs"
    using two by (metis Suc_le_length_iff numeral_2_eq_2)
  then have nat_ls: "nat (ls - 1) = length zs" and ls: "ls = 1 + int (length zs)"
    using rep by (auto simp: dots_rep_def)
  then show "ls > 0" by simp
  have tk: "take (Suc (Suc (length zs))) segs = rev zs @ [y, x]"
    using rep stk by (simp add: dots_rep_def)
  then have y: "segs ! length zs = y"
    by (metis (no_types, lifting) lessI less_Suc_eq length_rev nth_append_length nth_take
        append_Cons)
  have "take (Suc (length zs)) (take (Suc (Suc (length zs))) segs) = rev zs @ [y]"
    unfolding tk by simp
  then have "take (Suc (length zs)) segs = rev zs @ [y]" by simp
  moreover have "y \<le> t" "take y b = take y out" "\<forall>l \<in> set zs. l \<le> y"
    using rep stk by (auto simp: dots_rep_def)
  ultimately show "dots_rep s mx b (segs ! nat (ls - 1)) (f + 3) segs (ls - 1)
      (take (stk ! 1) out) (tl stk)"
    using rep y stk nat_ls ls by (simp add: dots_rep_def)
qed

lemma dots_rep_copy:
  assumes rep: "dots_rep s mx b t f segs ls out stk" and f: "f < mx"
  shows "dots_rep s mx (b[t := rd b f]) (t + 1) (f + 1) segs ls (out @ [rd s f]) stk"
proof -
  have len: "t < length b" "t \<le> f" "rd b f = rd s f" "length out = t"
    using rep f by (auto simp: dots_rep_def)
  have "take (Suc t) (b[t := rd s f]) = out @ [rd s f]"
    using rep len by (simp add: dots_rep_def take_Suc_conv_app_nth)
  moreover have "rd (b[t := rd s f]) k = rd s k" if "Suc f \<le> Suc k" for k
  proof -
    have "rd b k = rd s k" using rep that by (simp add: dots_rep_def)
    then show ?thesis using len that by (auto simp: rd_def nth_list_update split: if_splits)
  qed
  ultimately show ?thesis
    using rep f len by (auto simp: dots_rep_def le_SucI)
qed

lemma dots_rep_push:
  assumes rep: "dots_rep s mx b t (f + 1) segs ls out stk" and f: "f < mx"
    and "length stk \<le> f"
  shows "dots_rep s mx b t (f + 1) (segs[nat (ls + 1) := t]) (ls + 1) out (t # stk)"
proof -
  have n: "nat (ls + 1) = length stk" "length stk < length segs"
    using rep assms(2,3) by (auto simp: dots_rep_def)
  then have "take (Suc (length stk)) (segs[length stk := t]) = rev stk @ [t]"
    using rep by (simp add: dots_rep_def take_Suc_conv_app_nth)
  then show ?thesis
    using rep n assms(3) by (auto simp: dots_rep_def)
qed

text \<open>What remains to be read, one character at a time.\<close>

definition window :: "c_string \<Rightarrow> nat \<Rightarrow> nat \<Rightarrow> c_string" where
  "window s mx f = take (mx - f) (drop f s)"

lemma window_Cons:
  assumes "f < mx" and "mx \<le> length s"
  shows "window s mx f = rd s f # window s mx (Suc f)"
proof -
  have "drop f s = s ! f # drop (Suc f) s" using assms by (simp add: Cons_nth_drop_Suc)
  moreover have "mx - f = Suc (mx - Suc f)" using assms by simp
  ultimately show ?thesis using assms by (simp add: rd_nth window_def)
qed

lemma window_past [simp]: "mx \<le> f \<Longrightarrow> window s mx f = []"
  by (simp add: window_def)

lemma rd_window: "rd (window s mx f) k = (if f + k < mx then rd s (f + k) else NUL)"
  by (auto simp: rd_def window_def)

lemma drop_window: "drop k (window s mx f) = window s mx (f + k)"
  by (simp add: window_def drop_take ac_simps)

lemma length_window: "mx \<le> length s \<Longrightarrow> length (window s mx f) = mx - f"
  by (simp add: window_def)

lemma dots_fun_window:
  assumes f: "f < mx" and mx: "mx \<le> length s"
  shows "dots_fun out st (window s mx f) stk =
     (if rd s f = CHR ''?'' \<or> rd s f = CHR ''#'' then Some (out @ window s mx f)
      else if rd s f = CHR ''.'' \<and> st \<and> (f + 1 = mx \<or> rd s (f + 1) = CHR ''/'')
      then dots_fun out True (window s mx (f + 2)) stk
      else if rd s f = CHR ''.'' \<and> st \<and> rd s (f + 1) = CHR ''.'' \<and>
              (f + 2 = mx \<or> rd s (f + 2) = CHR ''/'')
      then (if 2 \<le> length stk
            then dots_fun (take (stk ! 1) out) True (window s mx (f + 3)) (tl stk) else None)
      else dots_fun (out @ [rd s f]) (rd s f = CHR ''/'') (window s mx (f + 1))
             (if rd s f = CHR ''/'' then Suc (length out) # stk else stk))"
proof -
  let ?cs = "window s mx (Suc f)"
  have "?cs = [] \<longleftrightarrow> f + 1 = mx" using f length_window [OF mx, of "Suc f"] by (metis
        Suc_eq_plus1 Suc_leI diff_is_0_eq' le_antisym length_0_conv window_past zero_less_diff
        length_greater_0_conv linorder_not_le)
  moreover have "rd ?cs 0 = CHR ''/'' \<longleftrightarrow> f + 1 < mx \<and> rd s (f + 1) = CHR ''/''"
    and "rd ?cs 0 = CHR ''.'' \<longleftrightarrow> f + 1 < mx \<and> rd s (f + 1) = CHR ''.''"
    and "rd ?cs 1 = CHR ''/'' \<longleftrightarrow> f + 2 < mx \<and> rd s (f + 2) = CHR ''/''"
    by (simp_all add: rd_window)
  moreover have "length ?cs = 1 \<longleftrightarrow> f + 2 = mx"
    using length_window [OF mx, of "Suc f"] by auto
  ultimately show ?thesis
    using f unfolding window_Cons [OF f mx] dots_fun.simps drop_window
    by (auto simp: numeral_3_eq_3)
qed

lemma dots_loop_sim:
  assumes "dots_rep s mx b t f segs ls out stk"
    and "f < mx \<longrightarrow> st = (f = 0 \<or> rd s (f - 1) = CHR ''/'')"
  shows "case dots_loop b mx t f segs ls of
      Inl b1 \<Rightarrow> dots_fun out st (window s mx f) stk = None
    | Inr (b1, t1, f1) \<Rightarrow> \<exists>out1 segs1 ls1 stk1. dots_rep s mx b1 t1 f1 segs1 ls1 out1 stk1 \<and>
        dots_fun out st (window s mx f) stk = Some (out1 @ window s mx f1)"
  using assms
proof (induction b mx t f segs ls arbitrary: out st stk rule: dots_loop.induct)
  case (1 b mx t f segs ls)
  note rep = "1.prems"(1) and st = "1.prems"(2)
  note unf = dots_loop.simps [of b mx t f segs ls]
  have mx: "mx \<le> length s" using rep by (simp add: dots_rep_def)
  have rds: "rd b f = rd s f" "f = 0 \<or> rd b (f - 1) = rd s (f - 1)" "rd b (f + 1) = rd s (f + 1)"
    "rd b (f + 2) = rd s (f + 2)"
    using dots_rep_read [OF rep] by auto
  show ?case
  proof (cases "f < mx \<and> rd b f \<noteq> CHR ''?'' \<and> rd b f \<noteq> CHR ''#''")
    case False
    then have "dots_loop b mx t f segs ls = Inr (b, t, f)" by (simp only: unf if_False)
    moreover have "dots_fun out st (window s mx f) stk = Some (out @ window s mx f)"
      using False rds(1) dots_fun_window [OF _ mx, of f] by (cases "f < mx") auto
    ultimately show ?thesis using rep by auto
  next
    case go: True
    then have "f < mx" by simp
    note step = dots_fun_window [OF \<open>f < mx\<close> mx, of out st stk]
    let ?dot = "rd b f = CHR ''.'' \<and> (f = 0 \<or> rd b (f - 1) = CHR ''/'')"
    have dot: "?dot \<longleftrightarrow> rd s f = CHR ''.'' \<and> st" using rds st go by auto
    consider (one) "?dot" "f + 1 = mx \<or> rd b (f + 1) = CHR ''/''"
      | (two) "?dot" "\<not> (f + 1 = mx \<or> rd b (f + 1) = CHR ''/'')"
          "rd b (f + 1) = CHR ''.''" "f + 2 = mx \<or> rd b (f + 2) = CHR ''/''"
      | (copy) "\<not> (?dot \<and> (f + 1 = mx \<or> rd b (f + 1) = CHR ''/''))"
          "\<not> (?dot \<and> rd b (f + 1) = CHR ''.'' \<and> (f + 2 = mx \<or> rd b (f + 2) = CHR ''/''))"
      by blast
    then show ?thesis
    proof cases
      case one
      have fn: "dots_fun out st (window s mx f) stk = dots_fun out True (window s mx (f + 2)) stk"
        using one go rds dot unfolding step by simp
      have loop: "dots_loop b mx t f segs ls = dots_loop b mx t (f + 2) segs ls"
        using one go by (simp add: unf)
      have "f + 2 < mx \<longrightarrow> True = (f + 2 = 0 \<or> rd s (f + 2 - 1) = CHR ''/'')"
        using one rds by auto
      with one dots_rep_skip [OF rep, of 2] show ?thesis
        unfolding fn loop by (intro "1.IH"(1) [OF go]) auto
    next
      case two
      have fn: "dots_fun out st (window s mx f) stk = (if 2 \<le> length stk
          then dots_fun (take (stk ! 1) out) True (window s mx (f + 3)) (tl stk) else None)"
      proof -
        have "rd s f = CHR ''.''" "st" "rd s (f + 1) = CHR ''.''" "f + 1 \<noteq> mx"
          "f + 2 = mx \<or> rd s (f + 2) = CHR ''/''"
          using two rds dot by metis+
        then show ?thesis unfolding step by simp
      qed
      have loop: "dots_loop b mx t f segs ls =
          (if ls > 0 then dots_loop b mx (segs ! nat (ls - 1)) (f + 3) segs (ls - 1) else Inl b)"
        using two go by (simp add: unf)
      have "f + 3 < mx \<longrightarrow> True = (f + 3 = 0 \<or> rd s (f + 3 - 1) = CHR ''/'')"
        using two rds by auto
      then show ?thesis
      proof (cases "2 \<le> length stk")
        case True
        with two dots_rep_pop [OF rep True \<open>f < mx\<close>] \<open>f + 3 < mx \<longrightarrow> _\<close> show ?thesis
          unfolding fn loop by (simp only: if_True) (intro "1.IH"(2) [OF go], auto)
      next
        case False
        then have "\<not> ls > 0" using rep by (simp add: dots_rep_def)
        then show ?thesis using False fn loop by simp
      qed
    next
      case copy
      have fn: "dots_fun out st (window s mx f) stk =
          dots_fun (out @ [rd s f]) (rd s f = CHR ''/'') (window s mx (f + 1))
             (if rd s f = CHR ''/'' then Suc (length out) # stk else stk)"
        using copy go rds dot unfolding step by auto
      have rep1: "dots_rep s mx (b[t := rd b f]) (t + 1) (f + 1) segs ls (out @ [rd s f]) stk"
        by (rule dots_rep_copy [OF rep \<open>f < mx\<close>])
      have "length stk \<le> f" "length out = t" using rep mx by (auto simp: dots_rep_def)
      note rep2 = dots_rep_push [OF rep1 \<open>f < mx\<close> this(1)]
      show ?thesis
      proof (cases "rd b f = CHR ''/''")
        case True
        have loop: "dots_loop b mx t f segs ls = dots_loop (b[t := rd b f]) mx (t + 1) (f + 1)
            (segs[nat (ls + 1) := t + 1]) (ls + 1)"
          using copy go True unfolding unf by (simp only: if_True if_False conj_assoc simp_thms)
        have fn': "dots_fun out st (window s mx f) stk =
            dots_fun (out @ [rd s f]) True (window s mx (f + 1)) ((t + 1) # stk)"
          using True rds \<open>length out = t\<close> by (simp add: fn)
        show ?thesis
          unfolding fn' loop by (intro "1.IH"(3) [OF go]) (use copy True rep2 rds in auto)
      next
        case False
        have loop: "dots_loop b mx t f segs ls =
            dots_loop (b[t := rd b f]) mx (t + 1) (f + 1) segs ls"
          using copy go False unfolding unf by (simp only: if_True if_False conj_assoc simp_thms)
        have fn': "dots_fun out st (window s mx f) stk =
            dots_fun (out @ [rd s f]) False (window s mx (f + 1)) stk"
          using False rds by (simp add: fn)
        show ?thesis
          unfolding fn' loop by (intro "1.IH"(4) [OF go]) (use copy False rep1 rds in auto)
      qed
    qed
  qed
qed

lemma copy_loop_eq:
  assumes "t \<le> f" and "f + n \<le> length b"
  shows "\<exists>b'. copy_loop b t f n = (b', t + n) \<and> length b' = length b \<and>
           take (t + n) b' = take t b @ take n (drop f b)"
  using assms
proof (induction n arbitrary: b t f)
  case (Suc n)
  let ?b = "b[t := rd b f]"
  obtain b' where b': "copy_loop ?b (Suc t) (Suc f) n = (b', Suc t + n)" "length b' = length b"
    "take (Suc t + n) b' = take (Suc t) ?b @ take n (drop (Suc f) ?b)"
    using Suc.IH [of "Suc t" "Suc f" ?b] Suc.prems by auto
  have "take (Suc t) ?b = take t b @ [b ! f]"
    using Suc.prems by (simp add: take_Suc_conv_app_nth rd_nth)
  moreover have "drop (Suc f) ?b = drop (Suc f) b" using Suc.prems by simp
  moreover have "drop f b = b ! f # drop (Suc f) b"
    using Suc.prems by (simp add: Cons_nth_drop_Suc)
  ultimately show ?case using b' by simp
qed simp

text \<open>The buffer version computes the string version.\<close>

lemma remove_dots_eq:
  assumes A: "grants A (8 * length s)" and s: "s \<noteq> []"
  shows "case dots_fun [] True s [] of
      None \<Rightarrow> \<exists>b. remove_dots A (s @ [NUL]) (length s) = Some (UPNP_E_INVALID_URL, b)
    | Some r \<Rightarrow> \<exists>b. remove_dots A (s @ [NUL]) (length s) = Some (UPNP_E_SUCCESS, b) \<and>
        length r \<le> length s \<and> take (length r) b = r \<and> b ! length r = NUL \<and>
        length b = Suc (length s)"
proof -
  let ?n = "length s" and ?b = "s @ [NUL]"
  have rep: "dots_rep ?b ?n ?b 0 0 (replicate ?n 0) (-1) [] []"
    by (simp add: dots_rep_def)
  have win: "window ?b ?n 0 = s" by (simp add: window_def)
  note sim = dots_loop_sim [OF rep, of True, unfolded win]
  show ?thesis
  proof (cases "dots_loop ?b ?n 0 0 (replicate ?n 0) (-1)")
    case (Inl b1)
    with sim A s show ?thesis by (simp add: remove_dots_def)
  next
    case (Inr res)
    then obtain b1 t1 f1 where res: "dots_loop ?b ?n 0 0 (replicate ?n 0) (-1) = Inr (b1, t1, f1)"
      by (cases res) auto
    with sim obtain out1 segs1 ls1 stk1 where rep1: "dots_rep ?b ?n b1 t1 f1 segs1 ls1 out1 stk1"
      and fn: "dots_fun [] True s [] = Some (out1 @ window ?b ?n f1)"
      by auto
    have inv: "t1 \<le> f1" "t1 \<le> ?n" "take t1 b1 = out1" "length b1 = Suc ?n"
      using rep1 by (auto simp: dots_rep_def)
    have win1: "take (?n - f1) (drop f1 b1) = window ?b ?n f1"
    proof (rule nth_equalityI)
      fix i assume "i < length (take (?n - f1) (drop f1 b1))"
      then have "f1 + i < ?n" by auto
      then show "take (?n - f1) (drop f1 b1) ! i = window ?b ?n f1 ! i"
        using dots_rep_read [OF rep1, of "f1 + i"] inv by (simp add: window_def rd_def nth_append)
    qed (simp add: window_def inv)
    have "f1 + (?n - f1) \<le> length b1 \<or> ?n - f1 = 0" using inv by auto
    then obtain b2 where b2: "copy_loop b1 t1 f1 (?n - f1) = (b2, t1 + (?n - f1))"
      "length b2 = Suc ?n" "take (t1 + (?n - f1)) b2 = out1 @ window ?b ?n f1"
      using copy_loop_eq [of t1 f1 "?n - f1" b1] inv win1 by (cases "?n - f1 = 0") auto
    have len: "length (out1 @ window ?b ?n f1) = t1 + (?n - f1)" "t1 + (?n - f1) \<le> ?n"
      using inv by (auto simp: window_def)
    let ?r = "out1 @ window ?b ?n f1"
    have "remove_dots A ?b ?n = Some (UPNP_E_SUCCESS, b2[length ?r := NUL])"
      using res b2 A s len(1) by (simp add: remove_dots_def)
    moreover have "take (length ?r) (b2[length ?r := NUL]) = ?r"
      using b2(3) len(1) by simp
    ultimately show ?thesis using fn len b2(2) by simp
  qed
qed

subsection \<open>Dot removal as a stack of segments\<close>

text \<open>
  The reference: the path, cut at the slashes, is pushed segment by segment on a stack; a dot
  segment is dropped and a double dot takes back one segment, which needs a segment below it.
  A last segment that is cut short by a query or a fragment is kept as it is.
\<close>

definition plain :: "c_string \<Rightarrow> bool" where
  "plain s \<longleftrightarrow> CHR ''/'' \<notin> set s \<and> CHR ''?'' \<notin> set s \<and> CHR ''#'' \<notin> set s"

definition flat :: "c_string list \<Rightarrow> c_string" where
  "flat stk = concat (map (\<lambda>s. s @ ''/'') (rev stk))"

fun resolve_segs :: "c_string list \<Rightarrow> c_string \<Rightarrow> c_string list \<Rightarrow> c_string option" where
  "resolve_segs [] tail stk = Some (flat stk @ tail)"
| "resolve_segs [s] tail stk =
     (if tail = [] \<and> s = ''.'' then Some (flat stk)
      else if tail = [] \<and> s = ''..'' then
        (if 2 \<le> length stk then Some (flat (tl stk)) else None)
      else Some (flat stk @ s @ tail))"
| "resolve_segs (s # ss) tail stk =
     (if s = ''.'' then resolve_segs ss tail stk
      else if s = ''..'' then (if 2 \<le> length stk then resolve_segs ss tail (tl stk) else None)
      else resolve_segs ss tail (s # stk))"

fun join :: "c_string list \<Rightarrow> c_string" where
  "join [] = []"
| "join [s] = s"
| "join (s # ss) = s @ ''/'' @ join ss"

definition query_tail :: "c_string \<Rightarrow> bool" where
  "query_tail t \<longleftrightarrow> t = [] \<or> hd t = CHR ''?'' \<or> hd t = CHR ''#''"

fun lens :: "c_string list \<Rightarrow> nat list" where
  "lens [] = []"
| "lens (s # stk) = length (flat (s # stk)) # lens stk"

lemma flat_Nil [simp]: "flat [] = []"
  by (simp add: flat_def)

lemma flat_Cons [simp]: "flat (s # stk) = flat stk @ s @ ''/''"
  by (simp add: flat_def)

lemma length_lens [simp]: "length (lens stk) = length stk"
  by (induction stk) auto

lemma plain_simps [simp]:
  "plain []" "plain (c # s) \<longleftrightarrow> c \<noteq> CHR ''/'' \<and> c \<noteq> CHR ''?'' \<and> c \<noteq> CHR ''#'' \<and> plain s"
  by (auto simp: plain_def)

lemma dots_fun_inside:
  "plain s \<Longrightarrow> dots_fun out False (s @ rest) stk = dots_fun (out @ s) False rest stk"
  by (induction s arbitrary: out) auto

text \<open>A segment that is no dot segment is copied.\<close>

lemma dots_fun_segment:
  assumes "plain s" and "rest = [] \<or> hd rest \<in> {CHR ''/'', CHR ''?'', CHR ''#''}"
    and "\<not> (s = ''.'' \<and> (rest = [] \<or> hd rest = CHR ''/''))"
    and "\<not> (s = ''..'' \<and> (rest = [] \<or> hd rest = CHR ''/''))"
  shows "dots_fun out True (s @ rest) stk = dots_fun (out @ s) (s = []) rest stk"
proof (cases s)
  case (Cons c cs)
  have rd0: "rd (cs @ rest) 0 = (if cs = [] then rd rest 0 else cs ! 0)"
    by (cases cs) auto
  have head: "rd rest 0 = (if rest = [] then NUL else hd rest)" by (cases rest) auto
  have "\<not> (c = CHR ''.'' \<and> (cs @ rest = [] \<or> rd (cs @ rest) 0 = CHR ''/''))"
    using assms Cons rd0 head by (cases cs) auto
  moreover have "\<not> (c = CHR ''.'' \<and> rd (cs @ rest) 0 = CHR ''.'' \<and>
      (length (cs @ rest) = 1 \<or> rd (cs @ rest) 1 = CHR ''/''))"
  proof (cases cs)
    case Nil
    then show ?thesis using assms(2) head by auto
  next
    case (Cons d ds)
    then show ?thesis
      using assms \<open>s = c # cs\<close> head by (cases ds; cases rest) auto
  qed
  ultimately show ?thesis
    using assms(1) Cons dots_fun_inside [of cs "out @ [c]" rest stk] by auto
qed simp

lemma dots_fun_segs:
  assumes "\<forall>s \<in> set ss. plain s" and "query_tail tail" and "ss \<noteq> []"
  shows "dots_fun (flat stk) True (join ss @ tail) (lens stk) = resolve_segs ss tail stk"
  using assms
proof (induction ss tail stk rule: resolve_segs.induct)
  case (2 s tail stk)
  have tl2: "2 \<le> length stk \<Longrightarrow> take (lens stk ! 1) (flat stk) = flat (tl stk)"
    by (cases stk; cases "tl stk") auto
  have stop: "dots_fun o' b tail k = Some (o' @ tail)" for o' b k
    using 2 by (cases tail) (auto simp: query_tail_def)
  consider (one) "tail = []" "s = ''.''" | (two) "tail = []" "s = ''..''"
    | (other) "\<not> (tail = [] \<and> (s = ''.'' \<or> s = ''..''))" by blast
  then show ?case
  proof cases
    case other
    have "tail = [] \<or> hd tail \<in> {CHR ''/'', CHR ''?'', CHR ''#''}" "tail \<noteq> [] \<Longrightarrow> hd tail \<noteq> CHR ''/''"
      using 2 by (auto simp: query_tail_def)
    then show ?thesis
      using other 2 dots_fun_segment [of s tail "flat stk" "lens stk"] stop by auto
  qed (use tl2 in auto)
next
  case (3 s s' ss tail stk)
  have tl2: "2 \<le> length stk \<Longrightarrow> take (lens stk ! 1) (flat stk) = flat (tl stk) \<and>
      tl (lens stk) = lens (tl stk)"
    by (cases stk; cases "tl stk") auto
  let ?rest = "CHR ''/'' # join (s' # ss) @ tail"
  have join: "join (s # s' # ss) @ tail = s @ ?rest" by simp
  consider (one) "s = ''.''" | (two) "s = ''..''" | (other) "s \<noteq> ''.''" "s \<noteq> ''..''" by blast
  then show ?case
  proof cases
    case one
    then show ?thesis using 3 by simp
  next
    case two
    then show ?thesis using 3 tl2 by (simp add: numeral_2_eq_2)
  next
    case other
    have "dots_fun (flat stk) True (s @ ?rest) (lens stk) =
        dots_fun (flat stk @ s) (s = []) ?rest (lens stk)"
      using 3 other by (intro dots_fun_segment) auto
    also have "\<dots> = dots_fun (flat (s # stk)) True (join (s' # ss) @ tail) (lens (s # stk))"
      by simp
    finally show ?thesis using 3 other unfolding join by simp
  qed
qed simp

fun split_slash :: "c_string \<Rightarrow> c_string list" where
  "split_slash [] = [[]]"
| "split_slash (c # cs) =
     (if c = CHR ''/'' then [] # split_slash cs
      else (c # hd (split_slash cs)) # tl (split_slash cs))"

definition path_part :: "c_string \<Rightarrow> c_string" where
  "path_part s = takeWhile (\<lambda>c. c \<noteq> CHR ''?'' \<and> c \<noteq> CHR ''#'') s"

definition tail_part :: "c_string \<Rightarrow> c_string" where
  "tail_part s = dropWhile (\<lambda>c. c \<noteq> CHR ''?'' \<and> c \<noteq> CHR ''#'') s"

definition normalised :: "c_string \<Rightarrow> c_string option" where
  "normalised s = resolve_segs (split_slash (path_part s)) (tail_part s) []"

lemma split_slash_nonempty [simp]: "split_slash s \<noteq> []"
  by (cases s) auto

lemma join_Cons: "ss \<noteq> [] \<Longrightarrow> join (s # ss) = s @ ''/'' @ join ss"
  by (cases ss) auto

lemma join_split_slash: "join (split_slash s) = s"
proof (induction s)
  case (Cons c cs)
  show ?case
  proof (cases "c = CHR ''/''")
    case False
    obtain x xs where "split_slash cs = x # xs" by (cases "split_slash cs") auto
    with Cons False show ?thesis by (cases xs) auto
  qed (use Cons in \<open>simp add: join_Cons\<close>)
qed simp

lemma split_slash_plain:
  "CHR ''?'' \<notin> set s \<Longrightarrow> CHR ''#'' \<notin> set s \<Longrightarrow> \<forall>x \<in> set (split_slash s). plain x"
proof (induction s)
  case (Cons c cs)
  obtain x xs where "split_slash cs = x # xs" by (cases "split_slash cs") auto
  with Cons show ?case by auto
qed simp

lemma split_slash_join:
  "ss \<noteq> [] \<Longrightarrow> \<forall>s \<in> set ss. CHR ''/'' \<notin> set s \<Longrightarrow> split_slash (join ss) = ss"
proof (induction ss rule: join.induct)
  case (2 s)
  then show ?case by (induction s) auto
next
  case (3 s s' ss)
  then have "split_slash (join (s' # ss)) = s' # ss" by auto
  moreover have "split_slash (s @ CHR ''/'' # r) = s # split_slash r" if "CHR ''/'' \<notin> set s" for r s
    using that by (induction s) auto
  ultimately show ?case using 3 by auto
qed simp

lemma dots_fun_normalised: "dots_fun [] True s [] = normalised s"
proof -
  have "s = path_part s @ tail_part s" by (simp add: path_part_def tail_part_def)
  moreover have "\<forall>x \<in> set (split_slash (path_part s)). plain x"
    by (rule split_slash_plain) (auto simp: path_part_def dest: set_takeWhileD)
  moreover have "query_tail (tail_part s)"
    using hd_dropWhile [of "\<lambda>c. c \<noteq> CHR ''?'' \<and> c \<noteq> CHR ''#''" s]
    by (auto simp: query_tail_def tail_part_def)
  ultimately show ?thesis
    using dots_fun_segs [of "split_slash (path_part s)" "tail_part s" "[]"]
    by (simp add: normalised_def join_split_slash)
qed

lemma dots_fun_set: "dots_fun out st rest stk = Some r \<Longrightarrow> set r \<subseteq> set out \<union> set rest"
proof (induction out st rest stk rule: dots_fun.induct)
  case (2 out st c cs stk)
  then show ?case
    by (auto split: if_splits dest!: in_set_takeD in_set_dropD)
qed auto

definition c_str :: "c_block \<Rightarrow> c_string" where
  "c_str b = takeWhile (\<lambda>c. c \<noteq> NUL) b"

lemma c_str_eq:
  assumes "take n b = r" and "n < length b" and "b ! n = NUL" and "no_nul r" and "length r = n"
  shows "c_str b = r"
proof -
  have "b = r @ NUL # drop (Suc n) b"
    using assms by (metis append_take_drop_id Cons_nth_drop_Suc)
  then have "c_str b = c_str (r @ NUL # drop (Suc n) b)" by simp
  also have "\<dots> = r"
    using assms(4) by (auto simp: c_str_def no_nul_def takeWhile_append)
  finally show ?thesis .
qed

text \<open>The segments of a normalised path without query are no dot segments.\<close>

lemma split_slash_flat:
  assumes "\<forall>s \<in> set stk. CHR ''/'' \<notin> set s" and "CHR ''/'' \<notin> set s"
  shows "split_slash (flat stk @ s) = rev stk @ [s]"
proof -
  have "concat (map (\<lambda>x. x @ ''/'') xs) @ s = join (xs @ [s])" for xs
    by (induction xs) (auto simp: join_Cons)
  then have "flat stk @ s = join (rev stk @ [s])" by (simp add: flat_def)
  then show ?thesis using assms by (simp add: split_slash_join)
qed

definition no_dot_segment :: "c_string \<Rightarrow> bool" where
  "no_dot_segment r \<longleftrightarrow> ''.'' \<notin> set (split_slash r) \<and> ''..'' \<notin> set (split_slash r)"

lemma resolve_segs_no_dots:
  assumes "resolve_segs ss [] stk = Some r"
    and "\<forall>s \<in> set ss. CHR ''/'' \<notin> set s" and "\<forall>s \<in> set stk. CHR ''/'' \<notin> set s"
    and "''.'' \<notin> set stk \<and> ''..'' \<notin> set stk"
  shows "no_dot_segment r"
  using assms
proof (induction ss "[] :: c_string" stk rule: resolve_segs.induct)
  case (1 stk)
  then show ?case using split_slash_flat [of stk "[]"] by (auto simp: no_dot_segment_def)
next
  case (2 s stk)
  have tl: "\<forall>s \<in> set (tl stk). CHR ''/'' \<notin> set s" "''.'' \<notin> set (tl stk) \<and> ''..'' \<notin> set (tl stk)"
    using 2 by (cases stk; auto)+
  consider "s = ''.''" | "s = ''..''" | "s \<noteq> ''.''" "s \<noteq> ''..''" by blast
  then show ?case
    using 2 tl split_slash_flat [of stk "[]"] split_slash_flat [of "tl stk" "[]"]
      split_slash_flat [of stk s]
    by cases (auto simp: no_dot_segment_def split: if_splits)
next
  case (3 s s' ss stk)
  have tl: "\<forall>s \<in> set (tl stk). CHR ''/'' \<notin> set s" "''.'' \<notin> set (tl stk) \<and> ''..'' \<notin> set (tl stk)"
    using 3 by (cases stk; auto)+
  consider "s = ''.''" | "s = ''..''" | "s \<noteq> ''.''" "s \<noteq> ''..''" by blast
  then show ?case
  proof cases
    case 2
    with 3 have "2 \<le> length stk" "resolve_segs (s' # ss) [] (tl stk) = Some r"
      by (auto split: if_splits)
    with 2 3 tl show ?thesis by simp
  qed (use 3 in auto)
qed

subsection \<open>A parsed URI splits its text\<close>

lemma scheme_loop_bound:
  "scheme_loop s i n = Some j \<Longrightarrow> i \<le> j \<and> j \<le> i + n \<and> (j < i + n \<longrightarrow> rd s j = CHR '':'')"
  by (induction n arbitrary: i) (fastforce split: if_splits)+

lemma parse_scheme_nonzero:
  "parse_scheme p mx = (n, t) \<Longrightarrow> n \<noteq> 0 \<Longrightarrow>
     n < mx \<and> rd (snd p) n = CHR '':'' \<and> t = \<lparr>tk_buff = fst p, tk_size = n\<rparr>"
  using scheme_loop_bound [of "snd p" 1 "mx - 1"]
  by (auto simp: parse_scheme_def split: if_splits option.splits)

lemma uric_loop_bound: "uric_loop s mx i n \<le> i + n"
proof (induction n arbitrary: i)
  case (Suc n)
  then show ?case using Suc.IH [of "Suc i"] by auto
qed simp

lemma parse_uric_spec:
  "parse_uric p mx = (n, t) \<Longrightarrow> n \<le> mx \<and> t = \<lparr>tk_buff = fst p, tk_size = n\<rparr>"
  using uric_loop_bound [of "snd p" mx 0 mx] by (auto simp: parse_uric_def Let_def)

lemma port_loop_bound: "port_loop s i n temp = (j, v) \<Longrightarrow> i \<le> j \<and> j \<le> i + n"
  by (induction n arbitrary: i temp) (fastforce split: if_splits)+

lemma host_loop_bound: "host_loop s i l n = (j, d) \<Longrightarrow> j \<le> i + n"
  by (induction n arbitrary: i l) (fastforce split: if_splits)+

lemma parse_hostport_spec:
  assumes "parse_hostport R A p mx out = (n, hp)" and "n \<ge> 0"
  shows "nat n \<le> mx \<and> hp_text hp = \<lparr>tk_buff = fst p, tk_size = nat n\<rparr>"
proof -
  obtain hs ld where host: "host_loop (snd p) 0 (-1) mx = (hs, ld)" by fastforce
  obtain d port where port: "parse_port (mx - (hs + 1)) (drop (hs + 1) (snd p)) = (d, port)"
    by fastforce
  have "hs \<le> mx" using host_loop_bound [OF host] by simp
  moreover have "d \<le> mx - (hs + 1)"
    using port port_loop_bound [of "drop (hs + 1) (snd p)" 0 "mx - (hs + 1)" 0]
    by (auto simp: parse_port_def split: prod.splits)
  ultimately show ?thesis
    using assms unfolding parse_hostport_def Let_def host prod.case port
    by (auto split: if_splits prod.splits)
qed

text \<open>Cutting a piece out of the text.\<close>

definition cut :: "c_string \<Rightarrow> nat \<Rightarrow> nat \<Rightarrow> c_string" where
  "cut s off n = take n (drop off s)"

lemma take_cut: "take (off + n) s = take off s @ cut s off n"
  by (simp add: cut_def take_add)

lemma take_rd: "k < length s \<Longrightarrow> take (k + 1) s = take k s @ [rd s k]"
  by (simp add: take_Suc_conv_app_nth rd_nth)

lemma tok_text_cut:
  "tok_text p \<lparr>tk_buff = fst (advance p off), tk_size = n\<rparr> = cut (snd p) off n"
  by (simp add: tok_text_def cut_def advance_def)

text \<open>The text that a parsed URI describes, from its type and tokens.\<close>

definition uri_text :: "c_ptr \<Rightarrow> uri_type \<Rightarrow> c_string" where
  "uri_text p u =
     (if uri_ty u = ABSOLUTE then tok_text p (uri_scheme u) @ '':'' else []) @
     (if tk_buff (hp_text (uri_hostport u)) \<noteq> 0
      then ''//'' @ tok_text p (hp_text (uri_hostport u)) else []) @
     tok_text p (uri_pathquery u) @
     (if tk_buff (uri_fragment u) \<noteq> 0 then ''#'' @ tok_text p (uri_fragment u) else [])"

lemma parse_uri_tail_text:
  assumes p: "fst p > 0" and mx: "mx \<le> length (snd p)" and bp: "bp \<le> mx"
    and u: "u = parse_uri_tail p mx bp out"
  shows "\<exists>e. e \<le> mx \<and> take e (snd p) = take bp (snd p) @ tok_text p (uri_pathquery u) @
      (if tk_buff (uri_fragment u) \<noteq> 0 then ''#'' @ tok_text p (uri_fragment u) else [])"
    and "uri_ty u = uri_ty out" and "uri_scheme u = uri_scheme out"
    and "uri_hostport u = uri_hostport out"
proof -
  obtain n pq where pq: "parse_uric (advance p bp) (mx - bp) = (n, pq)" by fastforce
  obtain m fr where fr: "parse_uric (advance p (n + bp + 1)) (mx - (n + bp + 1)) = (m, fr)"
    by fastforce
  have n: "n \<le> mx - bp" "tok_text p pq = cut (snd p) bp n"
    using parse_uric_spec [OF pq] tok_text_cut by auto
  have m: "m \<le> mx - (n + bp + 1)" "tok_text p fr = cut (snd p) (n + bp + 1) m"
    "tk_buff fr \<noteq> 0"
    using parse_uric_spec [OF fr] tok_text_cut [of p "n + bp + 1" m] p by (auto simp: advance_def)
  have t1: "take (n + bp) (snd p) = take bp (snd p) @ tok_text p pq"
    using take_cut [of bp n "snd p"] n(2) by (simp add: add.commute)
  show "uri_ty u = uri_ty out" and "uri_scheme u = uri_scheme out"
    and "uri_hostport u = uri_hostport out"
    unfolding u parse_uri_tail_def by (simp_all add: Let_def split: prod.splits)
  show "\<exists>e. e \<le> mx \<and> take e (snd p) = take bp (snd p) @ tok_text p (uri_pathquery u) @
      (if tk_buff (uri_fragment u) \<noteq> 0 then ''#'' @ tok_text p (uri_fragment u) else [])"
  proof (cases "n + bp < mx \<and> rd (snd p) (n + bp) = CHR ''#''")
    case True
    then have "take (n + bp + 1 + m) (snd p) = take bp (snd p) @ tok_text p pq @ ''#'' @ tok_text p fr"
      using take_cut [of "n + bp + 1" m "snd p"] take_rd [of "n + bp" "snd p"] t1 m(2) mx by simp
    moreover have "n + bp + 1 + m \<le> mx" using True m(1) by linarith
    moreover have "uri_pathquery u = pq" "uri_fragment u = fr"
      using True pq fr by (simp_all add: u parse_uri_tail_def Let_def)
    ultimately show ?thesis using m(3) by (intro exI [of _ "n + bp + 1 + m"]) simp
  next
    case False
    moreover have "n + bp \<le> mx" using n(1) bp by simp
    moreover have "uri_pathquery u = pq" "uri_fragment u = NULL_token"
      using False pq by (auto simp: u parse_uri_tail_def Let_def)
    ultimately show ?thesis
      using t1 by (intro exI [of _ "n + bp"]) (simp add: NULL_token_def)
  qed
qed

lemma parse_uri_text:
  assumes p: "fst p > 0" and mx: "mx \<le> length (snd p)"
    and parse: "parse_uri R A p mx out = (1, u)"
  shows "\<exists>rest. take mx (snd p) = uri_text p u @ rest"
    and "tk_size (hp_text (uri_hostport u)) > 0 \<Longrightarrow> tk_buff (hp_text (uri_hostport u)) \<noteq> 0"
proof -
  let ?s = "snd p"
  obtain sz sch where sch: "parse_scheme p mx = (sz, sch)" by fastforce
  define bh where "bh = (if sz \<noteq> 0 then sz + 1 else 0)"
  define out1 where "out1 = (if sz \<noteq> 0
      then out\<lparr>uri_scheme := sch, uri_ty := ABSOLUTE, uri_path_type := OPAQUE_PART\<rparr>
      else out\<lparr>uri_scheme := sch, uri_ty := RELATIVE, uri_path_type := REL_PATH\<rparr>)"
  have bh: "bh \<le> mx" "take bh ?s =
      (if uri_ty out1 = ABSOLUTE then tok_text p (uri_scheme out1) @ '':'' else [])"
    using parse_scheme_nonzero [OF sch] mx take_rd [of sz ?s]
    by (auto simp: bh_def out1_def tok_text_def)
  let ?auth = "bh + 1 < mx \<and> rd ?s bh = CHR ''/'' \<and> rd ?s (bh + 1) = CHR ''/''"
  obtain bp out2 where u: "u = parse_uri_tail p mx bp out2" and bp: "bp \<le> mx"
    and same: "uri_ty out2 = uri_ty out1" "uri_scheme out2 = uri_scheme out1"
    and host: "take bp ?s = take bh ?s @ (if tk_buff (hp_text (uri_hostport out2)) \<noteq> 0
      then ''//'' @ tok_text p (hp_text (uri_hostport out2)) else [])"
    and nn: "tk_size (hp_text (uri_hostport out2)) > 0 \<Longrightarrow> tk_buff (hp_text (uri_hostport out2)) \<noteq> 0"
  proof (cases ?auth)
    case True
    obtain n hp where hp: "parse_hostport R A (advance p (bh + 2)) (mx - (bh + 2))
        (uri_hostport out1) = (n, hp)" by fastforce
    have n0: "n \<ge> 0" and u: "u = parse_uri_tail p mx (nat n + (bh + 2)) (out1\<lparr>uri_hostport := hp\<rparr>)"
      using parse True hp unfolding parse_uri_def sch Let_def prod.case bh_def [symmetric]
        out1_def [symmetric] by (auto split: if_splits)
    have spec: "nat n \<le> mx - (bh + 2)" "hp_text hp = \<lparr>tk_buff = fst (advance p (bh + 2)), tk_size = nat n\<rparr>"
      using parse_hostport_spec [OF hp n0] by auto
    have "take (bh + 2) ?s = take bh ?s @ ''//''"
      using take_rd [of bh ?s] take_rd [of "bh + 1" ?s] True mx by simp
    then have "take (nat n + (bh + 2)) ?s = take bh ?s @ ''//'' @ tok_text p (hp_text hp)"
      using take_cut [of "bh + 2" "nat n" ?s] tok_text_cut [of p "bh + 2" "nat n"] spec(2)
      by (simp add: add.commute)
    then show ?thesis
      using that [OF u] spec p True by (auto simp: advance_def)
  next
    case False
    define out2 where "out2 = out1\<lparr>uri_hostport := \<lparr>hp_text = NULL_token, hp_IPv4address =
        (hp_IPv4address (uri_hostport out1))\<lparr>sin_port := 0, sin_addr := 0\<rparr>\<rparr>\<rparr>"
    have "u = parse_uri_tail p mx bh out2"
      using parse False unfolding parse_uri_def sch Let_def prod.case bh_def [symmetric]
        out1_def [symmetric] out2_def [symmetric] by (auto split: if_splits)
    then show ?thesis
      using that [of bh out2] bh(1) by (simp add: out2_def NULL_token_def)
  qed
  obtain e where e: "e \<le> mx" "take e ?s = take bp ?s @ tok_text p (uri_pathquery u) @
      (if tk_buff (uri_fragment u) \<noteq> 0 then ''#'' @ tok_text p (uri_fragment u) else [])"
    using parse_uri_tail_text(1) [OF p mx bp u] by blast
  then have "take e ?s = uri_text p u"
    using host bh(2) same parse_uri_tail_text(2-4) [OF p mx bp u] by (simp add: uri_text_def)
  moreover have "take mx ?s = take e ?s @ drop e (take mx ?s)"
    using e(1) by (metis append_take_drop_id min.absorb1 take_take)
  ultimately show "\<exists>rest. take mx ?s = uri_text p u @ rest" by metis
  show "tk_size (hp_text (uri_hostport u)) > 0 \<Longrightarrow> tk_buff (hp_text (uri_hostport u)) \<noteq> 0"
    using nn parse_uri_tail_text(4) [OF p mx bp u] by simp
qed

subsection \<open>Ports\<close>

definition dec_value :: "c_string \<Rightarrow> nat" where
  "dec_value s = foldl (\<lambda>a c. 10 * a + (code c - 48)) 0 s"

lemma port_loop_value:
  assumes "port_loop s i n temp = (j, v)" and "i + n \<le> length s"
  shows "\<exists>k \<le> n. j = i + k \<and> (\<forall>c \<in> set (cut s i k). isdigit c) \<and> (k = n \<or> \<not> isdigit (rd s j)) \<and>
     v = foldl (\<lambda>a c. a * 10 + of_nat (code c - 48)) temp (cut s i k)"
  using assms
proof (induction n arbitrary: i temp)
  case (Suc n)
  show ?case
  proof (cases "isdigit (rd s i)")
    case True
    with Suc obtain k where k: "k \<le> n" "j = Suc i + k" "\<forall>c \<in> set (cut s (Suc i) k). isdigit c"
      "k = n \<or> \<not> isdigit (rd s j)" "v = foldl (\<lambda>a c. a * 10 + of_nat (code c - 48))
        (temp * 10 + of_nat (code (rd s i) - 48)) (cut s (Suc i) k)"
      by fastforce
    have "cut s i (Suc k) = rd s i # cut s (Suc i) k"
      using Suc.prems(2) by (simp add: cut_def rd_nth take_Suc_conv_app_nth flip: Cons_nth_drop_Suc)
    with k True show ?thesis by (intro exI [of _ "Suc k"]) auto
  qed (use Suc in \<open>auto simp: cut_def\<close>)
qed (auto simp: cut_def)

lemma foldl_of_nat:
  "foldl (\<lambda>a c. a * 10 + of_nat (code c - 48)) (of_nat t) s =
     (of_nat (foldl (\<lambda>a c. 10 * a + (code c - 48)) t s) :: 16 word)"
proof (induction s arbitrary: t)
  case (Cons c s)
  have "(of_nat t * 10 + of_nat (code c - 48) :: 16 word) = of_nat (10 * t + (code c - 48))"
    by (simp add: algebra_simps)
  then show ?case using Cons by (simp only: foldl.simps)
qed simp

subsection \<open>The resolved URL fits its buffer\<close>

lemma merge_loop_bound:
  "last_slash \<le> length acc \<Longrightarrow> merge_loop cs acc last_slash = (acc', l) \<Longrightarrow>
     l \<le> length acc' \<and> length acc' \<le> length acc + length cs"
proof (induction cs acc last_slash rule: merge_loop.induct)
  case (2 c cs acc last_slash)
  show ?case
  proof (cases "c = CHR ''?''")
    case False
    then show ?thesis using 2 by (cases "c = CHR ''/''") fastforce+
  qed (use 2 in auto)
qed auto

lemma length_merge_path: "length (merge_path pq rel) \<le> max 1 (length pq) + length rel"
  using merge_loop_bound [of 0 "[]" "if pq = [] then ''/'' else pq"]
  by (auto simp: merge_path_def split: prod.splits)

lemma length_takeWhile_nul: "n < length b \<Longrightarrow> b ! n = NUL \<Longrightarrow> length (takeWhile (\<lambda>c. c \<noteq> NUL) b) \<le> n"
  by (metis (mono_tags, lifting) length_takeWhile_le linorder_not_le nth_mem set_takeWhileD
      takeWhile_nth)

lemma length_remove_dots:
  assumes "remove_dots A (s @ [NUL]) (length s) = Some (UPNP_E_SUCCESS, b)" and "s \<noteq> []"
  shows "length (takeWhile (\<lambda>c. c \<noteq> NUL) b) \<le> length s"
proof -
  have "grants A (8 * length s)" using assms by (auto simp: remove_dots_def split: if_splits)
  from remove_dots_eq [OF this assms(2)] assms obtain r :: c_string where
    "length r \<le> length s" "b ! length r = NUL" "length b = Suc (length s)"
    by (auto split: option.splits)
  then show ?thesis using length_takeWhile_nul [of "length r" b] by simp
qed

lemma length_tok_text: "length (tok_text p t) \<le> tk_size t"
  by (simp add: tok_text_def)

subsection \<open>Properties\<close>

text \<open>C29: unescaping in place decodes the first \<open>n\<close> bytes from left to right, each escape once,
  reports the decoded length, fills the freed positions with NUL and leaves the rest alone,
  when no escape runs over the end of those bytes.\<close>

theorem remove_escaped_chars_decodes:
  assumes "n \<le> length b" and "\<not> isxdigit (rd b n)"
  shows "remove_escaped_chars b (int n) =
     (UPNP_E_SUCCESS,
      unescape (take n b) @ replicate (n - length (unescape (take n b))) NUL @ drop n b,
      int (length (unescape (take n b))))"
  using remove_escaped_loop_eq [OF assms(1) _ assms(2), of 0]
  by (simp add: remove_escaped_chars_def Let_def)

theorem remove_escaped_chars_decodes_witness:
  "remove_escaped_chars ''/a%2541?'' 7 = (0, ''/a%41'' @ [NUL, NUL] @ ''?'', 5)"
proof -
  have "\<not> isxdigit (rd ''/a%2541?'' 7)" "unescape (take 7 ''/a%2541?'') = ''/a%41''"
    by code_simp+
  then show ?thesis
    using remove_escaped_chars_decodes [of 7 "''/a%2541?''"] by (simp add: numeral_2_eq_2)
qed

text \<open>C23: dot removal in place computes the path of the segment stack: it succeeds exactly when
  every double dot has a segment to take back, leaves that path as the C string in the buffer,
  and reports \<^verbatim>\<open>UPNP_E_INVALID_URL\<close> otherwise.\<close>

theorem remove_dots_normalises:
  assumes "grants A (8 * length s)" and "s \<noteq> []" and "no_nul s"
  shows "case normalised s of
      None \<Rightarrow> \<exists>b. remove_dots A (s @ [NUL]) (length s) = Some (UPNP_E_INVALID_URL, b)
    | Some r \<Rightarrow> \<exists>b. remove_dots A (s @ [NUL]) (length s) = Some (UPNP_E_SUCCESS, b) \<and>
        length b = Suc (length s) \<and> c_str b = r"
proof (cases "normalised s")
  case None
  then show ?thesis
    using remove_dots_eq [OF assms(1,2)] by (simp add: dots_fun_normalised)
next
  case (Some r)
  then have "no_nul r"
    using assms(3) dots_fun_set [of "[]" True s "[]" r] by (auto simp: no_nul_def dots_fun_normalised)
  then show ?thesis
    using Some remove_dots_eq [OF assms(1,2)] c_str_eq [of "length r" _ r]
    by (fastforce simp: dots_fun_normalised)
qed

theorem remove_dots_normalises_witness:
  "\<exists>b. remove_dots all_granted (''/./hello/foo/../goodbye'' @ [NUL])
     (length ''/./hello/foo/../goodbye'') = Some (0, b) \<and>
     c_str b = ''/hello/goodbye''"
proof -
  have "grants all_granted (8 * length ''/./hello/foo/../goodbye'')"
    by (simp add: grants_def all_granted_def)
  moreover have "no_nul ''/./hello/foo/../goodbye''" by simp
  moreover have "normalised ''/./hello/foo/../goodbye'' = Some ''/hello/goodbye''" by code_simp
  ultimately show ?thesis
    using remove_dots_normalises [of all_granted "''/./hello/foo/../goodbye''"] by auto
qed




definition blank_uri :: uri_type where
  "blank_uri = \<lparr>uri_ty = RELATIVE, uri_scheme = NULL_token, uri_path_type = REL_PATH,
     uri_pathquery = NULL_token, uri_fragment = NULL_token,
     uri_hostport = \<lparr>hp_text = NULL_token,
       hp_IPv4address = \<lparr>sin_family = 0, sin_port = 0, sin_addr = 0\<rparr>\<rparr>\<rparr>"

text \<open>A resolver that knows one host and no dotted address.\<close>

definition one_host :: resolver where
  "one_host = \<lparr>inet_pton4 = (\<lambda>_. None),
     gethostbyname_r = (\<lambda>h. if h = ''tomb'' then (0, Some \<lparr>h_addrtype_inet = True, h_length = 4,
        h_addr = 2130706433\<rparr>) else (1, None))\<rparr>"


text \<open>The port of a URL is read from the longest run of digits, and its value is that of the
  digits modulo 65536, in network byte order.\<close>

theorem parse_port_value:
  assumes "mx \<le> length s"
  shows "\<exists>n \<le> mx. parse_port mx s = (n, htons (of_nat (dec_value (take n s)))) \<and>
     (\<forall>c \<in> set (take n s). isdigit c) \<and> (n = mx \<or> \<not> isdigit (rd s n))"
proof -
  obtain j v where run: "port_loop s 0 mx 0 = (j, v)" by fastforce
  from port_loop_value [OF this] assms have j: "j \<le> mx" "\<forall>c \<in> set (take j s). isdigit c"
    "j = mx \<or> \<not> isdigit (rd s j)"
    "v = foldl (\<lambda>a c. a * 10 + of_nat (code c - 48)) 0 (take j s)"
    by (auto simp: cut_def)
  then have "v = of_nat (dec_value (take j s))"
    using foldl_of_nat [of 0 "take j s"] by (simp add: dec_value_def)
  with j run show ?thesis by (auto simp: parse_port_def)
qed

theorem parse_port_value_witness:
  "parse_port 5 ''65616/'' = (5, htons 80) \<and>
   (\<exists>n \<le> 5. parse_port 5 ''65616/'' = (n, htons (of_nat (dec_value (take n ''65616/'')))) \<and>
      (\<forall>c \<in> set (take n ''65616/''). isdigit c) \<and> (n = 5 \<or> \<not> isdigit (rd ''65616/'' n)))"
proof -
  have "parse_port 5 ''65616/'' = (5, htons 80)" by code_simp
  then show ?thesis using parse_port_value [of 5 "''65616/''"] by simp
qed



end
