(* ===== verification/FreeList.thy ===== *)
theory FreeList
  imports Prelude
begin

section \<open>Free lists (threadutil/src/FreeList.c)\<close>

text \<open>
  A free list keeps a bounded number of returned memory cells for reuse. Cells are named by
  their address (a natural number); the link that the code stores in the first word of a free
  cell is the map \<open>fl_next\<close>. What \<^verbatim>\<open>malloc\<close> answers is an argument of the allocation
  (\<^term>\<open>None\<close> for NULL); freeing returns the address that goes back to the system, if one does.
  A NULL or dangling link is a fault. The locale \<open>cell_pool\<close> is the contract that the clients
  rely on: a cell is handed out only when it is in the pool or fresh, and it then leaves the
  pool; a returned cell is in the pool or goes back to the system.
\<close>

record free_list =
  fl_head :: "nat option"
  fl_next :: "nat \<rightharpoonup> nat option"
  fl_element_size :: nat
  fl_maxFreeListLength :: int
  fl_freeListLength :: int

definition FreeListInit :: "nat \<Rightarrow> int \<Rightarrow> int \<times> free_list" where
  "FreeListInit elementSize maxFreeListLength =
     (0, \<lparr>fl_head = None, fl_next = Map.empty, fl_element_size = elementSize,
          fl_maxFreeListLength = maxFreeListLength, fl_freeListLength = 0\<rparr>)"

definition FreeListAlloc :: "nat option \<Rightarrow> free_list \<Rightarrow> (nat option \<times> free_list) option" where
  "FreeListAlloc malloc fl =
     (case fl_head fl of
        Some a \<Rightarrow>
          do { nx \<leftarrow> fl_next fl a;
               Some (Some a, fl\<lparr>fl_head := nx, fl_next := (fl_next fl)(a := None),
                                 fl_freeListLength := fl_freeListLength fl - 1\<rparr>) }
      | None \<Rightarrow> Some (malloc, fl))"

definition FreeListFree :: "nat option \<Rightarrow> free_list \<Rightarrow> int \<times> free_list \<times> nat option" where
  "FreeListFree element fl =
     (case element of
        Some a \<Rightarrow>
          if fl_freeListLength fl + 1 < fl_maxFreeListLength fl
          then (0, fl\<lparr>fl_freeListLength := fl_freeListLength fl + 1,
                      fl_next := (fl_next fl)(a \<mapsto> fl_head fl), fl_head := Some a\<rparr>, None)
          else (0, fl, Some a)
      | None \<Rightarrow> (0, fl, None))"

text \<open>The loop that releases every cell; the released addresses are collected.\<close>

partial_function (option) free_all ::
  "free_list \<Rightarrow> nat list \<Rightarrow> (free_list \<times> nat list) option" where
  "free_all fl released =
     (case fl_head fl of
        None \<Rightarrow> Some (fl, released)
      | Some a \<Rightarrow>
          do { temp \<leftarrow> fl_next fl a;
               free_all (fl\<lparr>fl_head := temp, fl_next := (fl_next fl)(a := None)\<rparr>)
                 (released @ [a]) })"

definition FreeListDestroy :: "free_list \<Rightarrow> (int \<times> free_list \<times> nat list) option" where
  "FreeListDestroy fl =
     do { (fl1, released) \<leftarrow> free_all fl [];
          Some (0, fl1\<lparr>fl_freeListLength := 0\<rparr>, released) }"

subsection \<open>Invariant: the links form a list of the recorded length\<close>

fun chain :: "(nat \<rightharpoonup> nat option) \<Rightarrow> nat option \<Rightarrow> nat list \<Rightarrow> bool" where
  "chain nx p [] \<longleftrightarrow> p = None"
| "chain nx p (a # as) \<longleftrightarrow> p = Some a \<and> (\<exists>q. nx a = Some q \<and> chain nx q as)"

definition pool :: "free_list \<Rightarrow> nat set" where
  "pool fl = dom (fl_next fl)"

definition fl_inv :: "free_list \<Rightarrow> bool" where
  "fl_inv fl \<longleftrightarrow> (\<exists>as. chain (fl_next fl) (fl_head fl) as \<and> distinct as \<and> set as = pool fl \<and>
     fl_freeListLength fl = int (length as) \<and>
     (as = [] \<or> fl_freeListLength fl < fl_maxFreeListLength fl))"

lemma chain_update: "a \<notin> set as \<Longrightarrow> chain (nx(a := v)) p as = chain nx p as"
  by (induction as arbitrary: p) auto

lemma fl_inv_init: "fl_inv (snd (FreeListInit n mx))" "pool (snd (FreeListInit n mx)) = {}"
  by (auto simp: fl_inv_def FreeListInit_def pool_def intro: exI [of _ "[]"])

lemma FreeListAlloc_cases:
  assumes "fl_inv fl"
  obtains (reuse) a fl' where "FreeListAlloc m fl = Some (Some a, fl')" "a \<in> pool fl"
      "pool fl' = pool fl - {a}" "fl_inv fl'"
      "fl_maxFreeListLength fl' = fl_maxFreeListLength fl"
    | (fresh) "FreeListAlloc m fl = Some (m, fl)" "pool fl = {}"
proof -
  from assms obtain as where as: "chain (fl_next fl) (fl_head fl) as" "distinct as"
    "set as = pool fl" "fl_freeListLength fl = int (length as)"
    "as = [] \<or> fl_freeListLength fl < fl_maxFreeListLength fl"
    by (auto simp: fl_inv_def)
  show thesis
  proof (cases as)
    case Nil
    with as show thesis using fresh by (simp add: FreeListAlloc_def)
  next
    case (Cons a bs)
    with as obtain q where q: "fl_head fl = Some a" "fl_next fl a = Some q" "chain (fl_next fl) q bs"
      by auto
    let ?fl = "fl\<lparr>fl_head := q, fl_next := (fl_next fl)(a := None),
                  fl_freeListLength := fl_freeListLength fl - 1\<rparr>"
    have "fl_inv ?fl" unfolding fl_inv_def
      using as Cons q by (intro exI [of _ bs]) (auto simp: chain_update pool_def)
    moreover have "pool ?fl = pool fl - {a}" using as Cons by (auto simp: pool_def)
    ultimately show thesis using reuse [of a ?fl] q as Cons by (auto simp: FreeListAlloc_def)
  qed
qed

lemma FreeListFree_spec:
  assumes inv: "fl_inv fl" and a: "a \<notin> pool fl" and run: "FreeListFree (Some a) fl = (rc, fl', out)"
  shows "rc = 0" and "fl_inv fl'" and "fl_maxFreeListLength fl' = fl_maxFreeListLength fl"
    and "out = None \<and> pool fl' = insert a (pool fl) \<or> out = Some a \<and> pool fl' = pool fl"
proof -
  from inv obtain as where as: "chain (fl_next fl) (fl_head fl) as" "distinct as"
    "set as = pool fl" "fl_freeListLength fl = int (length as)"
    "as = [] \<or> fl_freeListLength fl < fl_maxFreeListLength fl"
    by (auto simp: fl_inv_def)
  show "rc = 0" and "fl_maxFreeListLength fl' = fl_maxFreeListLength fl"
    and "out = None \<and> pool fl' = insert a (pool fl) \<or> out = Some a \<and> pool fl' = pool fl"
    using run by (auto simp: FreeListFree_def pool_def split: if_splits)
  show "fl_inv fl'"
  proof (cases "fl_freeListLength fl + 1 < fl_maxFreeListLength fl")
    case True
    then have fl': "fl' = fl\<lparr>fl_freeListLength := fl_freeListLength fl + 1,
        fl_next := (fl_next fl)(a \<mapsto> fl_head fl), fl_head := Some a\<rparr>"
      using run by (simp add: FreeListFree_def)
    show ?thesis unfolding fl_inv_def
      using as a True by (intro exI [of _ "a # as"]) (auto simp: fl' chain_update pool_def)
  qed (use run inv in \<open>simp add: FreeListFree_def\<close>)
qed

lemma free_all_spec:
  assumes "chain (fl_next fl) (fl_head fl) as" and "distinct as"
  shows "\<exists>nx. free_all fl rel = Some (fl\<lparr>fl_head := None, fl_next := nx\<rparr>, rel @ as) \<and>
           dom nx = dom (fl_next fl) - set as"
  using assms
proof (induction as arbitrary: fl rel)
  case Nil
  then show ?case
    by (intro exI [of _ "fl_next fl"]) (simp add: free_all.simps [of fl])
next
  case (Cons a as)
  then obtain q where q: "fl_head fl = Some a" "fl_next fl a = Some q" "chain (fl_next fl) q as"
    by auto
  let ?fl = "fl\<lparr>fl_head := q, fl_next := (fl_next fl)(a := None)\<rparr>"
  have "a \<notin> set as" "distinct as" using Cons.prems by auto
  moreover from this have "chain (fl_next ?fl) (fl_head ?fl) as"
    using q(3) by (simp add: chain_update del: fun_upd_apply)
  ultimately obtain nx where nx: "free_all ?fl (rel @ [a]) =
      Some (?fl\<lparr>fl_head := None, fl_next := nx\<rparr>, (rel @ [a]) @ as)"
    "dom nx = dom (fl_next ?fl) - set as"
    using Cons.IH [of ?fl "rel @ [a]"] by blast
  have "free_all fl rel = free_all ?fl (rel @ [a])"
    using q by (simp add: free_all.simps [of fl])
  then show ?case using nx by (intro exI [of _ nx]) auto
qed

subsection \<open>The contract of a pool of cells\<close>

locale cell_pool =
  fixes inv :: "'p \<Rightarrow> bool"
    and cells :: "'p \<Rightarrow> nat set"
    and alloc :: "nat option \<Rightarrow> 'p \<Rightarrow> (nat option \<times> 'p) option"
    and free :: "nat option \<Rightarrow> 'p \<Rightarrow> int \<times> 'p \<times> nat option"
  assumes alloc_law: "inv p \<Longrightarrow> \<exists>r p'. alloc m p = Some (r, p') \<and> inv p' \<and>
      (r = None \<and> m = None \<and> p' = p \<or>
       (\<exists>a. r = Some a \<and> (a \<in> cells p \<or> m = Some a) \<and> cells p' = cells p - {a}))"
    and free_law: "inv p \<Longrightarrow> a \<notin> cells p \<Longrightarrow> \<exists>p' out. free (Some a) p = (0, p', out) \<and> inv p' \<and>
      (out = None \<and> cells p' = insert a (cells p) \<or> out = Some a \<and> cells p' = cells p)"
begin

text \<open>A client that owns the cells \<open>live\<close>: what it is given is new to it.\<close>

lemma alloc_not_live:
  assumes "inv p" and "cells p \<inter> live = {}" and "\<forall>a. m = Some a \<longrightarrow> a \<notin> live \<union> cells p"
  obtains (ok) a p' where "alloc m p = Some (Some a, p')" "inv p'" "a \<notin> live"
      "cells p' \<inter> insert a live = {}" "a \<in> cells p \<or> m = Some a" "cells p' \<subseteq> cells p"
    | (out_of_memory) "alloc m p = Some (None, p)" "m = None"
  using alloc_law [OF assms(1), of m] assms(2,3) by blast

lemma free_not_live:
  assumes "inv p" and "cells p \<inter> live = {}" and "a \<in> live"
  obtains p' out where "free (Some a) p = (0, p', out)" "inv p'" "cells p' \<inter> (live - {a}) = {}"
  using free_law [of p a] assms by blast

end

interpretation fl: cell_pool fl_inv pool FreeListAlloc FreeListFree
proof
  fix p m
  assume "fl_inv p"
  then show "\<exists>r p'. FreeListAlloc m p = Some (r, p') \<and> fl_inv p' \<and>
      (r = None \<and> m = None \<and> p' = p \<or>
       (\<exists>a. r = Some a \<and> (a \<in> pool p \<or> m = Some a) \<and> pool p' = pool p - {a}))"
    by (rule FreeListAlloc_cases [of p m]; cases m) auto
next
  fix p a
  assume inv: "fl_inv p" and a: "a \<notin> pool p"
  obtain rc p' out where run: "FreeListFree (Some a) p = (rc, p', out)"
    by (cases "FreeListFree (Some a) p") auto
  from FreeListFree_spec [OF inv a run] run
  show "\<exists>p' out. FreeListFree (Some a) p = (0, p', out) \<and> fl_inv p' \<and>
      (out = None \<and> pool p' = insert a (pool p) \<or> out = Some a \<and> pool p' = pool p)"
    by auto
qed

end
