(* ===== verification/LinkedList.thy ===== *)
theory LinkedList
  imports FreeList
begin

section \<open>Doubly linked lists (threadutil/src/LinkedList.c)\<close>

text \<open>
  The list that holds HTTP headers, thread pool jobs, timer events and client subscriptions.
  The store maps node addresses to nodes; the two sentinels are part of the list struct, the
  other nodes are cells of the free list. Every assignment of the source is one update of the
  store, in its order; a NULL or dangling pointer is a fault. Items are opaque; freeing an
  item is recorded in the result. Each operation that allocates takes the answer of
  \<^verbatim>\<open>malloc\<close> as its first argument.

  The relation \<open>ll_rep\<close> says which sequence of cells and items a store represents. Each
  operation is shown to be the list operation it stands for and to keep the relation; the
  locale \<open>sequence_store\<close> is the contract the clients use.
\<close>

datatype lref = Head | Tail | Cell nat

record 'a lnode =
  ln_prev :: "lref option"
  ln_next :: "lref option"
  ln_item :: "'a option"

record 'a LinkedList =
  ll_nodes :: "lref \<rightharpoonup> 'a lnode"
  ll_size :: int
  ll_freeNodeList :: free_list
  ll_free_func :: bool
  ll_cmp_func :: "('a option \<Rightarrow> 'a option \<Rightarrow> bool) option"

definition set_next :: "'a LinkedList \<Rightarrow> lref \<Rightarrow> lref option \<Rightarrow> 'a LinkedList option" where
  "set_next l r v =
     do { n \<leftarrow> ll_nodes l r; Some (l\<lparr>ll_nodes := (ll_nodes l)(r \<mapsto> n\<lparr>ln_next := v\<rparr>)\<rparr>) }"

definition set_prev :: "'a LinkedList \<Rightarrow> lref \<Rightarrow> lref option \<Rightarrow> 'a LinkedList option" where
  "set_prev l r v =
     do { n \<leftarrow> ll_nodes l r; Some (l\<lparr>ll_nodes := (ll_nodes l)(r \<mapsto> n\<lparr>ln_prev := v\<rparr>)\<rparr>) }"

definition freeListNode :: "'a LinkedList \<Rightarrow> lref \<Rightarrow> (int \<times> 'a LinkedList) option" where
  "freeListNode l node =
     (case node of
        Cell a \<Rightarrow>
          (case FreeListFree (Some a) (ll_freeNodeList l) of
             (rc, fl, _) \<Rightarrow>
               Some (rc, l\<lparr>ll_freeNodeList := fl, ll_nodes := (ll_nodes l)(Cell a := None)\<rparr>))
      | _ \<Rightarrow> None)"

definition CreateListNode ::
  "nat option \<Rightarrow> 'a option \<Rightarrow> 'a LinkedList \<Rightarrow> (lref option \<times> 'a LinkedList) option" where
  "CreateListNode malloc item l =
     do { (temp, fl) \<leftarrow> FreeListAlloc malloc (ll_freeNodeList l);
          Some (case temp of
                  None \<Rightarrow> (None, l\<lparr>ll_freeNodeList := fl\<rparr>)
                | Some a \<Rightarrow>
                    (Some (Cell a),
                     l\<lparr>ll_freeNodeList := fl,
                       ll_nodes := (ll_nodes l)(Cell a \<mapsto>
                         \<lparr>ln_prev = None, ln_next = None, ln_item = item\<rparr>)\<rparr>)) }"

abbreviation (input) FREELISTSIZE :: int where "FREELISTSIZE \<equiv> 100"
abbreviation (input) sizeof_ListNode :: nat where "sizeof_ListNode \<equiv> 24"

definition ListInit ::
  "('a option \<Rightarrow> 'a option \<Rightarrow> bool) option \<Rightarrow> bool \<Rightarrow> int \<times> 'a LinkedList" where
  "ListInit cmp_func free_func =
     (case FreeListInit sizeof_ListNode FREELISTSIZE of
        (retCode, fl) \<Rightarrow>
          (0, \<lparr>ll_nodes = [Head \<mapsto> \<lparr>ln_prev = None, ln_next = Some Tail, ln_item = None\<rparr>,
                           Tail \<mapsto> \<lparr>ln_prev = Some Head, ln_next = None, ln_item = None\<rparr>],
               ll_size = 0, ll_freeNodeList = fl,
               ll_free_func = free_func, ll_cmp_func = cmp_func\<rparr>))"

definition ListAddAfter ::
  "nat option \<Rightarrow> 'a LinkedList \<Rightarrow> 'a option \<Rightarrow> lref option \<Rightarrow> (lref option \<times> 'a LinkedList) option"
where
  "ListAddAfter malloc l item bnode =
     (case bnode of
        None \<Rightarrow> Some (None, l)
      | Some b \<Rightarrow>
          do { (new, l1) \<leftarrow> CreateListNode malloc item l;
               case new of
                 None \<Rightarrow> Some (None, l1)
               | Some newNode \<Rightarrow>
                   do { bn \<leftarrow> ll_nodes l1 b;
                        let temp = ln_next bn;
                        l2 \<leftarrow> set_next l1 b (Some newNode);
                        l3 \<leftarrow> set_prev l2 newNode (Some b);
                        l4 \<leftarrow> set_next l3 newNode temp;
                        t \<leftarrow> temp;
                        l5 \<leftarrow> set_prev l4 t (Some newNode);
                        Some (Some newNode, l5\<lparr>ll_size := ll_size l5 + 1\<rparr>) } })"

definition ListAddBefore ::
  "nat option \<Rightarrow> 'a LinkedList \<Rightarrow> 'a option \<Rightarrow> lref option \<Rightarrow> (lref option \<times> 'a LinkedList) option"
where
  "ListAddBefore malloc l item anode =
     (case anode of
        None \<Rightarrow> Some (None, l)
      | Some a \<Rightarrow>
          do { (new, l1) \<leftarrow> CreateListNode malloc item l;
               case new of
                 None \<Rightarrow> Some (None, l1)
               | Some newNode \<Rightarrow>
                   do { an \<leftarrow> ll_nodes l1 a;
                        let temp = ln_prev an;
                        l2 \<leftarrow> set_prev l1 a (Some newNode);
                        l3 \<leftarrow> set_next l2 newNode (Some a);
                        l4 \<leftarrow> set_prev l3 newNode temp;
                        t \<leftarrow> temp;
                        l5 \<leftarrow> set_next l4 t (Some newNode);
                        Some (Some newNode, l5\<lparr>ll_size := ll_size l5 + 1\<rparr>) } })"

definition ListAddHead ::
  "nat option \<Rightarrow> 'a LinkedList \<Rightarrow> 'a option \<Rightarrow> (lref option \<times> 'a LinkedList) option" where
  "ListAddHead malloc l item = ListAddAfter malloc l item (Some Head)"

definition ListAddTail ::
  "nat option \<Rightarrow> 'a LinkedList \<Rightarrow> 'a option \<Rightarrow> (lref option \<times> 'a LinkedList) option" where
  "ListAddTail malloc l item = ListAddBefore malloc l item (Some Tail)"

text \<open>
  The result is the item (NULL once it has been freed), the list and the items handed to
  \<^verbatim>\<open>free_func\<close>. Deleting a sentinel trips the assertion.
\<close>

definition ListDelNode ::
  "'a LinkedList \<Rightarrow> lref option \<Rightarrow> bool \<Rightarrow> ('a option \<times> 'a LinkedList \<times> 'a option list) option"
where
  "ListDelNode l dnode freeItem =
     (case dnode of
        None \<Rightarrow> Some (None, l, [])
      | Some d \<Rightarrow>
          if d = Head \<or> d = Tail then None
          else
            do { n \<leftarrow> ll_nodes l d;
                 let temp = ln_item n;
                 p \<leftarrow> ln_prev n;
                 l1 \<leftarrow> set_next l p (ln_next n);
                 n1 \<leftarrow> ll_nodes l1 d;
                 x \<leftarrow> ln_next n1;
                 l2 \<leftarrow> set_prev l1 x (ln_prev n1);
                 (rc, l3) \<leftarrow> freeListNode l2 d;
                 let l4 = l3\<lparr>ll_size := ll_size l3 - 1\<rparr>;
                 Some (if freeItem \<and> ll_free_func l4 then (None, l4, [temp])
                       else (temp, l4, [])) })"

partial_function (option) destroy_loop ::
  "'a LinkedList \<Rightarrow> lref \<Rightarrow> bool \<Rightarrow> 'a option list \<Rightarrow> ('a LinkedList \<times> 'a option list) option" where
  "destroy_loop l dnode freeItem freed =
     (if dnode = Tail then Some (l, freed)
      else do { n \<leftarrow> ll_nodes l dnode;
                temp \<leftarrow> ln_next n;
                (_, l1, fr) \<leftarrow> ListDelNode l (Some dnode) freeItem;
                destroy_loop l1 temp freeItem (freed @ fr) })"

definition ListDestroy ::
  "'a LinkedList \<Rightarrow> bool \<Rightarrow> (int \<times> 'a LinkedList \<times> 'a option list) option" where
  "ListDestroy l freeItem =
     do { h \<leftarrow> ll_nodes l Head;
          first \<leftarrow> ln_next h;
          (l1, freed) \<leftarrow> destroy_loop l first freeItem [];
          (_, fl, _) \<leftarrow> FreeListDestroy (ll_freeNodeList l1);
          Some (0, l1\<lparr>ll_size := 0, ll_freeNodeList := fl\<rparr>, freed) }"

definition ListHead :: "'a LinkedList \<Rightarrow> lref option option" where
  "ListHead l =
     (if ll_size l = 0 then Some None
      else do { h \<leftarrow> ll_nodes l Head; Some (ln_next h) })"

definition ListTail :: "'a LinkedList \<Rightarrow> lref option option" where
  "ListTail l =
     (if ll_size l = 0 then Some None
      else do { t \<leftarrow> ll_nodes l Tail; Some (ln_prev t) })"

definition ListNext :: "'a LinkedList \<Rightarrow> lref \<Rightarrow> lref option option" where
  "ListNext l node =
     do { n \<leftarrow> ll_nodes l node;
          Some (if ln_next n = Some Tail then None else ln_next n) }"

definition ListPrev :: "'a LinkedList \<Rightarrow> lref \<Rightarrow> lref option option" where
  "ListPrev l node =
     do { n \<leftarrow> ll_nodes l node;
          Some (if ln_prev n = Some Head then None else ln_prev n) }"

partial_function (option) find_loop ::
  "'a LinkedList \<Rightarrow> lref \<Rightarrow> 'a option \<Rightarrow> lref option option" where
  "find_loop l finger item =
     (if finger = Tail then Some None
      else do { n \<leftarrow> ll_nodes l finger;
                if (case ll_cmp_func l of
                      Some cmp \<Rightarrow> cmp item (ln_item n)
                    | None \<Rightarrow> item = ln_item n)
                then Some (Some finger)
                else do { nx \<leftarrow> ln_next n; find_loop l nx item } })"

definition ListFind :: "'a LinkedList \<Rightarrow> lref option \<Rightarrow> 'a option \<Rightarrow> lref option option" where
  "ListFind l start item =
     do { s \<leftarrow> ll_nodes l (case start of None \<Rightarrow> Head | Some r \<Rightarrow> r);
          finger \<leftarrow> ln_next s;
          find_loop l finger item }"

definition ListSize :: "'a LinkedList \<Rightarrow> int" where
  "ListSize l = ll_size l"

subsection \<open>Doubly linked paths in the store\<close>

definition nxt :: "(lref \<rightharpoonup> 'a lnode) \<Rightarrow> lref \<Rightarrow> lref option" where
  "nxt h r = (case h r of None \<Rightarrow> None | Some n \<Rightarrow> ln_next n)"

definition prv :: "(lref \<rightharpoonup> 'a lnode) \<Rightarrow> lref \<Rightarrow> lref option" where
  "prv h r = (case h r of None \<Rightarrow> None | Some n \<Rightarrow> ln_prev n)"

definition itm :: "(lref \<rightharpoonup> 'a lnode) \<Rightarrow> lref \<Rightarrow> 'a option option" where
  "itm h r = map_option ln_item (h r)"

fun dll :: "(lref \<rightharpoonup> 'a lnode) \<Rightarrow> lref list \<Rightarrow> bool" where
  "dll h (x # y # rs) \<longleftrightarrow> nxt h x = Some y \<and> prv h y = Some x \<and> dll h (y # rs)"
| "dll h rs \<longleftrightarrow> True"

lemma dll_append:
  "dll h (xs @ x # y # ys) \<longleftrightarrow> dll h (xs @ [x]) \<and> nxt h x = Some y \<and> prv h y = Some x \<and> dll h (y # ys)"
proof (induction xs)
  case (Cons z xs)
  then show ?case by (cases xs) auto
qed simp

lemma dll_frame:
  assumes "\<And>r. r \<in> set (butlast rs) \<Longrightarrow> nxt h' r = nxt h r"
    and "\<And>r. r \<in> set (tl rs) \<Longrightarrow> prv h' r = prv h r"
  shows "dll h' rs = dll h rs"
  using assms
proof (induction h rs rule: dll.induct)
  case (1 h x y rs)
  have "dll h' (y # rs) = dll h (y # rs)"
    using "1.prems" by (intro "1.IH") (auto dest: in_set_butlastD list.set_sel(2))
  then show ?case using "1.prems" by simp
qed auto

text \<open>Linking a new reference between two neighbours, and unlinking one.\<close>

lemma dll_parts:
  assumes "distinct (xs @ p # q # ys)"
    and "\<And>r. r \<in> set xs \<Longrightarrow> nxt h' r = nxt h r" and "\<And>r. r \<in> set (xs @ [p]) \<Longrightarrow> prv h' r = prv h r"
    and "\<And>r. r \<in> set (q # ys) \<Longrightarrow> nxt h' r = nxt h r" and "\<And>r. r \<in> set ys \<Longrightarrow> prv h' r = prv h r"
  shows "dll h' (xs @ [p]) = dll h (xs @ [p])" and "dll h' (q # ys) = dll h (q # ys)"
proof -
  show "dll h' (xs @ [p]) = dll h (xs @ [p])"
    using assms(2,3) by (intro dll_frame) (auto dest: list.set_sel(2) [rotated])
  show "dll h' (q # ys) = dll h (q # ys)"
    using assms(4,5) by (intro dll_frame) (auto dest: in_set_butlastD split: if_splits)
qed

lemma dll_link:
  assumes "dll h (xs @ p # q # ys)" and d: "distinct (xs @ p # q # ys)"
    and n: "n \<notin> set (xs @ p # q # ys)"
    and nx: "nxt h' = (nxt h)(p \<mapsto> n, n \<mapsto> q)" and pv: "prv h' = (prv h)(q \<mapsto> n, n \<mapsto> p)"
  shows "dll h' (xs @ p # n # q # ys)"
proof -
  have "dll h' (xs @ [p]) = dll h (xs @ [p])" and "dll h' (q # ys) = dll h (q # ys)"
    by (rule dll_parts [OF d]; use d n in \<open>auto simp: nx pv\<close>)+
  with assms(1) n d have "dll h' (xs @ [p])" and "dll h' (n # q # ys)"
    by (auto simp: dll_append nx pv)
  then show ?thesis using n d by (auto simp: dll_append nx pv)
qed

lemma dll_unlink:
  assumes "dll h (xs @ p # n # q # ys)" and d: "distinct (xs @ p # n # q # ys)"
    and nx: "nxt h' = (nxt h)(p \<mapsto> q, n := None)" and pv: "prv h' = (prv h)(q \<mapsto> p, n := None)"
  shows "dll h' (xs @ p # q # ys)"
proof -
  have "distinct (xs @ p # q # ys)" using d by auto
  then have "dll h' (xs @ [p]) = dll h (xs @ [p])" and "dll h' (q # ys) = dll h (q # ys)"
    by (rule dll_parts; use d in \<open>auto simp: nx pv\<close>)+
  with assms(1) d have "dll h' (xs @ [p])" and "dll h' (q # ys)"
    by (auto simp: dll_append)
  then show ?thesis using d by (auto simp: dll_append nx pv)
qed

text \<open>The two assignments as total updates, and what they change.\<close>

definition upd_next :: "'a LinkedList \<Rightarrow> lref \<Rightarrow> lref option \<Rightarrow> 'a LinkedList" where
  "upd_next l r v =
     l\<lparr>ll_nodes := (ll_nodes l)(r := map_option (\<lambda>n. n\<lparr>ln_next := v\<rparr>) (ll_nodes l r))\<rparr>"

definition upd_prev :: "'a LinkedList \<Rightarrow> lref \<Rightarrow> lref option \<Rightarrow> 'a LinkedList" where
  "upd_prev l r v =
     l\<lparr>ll_nodes := (ll_nodes l)(r := map_option (\<lambda>n. n\<lparr>ln_prev := v\<rparr>) (ll_nodes l r))\<rparr>"

lemma set_next_upd: "r \<in> dom (ll_nodes l) \<Longrightarrow> set_next l r v = Some (upd_next l r v)"
  by (auto simp: set_next_def upd_next_def)

lemma set_prev_upd: "r \<in> dom (ll_nodes l) \<Longrightarrow> set_prev l r v = Some (upd_prev l r v)"
  by (auto simp: set_prev_def upd_prev_def)

lemma upd_next_fields:
  "r \<in> dom (ll_nodes l) \<Longrightarrow> nxt (ll_nodes (upd_next l r v)) = (nxt (ll_nodes l))(r := v)"
  "prv (ll_nodes (upd_next l r v)) = prv (ll_nodes l)"
  "itm (ll_nodes (upd_next l r v)) = itm (ll_nodes l)"
  "dom (ll_nodes (upd_next l r v)) = dom (ll_nodes l)"
  "ll_size (upd_next l r v) = ll_size l" "ll_freeNodeList (upd_next l r v) = ll_freeNodeList l"
  "ll_free_func (upd_next l r v) = ll_free_func l" "ll_cmp_func (upd_next l r v) = ll_cmp_func l"
  by (auto simp: upd_next_def nxt_def prv_def itm_def fun_eq_iff option.map_comp comp_def split: option.splits)

lemma upd_prev_fields:
  "r \<in> dom (ll_nodes l) \<Longrightarrow> prv (ll_nodes (upd_prev l r v)) = (prv (ll_nodes l))(r := v)"
  "nxt (ll_nodes (upd_prev l r v)) = nxt (ll_nodes l)"
  "itm (ll_nodes (upd_prev l r v)) = itm (ll_nodes l)"
  "dom (ll_nodes (upd_prev l r v)) = dom (ll_nodes l)"
  "ll_size (upd_prev l r v) = ll_size l" "ll_freeNodeList (upd_prev l r v) = ll_freeNodeList l"
  "ll_free_func (upd_prev l r v) = ll_free_func l" "ll_cmp_func (upd_prev l r v) = ll_cmp_func l"
  by (auto simp: upd_prev_def nxt_def prv_def itm_def fun_eq_iff option.map_comp comp_def split: option.splits)

lemmas upd_simps = set_next_upd set_prev_upd upd_next_fields upd_prev_fields

lemma node_at: "r \<in> dom (ll_nodes l) \<Longrightarrow>
  \<exists>n. ll_nodes l r = Some n \<and> ln_next n = nxt (ll_nodes l) r \<and> ln_prev n = prv (ll_nodes l) r \<and>
      itm (ll_nodes l) r = Some (ln_item n)"
  by (auto simp: nxt_def prv_def itm_def)

definition refs :: "(nat \<times> 'a option) list \<Rightarrow> lref list" where
  "refs cs = map (\<lambda>(a, _). Cell a) cs"

definition ll_rep :: "'a LinkedList \<Rightarrow> (nat \<times> 'a option) list \<Rightarrow> bool" where
  "ll_rep l cs \<longleftrightarrow>
     dll (ll_nodes l) (Head # refs cs @ [Tail]) \<and> distinct (map fst cs) \<and>
     dom (ll_nodes l) = set (Head # refs cs @ [Tail]) \<and>
     (\<forall>(a, x) \<in> set cs. itm (ll_nodes l) (Cell a) = Some x) \<and>
     ll_size l = int (length cs) \<and>
     fl_inv (ll_freeNodeList l) \<and> pool (ll_freeNodeList l) \<inter> fst ` set cs = {}"

lemma refs_simps [simp]:
  "refs [] = []" "refs ((a, x) # cs) = Cell a # refs cs" "refs (cs @ ds) = refs cs @ refs ds"
  by (simp_all add: refs_def)

lemma in_refs [simp]: "Cell a \<in> set (refs cs) \<longleftrightarrow> a \<in> fst ` set cs"
  "Head \<notin> set (refs cs)" "Tail \<notin> set (refs cs)"
  by (force simp: refs_def)+

lemma distinct_refs: "distinct (refs cs) = distinct (map fst cs)"
  by (induction cs) force+

text \<open>The reference before and after a position of the list.\<close>

definition before :: "(nat \<times> 'a option) list \<Rightarrow> lref" where
  "before cs = last (Head # refs cs)"

definition after :: "(nat \<times> 'a option) list \<Rightarrow> lref" where
  "after ds = hd (refs ds @ [Tail])"

lemma path_split:
  "Head # refs cs @ rs @ refs ds @ [Tail] =
   butlast (Head # refs cs) @ before cs # rs @ after ds # tl (refs ds @ [Tail])"
proof -
  have "Head # refs cs = butlast (Head # refs cs) @ [before cs]"
    by (metis before_def append_butlast_last_id list.discI)
  moreover have "refs ds @ [Tail] = after ds # tl (refs ds @ [Tail])"
    unfolding after_def by simp
  ultimately show ?thesis by (metis append.assoc append_Cons append_Nil)
qed

lemma before_in: "before cs \<in> insert Head (set (refs cs))"
  using last_in_set [of "Head # refs cs"] by (simp only: before_def list.set) blast

lemma after_in: "after ds \<in> insert Tail (set (refs ds))"
  using hd_in_set [of "refs ds @ [Tail]"] by (simp add: after_def)

lemma ll_rep_at:
  assumes rep: "ll_rep l (cs @ ds)"
  shows "nxt (ll_nodes l) (before cs) = Some (after ds)"
    and "prv (ll_nodes l) (after ds) = Some (before cs)"
    and "before cs \<in> dom (ll_nodes l)" and "after ds \<in> dom (ll_nodes l)"
proof -
  have "Head # refs (cs @ ds) @ [Tail] =
      butlast (Head # refs cs) @ before cs # after ds # tl (refs ds @ [Tail])"
    using path_split [of cs "[]" ds] by simp
  then have "dll (ll_nodes l) (butlast (Head # refs cs) @ before cs # after ds # tl (refs ds @ [Tail]))"
    and "dom (ll_nodes l) = set (butlast (Head # refs cs) @ before cs # after ds # tl (refs ds @ [Tail]))"
    using rep by (simp_all only: ll_rep_def)
  then show "nxt (ll_nodes l) (before cs) = Some (after ds)"
    and "prv (ll_nodes l) (after ds) = Some (before cs)"
    and "before cs \<in> dom (ll_nodes l)" and "after ds \<in> dom (ll_nodes l)"
    by (simp_all add: dll_append)
qed

lemma neighbours_not_cell:
  assumes "a \<notin> fst ` set (cs @ ds)"
  shows "before cs \<noteq> Cell a" and "after ds \<noteq> Cell a"
  using before_in [of cs] after_in [of ds] assms by force+

lemma CreateListNode_fresh:
  assumes alloc: "FreeListAlloc m (ll_freeNodeList l) = Some (Some a, fl)"
    and a: "Cell a \<notin> dom (ll_nodes l)"
  obtains l1 where "CreateListNode m item l = Some (Some (Cell a), l1)"
    "nxt (ll_nodes l1) = nxt (ll_nodes l)" "prv (ll_nodes l1) = prv (ll_nodes l)"
    "itm (ll_nodes l1) = (itm (ll_nodes l))(Cell a \<mapsto> item)"
    "dom (ll_nodes l1) = insert (Cell a) (dom (ll_nodes l))"
    "ll_size l1 = ll_size l" "ll_freeNodeList l1 = fl"
    "ll_free_func l1 = ll_free_func l" "ll_cmp_func l1 = ll_cmp_func l"
proof (rule that)
  show "CreateListNode m item l = Some (Some (Cell a),
      l\<lparr>ll_freeNodeList := fl, ll_nodes := (ll_nodes l)(Cell a \<mapsto>
          \<lparr>ln_prev = None, ln_next = None, ln_item = item\<rparr>)\<rparr>)"
    using alloc by (simp add: CreateListNode_def)
qed (use a in \<open>auto simp: nxt_def prv_def itm_def fun_eq_iff dom_def\<close>)

lemma path_distinct: "distinct (map fst cs) \<Longrightarrow> distinct (Head # refs cs @ [Tail])"
  by (simp add: distinct_refs)

text \<open>
  What the four assignments of an insertion leave behind: the new cell is linked between the
  two neighbours, its item is recorded and nothing else changes.
\<close>

definition linked :: "'a LinkedList \<Rightarrow> lref \<Rightarrow> lref \<Rightarrow> nat \<Rightarrow> 'a option \<Rightarrow> free_list \<Rightarrow> 'a LinkedList \<Rightarrow> bool"
where
  "linked l p q a item fl l' \<longleftrightarrow>
     nxt (ll_nodes l') = (nxt (ll_nodes l))(p \<mapsto> Cell a, Cell a \<mapsto> q) \<and>
     prv (ll_nodes l') = (prv (ll_nodes l))(q \<mapsto> Cell a, Cell a \<mapsto> p) \<and>
     itm (ll_nodes l') = (itm (ll_nodes l))(Cell a \<mapsto> item) \<and>
     dom (ll_nodes l') = insert (Cell a) (dom (ll_nodes l)) \<and>
     ll_size l' = ll_size l + 1 \<and> ll_freeNodeList l' = fl \<and>
     ll_free_func l' = ll_free_func l \<and> ll_cmp_func l' = ll_cmp_func l"

lemma linked_rep:
  assumes rep: "ll_rep l (cs @ ds)" and lk: "linked l (before cs) (after ds) a item fl l'"
    and a: "a \<notin> fst ` set (cs @ ds)" and fl: "fl_inv fl" "pool fl \<inter> insert a (fst ` set (cs @ ds)) = {}"
  shows "ll_rep l' (cs @ (a, item) # ds)"
proof -
  let ?h = "ll_nodes l" and ?h' = "ll_nodes l'"
  have path: "Head # refs (cs @ ds) @ [Tail] =
      butlast (Head # refs cs) @ before cs # after ds # tl (refs ds @ [Tail])"
    using path_split [of cs "[]" ds] by simp
  have "distinct (Head # refs (cs @ ds) @ [Tail])"
    using rep by (intro path_distinct) (simp add: ll_rep_def)
  moreover have "Cell a \<notin> set (Head # refs (cs @ ds) @ [Tail])" using a by auto
  ultimately have "dll ?h' (butlast (Head # refs cs) @ before cs # Cell a # after ds # tl (refs ds @ [Tail]))"
    using lk rep by (intro dll_link [of ?h]) (simp_all only: path linked_def ll_rep_def simp_thms)
  then have "dll ?h' (Head # refs (cs @ (a, item) # ds) @ [Tail])"
    using path_split [of cs "[Cell a]" ds] by simp
  moreover have "dom ?h' = set (Head # refs (cs @ (a, item) # ds) @ [Tail])"
    using lk rep by (auto simp: linked_def ll_rep_def)
  moreover have "\<forall>(b, x) \<in> set (cs @ (a, item) # ds). itm ?h' (Cell b) = Some x"
  proof (clarify)
    fix b x
    assume b: "(b, x) \<in> set (cs @ (a, item) # ds)"
    show "itm ?h' (Cell b) = Some x"
    proof (cases "(b, x) \<in> set (cs @ ds)")
      case True
      then have "b \<noteq> a" and "itm ?h (Cell b) = Some x"
        using a rep by (force, auto simp: ll_rep_def)
      then show ?thesis using lk by (simp add: linked_def)
    qed (use b lk in \<open>auto simp: linked_def\<close>)
  qed
  moreover have "ll_size l' = ll_size l + 1" "ll_freeNodeList l' = fl"
    using lk by (simp_all add: linked_def)
  ultimately show ?thesis using rep a fl by (auto simp: ll_rep_def)
qed

lemma ListAddAfter_linked:
  assumes rep: "ll_rep l (cs @ ds)"
    and alloc: "FreeListAlloc m (ll_freeNodeList l) = Some (Some a, fl)"
    and a: "a \<notin> fst ` set (cs @ ds)"
  obtains l' where "ListAddAfter m l item (Some (before cs)) = Some (Some (Cell a), l')"
    and "linked l (before cs) (after ds) a item fl l'"
proof -
  note at = ll_rep_at [OF rep] and na = neighbours_not_cell [OF a]
  have fresh: "Cell a \<notin> dom (ll_nodes l)" using rep a by (auto simp: ll_rep_def)
  obtain l1 where l1: "CreateListNode m item l = Some (Some (Cell a), l1)"
    "nxt (ll_nodes l1) = nxt (ll_nodes l)" "prv (ll_nodes l1) = prv (ll_nodes l)"
    "itm (ll_nodes l1) = (itm (ll_nodes l))(Cell a \<mapsto> item)"
    "dom (ll_nodes l1) = insert (Cell a) (dom (ll_nodes l))"
    "ll_size l1 = ll_size l" "ll_freeNodeList l1 = fl"
    "ll_free_func l1 = ll_free_func l" "ll_cmp_func l1 = ll_cmp_func l"
    by (rule CreateListNode_fresh [OF alloc fresh, of item])
  let ?l = "upd_prev (upd_next (upd_prev (upd_next l1 (before cs) (Some (Cell a)))
      (Cell a) (Some (before cs))) (Cell a) (Some (after ds))) (after ds) (Some (Cell a))"
  have p: "before cs \<in> dom (ll_nodes l1)" and q: "after ds \<in> dom (ll_nodes l1)"
    and n: "Cell a \<in> dom (ll_nodes l1)" using at l1(5) by blast+
  obtain bn where bn: "ll_nodes l1 (before cs) = Some bn" "ln_next bn = Some (after ds)"
    using node_at [OF p] at(1) l1(2) by auto
  show thesis
  proof (rule that [of "?l\<lparr>ll_size := ll_size ?l + 1\<rparr>"])
    show "ListAddAfter m l item (Some (before cs)) = Some (Some (Cell a), ?l\<lparr>ll_size := ll_size ?l + 1\<rparr>)"
      using p q n bn by (simp add: ListAddAfter_def l1(1) upd_simps domIff)
    show "linked l (before cs) (after ds) a item fl (?l\<lparr>ll_size := ll_size ?l + 1\<rparr>)"
      using p q n na l1 by (auto simp: linked_def upd_simps fun_eq_iff)
  qed
qed

lemma ListAddBefore_linked:
  assumes rep: "ll_rep l (cs @ ds)"
    and alloc: "FreeListAlloc m (ll_freeNodeList l) = Some (Some a, fl)"
    and a: "a \<notin> fst ` set (cs @ ds)"
  obtains l' where "ListAddBefore m l item (Some (after ds)) = Some (Some (Cell a), l')"
    and "linked l (before cs) (after ds) a item fl l'"
proof -
  note at = ll_rep_at [OF rep] and na = neighbours_not_cell [OF a]
  have fresh: "Cell a \<notin> dom (ll_nodes l)" using rep a by (auto simp: ll_rep_def)
  obtain l1 where l1: "CreateListNode m item l = Some (Some (Cell a), l1)"
    "nxt (ll_nodes l1) = nxt (ll_nodes l)" "prv (ll_nodes l1) = prv (ll_nodes l)"
    "itm (ll_nodes l1) = (itm (ll_nodes l))(Cell a \<mapsto> item)"
    "dom (ll_nodes l1) = insert (Cell a) (dom (ll_nodes l))"
    "ll_size l1 = ll_size l" "ll_freeNodeList l1 = fl"
    "ll_free_func l1 = ll_free_func l" "ll_cmp_func l1 = ll_cmp_func l"
    by (rule CreateListNode_fresh [OF alloc fresh, of item])
  let ?l = "upd_next (upd_prev (upd_next (upd_prev l1 (after ds) (Some (Cell a)))
      (Cell a) (Some (after ds))) (Cell a) (Some (before cs))) (before cs) (Some (Cell a))"
  have p: "before cs \<in> dom (ll_nodes l1)" and q: "after ds \<in> dom (ll_nodes l1)"
    and n: "Cell a \<in> dom (ll_nodes l1)" using at l1(5) by blast+
  obtain an where an: "ll_nodes l1 (after ds) = Some an" "ln_prev an = Some (before cs)"
    using node_at [OF q] at(2) l1(3) by auto
  show thesis
  proof (rule that [of "?l\<lparr>ll_size := ll_size ?l + 1\<rparr>"])
    show "ListAddBefore m l item (Some (after ds)) = Some (Some (Cell a), ?l\<lparr>ll_size := ll_size ?l + 1\<rparr>)"
      using p q n an by (simp add: ListAddBefore_def l1(1) upd_simps)
    show "linked l (before cs) (after ds) a item fl (?l\<lparr>ll_size := ll_size ?l + 1\<rparr>)"
      using p q n na l1 by (auto simp: linked_def upd_simps fun_eq_iff)
  qed
qed

text \<open>The cells a list owns: those of its nodes and those kept for reuse.\<close>

definition owned :: "'a LinkedList \<Rightarrow> (nat \<times> 'a option) list \<Rightarrow> nat set" where
  "owned l cs = fst ` set cs \<union> pool (ll_freeNodeList l)"

text \<open>Both insertions put the item between the two positions, or report that memory is out.\<close>

lemma ListAdd_spec:
  assumes rep: "ll_rep l (cs @ ds)"
    and m: "set_option m \<inter> owned l (cs @ ds) = {}"
    and op: "op = ListAddAfter m l item (Some (before cs)) \<or>
             op = ListAddBefore m l item (Some (after ds))"
  obtains (ok) a l' where "op = Some (Some (Cell a), l')" "ll_rep l' (cs @ (a, item) # ds)"
      "a \<notin> fst ` set (cs @ ds)" "owned l' (cs @ (a, item) # ds) \<subseteq> owned l (cs @ ds) \<union> set_option m"
      "ll_free_func l' = ll_free_func l" "ll_cmp_func l' = ll_cmp_func l"
    | (out_of_memory) "op = Some (None, l)" "m = None"
proof -
  have fl: "fl_inv (ll_freeNodeList l)" "pool (ll_freeNodeList l) \<inter> fst ` set (cs @ ds) = {}"
    using rep by (simp_all only: ll_rep_def)
  have m': "\<forall>a. m = Some a \<longrightarrow> a \<notin> fst ` set (cs @ ds) \<union> pool (ll_freeNodeList l)"
    using m by (auto simp: owned_def)
  from fl m' show thesis
  proof (rule fl.alloc_not_live)
    fix a fl'
    assume run: "FreeListAlloc m (ll_freeNodeList l) = Some (Some a, fl')" and "fl_inv fl'"
      and a: "a \<notin> fst ` set (cs @ ds)" and "pool fl' \<inter> insert a (fst ` set (cs @ ds)) = {}"
      and "a \<in> pool (ll_freeNodeList l) \<or> m = Some a" "pool fl' \<subseteq> pool (ll_freeNodeList l)"
    obtain l' where "op = Some (Some (Cell a), l')" "linked l (before cs) (after ds) a item fl' l'"
      using op ListAddAfter_linked [OF rep run a] ListAddBefore_linked [OF rep run a] by metis
    moreover from this have "ll_rep l' (cs @ (a, item) # ds)"
      using linked_rep rep a \<open>fl_inv fl'\<close> \<open>pool fl' \<inter> _ = {}\<close> by blast
    moreover have "owned l' (cs @ (a, item) # ds) \<subseteq> owned l (cs @ ds) \<union> set_option m"
      using calculation(2) \<open>a \<in> _ \<or> m = _\<close> \<open>pool fl' \<subseteq> _\<close> by (auto simp: linked_def owned_def)
    ultimately show thesis using ok [of a l'] a by (auto simp: linked_def)
  next
    assume "FreeListAlloc m (ll_freeNodeList l) = Some (None, ll_freeNodeList l)" and "m = None"
    then show thesis using out_of_memory op
      by (auto simp: ListAddAfter_def ListAddBefore_def CreateListNode_def)
  qed
qed

definition unlinked :: "'a LinkedList \<Rightarrow> lref \<Rightarrow> lref \<Rightarrow> nat \<Rightarrow> free_list \<Rightarrow> 'a LinkedList \<Rightarrow> bool"
where
  "unlinked l p q a fl l' \<longleftrightarrow>
     nxt (ll_nodes l') = (nxt (ll_nodes l))(p \<mapsto> q, Cell a := None) \<and>
     prv (ll_nodes l') = (prv (ll_nodes l))(q \<mapsto> p, Cell a := None) \<and>
     itm (ll_nodes l') = (itm (ll_nodes l))(Cell a := None) \<and>
     dom (ll_nodes l') = dom (ll_nodes l) - {Cell a} \<and>
     ll_size l' = ll_size l - 1 \<and> ll_freeNodeList l' = fl \<and>
     ll_free_func l' = ll_free_func l \<and> ll_cmp_func l' = ll_cmp_func l"

lemma ll_rep_path:
  assumes "ll_rep l (cs @ (a, x) # ds)"
  shows "dll (ll_nodes l) (butlast (Head # refs cs) @ before cs # Cell a # after ds # tl (refs ds @ [Tail]))"
    "distinct (butlast (Head # refs cs) @ before cs # Cell a # after ds # tl (refs ds @ [Tail]))"
    "dom (ll_nodes l) = set (butlast (Head # refs cs) @ before cs # Cell a # after ds # tl (refs ds @ [Tail]))"
proof -
  have "Head # refs (cs @ (a, x) # ds) @ [Tail] =
      butlast (Head # refs cs) @ before cs # Cell a # after ds # tl (refs ds @ [Tail])"
    using path_split [of cs "[Cell a]" ds] by simp
  then show "dll (ll_nodes l) (butlast (Head # refs cs) @ before cs # Cell a # after ds # tl (refs ds @ [Tail]))"
    "distinct (butlast (Head # refs cs) @ before cs # Cell a # after ds # tl (refs ds @ [Tail]))"
    "dom (ll_nodes l) = set (butlast (Head # refs cs) @ before cs # Cell a # after ds # tl (refs ds @ [Tail]))"
    using assms path_distinct [of "cs @ (a, x) # ds"] by (simp_all only: ll_rep_def simp_thms)
qed

lemma unlinked_rep:
  assumes rep: "ll_rep l (cs @ (a, x) # ds)" and ul: "unlinked l (before cs) (after ds) a fl l'"
    and fl: "fl_inv fl" "pool fl \<inter> fst ` set (cs @ ds) = {}"
  shows "ll_rep l' (cs @ ds)"
proof -
  have "dll (ll_nodes l') (butlast (Head # refs cs) @ before cs # after ds # tl (refs ds @ [Tail]))"
    using ul by (intro dll_unlink [OF ll_rep_path(1,2) [OF rep]]) (simp_all add: unlinked_def)
  then have "dll (ll_nodes l') (Head # refs (cs @ ds) @ [Tail])"
    using path_split [of cs "[]" ds] by simp
  moreover have dist: "distinct (map fst (cs @ ds))" "a \<notin> fst ` set (cs @ ds)"
    using rep by (auto simp: ll_rep_def)
  moreover have "dom (ll_nodes l') = set (Head # refs (cs @ ds) @ [Tail])"
    using ul rep dist(2) by (auto simp: unlinked_def ll_rep_def)
  moreover have "\<forall>(b, y) \<in> set (cs @ ds). itm (ll_nodes l') (Cell b) = Some y"
  proof clarify
    fix b y
    assume b: "(b, y) \<in> set (cs @ ds)"
    then have "b \<noteq> a" and "itm (ll_nodes l) (Cell b) = Some y"
      using dist(2) rep by (force, auto simp: ll_rep_def)
    then show "itm (ll_nodes l') (Cell b) = Some y" using ul by (simp add: unlinked_def)
  qed
  moreover have "ll_size l' = int (length (cs @ ds))" using ul rep by (simp add: unlinked_def ll_rep_def)
  ultimately show ?thesis using fl ul by (simp add: ll_rep_def unlinked_def)
qed

lemma unlink_store:
  "nxt (h(r := None)) = (nxt h)(r := None)" "prv (h(r := None)) = (prv h)(r := None)"
  "itm (h(r := None)) = (itm h)(r := None)"
  by (auto simp: nxt_def prv_def itm_def)

lemma ListDelNode_spec:
  assumes rep: "ll_rep l (cs @ (a, x) # ds)"
  obtains l' where "ListDelNode l (Some (Cell a)) freeItem =
      Some (if freeItem \<and> ll_free_func l then (None, l', [x]) else (x, l', []))"
    "ll_rep l' (cs @ ds)" "ll_free_func l' = ll_free_func l" "ll_cmp_func l' = ll_cmp_func l"
proof -
  let ?p = "before cs" and ?q = "after ds" and ?h = "ll_nodes l"
  note d = ll_rep_path [OF rep]
  have p: "?p \<in> dom ?h" and q: "?q \<in> dom ?h" and n: "Cell a \<in> dom ?h"
    and pq: "?p \<noteq> Cell a" "?q \<noteq> Cell a" "?p \<noteq> ?q" using d(2,3) by auto
  have links: "nxt ?h (Cell a) = Some ?q" "prv ?h (Cell a) = Some ?p" using d(1) by (simp_all add: dll_append)
  have item: "itm ?h (Cell a) = Some x" using rep by (auto simp: ll_rep_def)
  then obtain nd where nd: "?h (Cell a) = Some nd" "ln_next nd = Some ?q" "ln_prev nd = Some ?p"
    "ln_item nd = x" using node_at [OF n] links by auto
  let ?l1 = "upd_next l ?p (Some ?q)"
  obtain n1 where n1: "ll_nodes ?l1 (Cell a) = Some n1" "ln_next n1 = Some ?q" "ln_prev n1 = Some ?p"
    using node_at [of "Cell a" ?l1] n p pq links by (auto simp: upd_simps)
  have "fl_inv (ll_freeNodeList l)" "pool (ll_freeNodeList l) \<inter> fst ` set (cs @ (a, x) # ds) = {}"
    using rep by (simp_all only: ll_rep_def)
  moreover have "a \<in> fst ` set (cs @ (a, x) # ds)" by simp
  ultimately obtain fl out where fl: "FreeListFree (Some a) (ll_freeNodeList l) = (0, fl, out)"
    "fl_inv fl" "pool fl \<inter> (fst ` set (cs @ (a, x) # ds) - {a}) = {}"
    by (rule fl.free_not_live)
  let ?l2 = "upd_prev ?l1 ?q (Some ?p)"
  let ?l3 = "?l2\<lparr>ll_freeNodeList := fl, ll_nodes := (ll_nodes ?l2)(Cell a := None)\<rparr>"
  let ?l' = "?l3\<lparr>ll_size := ll_size ?l3 - 1\<rparr>"
  have "a \<notin> fst ` set (cs @ ds)" using rep by (auto simp: ll_rep_def)
  then have fl': "pool fl \<inter> fst ` set (cs @ ds) = {}" using fl(3) by auto
  have ul: "unlinked l ?p ?q a fl ?l'" unfolding unlinked_def
    using p q n pq by (simp add: upd_simps unlink_store del: fun_upd_apply dom_def)
  show thesis
  proof (rule that)
    show "ListDelNode l (Some (Cell a)) freeItem =
        Some (if freeItem \<and> ll_free_func l then (None, ?l', [x]) else (x, ?l', []))"
      using p q n nd n1 fl by (simp add: ListDelNode_def upd_simps freeListNode_def Let_def)
    show "ll_rep ?l' (cs @ ds)" by (rule unlinked_rep [OF rep ul fl(2) fl'])
  qed (simp_all add: upd_simps)
qed

lemma ListInit_rep: "ll_rep (snd (ListInit cmp ff)) []"
  by (auto simp: ListInit_def FreeListInit_def ll_rep_def nxt_def prv_def
      fl_inv_init [of sizeof_ListNode 100, unfolded FreeListInit_def, simplified] split: if_splits)

lemma before_snoc: "before (cs @ [(a, x)]) = Cell a"
  by (simp add: before_def)

lemma after_Cons: "after ((a, x) # ds) = Cell a"
  by (simp add: after_def)

lemma before_after_Nil [simp]: "before [] = Head" "after [] = Tail"
  by (simp_all add: before_def after_def)

lemma node_next: "r \<in> dom h \<Longrightarrow> \<exists>n. h r = Some n \<and> ln_next n = nxt h r \<and> ln_prev n = prv h r"
  by (auto simp: nxt_def prv_def)

lemma ListHead_rep:
  assumes "ll_rep l cs"
  shows "ListHead l = Some (case cs of [] \<Rightarrow> None | (a, _) # _ \<Rightarrow> Some (Cell a))"
proof -
  have "nxt (ll_nodes l) Head = Some (after cs)" "Head \<in> dom (ll_nodes l)"
    using ll_rep_at [of l "[]" cs] assms by simp_all
  moreover have "ll_size l = int (length cs)" using assms by (simp add: ll_rep_def)
  ultimately show ?thesis
    using node_next [of Head "ll_nodes l"] by (cases cs) (auto simp: ListHead_def after_Cons)
qed

lemma ListTail_rep:
  assumes "ll_rep l cs"
  shows "ListTail l = Some (if cs = [] then None else Some (before cs))"
proof -
  have "prv (ll_nodes l) Tail = Some (before cs)" "Tail \<in> dom (ll_nodes l)"
    using ll_rep_at [of l cs "[]"] assms by simp_all
  moreover have "ll_size l = int (length cs)" using assms by (simp add: ll_rep_def)
  ultimately show ?thesis
    using node_next [of Tail "ll_nodes l"] by (auto simp: ListTail_def)
qed

lemma ListNext_rep:
  assumes "ll_rep l (cs @ (a, x) # ds)"
  shows "ListNext l (Cell a) = Some (case ds of [] \<Rightarrow> None | (b, _) # _ \<Rightarrow> Some (Cell b))"
proof -
  have "nxt (ll_nodes l) (Cell a) = Some (after ds)" "Cell a \<in> dom (ll_nodes l)"
    using ll_rep_at [of l "cs @ [(a, x)]" ds] assms by (simp_all add: before_snoc)
  then show ?thesis
    using node_next [of "Cell a" "ll_nodes l"] by (cases ds) (auto simp: ListNext_def after_Cons)
qed

lemma ListPrev_rep:
  assumes "ll_rep l (cs @ (a, x) # ds)"
  shows "ListPrev l (Cell a) = Some (if cs = [] then None else Some (before cs))"
proof -
  have "prv (ll_nodes l) (Cell a) = Some (before cs)" "Cell a \<in> dom (ll_nodes l)"
    using ll_rep_at [of l cs "(a, x) # ds"] assms by (simp_all add: after_Cons)
  moreover have "before cs = Head \<longleftrightarrow> cs = []"
    by (cases cs rule: rev_cases) (auto simp: before_snoc)
  ultimately show ?thesis
    using node_next [of "Cell a" "ll_nodes l"] by (auto simp: ListPrev_def)
qed

definition list_matches :: "'a LinkedList \<Rightarrow> 'a option \<Rightarrow> 'a option \<Rightarrow> bool" where
  "list_matches l item y =
     (case ll_cmp_func l of Some cmp \<Rightarrow> cmp item y | None \<Rightarrow> item = y)"

lemma find_loop_spec:
  "ll_rep l (cs @ ds) \<Longrightarrow>
   find_loop l (after ds) item =
     Some (map_option (\<lambda>(a, _). Cell a) (List.find (\<lambda>(_, y). list_matches l item y) ds))"
proof (induction ds arbitrary: cs)
  case Nil
  then show ?case by (simp add: find_loop.simps [of l Tail])
next
  case (Cons d ds)
  obtain a y where d: "d = (a, y)" by force
  have rep: "ll_rep l ((cs @ [(a, y)]) @ ds)" using Cons.prems by (simp add: d)
  have n: "nxt (ll_nodes l) (Cell a) = Some (after ds)" "Cell a \<in> dom (ll_nodes l)"
    using ll_rep_at [OF rep] by (simp_all add: before_snoc)
  have "itm (ll_nodes l) (Cell a) = Some y" using rep by (auto simp: ll_rep_def)
  then obtain nd where nd: "ll_nodes l (Cell a) = Some nd" "ln_next nd = Some (after ds)" "ln_item nd = y"
    using node_at [of "Cell a" l] n by auto
  have "find_loop l (Cell a) item =
      (if list_matches l item y then Some (Some (Cell a)) else find_loop l (after ds) item)"
    using nd by (auto simp: find_loop.simps [of l "Cell a"] list_matches_def split: option.splits)
  then show ?case using Cons.IH [OF rep] by (simp add: d after_Cons)
qed

lemma ListFind_all:
  assumes "ll_rep l cs"
  shows "ListFind l None item =
    Some (map_option (\<lambda>(a, _). Cell a) (List.find (\<lambda>(_, y). list_matches l item y) cs))"
proof -
  have "nxt (ll_nodes l) Head = Some (after cs)" "Head \<in> dom (ll_nodes l)"
    using ll_rep_at [of l "[]" cs] assms by simp_all
  then show ?thesis using node_next [of Head "ll_nodes l"] find_loop_spec [of l "[]" cs] assms
    by (auto simp: ListFind_def)
qed

lemma ListFind_from:
  assumes "ll_rep l (cs @ (a, x) # ds)"
  shows "ListFind l (Some (Cell a)) item =
    Some (map_option (\<lambda>(b, _). Cell b) (List.find (\<lambda>(_, y). list_matches l item y) ds))"
proof -
  have rep: "ll_rep l ((cs @ [(a, x)]) @ ds)" using assms by simp
  have "nxt (ll_nodes l) (Cell a) = Some (after ds)" "Cell a \<in> dom (ll_nodes l)"
    using ll_rep_at [OF rep] by (simp_all add: before_snoc)
  then show ?thesis using node_next [of "Cell a" "ll_nodes l"] find_loop_spec [OF rep]
    by (auto simp: ListFind_def)
qed

lemma destroy_loop_spec:
  "ll_rep l cs \<Longrightarrow> \<exists>l'. destroy_loop l (after cs) freeItem fr =
     Some (l', fr @ (if freeItem \<and> ll_free_func l then map snd cs else [])) \<and> ll_rep l' []"
proof (induction cs arbitrary: l fr)
  case Nil
  then show ?case by (simp add: destroy_loop.simps [of l Tail])
next
  case (Cons c cs)
  obtain a x where c: "c = (a, x)" by force
  have rep: "ll_rep l ([] @ (a, x) # cs)" using Cons.prems by (simp add: c)
  have "nxt (ll_nodes l) (Cell a) = Some (after cs)" "Cell a \<in> dom (ll_nodes l)"
    using ll_rep_at [of l "[(a, x)]" cs] rep by (simp_all add: before_def)
  then obtain nd where nd: "ll_nodes l (Cell a) = Some nd" "ln_next nd = Some (after cs)"
    using node_next [of "Cell a" "ll_nodes l"] by auto
  obtain l1 where l1: "ListDelNode l (Some (Cell a)) freeItem =
      Some (if freeItem \<and> ll_free_func l then (None, l1, [x]) else (x, l1, []))"
    "ll_rep l1 cs" "ll_free_func l1 = ll_free_func l"
    by (rule ListDelNode_spec [OF rep, of freeItem]) simp
  let ?fr = "fr @ (if freeItem \<and> ll_free_func l then [x] else [])"
  have "destroy_loop l (Cell a) freeItem fr = destroy_loop l1 (after cs) freeItem ?fr"
    using l1(1) by (simp add: destroy_loop.simps [of l "Cell a"] nd)
  then show ?case using Cons.IH [OF l1(2), of ?fr] l1(3) by (auto simp: c after_Cons)
qed

lemma ListDestroy_spec:
  assumes rep: "ll_rep l cs"
  shows "\<exists>l'. ListDestroy l freeItem =
     Some (0, l', if freeItem \<and> ll_free_func l then map snd cs else []) \<and>
     ll_rep l' [] \<and> pool (ll_freeNodeList l') = {}"
proof -
  have "nxt (ll_nodes l) Head = Some (after cs)" "Head \<in> dom (ll_nodes l)"
    using ll_rep_at [of l "[]" cs] rep by simp_all
  then obtain h where h: "ll_nodes l Head = Some h" "ln_next h = Some (after cs)"
    using node_next [of Head "ll_nodes l"] by auto
  obtain l1 where l1: "destroy_loop l (after cs) freeItem [] =
      Some (l1, if freeItem \<and> ll_free_func l then map snd cs else [])" "ll_rep l1 []"
    using destroy_loop_spec [OF rep, of freeItem "[]"] by auto
  then have "fl_inv (ll_freeNodeList l1)" by (simp add: ll_rep_def)
  then obtain as where as: "chain (fl_next (ll_freeNodeList l1)) (fl_head (ll_freeNodeList l1)) as"
    "distinct as" "set as = dom (fl_next (ll_freeNodeList l1))" by (auto simp: fl_inv_def pool_def)
  from free_all_spec [OF as(1,2), of "[]"] as(3) obtain nx where
    fr: "free_all (ll_freeNodeList l1) [] =
      Some ((ll_freeNodeList l1)\<lparr>fl_head := None, fl_next := nx\<rparr>, as)" and nx: "dom nx = {}"
    by auto
  then have "nx = Map.empty" by simp
  then show ?thesis using h l1 fr
    by (auto simp: ListDestroy_def FreeListDestroy_def ll_rep_def fl_inv_def pool_def
        intro: exI [of _ "[]"])
qed

subsection \<open>The contract the clients use\<close>

text \<open>
  A store that represents a sequence of cells: appending, taking the first cell, walking and
  deleting. Its clients are the job queues (append at the tail, take at the head) and the
  header list.
\<close>

locale sequence_store =
  fixes rep :: "'s \<Rightarrow> (nat \<times> 'a option) list \<Rightarrow> bool"
    and cells :: "'s \<Rightarrow> (nat \<times> 'a option) list \<Rightarrow> nat set"
    and add_tail :: "nat option \<Rightarrow> 's \<Rightarrow> 'a option \<Rightarrow> (lref option \<times> 's) option"
    and head :: "'s \<Rightarrow> lref option option"
    and del :: "'s \<Rightarrow> lref option \<Rightarrow> bool \<Rightarrow> ('a option \<times> 's \<times> 'a option list) option"
  assumes add_tail_law: "rep s cs \<Longrightarrow> set_option m \<inter> cells s cs = {} \<Longrightarrow>
      \<exists>r s'. add_tail m s x = Some (r, s') \<and>
        (r = None \<and> m = None \<and> s' = s \<or>
         (\<exists>a. r = Some (Cell a) \<and> rep s' (cs @ [(a, x)]) \<and>
              cells s' (cs @ [(a, x)]) \<subseteq> cells s cs \<union> set_option m))"
    and head_law: "rep s cs \<Longrightarrow> head s = Some (case cs of [] \<Rightarrow> None | (a, _) # _ \<Rightarrow> Some (Cell a))"
    and del_law: "rep s (cs @ (a, x) # ds) \<Longrightarrow>
      \<exists>s'. del s (Some (Cell a)) False = Some (x, s', []) \<and> rep s' (cs @ ds)"
begin

primrec add_all :: "(nat \<times> 'a option) list \<Rightarrow> 's \<Rightarrow> 's option" where
  "add_all [] s = Some s"
| "add_all (mx # mxs) s = do { (_, s') \<leftarrow> add_tail (Some (fst mx)) s (snd mx); add_all mxs s' }"

primrec take_all :: "nat \<Rightarrow> 's \<Rightarrow> ('a option list \<times> 's) option" where
  "take_all 0 s = Some ([], s)"
| "take_all (Suc n) s =
     do { h \<leftarrow> head s;
          (x, s1, _) \<leftarrow> del s h False;
          (xs, s2) \<leftarrow> take_all n s1;
          Some (x # xs, s2) }"

lemma add_all_rep:
  assumes "rep s cs" and "distinct (map fst mxs)" and "fst ` set mxs \<inter> cells s cs = {}"
  shows "\<exists>s' ds. add_all mxs s = Some s' \<and> rep s' (cs @ ds) \<and> map snd ds = map snd mxs"
  using assms
proof (induction mxs arbitrary: s cs)
  case Nil
  then show ?case by (intro exI [of _ s] exI [of _ "[]"]) simp
next
  case (Cons mx mxs)
  obtain m x where mx: "mx = (m, x)" by force
  from Cons.prems have "set_option (Some m) \<inter> cells s cs = {}" by (simp add: mx)
  from add_tail_law [OF Cons.prems(1) this, of x] obtain a s1 where
    s1: "add_tail (Some m) s x = Some (Some (Cell a), s1)" "rep s1 (cs @ [(a, x)])"
      "cells s1 (cs @ [(a, x)]) \<subseteq> cells s cs \<union> {m}" by auto
  have "fst ` set mxs \<inter> cells s1 (cs @ [(a, x)]) = {}"
    using Cons.prems s1(3) by (auto simp: mx)
  from Cons.IH [OF s1(2) _ this] Cons.prems(2) obtain s2 ds where
    "add_all mxs s1 = Some s2" "rep s2 ((cs @ [(a, x)]) @ ds)" "map snd ds = map snd mxs" by auto
  then show ?case using s1(1) by (intro exI [of _ s2] exI [of _ "(a, x) # ds"]) (simp add: mx)
qed

lemma take_all_rep:
  "rep s (cs @ ds) \<Longrightarrow>
   \<exists>s'. take_all (length cs) s = Some (map snd cs, s') \<and> rep s' ds"
proof (induction cs arbitrary: s)
  case (Cons c cs)
  obtain a x where c: "c = (a, x)" by force
  from Cons.prems del_law [of s "[]" a x "cs @ ds"] obtain s1 where
    "del s (Some (Cell a)) False = Some (x, s1, [])" "rep s1 (cs @ ds)" by (auto simp: c)
  moreover have "head s = Some (Some (Cell a))" using head_law [OF Cons.prems] by (simp add: c)
  ultimately show ?case using Cons.IH [of s1] by (auto simp: c)
qed simp

end

interpretation ll: sequence_store ll_rep owned ListAddTail ListHead ListDelNode
proof
  fix s :: "'a LinkedList" and cs m x
  assume rep: "ll_rep s cs" and m: "set_option m \<inter> owned s cs = {}"
  have op: "ListAddTail m s x = ListAddAfter m s x (Some (before cs)) \<or>
      ListAddTail m s x = ListAddBefore m s x (Some (after []))"
    by (simp add: ListAddTail_def)
  show "\<exists>r s'. ListAddTail m s x = Some (r, s') \<and>
      (r = None \<and> m = None \<and> s' = s \<or>
       (\<exists>a. r = Some (Cell a) \<and> ll_rep s' (cs @ [(a, x)]) \<and>
            owned s' (cs @ [(a, x)]) \<subseteq> owned s cs \<union> set_option m))"
    by (rule ListAdd_spec [of s cs "[]", OF _ _ op]) (use rep m in auto)
next
  show "ListHead s = Some (case cs of [] \<Rightarrow> None | (a, _) # _ \<Rightarrow> Some (Cell a))"
    if "ll_rep s cs" for s :: "'a LinkedList" and cs
    using that by (rule ListHead_rep)
next
  fix s :: "'a LinkedList" and cs a x ds
  assume "ll_rep s (cs @ (a, x) # ds)"
  then show "\<exists>s'. ListDelNode s (Some (Cell a)) False = Some (x, s', []) \<and> ll_rep s' (cs @ ds)"
    by (rule ListDelNode_spec [where freeItem = False]) auto
qed

subsection \<open>Properties\<close>

text \<open>
  How a job queue is used: every item is appended at the tail (with the answers of
  \<^verbatim>\<open>malloc\<close>); a worker takes the node at the head, keeps its item and deletes the node.
\<close>

primrec add_tail_all :: "(nat \<times> 'a option) list \<Rightarrow> 'a LinkedList \<Rightarrow> 'a LinkedList option" where
  "add_tail_all [] l = Some l"
| "add_tail_all (mx # mxs) l =
     do { (_, l') \<leftarrow> ListAddTail (Some (fst mx)) l (snd mx); add_tail_all mxs l' }"

primrec take_head_all :: "nat \<Rightarrow> 'a LinkedList \<Rightarrow> ('a option list \<times> 'a LinkedList) option" where
  "take_head_all 0 l = Some ([], l)"
| "take_head_all (Suc n) l =
     do { h \<leftarrow> ListHead l;
          (x, l1, _) \<leftarrow> ListDelNode l h False;
          (xs, l2) \<leftarrow> take_head_all n l1;
          Some (x # xs, l2) }"

lemma add_all_loop: "ll.add_all mxs l = add_tail_all mxs l"
  by (induction mxs arbitrary: l) simp_all

lemma take_all_loop: "ll.take_all n l = take_head_all n l"
  by (induction n arbitrary: l) simp_all

text \<open>
  C32: The linked list is a first-in first-out queue. Whatever it holds, appending further items
  (the allocator answering with cells the list does not own) and then taking head nodes as often
  as there are items gives back the old items, then the new ones, in order, and leaves an empty
  well-formed list. No step faults.
\<close>

theorem list_fifo:
  fixes l :: "'a LinkedList"
  assumes "ll_rep l cs" and "distinct (map fst mxs)" and "fst ` set mxs \<inter> owned l cs = {}"
  shows "\<exists>l1 l2. add_tail_all mxs l = Some l1 \<and>
    take_head_all (length cs + length mxs) l1 = Some (map snd cs @ map snd mxs, l2) \<and> ll_rep l2 []"
proof -
  obtain l1 ds where l1: "add_tail_all mxs l = Some l1" "ll_rep l1 (cs @ ds)" "map snd ds = map snd mxs"
    using ll.add_all_rep [OF assms] by (auto simp: add_all_loop)
  have "ll_rep l1 ((cs @ ds) @ [])" using l1(2) by simp
  from ll.take_all_rep [OF this] obtain l2 where
    "take_head_all (length (cs @ ds)) l1 = Some (map snd (cs @ ds), l2)" "ll_rep l2 []"
    by (auto simp: take_all_loop)
  moreover have "length ds = length mxs" using l1(3) by (metis length_map)
  ultimately show ?thesis using l1 by auto
qed

definition fresh_list :: "nat LinkedList" where
  "fresh_list = snd (ListInit None False)"

lemma fresh_list_rep: "ll_rep fresh_list []"
  by (simp add: fresh_list_def ListInit_rep)

lemma fresh_list_owned: "owned fresh_list [] = {}"
  by (simp add: owned_def fresh_list_def ListInit_def FreeListInit_def pool_def)

theorem list_fifo_witness:
  "\<exists>l1 l2. add_tail_all [(100, Some 7), (101, Some 8)] fresh_list = Some l1 \<and>
     take_head_all 2 l1 = Some ([Some 7, Some 8], l2) \<and> ll_rep l2 []"
  using list_fifo [of fresh_list "[]" "[(100, Some 7), (101, Some 8)]"]
  by (simp add: fresh_list_owned fresh_list_rep numeral_2_eq_2
      del: add_tail_all.simps take_head_all.simps)

text \<open>
  C33: Inserting next to a node of a well-formed list. \<^verbatim>\<open>ListAddAfter\<close> at the node before a
  position and \<^verbatim>\<open>ListAddBefore\<close> at the node after it both put the item at that position, in a
  cell the list did not use, keep all other items and their order, count the new item, and
  change nothing when no memory is left; neither faults.
\<close>

theorem list_insert_at:
  assumes "ll_rep l (cs @ ds)" and "set_option m \<inter> owned l (cs @ ds) = {}"
    and "op = ListAddAfter m l item (Some (before cs)) \<or> op = ListAddBefore m l item (Some (after ds))"
  shows "(\<exists>a l'. op = Some (Some (Cell a), l') \<and> ll_rep l' (cs @ (a, item) # ds) \<and>
            ListSize l' = ListSize l + 1 \<and> a \<notin> fst ` set (cs @ ds)) \<or>
         op = Some (None, l) \<and> m = None"
proof -
  have "ListSize l = int (length (cs @ ds))"
    using assms(1) by (simp add: ll_rep_def ListSize_def)
  moreover have "ListSize l' = int (length (cs @ (a, item) # ds))"
    if "ll_rep l' (cs @ (a, item) # ds)" for l' a
    using that by (simp add: ll_rep_def ListSize_def)
  ultimately show ?thesis by - (rule ListAdd_spec [OF assms], auto)
qed

theorem list_insert_at_witness:
  "(\<exists>a l'. ListAddAfter (Some 100) fresh_list (Some 7) (Some (before [])) = Some (Some (Cell a), l') \<and>
       ll_rep l' [(a, Some 7)] \<and> ListSize l' = ListSize fresh_list + 1 \<and> a \<notin> fst ` set [])"
  using list_insert_at [of fresh_list "[]" "[]" "Some 100" _ "Some 7", OF _ _ disjI1 [OF refl]]
  by (simp add: fresh_list_rep fresh_list_owned)

text \<open>
  Destroying a list. \<^verbatim>\<open>ListDestroy\<close> returns 0 on every well-formed list (its loop ends),
  hands each item to the free function exactly once and in list order when it is asked to and
  the list has one, and frees no item otherwise; afterwards the list is empty and no cell is
  kept for reuse.
\<close>

theorem list_destroy_frees:
  assumes "ll_rep l cs"
  shows "\<exists>l'. ListDestroy l freeItem =
     Some (0, l', if freeItem \<and> ll_free_func l then map snd cs else []) \<and>
     ll_rep l' [] \<and> pool (ll_freeNodeList l') = {}"
  using assms by (rule ListDestroy_spec)

definition one_item_list :: "nat LinkedList" where
  "one_item_list = (case ListAddTail (Some 100) (snd (ListInit None True)) (Some 7) of
                      Some (_, l) \<Rightarrow> l | None \<Rightarrow> snd (ListInit None True))"

lemma one_item_list_fields:
  "ll_nodes one_item_list =
     [Head \<mapsto> \<lparr>ln_prev = None, ln_next = Some (Cell 100), ln_item = None\<rparr>,
      Tail \<mapsto> \<lparr>ln_prev = Some (Cell 100), ln_next = None, ln_item = None\<rparr>,
      Cell 100 \<mapsto> \<lparr>ln_prev = Some Head, ln_next = Some Tail, ln_item = Some 7\<rparr>]"
  "ll_size one_item_list = 1" "ll_freeNodeList one_item_list = snd (FreeListInit 24 100)"
  "ll_free_func one_item_list" "ll_cmp_func one_item_list = None"
  by (auto simp: one_item_list_def ListAddTail_def ListAddBefore_def ListInit_def FreeListInit_def
      CreateListNode_def FreeListAlloc_def set_next_def set_prev_def fun_eq_iff)

lemma one_item_list_rep: "ll_rep one_item_list [(100, Some 7)]"
  by (auto simp: ll_rep_def one_item_list_fields fl_inv_init nxt_def prv_def itm_def)

theorem list_destroy_frees_witness:
  "\<exists>l'. ListDestroy one_item_list True = Some (0, l', [Some 7]) \<and> ll_rep l' [] \<and>
     pool (ll_freeNodeList l') = {}"
  using list_destroy_frees [OF one_item_list_rep, of True] by (simp add: one_item_list_fields)

text \<open>
  Searching. \<^verbatim>\<open>ListFind\<close> from the start of a well-formed list returns the first node whose
  item matches (by the list's comparison function, by pointer equality without one) and NULL
  when none does; started from a node it looks only at the nodes behind that one. The search
  ends and does not fault.
\<close>

lemma list_find_first:
  assumes "ll_rep l (cs @ (a, x) # ds)"
  shows "ListFind l None item = Some (map_option (\<lambda>(b, _). Cell b)
           (List.find (\<lambda>(_, y). list_matches l item y) (cs @ (a, x) # ds))) \<and>
         ListFind l (Some (Cell a)) item = Some (map_option (\<lambda>(b, _). Cell b)
           (List.find (\<lambda>(_, y). list_matches l item y) ds))"
  using ListFind_all [OF assms] ListFind_from [OF assms] by blast

end
