(* ===== verification/Cstdlib.thy ===== *)
theory Cstdlib
  imports Prelude
begin

section \<open>Numbers and substrings of the C library\<close>

text \<open>
  The functions of \<^verbatim>\<open>stdlib.h\<close>, \<^verbatim>\<open>stdio.h\<close> and \<^verbatim>\<open>string.h\<close> that the HTTP parser calls:
  \<^verbatim>\<open>strtol\<close> (\<^verbatim>\<open>long\<close> and \<^verbatim>\<open>long long\<close> have 64 bits), the directives \<^verbatim>\<open>%d\<close>, white space and a
  literal character of \<^verbatim>\<open>sscanf\<close>, and \<^verbatim>\<open>strstr\<close>. A C string argument is the list of the
  characters that can be read from the pointer; the list's end stands for the terminator.
\<close>

abbreviation (input) LONG_MAX :: int where "LONG_MAX \<equiv> 9223372036854775807"
abbreviation (input) LONG_MIN :: int where "LONG_MIN \<equiv> - 9223372036854775808"

text \<open>Conversion to \<^verbatim>\<open>int\<close>: the low 32 bits, read as a signed number.\<close>

definition wrap32 :: "int \<Rightarrow> int" where
  "wrap32 x = (x + 2147483648) mod 4294967296 - 2147483648"

lemma wrap32_id: "- 2147483648 \<le> x \<Longrightarrow> x < 2147483648 \<Longrightarrow> wrap32 x = x"
  by (simp add: wrap32_def)

definition digit_value :: "char \<Rightarrow> nat" where
  "digit_value c =
     (if isdigit c then code c - 48
      else if isupper c then code c - 55
      else if islower c then code c - 87
      else 255)"

definition is_digit_of :: "nat \<Rightarrow> char \<Rightarrow> bool" where
  "is_digit_of base c \<longleftrightarrow> digit_value c < base"

definition digits_value :: "nat \<Rightarrow> c_string \<Rightarrow> int" where
  "digits_value base ds = foldl (\<lambda>v c. v * int base + int (digit_value c)) 0 ds"

text \<open>
  \<^verbatim>\<open>strtol\<close> returns the value (saturated), the number of characters used (0 when there is no
  number) and whether \<^verbatim>\<open>errno\<close> was set to \<^verbatim>\<open>ERANGE\<close>.
\<close>

definition num_sign :: "c_string \<Rightarrow> nat" where
  "num_sign s = (if cur s = CHR ''-'' \<or> cur s = CHR ''+'' then 1 else 0)"

definition num_prefix :: "c_string \<Rightarrow> nat \<Rightarrow> nat" where
  "num_prefix s base =
     (if base = 16 \<and> cur s = CHR ''0'' \<and> tolower (cur (drop 1 s)) = CHR ''x'' \<and>
         is_digit_of 16 (cur (drop 2 s)) then 2 else 0)"

definition strtol :: "c_string \<Rightarrow> nat \<Rightarrow> int \<times> nat \<times> bool" where
  "strtol s base =
     (let ws = length (takeWhile isspace s);
          sg = ws + num_sign (drop ws s);
          st = sg + num_prefix (drop sg s) base;
          ds = takeWhile (is_digit_of base) (drop st s);
          v = (if cur (drop ws s) = CHR ''-'' then - digits_value base ds
               else digits_value base ds) in
      if ds = [] then (0, 0, False)
      else if v > LONG_MAX then (LONG_MAX, st + length ds, True)
      else if v < LONG_MIN then (LONG_MIN, st + length ds, True)
      else (v, st + length ds, False))"

text \<open>
  One \<^verbatim>\<open>%d\<close> of \<^verbatim>\<open>sscanf\<close>: white space, a sign, digits. The value is converted by the rules of
  \<^verbatim>\<open>strtol\<close> and stored into an \<^verbatim>\<open>int\<close>.
\<close>

definition scan_int :: "c_string \<Rightarrow> (int \<times> c_string) option" where
  "scan_int s =
     (case strtol s 10 of (v, n, _) \<Rightarrow> if n = 0 then None else Some (wrap32 v, drop n s))"

definition scan_ws :: "c_string \<Rightarrow> c_string" where
  "scan_ws s = dropWhile isspace s"

definition scan_lit :: "char \<Rightarrow> c_string \<Rightarrow> c_string option" where
  "scan_lit c s = (case s of [] \<Rightarrow> None | d # ds \<Rightarrow> if d = c then Some ds else None)"

text \<open>The position of the first occurrence of a string, as \<^verbatim>\<open>strstr\<close> finds it.\<close>

fun strstr :: "c_string \<Rightarrow> c_string \<Rightarrow> nat option" where
  "strstr [] pat = (if pat = [] then Some 0 else None)"
| "strstr (c # s) pat =
     (if take (length pat) (c # s) = pat then Some 0 else map_option Suc (strstr s pat))"

text \<open>A block read as a C string.\<close>

definition cstr :: "c_block \<Rightarrow> c_string" where
  "cstr b = takeWhile (\<lambda>c. c \<noteq> NUL) b"

text \<open>What \<^verbatim>\<open>%d\<close> and \<^verbatim>\<open>%02d\<close> of \<^verbatim>\<open>sprintf\<close> print, and a print into an array that must hold the text and its terminator.\<close>

definition dec_digit :: "nat \<Rightarrow> char" where
  "dec_digit d = char_of (48 + d)"

fun dec :: "nat \<Rightarrow> c_string" where
  "dec n = (if n < 10 then [dec_digit n] else dec (n div 10) @ [dec_digit (n mod 10)])"

declare dec.simps [simp del]

definition dec_int :: "int \<Rightarrow> c_string" where
  "dec_int n = (if n < 0 then CHR ''-'' # dec (nat (- n)) else dec (nat n))"

definition dec02 :: "int \<Rightarrow> c_string" where
  "dec02 n = replicate (2 - length (dec_int n)) (CHR ''0'') @ dec_int n"

definition put :: "nat \<Rightarrow> c_string \<Rightarrow> c_string option" where
  "put cap s = (if length s < cap then Some s else None)"

subsection \<open>Facts\<close>

lemma digit_value_other: "\<not> isalnum c \<Longrightarrow> digit_value c = 255"
  by (auto simp: digit_value_def isalnum_def isalpha_def)

lemma not_digit_of: "\<not> isalnum c \<Longrightarrow> base \<le> 255 \<Longrightarrow> \<not> is_digit_of base c"
  by (simp add: is_digit_of_def digit_value_other)

lemma takeWhile_stop: "\<not> P c \<Longrightarrow> takeWhile P (t @ c # r) = takeWhile P t"
  by (induction t) auto

text \<open>A number is not read beyond a character that is no letter, digit or sign.\<close>

lemma strtol_stop:
  assumes t: "t \<noteq> []" "\<not> isspace (hd t)" and c: "\<not> isalnum c" and base: "base \<le> 255"
  shows "strtol (t @ c # r) base = strtol t base"
proof -
  have d: "\<not> is_digit_of base c" "\<not> is_digit_of 16 c" "\<not> is_digit_of 16 NUL"
    using not_digit_of c base by (auto simp: is_digit_of_def digit_value_def ctype_defs)
  have x: "tolower c \<noteq> CHR ''x''" "c \<noteq> CHR ''0''"
  proof -
    have "isalnum (CHR ''x'')" "isalnum (CHR ''0'')" by code_simp+
    moreover have "tolower c = c" using c by (simp add: tolower_def isalnum_def isalpha_def)
    ultimately show "tolower c \<noteq> CHR ''x''" "c \<noteq> CHR ''0''" using c by metis+
  qed
  obtain a u where a: "t = a # u" "\<not> isspace a" using t by (cases t) auto
  have ws: "takeWhile isspace (t @ c # r) = []" "takeWhile isspace t = []" by (simp_all add: a)
  have sg: "num_sign (t @ c # r) = num_sign t" "num_sign t \<le> length t"
    by (simp_all add: a num_sign_def)
  have pre: "num_prefix (v @ c # r) base = num_prefix v base" "num_prefix v base \<le> length v" for v
  proof -
    consider "v = []" | b where "v = [b]" | b e where "v = [b, e]" | b e f w where "v = b # e # f # w"
      by (metis list.exhaust)
    then show "num_prefix (v @ c # r) base = num_prefix v base" "num_prefix v base \<le> length v"
      by (cases; simp add: num_prefix_def d x)+
  qed
  let ?sg = "num_sign t"
  have "drop ?sg (t @ c # r) = drop ?sg t @ c # r" using sg(2) by simp
  then have st: "num_prefix (drop ?sg (t @ c # r)) base = num_prefix (drop ?sg t) base"
    using pre(1) by simp
  let ?st = "?sg + num_prefix (drop ?sg t) base"
  have "?st \<le> length t" using sg(2) pre(2) [of "drop ?sg t"] by simp
  then have "takeWhile (is_digit_of base) (drop ?st (t @ c # r)) = takeWhile (is_digit_of base) (drop ?st t)"
    using d(1) by (simp add: takeWhile_stop)
  moreover have "cur (t @ c # r) = cur t" by (simp add: a)
  ultimately show ?thesis by (simp add: strtol_def ws sg(1) st del: drop_append)
qed

end
