(* ===== verification/Scanner.thy ===== *)
theory Scanner
  imports Uri Cstdlib Strintmap
begin

section \<open>Scanning HTTP text (first half of upnp/src/genlib/net/http/httpparser.c)\<close>

text \<open>
  The tokenizer of the HTTP parser and its pattern matcher. A scanner keeps the bytes of the
  message (the contents of the buffer it points to, which is followed by the terminator that
  the buffer keeps), the cursor and the flag that no more bytes will come. Reading with the
  cursor behind the terminator is a fault. A token is its type and its text; a \<^verbatim>\<open>memptr\<close> that
  a match stores is the text it spans.

  The matcher \<open>vfmatch\<close> interprets a format string and returns the values it stored in the
  order of its arguments; what \<^verbatim>\<open>%U\<close> does with the text (\<^verbatim>\<open>parse_uri\<close> on the caller's record)
  is its first argument.

  The lemmas show that the scanner stays inside the message, that its loops end, that a failed
  match leaves the cursor where it was, and that an answer other than \<^verbatim>\<open>PARSE_INCOMPLETE\<close> on a
  partly received message is final: more bytes do not change it.
\<close>

datatype token_type_t =
  TT_IDENTIFIER | TT_WHITESPACE | TT_CRLF | TT_CTRL | TT_SEPARATOR | TT_QUOTEDSTRING

datatype parse_status_t =
  PARSE_SUCCESS | PARSE_INCOMPLETE | PARSE_INCOMPLETE_ENTITY | PARSE_FAILURE | PARSE_OK
| PARSE_NO_MATCH | PARSE_CONTINUE_1

record scanner_t =
  sc_msg :: c_string
  sc_cursor :: nat
  sc_entire_msg_loaded :: bool

datatype scan_token = Token token_type_t c_string | NoToken parse_status_t

abbreviation (input) TOKCHAR_CR :: char where "TOKCHAR_CR \<equiv> CHR 0x0D"
abbreviation (input) TOKCHAR_LF :: char where "TOKCHAR_LF \<equiv> CHR 0x0A"
abbreviation (input) TAB :: char where "TAB \<equiv> CHR 0x09"

definition scanner_init :: "c_string \<Rightarrow> scanner_t" where
  "scanner_init msg = \<lparr>sc_msg = msg, sc_cursor = 0, sc_entire_msg_loaded = False\<rparr>"

definition is_separator_char :: "char \<Rightarrow> bool" where
  "is_separator_char c = strchr ('' '' @ [TAB] @ ''()<>@,;:'' @ [CHR 0x5C, CHR 0x22] @ ''/[]?={}'') c"

definition is_identifier_char :: "char \<Rightarrow> bool" where
  "is_identifier_char c \<longleftrightarrow> (32 \<le> code c \<and> code c \<le> 126) \<and> \<not> is_separator_char c"

definition is_control_char :: "char \<Rightarrow> bool" where
  "is_control_char c \<longleftrightarrow> code c \<le> 31 \<or> code c = 127"

definition is_qdtext_char :: "char \<Rightarrow> bool" where
  "is_qdtext_char c \<longleftrightarrow>
     (32 \<le> code c \<and> code c \<noteq> 127) \<or> c = TOKCHAR_CR \<or> c = TOKCHAR_LF \<or> c = TAB"

definition is_blank_char :: "char \<Rightarrow> bool" where
  "is_blank_char c \<longleftrightarrow> c = CHR '' '' \<or> c = TAB"

text \<open>
  The loop over quoted text, from behind the opening quote: the number of characters up to and
  including the closing quote, or the status.
\<close>

fun quoted_loop :: "c_string \<Rightarrow> nat \<Rightarrow> parse_status_t + nat" where
  "quoted_loop [] n = Inl PARSE_INCOMPLETE"
| "quoted_loop (c # cs) n =
     (if c = CHR 0x22 then Inr (Suc n)
      else if c = CHR 0x5C then
        (case cs of
           [] \<Rightarrow> Inl PARSE_INCOMPLETE
         | d # ds \<Rightarrow> if d = NUL then Inl PARSE_FAILURE else quoted_loop ds (Suc (Suc n)))
      else if is_qdtext_char c then quoted_loop cs (Suc n)
      else Inl PARSE_FAILURE)"

text \<open>The type and the length of the token at the start of the remaining input.\<close>

definition token_at :: "bool \<Rightarrow> c_string \<Rightarrow> parse_status_t + (token_type_t \<times> nat)" where
  "token_at loaded rest =
     (case rest of
        [] \<Rightarrow> Inl PARSE_INCOMPLETE
      | c # cs \<Rightarrow>
          if is_identifier_char c then
            (let n = Suc (length (takeWhile is_identifier_char cs)) in
             if \<not> loaded \<and> n = length rest then Inl PARSE_INCOMPLETE else Inr (TT_IDENTIFIER, n))
          else if is_blank_char c then
            (let n = Suc (length (takeWhile is_blank_char cs)) in
             if \<not> loaded \<and> n = length rest then Inl PARSE_INCOMPLETE else Inr (TT_WHITESPACE, n))
          else if c = TOKCHAR_CR then
            (case cs of
               [] \<Rightarrow> Inl PARSE_INCOMPLETE
             | d # _ \<Rightarrow> if d \<noteq> TOKCHAR_LF then Inr (TT_CTRL, 1) else Inr (TT_CRLF, 2))
          else if c = TOKCHAR_LF then Inr (TT_CRLF, 1)
          else if c = CHR 0x22 then map_sum id (\<lambda>n. (TT_QUOTEDSTRING, n)) (quoted_loop cs 1)
          else if is_separator_char c then Inr (TT_SEPARATOR, 1)
          else if is_control_char c then Inr (TT_CTRL, 1)
          else Inl PARSE_FAILURE)"

definition scanner_rest :: "scanner_t \<Rightarrow> c_string" where
  "scanner_rest s = drop (sc_cursor s) (sc_msg s)"

definition scanner_get_token :: "scanner_t \<Rightarrow> (scan_token \<times> scanner_t) option" where
  "scanner_get_token s =
     (if sc_cursor s > length (sc_msg s) then None
      else
        (case token_at (sc_entire_msg_loaded s) (scanner_rest s) of
           Inl st \<Rightarrow> Some (NoToken st, s)
         | Inr (tt, n) \<Rightarrow>
             Some (Token tt (take n (scanner_rest s)), s\<lparr>sc_cursor := sc_cursor s + n\<rparr>)))"

definition scanner_get_str :: "scanner_t \<Rightarrow> nat" where
  "scanner_get_str s = sc_cursor s"

definition scanner_pushback :: "scanner_t \<Rightarrow> nat \<Rightarrow> scanner_t" where
  "scanner_pushback s pushback_bytes = s\<lparr>sc_cursor := size_sub (sc_cursor s) pushback_bytes\<rparr>"

subsection \<open>Tokens lie inside the message\<close>

lemma quoted_loop_bound: "quoted_loop cs n = Inr k \<Longrightarrow> n < k \<and> k \<le> n + length cs"
proof (induction cs n rule: quoted_loop.induct)
  case (2 c cs n)
  show ?case
  proof (cases "c = CHR 0x5C")
    case True
    with 2 show ?thesis by (cases cs) (auto split: if_splits)
  next
    case False
    with "2.prems" "2.IH"(2) show ?thesis by (auto split: if_splits)
  qed
qed simp

text \<open>The branches of the tokenizer, one equation each.\<close>

lemma token_at_Nil: "token_at loaded [] = Inl PARSE_INCOMPLETE"
  by (simp add: token_at_def)

lemma token_at_Cons:
  obtains (ident) "is_identifier_char c"
      "\<And>l cs. token_at l (c # cs) =
         (if \<not> l \<and> takeWhile is_identifier_char cs = cs then Inl PARSE_INCOMPLETE
          else Inr (TT_IDENTIFIER, Suc (length (takeWhile is_identifier_char cs))))"
    | (blank) "is_blank_char c"
      "\<And>l cs. token_at l (c # cs) =
         (if \<not> l \<and> takeWhile is_blank_char cs = cs then Inl PARSE_INCOMPLETE
          else Inr (TT_WHITESPACE, Suc (length (takeWhile is_blank_char cs))))"
    | (cr) "c = TOKCHAR_CR"
      "\<And>l cs. token_at l (c # cs) =
         (case cs of [] \<Rightarrow> Inl PARSE_INCOMPLETE
          | d # _ \<Rightarrow> if d \<noteq> TOKCHAR_LF then Inr (TT_CTRL, 1) else Inr (TT_CRLF, 2))"
    | (quote) "c = CHR 0x22"
      "\<And>l cs. token_at l (c # cs) = map_sum id (\<lambda>n. (TT_QUOTEDSTRING, n)) (quoted_loop cs 1)"
    | (one) r where "\<And>l cs. token_at l (c # cs) = r" 
        "r = Inl PARSE_FAILURE \<or> (\<exists>tt. tt \<in> {TT_CRLF, TT_SEPARATOR, TT_CTRL} \<and> r = Inr (tt, 1))"
proof -
  have tw: "length (takeWhile P cs) = length cs \<longleftrightarrow> (\<forall>x \<in> set cs. P x)" for P and cs :: c_string
    by (induction cs) auto
  consider (i) "is_identifier_char c" | (b) "\<not> is_identifier_char c" "is_blank_char c"
    | (r) "\<not> is_identifier_char c" "\<not> is_blank_char c" "c = TOKCHAR_CR"
    | (q) "\<not> is_identifier_char c" "\<not> is_blank_char c" "c = CHR 0x22"
    | (o) "\<not> is_identifier_char c" "\<not> is_blank_char c" "c \<noteq> TOKCHAR_CR" "c \<noteq> CHR 0x22" by metis
  then show thesis
  proof cases
    case i
    then show thesis by (intro ident) (simp_all add: token_at_def tw)
  next
    case b
    then show thesis by (intro blank) (simp_all add: token_at_def tw)
  next
    case r
    then show thesis by (intro cr) (simp_all add: token_at_def)
  next
    case q
    then show thesis by (intro quote) (simp_all add: token_at_def)
  next
    case o
    let ?r = "if c = TOKCHAR_LF then Inr (TT_CRLF, 1)
      else if is_separator_char c then Inr (TT_SEPARATOR, 1)
      else if is_control_char c then Inr (TT_CTRL, 1) else Inl PARSE_FAILURE"
    show thesis by (rule one [of ?r]) (use o in \<open>auto simp: token_at_def\<close>)
  qed
qed

lemma token_at_bound:
  assumes "token_at l rest = Inr (tt, n)"
  shows "0 < n \<and> n \<le> length rest"
proof (cases rest)
  case (Cons c cs)
  show ?thesis
  proof (cases rule: token_at_Cons [of c])
    case quote
    with assms Cons obtain k where "quoted_loop cs 1 = Inr k" "n = k"
      by (cases "quoted_loop cs 1") auto
    then show ?thesis using quoted_loop_bound [of cs 1 k] Cons by simp
  qed (use assms Cons length_takeWhile_le in \<open>auto split: if_splits list.splits\<close>)
qed (use assms in \<open>simp add: token_at_Nil\<close>)

lemma quoted_loop_status: "quoted_loop cs n = Inl st \<Longrightarrow> st = PARSE_INCOMPLETE \<or> st = PARSE_FAILURE"
proof (induction cs n rule: quoted_loop.induct)
  case (2 c cs n)
  show ?case
  proof (cases "c = CHR 0x5C")
    case True
    with 2 show ?thesis by (cases cs) (auto split: if_splits)
  next
    case False
    with "2.prems" "2.IH"(2) show ?thesis by (auto split: if_splits)
  qed
qed simp

lemma token_at_status:
  assumes "token_at l rest = Inl st"
  shows "st = PARSE_INCOMPLETE \<or> st = PARSE_FAILURE"
proof (cases rest)
  case (Cons c cs)
  show ?thesis
  proof (cases rule: token_at_Cons [of c])
    case quote
    with assms Cons have "quoted_loop cs 1 = Inl st" by (cases "quoted_loop cs 1") auto
    then show ?thesis by (rule quoted_loop_status)
  qed (use assms Cons in \<open>auto split: if_splits list.splits\<close>)
qed (use assms in \<open>simp add: token_at_Nil\<close>)

text \<open>What one call of the tokenizer does, for the proofs about the loops built on it.\<close>

lemma scanner_get_token_cases:
  assumes "sc_cursor s \<le> length (sc_msg s)"
  obtains (no) st where "scanner_get_token s = Some (NoToken st, s)"
        "token_at (sc_entire_msg_loaded s) (scanner_rest s) = Inl st"
        "st = PARSE_INCOMPLETE \<or> st = PARSE_FAILURE"
    | (tok) tt n where "scanner_get_token s =
          Some (Token tt (take n (scanner_rest s)), s\<lparr>sc_cursor := sc_cursor s + n\<rparr>)"
        "token_at (sc_entire_msg_loaded s) (scanner_rest s) = Inr (tt, n)"
        "0 < n" "sc_cursor s + n \<le> length (sc_msg s)"
proof (cases "token_at (sc_entire_msg_loaded s) (scanner_rest s)")
  case (Inl st)
  with assms show thesis using no token_at_status by (simp add: scanner_get_token_def)
next
  case (Inr p)
  obtain tt n where p: "p = (tt, n)" by force
  with Inr have "0 < n \<and> n \<le> length (scanner_rest s)" using token_at_bound by blast
  with assms Inr p show thesis by (intro tok [of tt n]) (auto simp: scanner_get_token_def scanner_rest_def)
qed

lemma scanner_get_token_fault: "scanner_get_token s = None \<longleftrightarrow> sc_cursor s > length (sc_msg s)"
  by (auto simp: scanner_get_token_def split: sum.splits)

lemma scanner_get_token_advance:
  assumes "scanner_get_token s = Some (Token tt t, s')"
  shows "sc_cursor s < sc_cursor s'" "sc_cursor s' \<le> length (sc_msg s)" "sc_msg s' = sc_msg s"
    "sc_entire_msg_loaded s' = sc_entire_msg_loaded s" "length t = sc_cursor s' - sc_cursor s"
proof -
  have "sc_cursor s \<le> length (sc_msg s)" using assms scanner_get_token_fault [of s] by force
  then show "sc_cursor s < sc_cursor s'" "sc_cursor s' \<le> length (sc_msg s)" "sc_msg s' = sc_msg s"
    "sc_entire_msg_loaded s' = sc_entire_msg_loaded s" "length t = sc_cursor s' - sc_cursor s"
    by (cases s rule: scanner_get_token_cases; use assms in \<open>auto simp: scanner_rest_def\<close>)+
qed

subsection \<open>Loops over tokens\<close>

text \<open>A scanning step: the status, what it stores through its pointers, and the scanner.\<close>

type_synonym 'a scan = "scanner_t \<Rightarrow> (parse_status_t \<times> 'a \<times> scanner_t) option"

text \<open>
  Each loop calls the tokenizer until a token or a status ends it; every token moves the cursor
  towards the end of the message.
\<close>

definition unread :: "scanner_t \<Rightarrow> nat" where
  "unread s = length (sc_msg s) - sc_cursor s"

lemma unread_token: "scanner_get_token s = Some (Token tt t, s') \<Longrightarrow> unread s' < unread s"
  using scanner_get_token_advance [of s tt t s'] by (simp add: unread_def)

text \<open>
  Reading tokens until a loop condition fails. The condition sees what the loop has collected,
  the position, type and text of the token, and gives what is collected then. The result is the
  status, what was collected, the length of the token that ended the loop, and the scanner.
\<close>

function token_loop ::
  "('a \<Rightarrow> nat \<Rightarrow> token_type_t \<Rightarrow> c_string \<Rightarrow> 'a option) \<Rightarrow> 'a \<Rightarrow> scanner_t \<Rightarrow>
   (parse_status_t \<times> 'a \<times> nat \<times> scanner_t) option" where
  "token_loop go a s =
     (case scanner_get_token s of
        None \<Rightarrow> None
      | Some (NoToken st, s1) \<Rightarrow> Some (st, a, 0, s1)
      | Some (Token tt t, s1) \<Rightarrow>
          (case go a (sc_cursor s) tt t of
             Some a1 \<Rightarrow> token_loop go a1 s1
           | None \<Rightarrow> Some (PARSE_OK, a, length t, s1)))"
  by pat_completeness auto
termination
  by (relation "measure (\<lambda>(go, a, s). unread s)") (auto dest: unread_token)

declare token_loop.simps [simp del]

definition skip_blank_lines :: "unit scan" where
  "skip_blank_lines s =
     do { (status, _, len, s1) \<leftarrow>
            token_loop (\<lambda>_ _ tt _. if tt = TT_WHITESPACE \<or> tt = TT_CRLF then Some () else None) () s;
          Some (status, (), if status = PARSE_OK then s1\<lparr>sc_cursor := sc_cursor s1 - len\<rparr> else s1) }"

text \<open>\<^verbatim>\<open>skip_lws\<close>: one round takes white space, or a line end followed by white space.\<close>

function skip_lws_loop :: "scanner_t \<Rightarrow> (parse_status_t \<times> scanner_t) option" where
  "skip_lws_loop s =
     (case scanner_get_token s of
        None \<Rightarrow> None
      | Some (NoToken st, s1) \<Rightarrow> Some (st, s1)
      | Some (Token tt t, s1) \<Rightarrow>
          if tt = TT_CRLF then
            (case scanner_get_token s1 of
               None \<Rightarrow> None
             | Some (NoToken st, s2) \<Rightarrow> Some (st, s2\<lparr>sc_cursor := sc_cursor s\<rparr>)
             | Some (Token tt2 t2, s2) \<Rightarrow>
                 if tt2 = TT_WHITESPACE then skip_lws_loop s2
                 else Some (PARSE_OK, s2\<lparr>sc_cursor := sc_cursor s\<rparr>))
          else if tt = TT_WHITESPACE then skip_lws_loop s1
          else Some (PARSE_OK, s1\<lparr>sc_cursor := sc_cursor s\<rparr>))"
  by pat_completeness auto
termination
  by (relation "measure unread") (auto dest!: unread_token)

declare skip_lws_loop.simps [simp del]

definition skip_lws :: "unit scan" where
  "skip_lws s =
     do { (status, s1) \<leftarrow> skip_lws_loop s;
          Some (if status = PARSE_INCOMPLETE \<and> sc_entire_msg_loaded s1 then PARSE_OK else status,
                (), s1) }"

text \<open>\<^verbatim>\<open>match_non_ws_string\<close> (the text is given by its length from the cursor on).\<close>

definition match_non_ws_string :: "c_string scan" where
  "match_non_ws_string s =
     do { (status, len, last, s1) \<leftarrow>
            token_loop (\<lambda>len _ tt t. if tt \<noteq> TT_WHITESPACE \<and> tt \<noteq> TT_CRLF
                                     then Some (len + length t) else None) 0 s;
          let s2 = (if status = PARSE_OK then s1\<lparr>sc_cursor := sc_cursor s1 - last\<rparr> else s1);
          let str = take len (scanner_rest s);
          Some (if status = PARSE_OK \<or> (status = PARSE_INCOMPLETE \<and> sc_entire_msg_loaded s2)
                then if len = 0 then (PARSE_NO_MATCH, str, s2) else (PARSE_OK, str, s2)
                else (status, str, s2\<lparr>sc_cursor := sc_cursor s\<rparr>)) }"

text \<open>\<^verbatim>\<open>match_raw_value\<close>: a value runs to the line end that is not followed by white space.\<close>

definition raw_value_go ::
  "bool \<times> nat \<times> nat \<Rightarrow> nat \<Rightarrow> token_type_t \<Rightarrow> c_string \<Rightarrow> (bool \<times> nat \<times> nat) option" where
  "raw_value_go a pos tt t =
     (case a of (saw_crlf, pos_at_crlf, len) \<Rightarrow>
        if \<not> saw_crlf then
          Some (tt = TT_CRLF, if tt = TT_CRLF then pos else pos_at_crlf, len + length t)
        else if tt = TT_WHITESPACE then Some (False, pos_at_crlf, len + length t)
        else None)"

primrec trim_right :: "c_string \<Rightarrow> nat \<Rightarrow> nat" where
  "trim_right buf 0 = 0"
| "trim_right buf (Suc n) =
     (if rd buf n \<noteq> CHR '' '' \<and> rd buf n \<noteq> TAB \<and> rd buf n \<noteq> TOKCHAR_CR \<and> rd buf n \<noteq> TOKCHAR_LF
      then Suc n else trim_right buf n)"

definition match_raw_value :: "c_string scan" where
  "match_raw_value s =
     do { (status, (_, pos_at_crlf, len), _, s1) \<leftarrow> token_loop raw_value_go (False, 0, 0) s;
          let buf = scanner_rest s;
          Some (if status = PARSE_OK
                then (status, take (trim_right buf len) buf, s1\<lparr>sc_cursor := pos_at_crlf\<rparr>)
                else (status, take len buf, s1\<lparr>sc_cursor := sc_cursor s\<rparr>)) }"

definition skip_to_end_of_header :: "unit scan" where
  "skip_to_end_of_header s = do { (status, _, s1) \<leftarrow> match_raw_value s; Some (status, (), s1) }"

text \<open>\<^verbatim>\<open>match_int\<close> also returns what it stored into its \<^verbatim>\<open>int\<close> argument, if it did.\<close>

definition match_int :: "nat \<Rightarrow> int option scan" where
  "match_int base s =
     (case scanner_get_token s of
        None \<Rightarrow> None
      | Some (NoToken st, s1) \<Rightarrow> Some (st, None, s1\<lparr>sc_cursor := sc_cursor s\<rparr>)
      | Some (Token tt t, s1) \<Rightarrow>
          if tt = TT_IDENTIFIER then
            (case strtol (scanner_rest s) base of (num, used, erange) \<Rightarrow>
               if num < 0 \<or> used \<noteq> length t \<or> ((num = LONG_MIN \<or> num = LONG_MAX) \<and> erange)
               then Some (PARSE_NO_MATCH, Some (wrap32 num), s1\<lparr>sc_cursor := sc_cursor s\<rparr>)
               else Some (PARSE_OK, Some (wrap32 num), s1))
          else Some (PARSE_NO_MATCH, None, s1\<lparr>sc_cursor := sc_cursor s\<rparr>))"

definition read_until_crlf :: "c_string scan" where
  "read_until_crlf s =
     do { (status, _, last, s1) \<leftarrow>
            token_loop (\<lambda>_ _ tt _. if tt \<noteq> TT_CRLF then Some () else None) () s;
          let s2 = s1\<lparr>sc_cursor := sc_cursor s1 - last\<rparr>;
          Some (if status = PARSE_OK
                then (status, take (sc_cursor s2 - sc_cursor s) (scanner_rest s), s2)
                else (status, [], s1)) }"

definition match_char :: "char \<Rightarrow> bool \<Rightarrow> unit scan" where
  "match_char c case_sensitive s =
     (if sc_cursor s \<ge> length (sc_msg s) then Some (PARSE_INCOMPLETE, (), s)
      else
        (let scan_char = sc_msg s ! sc_cursor s in
         Some (if (if case_sensitive then c = scan_char else tolower c = tolower scan_char)
               then PARSE_OK else PARSE_NO_MATCH, (),
               s\<lparr>sc_cursor := Suc (sc_cursor s)\<rparr>)))"

subsection \<open>The pattern matcher\<close>

datatype capture = CapStr c_string | CapInt int | CapUri uri_type

text \<open>A token of one type, as the directives for identifiers, line ends and quotes want it.\<close>

definition match_token :: "token_type_t \<Rightarrow> c_string scan" where
  "match_token want s =
     (case scanner_get_token s of
        None \<Rightarrow> None
      | Some (NoToken st, s1) \<Rightarrow> Some (st, [], s1)
      | Some (Token tt t, s1) \<Rightarrow> Some (if tt = want then PARSE_OK else PARSE_NO_MATCH, t, s1))"

definition optional_ws :: "unit scan" where
  "optional_ws s =
     (case scanner_get_token s of
        None \<Rightarrow> None
      | Some (NoToken st, s1) \<Rightarrow> Some (st, (), s1)
      | Some (Token tt t, s1) \<Rightarrow>
          Some (PARSE_OK, (),
                if tt = TT_WHITESPACE then s1 else s1\<lparr>sc_cursor := sc_cursor s1 - length t\<rparr>))"

text \<open>
  Steps in sequence: the second runs when the first answers \<^verbatim>\<open>PARSE_OK\<close>, and the stored values
  add up.
\<close>

definition scan_seq :: "'a list scan \<Rightarrow> 'a list scan \<Rightarrow> 'a list scan" where
  "scan_seq f g s =
     do { (st, x, s1) \<leftarrow> f s;
          if st = PARSE_OK then do { (st2, y, s2) \<leftarrow> g s1; Some (st2, x @ y, s2) }
          else Some (st, x, s1) }"

definition scan_map :: "('a \<Rightarrow> 'b) \<Rightarrow> 'a scan \<Rightarrow> 'b scan" where
  "scan_map h f s = do { (st, x, s1) \<leftarrow> f s; Some (st, h x, s1) }"

definition match_uri :: "(c_string \<Rightarrow> int \<times> uri_type) \<Rightarrow> capture list scan" where
  "match_uri U s =
     do { (st, x, s1) \<leftarrow> match_non_ws_string s;
          if st = PARSE_OK
          then (case U x of (stat, u) \<Rightarrow> Some (if stat \<noteq> 1 then PARSE_NO_MATCH else PARSE_OK, [CapUri u], s1))
          else Some (st, [], s1) }"

definition match_end :: "unit scan" where
  "match_end s = Some (if sc_cursor s = length (sc_msg s) then PARSE_OK else PARSE_NO_MATCH, (), s)"

text \<open>
  One conversion behind \<^verbatim>\<open>%\<close> with what it stores; an unknown one trips the assertion. Two of
  them only set the case flag.
\<close>

definition conversion :: "(c_string \<Rightarrow> int \<times> uri_type) \<Rightarrow> char \<Rightarrow> bool \<Rightarrow> capture list scan" where
  "conversion U c cs =
     (if c = CHR ''R'' then scan_map (\<lambda>x. [CapStr x]) match_raw_value
      else if c = CHR ''s'' then scan_map (\<lambda>x. [CapStr x]) (match_token TT_IDENTIFIER)
      else if c = CHR ''c'' then scan_map (\<lambda>_. []) (match_token TT_CRLF)
      else if c = CHR ''d'' \<or> c = CHR ''x'' then
        scan_map (\<lambda>v. case v of None \<Rightarrow> [] | Some n \<Rightarrow> [CapInt n])
          (match_int (if c = CHR ''d'' then 10 else 16))
      else if c = CHR ''S'' then scan_map (\<lambda>x. [CapStr x]) match_non_ws_string
      else if c = CHR ''U'' then match_uri U
      else if c = CHR ''L'' then scan_map (\<lambda>x. [CapStr x]) read_until_crlf
      else if c = CHR '' '' \<or> c = CHR ''%'' then scan_map (\<lambda>_. []) (match_char c cs)
      else if c = CHR ''n'' \<or> c = CHR ''i'' then (\<lambda>s. Some (PARSE_OK, [], s))
      else if c = CHR ''q'' then scan_map (\<lambda>x. [CapStr x]) (match_token TT_QUOTEDSTRING)
      else if c = CHR ''w'' then scan_map (\<lambda>_. []) optional_ws
      else if c = CHR ''P'' then (\<lambda>s. Some (PARSE_OK, [CapInt (wrap32 (int (sc_cursor s)))], s))
      else if c = CHR ''0'' then scan_map (\<lambda>_. []) match_end
      else (\<lambda>s. None))"

definition case_flag :: "char \<Rightarrow> bool \<Rightarrow> bool" where
  "case_flag c cs = (if c = CHR ''n'' then True else if c = CHR ''i'' then False else cs)"

definition literal :: "char \<Rightarrow> bool \<Rightarrow> unit scan" where
  "literal c cs =
     (if c = CHR '' '' then skip_lws
      else if c = TAB then scan_map (\<lambda>_. ()) (match_token TT_WHITESPACE)
      else match_char c cs)"

fun vfmatch_loop :: "(c_string \<Rightarrow> int \<times> uri_type) \<Rightarrow> c_string \<Rightarrow> bool \<Rightarrow> capture list scan" where
  "vfmatch_loop U [] cs = (\<lambda>s. Some (PARSE_OK, [], s))"
| "vfmatch_loop U (c # fmt) cs =
     (if c = CHR ''%'' then
        (case fmt of
           [] \<Rightarrow> (\<lambda>s. None)
         | d # fmt' \<Rightarrow> scan_seq (conversion U d cs) (vfmatch_loop U fmt' (case_flag d cs)))
      else scan_seq (scan_map (\<lambda>_. []) (literal c cs)) (vfmatch_loop U fmt cs))"

definition vfmatch :: "(c_string \<Rightarrow> int \<times> uri_type) \<Rightarrow> c_string \<Rightarrow> capture list scan" where
  "vfmatch U fmt s =
     do { (st, caps, s1) \<leftarrow> vfmatch_loop U fmt True s;
          Some (st, caps, if st \<noteq> PARSE_OK then s1\<lparr>sc_cursor := sc_cursor s\<rparr> else s1) }"

definition match :: "(c_string \<Rightarrow> int \<times> uri_type) \<Rightarrow> c_string \<Rightarrow> capture list scan" where
  "match U fmt s = vfmatch U fmt s"

definition matchstr ::
  "(c_string \<Rightarrow> int \<times> uri_type) \<Rightarrow> c_string \<Rightarrow> nat \<Rightarrow> c_string \<Rightarrow> (parse_status_t \<times> capture list) option"
where
  "matchstr U str slen fmt =
     do { (st, caps, _) \<leftarrow> vfmatch U fmt ((scanner_init (take slen str))\<lparr>sc_entire_msg_loaded := True\<rparr>);
          Some (st, caps) }"

subsection \<open>The contract of a scanning step\<close>

text \<open>
  What all of these functions promise. Started inside the message they return, keep the message
  and stay inside it. While the message is still arriving, an answer other than
  \<^verbatim>\<open>PARSE_INCOMPLETE\<close> does not depend on the bytes to come.
\<close>

definition sc_ok :: "scanner_t \<Rightarrow> bool" where
  "sc_ok s \<longleftrightarrow> sc_cursor s \<le> length (sc_msg s)"

definition same_msg :: "scanner_t \<Rightarrow> scanner_t \<Rightarrow> bool" where
  "same_msg s s1 \<longleftrightarrow> sc_msg s1 = sc_msg s \<and> sc_entire_msg_loaded s1 = sc_entire_msg_loaded s"

definition arrive :: "c_string \<Rightarrow> scanner_t \<Rightarrow> scanner_t" where
  "arrive b s = s\<lparr>sc_msg := sc_msg s @ b\<rparr>"

lemma same_msg_refl [simp]: "same_msg s s"
  by (simp add: same_msg_def)

lemma same_msg_trans: "same_msg s s1 \<Longrightarrow> same_msg s1 s2 \<Longrightarrow> same_msg s s2"
  by (simp add: same_msg_def)

lemma same_msg_cursor [simp]: "same_msg s (s1\<lparr>sc_cursor := k\<rparr>) = same_msg s s1"
  by (simp add: same_msg_def)

lemma arrive_simps [simp]:
  "sc_cursor (arrive b s) = sc_cursor s" "sc_msg (arrive b s) = sc_msg s @ b"
  "sc_entire_msg_loaded (arrive b s) = sc_entire_msg_loaded s"
  "arrive b (s\<lparr>sc_cursor := k\<rparr>) = (arrive b s)\<lparr>sc_cursor := k\<rparr>"
  by (simp_all add: arrive_def)

lemma arrive_rest: "sc_ok s \<Longrightarrow> scanner_rest (arrive b s) = scanner_rest s @ b"
  by (simp add: scanner_rest_def sc_ok_def)

lemma sc_ok_arrive [simp]: "sc_ok s \<Longrightarrow> sc_ok (arrive b s)"
  by (simp add: sc_ok_def)

lemma sc_ok_restore: "same_msg s s1 \<Longrightarrow> k \<le> length (sc_msg s) \<Longrightarrow> sc_ok (s1\<lparr>sc_cursor := k\<rparr>)"
  by (simp add: same_msg_def sc_ok_def)

lemma restore_eq: "same_msg s s1 \<Longrightarrow> s1\<lparr>sc_cursor := sc_cursor s\<rparr> = s"
  by (cases s; cases s1) (simp add: same_msg_def)

locale scan_total =
  fixes f :: "'a scan"
  assumes total: "sc_ok s \<Longrightarrow> \<exists>st x s1. f s = Some (st, x, s1) \<and> same_msg s s1 \<and> sc_ok s1"
begin

lemma run:
  assumes "sc_ok s"
  obtains st x s1 where "f s = Some (st, x, s1)" "same_msg s s1" "sc_ok s1"
  using total [OF assms] by blast

lemma loaded_kept: "sc_ok s \<Longrightarrow> f s = Some (st, x, s1) \<Longrightarrow>
    sc_entire_msg_loaded s1 = sc_entire_msg_loaded s"
  using total [of s] by (auto simp: same_msg_def)

end

locale scan_op = scan_total +
  assumes final: "sc_ok s \<Longrightarrow> \<not> sc_entire_msg_loaded s \<Longrightarrow> f s = Some (st, x, s1) \<Longrightarrow>
      st \<noteq> PARSE_INCOMPLETE \<Longrightarrow> f (arrive b s) = Some (st, x, arrive b s1)"

text \<open>The contract is closed under sequence.\<close>

lemma scan_seq_total:
  assumes f: "scan_total f" and g: "scan_total g"
  shows "scan_total (scan_seq f g)"
proof
  fix s
  assume s: "sc_ok s"
  obtain st x s1 where 1: "f s = Some (st, x, s1)" "same_msg s s1" "sc_ok s1"
    using scan_total.run [OF f s] by blast
  obtain st2 y s2 where 2: "g s1 = Some (st2, y, s2)" "same_msg s1 s2" "sc_ok s2"
    using scan_total.run [OF g 1(3)] by blast
  show "\<exists>st x s1. scan_seq f g s = Some (st, x, s1) \<and> same_msg s s1 \<and> sc_ok s1"
    using 1 2 same_msg_trans [OF 1(2) 2(2)] by (simp add: scan_seq_def)
qed

lemma scan_seq_op:
  assumes f: "scan_op f" and g: "scan_op g"
  shows "scan_op (scan_seq f g)"
proof (intro scan_op.intro scan_op_axioms.intro)
  note ft = scan_op.axioms(1) [OF f] and gt = scan_op.axioms(1) [OF g]
  show "scan_total (scan_seq f g)" using ft gt by (rule scan_seq_total)
  fix s st' x' s' b
  assume s: "sc_ok s" and l: "\<not> sc_entire_msg_loaded s" and run: "scan_seq f g s = Some (st', x', s')"
    and st': "st' \<noteq> PARSE_INCOMPLETE"
  obtain st x s1 where 1: "f s = Some (st, x, s1)" "same_msg s s1" "sc_ok s1"
    using scan_total.run [OF ft s] by blast
  show "scan_seq f g (arrive b s) = Some (st', x', arrive b s')"
  proof (cases "st = PARSE_OK")
    case True
    obtain st2 y s2 where 2: "g s1 = Some (st2, y, s2)"
      using scan_total.run [OF gt 1(3)] by blast
    then have r: "st' = st2" "x' = x @ y" "s' = s2" using run 1 True by (simp_all add: scan_seq_def)
    have "f (arrive b s) = Some (st, x, arrive b s1)"
      using scan_op.final [OF f s l 1(1)] True by simp
    moreover have "g (arrive b s1) = Some (st2, y, arrive b s2)"
      using scan_op.final [OF g 1(3) _ 2] scan_total.loaded_kept [OF ft s 1(1)] l st' r by simp
    ultimately show ?thesis using True r by (simp add: scan_seq_def)
  next
    case False
    then have "st' = st" "x' = x" "s' = s1" using run 1 by (simp_all add: scan_seq_def)
    then show ?thesis using scan_op.final [OF f s l 1(1), of b] st' False by (simp add: scan_seq_def)
  qed
qed

lemma scan_map_op:
  assumes f: "scan_op f"
  shows "scan_op (scan_map h f)"
proof
  note ft = scan_op.axioms(1) [OF f]
  fix s
  assume s: "sc_ok s"
  then obtain st x s1 where 1: "f s = Some (st, x, s1)" "same_msg s s1" "sc_ok s1"
    using scan_total.run [OF ft s] by blast
  then show "\<exists>st x s1. scan_map h f s = Some (st, x, s1) \<and> same_msg s s1 \<and> sc_ok s1"
    by (simp add: scan_map_def)
  show "scan_map h f (arrive b s) = Some (st', y, arrive b s')"
    if "\<not> sc_entire_msg_loaded s" "scan_map h f s = Some (st', y, s')" "st' \<noteq> PARSE_INCOMPLETE" for st' y s' b
    using scan_op.final [OF f s that(1) 1(1), of b] that 1(1) by (auto simp: scan_map_def)
qed

subsection \<open>A token is final\<close>

lemma quoted_loop_final:
  "quoted_loop cs n = r \<Longrightarrow> r \<noteq> Inl PARSE_INCOMPLETE \<Longrightarrow> quoted_loop (cs @ b) n = r"
proof (induction cs n rule: quoted_loop.induct)
  case (2 c cs n)
  show ?case
  proof (cases "c = CHR 0x5C")
    case True
    with 2 show ?thesis by (cases cs) (auto split: if_splits)
  next
    case False
    with "2.prems" "2.IH"(2) show ?thesis by (auto split: if_splits)
  qed
qed simp

lemma token_at_final:
  assumes "token_at False rest = r" and "r \<noteq> Inl PARSE_INCOMPLETE"
  shows "token_at False (rest @ b) = r"
proof (cases rest)
  case (Cons c cs)
  show ?thesis
  proof (cases rule: token_at_Cons [of c])
    case ident
    then obtain x where "x \<in> set cs" "\<not> is_identifier_char x" using assms Cons by (auto split: if_splits)
    then show ?thesis using assms(1) ident Cons by (auto simp: takeWhile_append1)
  next
    case blank
    then obtain x where "x \<in> set cs" "\<not> is_blank_char x" using assms Cons by (auto split: if_splits)
    then show ?thesis using assms(1) blank Cons by (auto simp: takeWhile_append1)
  next
    case quote
    then have "quoted_loop cs 1 \<noteq> Inl PARSE_INCOMPLETE" using assms Cons by auto
    then have "quoted_loop (cs @ b) 1 = quoted_loop cs 1" using quoted_loop_final by blast
    then show ?thesis using assms(1) Cons quote by auto
  qed (use assms Cons in \<open>auto split: list.splits\<close>)
qed (use assms in \<open>simp add: token_at_Nil\<close>)

lemma get_token_final:
  assumes s: "sc_ok s" "\<not> sc_entire_msg_loaded s"
  shows "scanner_get_token s = Some (Token tt t, s1) \<Longrightarrow>
           scanner_get_token (arrive b s) = Some (Token tt t, arrive b s1)"
    and "scanner_get_token s = Some (NoToken st, s1) \<Longrightarrow> st \<noteq> PARSE_INCOMPLETE \<Longrightarrow>
           scanner_get_token (arrive b s) = Some (NoToken st, arrive b s1)"
proof -
  have fin: "token_at False (scanner_rest s) = r \<Longrightarrow> r \<noteq> Inl PARSE_INCOMPLETE \<Longrightarrow>
      token_at False (scanner_rest (arrive b s)) = r" for r
    using token_at_final arrive_rest s by simp
  have bound: "token_at False (scanner_rest s) = Inr (tt', n) \<Longrightarrow>
      take n (scanner_rest (arrive b s)) = take n (scanner_rest s)" for tt' n
    using token_at_bound arrive_rest s by simp
  have ok: "sc_cursor s \<le> length (sc_msg s)" using s by (simp add: sc_ok_def)
  show "scanner_get_token s = Some (Token tt t, s1) \<Longrightarrow>
      scanner_get_token (arrive b s) = Some (Token tt t, arrive b s1)"
    using fin bound s ok by (auto simp: scanner_get_token_def split: sum.splits prod.splits)
  show "scanner_get_token s = Some (NoToken st, s1) \<Longrightarrow> st \<noteq> PARSE_INCOMPLETE \<Longrightarrow>
      scanner_get_token (arrive b s) = Some (NoToken st, arrive b s1)"
    using fin s ok by (auto simp: scanner_get_token_def split: sum.splits prod.splits)
qed

lemma get_token_ok:
  assumes "sc_ok s"
  obtains (no) st where "scanner_get_token s = Some (NoToken st, s)"
        "st = PARSE_INCOMPLETE \<or> st = PARSE_FAILURE"
    | (tok) tt t s1 where "scanner_get_token s = Some (Token tt t, s1)" "same_msg s s1" "sc_ok s1"
        "sc_cursor s1 = sc_cursor s + length t" "t = take (length t) (scanner_rest s)" "t \<noteq> []"
proof -
  have s: "sc_cursor s \<le> length (sc_msg s)" using assms by (simp add: sc_ok_def)
  then show thesis
  proof (cases s rule: scanner_get_token_cases)
    case (no st)
    then show thesis using that(1) by blast
  next
    case (tok tt n)
    then have "length (take n (scanner_rest s)) = n" using s by (simp add: scanner_rest_def)
    with tok show thesis
      by (intro that(2) [of tt "take n (scanner_rest s)" "s\<lparr>sc_cursor := sc_cursor s + n\<rparr>"]) (auto simp: same_msg_def sc_ok_def)
  qed
qed

text \<open>The loops and the matches built from them.\<close>

lemma token_loop_ok:
  assumes "sc_ok s"
  shows "\<exists>st a1 n s1. token_loop go a s = Some (st, a1, n, s1) \<and> same_msg s s1 \<and> sc_ok s1 \<and>
     sc_cursor s + n \<le> sc_cursor s1 \<and> (st = PARSE_OK \<or> n = 0)"
  using assms
proof (induction go a s rule: token_loop.induct)
  case (1 go a s)
  from \<open>sc_ok s\<close> show ?case
  proof (cases s rule: get_token_ok)
    case (no st)
    then show ?thesis using 1 by (simp add: token_loop.simps)
  next
    case (tok tt t s1)
    show ?thesis
    proof (cases "go a (sc_cursor s) tt t")
      case None
      with tok show ?thesis by (simp add: token_loop.simps [of go a s])
    next
      case (Some a1)
      have run: "token_loop go a s = token_loop go a1 s1"
        using tok(1) Some by (simp add: token_loop.simps [of go a s])
      from 1(1) [OF tok(1) refl refl Some tok(3)] obtain st a2 n s2 where
        "token_loop go a1 s1 = Some (st, a2, n, s2)" "same_msg s1 s2" "sc_ok s2"
        "sc_cursor s1 + n \<le> sc_cursor s2" "st = PARSE_OK \<or> n = 0" by blast
      then show ?thesis using run tok(4) same_msg_trans [OF tok(2)] by auto
    qed
  qed
qed

lemma token_loop_final:
  assumes "sc_ok s" "\<not> sc_entire_msg_loaded s" "token_loop go a s = Some (st, a1, n, s1)"
    "st \<noteq> PARSE_INCOMPLETE"
  shows "token_loop go a (arrive b s) = Some (st, a1, n, arrive b s1)"
  using assms
proof (induction go a s rule: token_loop.induct)
  case (1 go a s)
  from \<open>sc_ok s\<close> show ?case
  proof (cases s rule: get_token_ok)
    case (no st)
    then show ?thesis using 1(2-5) get_token_final(2) [of s st s b] by (simp add: token_loop.simps)
  next
    case (tok tt t s2)
    have t: "scanner_get_token (arrive b s) = Some (Token tt t, arrive b s2)"
      using get_token_final(1) [OF 1(2,3) tok(1)] .
    have l: "\<not> sc_entire_msg_loaded s2" using 1(3) tok(2) by (simp add: same_msg_def)
    show ?thesis
    proof (cases "go a (sc_cursor s) tt t")
      case None
      with tok(1) t 1(4) show ?thesis
        by (auto simp: token_loop.simps)
    next
      case (Some a2)
      have "token_loop go a s = token_loop go a2 s2"
        "token_loop go a (arrive b s) = token_loop go a2 (arrive b s2)"
        using tok(1) t Some
        by (simp_all add: token_loop.simps [of go a s] token_loop.simps [of go a "arrive b s"])
      then show ?thesis using 1(1) [OF tok(1) refl refl Some tok(3) l] 1(4,5) by simp
    qed
  qed
qed

lemma token_loop_run:
  assumes "sc_ok s"
  obtains st a1 n s1 where "token_loop go a s = Some (st, a1, n, s1)" "same_msg s s1" "sc_ok s1"
     "sc_cursor s + n \<le> sc_cursor s1" "st = PARSE_OK \<or> n = 0"
  using token_loop_ok [OF assms, of go a] by blast

lemma sc_ok_back: "sc_ok s \<Longrightarrow> sc_ok (s\<lparr>sc_cursor := sc_cursor s - k\<rparr>)"
  by (simp add: sc_ok_def)

lemma skip_blank_lines_op: "scan_op skip_blank_lines"
proof
  fix s assume s: "sc_ok s"
  let ?go = "\<lambda>_ _ tt _. if tt = TT_WHITESPACE \<or> tt = TT_CRLF then Some () else None"
  obtain st a1 n s1 where 1: "token_loop ?go () s = Some (st, a1, n, s1)" "same_msg s s1" "sc_ok s1"
    by (rule token_loop_run [OF s, of ?go "()"])
  then show "\<exists>st x s1. skip_blank_lines s = Some (st, x, s1) \<and> same_msg s s1 \<and> sc_ok s1"
    by (simp add: skip_blank_lines_def sc_ok_back)
  fix st' x s' b
  assume l: "\<not> sc_entire_msg_loaded s" and run: "skip_blank_lines s = Some (st', x, s')"
    and "st' \<noteq> PARSE_INCOMPLETE"
  then have "st \<noteq> PARSE_INCOMPLETE" using 1(1) by (simp add: skip_blank_lines_def)
  from token_loop_final [OF s l 1(1) this, of b]
  show "skip_blank_lines (arrive b s) = Some (st', x, arrive b s')"
    using run 1(1) by (auto simp: skip_blank_lines_def)
qed
lemma skip_lws_loop_ok:
  "sc_ok s \<Longrightarrow> \<exists>st s1. skip_lws_loop s = Some (st, s1) \<and> same_msg s s1 \<and> sc_ok s1"
proof (induction s rule: skip_lws_loop.induct)
  case (1 s)
  from \<open>sc_ok s\<close> show ?case
  proof (cases s rule: get_token_ok)
    case (no st)
    then show ?thesis using 1(3) by (simp add: skip_lws_loop.simps)
  next
    case (tok tt t s1)
    have rst: "same_msg s s2 \<Longrightarrow> same_msg s (s2\<lparr>sc_cursor := sc_cursor s\<rparr>) \<and>
        sc_ok (s2\<lparr>sc_cursor := sc_cursor s\<rparr>)" for s2
      using 1(3) by (auto simp: sc_ok_def same_msg_def)
    show ?thesis
    proof (cases "tt = TT_CRLF")
      case False
      then show ?thesis using 1(2) [OF tok(1) refl refl False _ tok(3)] tok rst [OF tok(2)] same_msg_trans [OF tok(2)]
        by (auto simp: skip_lws_loop.simps [of s])
    next
      case True
      from tok(3) show ?thesis
      proof (cases s1 rule: get_token_ok)
        case (no st)
        then show ?thesis using True tok rst [OF tok(2)] by (auto simp: skip_lws_loop.simps [of s])
      next
        case (tok tt2 t2 s2)
        then show ?thesis
          using 1(1) [OF \<open>scanner_get_token s = _\<close> refl refl True tok(1) refl refl _ tok(3)] True
            \<open>scanner_get_token s = _\<close> rst [of s2] same_msg_trans [OF same_msg_trans [OF \<open>same_msg s s1\<close> tok(2)]]
            same_msg_trans [OF \<open>same_msg s s1\<close> tok(2)]
          by (auto simp: skip_lws_loop.simps [of s])
      qed
    qed
  qed
qed

lemma skip_lws_loop_final:
  "sc_ok s \<Longrightarrow> \<not> sc_entire_msg_loaded s \<Longrightarrow> skip_lws_loop s = Some (st, s') \<Longrightarrow>
   st \<noteq> PARSE_INCOMPLETE \<Longrightarrow> skip_lws_loop (arrive b s) = Some (st, arrive b s')"
proof (induction s rule: skip_lws_loop.induct)
  case (1 s)
  note s = 1(3,4)
  from \<open>sc_ok s\<close> show ?case
  proof (cases s rule: get_token_ok)
    case (no st)
    then show ?thesis using 1(3-6) get_token_final(2) [OF s, of st s b] by (simp add: skip_lws_loop.simps)
  next
    case (tok tt t s1)
    have t: "scanner_get_token (arrive b s) = Some (Token tt t, arrive b s1)"
      using get_token_final(1) [OF s tok(1)] .
    have l: "\<not> sc_entire_msg_loaded s1" using s tok(2) by (simp add: same_msg_def)
    show ?thesis
    proof (cases "tt = TT_CRLF")
      case False
      show ?thesis
      proof (cases "tt = TT_WHITESPACE")
        case True
        then show ?thesis using 1(2) [OF tok(1) refl refl False True tok(3) l] 1(5,6) False tok(1) t
          by (simp add: skip_lws_loop.simps [of s] skip_lws_loop.simps [of "arrive b s"])
      next
        case ws: False
        then show ?thesis using False tok(1) t 1(5) by (auto simp: skip_lws_loop.simps)
      qed
    next
      case True
      from tok(3) show ?thesis
      proof (cases s1 rule: get_token_ok)
        case (no st2)
        then have "skip_lws_loop s = Some (st2, s1\<lparr>sc_cursor := sc_cursor s\<rparr>)"
          using tok(1) True by (simp add: skip_lws_loop.simps)
        then have r: "st2 = st" "s' = s1\<lparr>sc_cursor := sc_cursor s\<rparr>" using 1(5) by simp_all
        have "scanner_get_token (arrive b s1) = Some (NoToken st2, arrive b s1)"
          using get_token_final(2) [OF tok(3) l no(1)] r 1(6) by simp
        then show ?thesis using True t r by (simp add: skip_lws_loop.simps)
      next
        case (tok tt2 t2 s2)
        have t2: "scanner_get_token (arrive b s1) = Some (Token tt2 t2, arrive b s2)"
          using get_token_final(1) [OF \<open>sc_ok s1\<close> l tok(1)] .
        have l2: "\<not> sc_entire_msg_loaded s2" using l tok(2) by (simp add: same_msg_def)
        show ?thesis
        proof (cases "tt2 = TT_WHITESPACE")
          case ws: True
          then show ?thesis
            using 1(1) [OF \<open>scanner_get_token s = _\<close> refl refl True tok(1) refl refl ws tok(3) l2] 1(5,6)
              True \<open>scanner_get_token s = _\<close> t tok(1) t2
            by (simp add: skip_lws_loop.simps [of s] skip_lws_loop.simps [of "arrive b s"])
        next
          case False
          then show ?thesis using True \<open>scanner_get_token s = _\<close> t tok(1) t2 1(5)
            by (auto simp: skip_lws_loop.simps)
        qed
      qed
    qed
  qed
qed

lemma skip_lws_op: "scan_op skip_lws"
proof
  fix s assume s: "sc_ok s"
  obtain st s1 where 1: "skip_lws_loop s = Some (st, s1)" "same_msg s s1" "sc_ok s1"
    using skip_lws_loop_ok [OF s] by blast
  then show "\<exists>st x s1. skip_lws s = Some (st, x, s1) \<and> same_msg s s1 \<and> sc_ok s1"
    by (simp add: skip_lws_def)
  fix st' x s' b
  assume l: "\<not> sc_entire_msg_loaded s" and run: "skip_lws s = Some (st', x, s')"
    and "st' \<noteq> PARSE_INCOMPLETE"
  moreover have "\<not> sc_entire_msg_loaded s1" using l 1(2) by (simp add: same_msg_def)
  ultimately have "st \<noteq> PARSE_INCOMPLETE" using 1(1) by (simp add: skip_lws_def)
  from skip_lws_loop_final [OF s l 1(1) this, of b]
  show "skip_lws (arrive b s) = Some (st', x, arrive b s')"
    using run 1(1) \<open>\<not> sc_entire_msg_loaded s1\<close> by (auto simp: skip_lws_def)
qed

text \<open>Steps that look at one token.\<close>

lemma one_token_op:
  assumes f: "\<And>s. f s = (case scanner_get_token s of
        None \<Rightarrow> None
      | Some (NoToken st, s1) \<Rightarrow> Some (st, dflt, s1)
      | Some (Token tt t, s1) \<Rightarrow> Some (h s tt t s1))"
    and ok: "\<And>s tt t s1. sc_ok s \<Longrightarrow> scanner_get_token s = Some (Token tt t, s1) \<Longrightarrow> same_msg s s1 \<Longrightarrow> sc_ok s1 \<Longrightarrow>
      \<exists>st x s2. h s tt t s1 = (st, x, s2) \<and> same_msg s s2 \<and> sc_ok s2"
    and fin: "\<And>s tt t s1 b st x s2. sc_ok s \<Longrightarrow> \<not> sc_entire_msg_loaded s \<Longrightarrow>
      scanner_get_token s = Some (Token tt t, s1) \<Longrightarrow> h s tt t s1 = (st, x, s2) \<Longrightarrow>
      h (arrive b s) tt t (arrive b s1) = (st, x, arrive b s2)"
  shows "scan_op f"
proof
  fix s assume s: "sc_ok s"
  from s show "\<exists>st x s1. f s = Some (st, x, s1) \<and> same_msg s s1 \<and> sc_ok s1"
  proof (cases s rule: get_token_ok)
    case (tok tt t s1)
    from ok [OF s tok(1,2,3)] tok(1) show ?thesis by (auto simp: f)
  qed (use s in \<open>simp add: f\<close>)
  fix st' x s' b
  assume l: "\<not> sc_entire_msg_loaded s" and run: "f s = Some (st', x, s')" and st': "st' \<noteq> PARSE_INCOMPLETE"
  from s show "f (arrive b s) = Some (st', x, arrive b s')"
  proof (cases s rule: get_token_ok)
    case (no st)
    then show ?thesis using get_token_final(2) [OF s l no(1)] run st' by (simp add: f)
  next
    case (tok tt t s1)
    obtain st y s2 where h: "h s tt t s1 = (st, y, s2)" by (cases "h s tt t s1") auto
    then show ?thesis
      using get_token_final(1) [OF s l tok(1), of b] fin [OF s l tok(1) h, of b] run tok(1) by (simp add: f)
  qed
qed

lemma match_token_op: "scan_op (match_token want)"
  by (rule one_token_op [where dflt = "[]" and
        h = "\<lambda>s tt t s1. (if tt = want then PARSE_OK else PARSE_NO_MATCH, t, s1)"])
    (simp_all add: match_token_def)

lemma optional_ws_op: "scan_op optional_ws"
  by (rule one_token_op [where dflt = "()" and h = "\<lambda>s tt t s1. (PARSE_OK, (),
        if tt = TT_WHITESPACE then s1 else s1\<lparr>sc_cursor := sc_cursor s1 - length t\<rparr>)"])
    (auto simp: optional_ws_def sc_ok_def)

lemma identifier_token:
  assumes "token_at l rest = Inr (TT_IDENTIFIER, n)"
  shows "take n rest \<noteq> [] \<and> (\<forall>x \<in> set (take n rest). is_identifier_char x) \<and>
    (l \<or> (\<exists>c r. rest = take n rest @ c # r \<and> \<not> is_identifier_char c))"
proof (cases rest)
  case (Cons a cs)
  show ?thesis
  proof (cases rule: token_at_Cons [of a])
    case ident
    let ?w = "takeWhile is_identifier_char cs"
    have n: "n = Suc (length ?w)" "l \<or> (\<exists>x \<in> set cs. \<not> is_identifier_char x)"
      using assms ident Cons by (auto split: if_splits)
    have tk: "take n rest = a # ?w" using n Cons takeWhile_eq_take [of is_identifier_char cs, symmetric] by simp
    have all: "\<forall>x \<in> set (take n rest). is_identifier_char x"
      using ident(1) tk by (auto dest: set_takeWhileD)
    show ?thesis
    proof (cases l)
      case False
      with n(2) have "dropWhile is_identifier_char cs \<noteq> []" by simp
      then obtain c r where c: "dropWhile is_identifier_char cs = c # r" by (cases "dropWhile is_identifier_char cs") auto
      then have "\<not> is_identifier_char c" by (simp add: dropWhile_eq_Cons_conv)
      moreover have "cs = ?w @ c # r" using c takeWhile_dropWhile_id [of is_identifier_char cs] by simp
      ultimately show ?thesis using all tk Cons by auto
    qed (use all tk in simp)
  next
    case quote
    with assms Cons show ?thesis by (cases "quoted_loop cs 1") auto
  qed (use assms Cons in \<open>auto split: if_splits list.splits sum.splits\<close>)
qed (use assms in \<open>simp add: token_at_Nil\<close>)

lemma separator_code:
  "is_separator_char c \<Longrightarrow>
   code c \<in> {32, 9, 40, 41, 60, 62, 64, 44, 59, 58, 92, 34, 47, 91, 93, 63, 61, 123, 125, 0}"
  by (auto simp: is_separator_char_def strchr_def code_def)

lemma alnum_identifier:
  assumes "isalnum c"
  shows "is_identifier_char c"
proof -
  have "\<not> is_separator_char c"
    using assms separator_code [of c] by (auto simp: isalnum_def isalpha_def isdigit_def isupper_def islower_def)
  moreover have "32 \<le> code c \<and> code c \<le> 126"
    using assms by (auto simp: isalnum_def isalpha_def isdigit_def isupper_def islower_def)
  ultimately show ?thesis by (simp add: is_identifier_char_def)
qed

lemma identifier_not_space:
  assumes "is_identifier_char c"
  shows "\<not> isspace c"
proof -
  have "c = CHR '' ''" if "code c = 32" using that code_eq_iff [of c "CHR '' ''"] by (simp add: code_def)
  moreover have "is_separator_char (CHR '' '')" by (simp add: is_separator_char_def strchr_def)
  ultimately show ?thesis using assms by (auto simp: is_identifier_char_def isspace_def)
qed

lemma match_int_op: "base \<le> 255 \<Longrightarrow> scan_op (match_int base)"
proof (rule one_token_op)
  let ?h = "\<lambda>s tt t s1. if tt = TT_IDENTIFIER then
            (case strtol (scanner_rest s) base of (num, used, erange) \<Rightarrow>
               if num < 0 \<or> used \<noteq> length t \<or> ((num = LONG_MIN \<or> num = LONG_MAX) \<and> erange)
               then (PARSE_NO_MATCH, Some (wrap32 num), s1\<lparr>sc_cursor := sc_cursor s\<rparr>)
               else (PARSE_OK, Some (wrap32 num), s1))
          else (PARSE_NO_MATCH, None, s1\<lparr>sc_cursor := sc_cursor s\<rparr>)"
  assume base: "base \<le> 255"
  show "match_int base s = (case scanner_get_token s of
        None \<Rightarrow> None
      | Some (NoToken st, s1) \<Rightarrow> Some (st, None, s1)
      | Some (Token tt t, s1) \<Rightarrow> Some (?h s tt t s1))" for s
    by (auto simp: match_int_def scanner_get_token_def split: option.splits sum.splits prod.splits)
  show "\<exists>st x s2. ?h s tt t s1 = (st, x, s2) \<and> same_msg s s2 \<and> sc_ok s2"
    if "sc_ok s" "same_msg s s1" "sc_ok s1" for s tt t s1
    using that by (auto simp: sc_ok_def same_msg_def split: prod.splits)
  fix s tt t s1 b st x s2
  assume s: "sc_ok s" "\<not> sc_entire_msg_loaded s" and tok: "scanner_get_token s = Some (Token tt t, s1)"
    and h: "?h s tt t s1 = (st, x, s2)"
  show "?h (arrive b s) tt t (arrive b s1) = (st, x, arrive b s2)"
  proof (cases "tt = TT_IDENTIFIER")
    case True
    with tok s obtain n where n: "token_at False (scanner_rest s) = Inr (TT_IDENTIFIER, n)" "t = take n (scanner_rest s)"
      by (auto simp: scanner_get_token_def split: if_splits sum.splits prod.splits)
    then obtain c r where t: "scanner_rest s = t @ c # r" "\<not> is_identifier_char c" "t \<noteq> []"
      "\<forall>x \<in> set t. is_identifier_char x"
      using identifier_token [OF n(1)] by auto
    then have "\<not> isspace (hd t)" "\<not> isalnum c" using identifier_not_space alnum_identifier by auto
    then have "strtol (scanner_rest (arrive b s)) base = strtol (scanner_rest s) base"
      using strtol_stop [OF t(3)] base t(1) arrive_rest [OF s(1), of b] by simp
    then show ?thesis using h True by (auto split: prod.splits if_splits)
  qed (use h in auto)
qed

lemma match_char_op: "scan_op (match_char c case_sensitive)"
  by unfold_locales (auto simp: match_char_def Let_def sc_ok_def same_msg_def nth_append split: if_splits)

text \<open>What a token loop collects, as an invariant over the cursor.\<close>

lemma token_loop_inv:
  assumes "sc_ok s" and "token_loop go a s = Some (st, a1, n, s1)" and "I a (sc_cursor s)"
    and "\<And>a p tt t a1. I a p \<Longrightarrow> go a p tt t = Some a1 \<Longrightarrow> I a1 (p + length t)"
  shows "I a1 (sc_cursor s1 - n)"
  using assms
proof (induction go a s rule: token_loop.induct)
  case (1 go a s)
  from \<open>sc_ok s\<close> show ?case
  proof (cases s rule: get_token_ok)
    case (no st)
    then show ?thesis using 1(3,4) by (simp add: token_loop.simps)
  next
    case (tok tt t s2)
    show ?thesis
    proof (cases "go a (sc_cursor s) tt t")
      case None
      with tok 1(3,4) show ?thesis by (auto simp: token_loop.simps [of go a s])
    next
      case (Some a2)
      then have run: "token_loop go a2 s2 = Some (st, a1, n, s1)"
        using tok(1) 1(3) by (simp add: token_loop.simps [of go a s])
      have "I a2 (sc_cursor s2)" using 1(5) [OF 1(4) Some] tok(4) by simp
      then show ?thesis
        by (rule 1(1) [OF tok(1) refl refl Some tok(3) run]) (use 1(5) in blast)
    qed
  qed
qed

lemma take_rest_arrive: "sc_ok s \<Longrightarrow> sc_cursor s + n \<le> length (sc_msg s) \<Longrightarrow>
    take n (scanner_rest (arrive b s)) = take n (scanner_rest s)"
proof -
  assume s: "sc_ok s" and "sc_cursor s + n \<le> length (sc_msg s)"
  then have "n \<le> length (scanner_rest s)" by (simp add: scanner_rest_def)
  then show ?thesis by (simp add: arrive_rest [OF s])
qed

lemma match_non_ws_string_op: "scan_op match_non_ws_string"
proof
  fix s assume s: "sc_ok s"
  let ?go = "\<lambda>len (_ :: nat) tt t. if tt \<noteq> TT_WHITESPACE \<and> tt \<noteq> TT_CRLF then Some (len + length t) else None"
  obtain st len n s1 where 1: "token_loop ?go 0 s = Some (st, len, n, s1)" "same_msg s s1" "sc_ok s1"
    "sc_cursor s + n \<le> sc_cursor s1"
    by (rule token_loop_run [OF s, of ?go 0])
  have "sc_cursor s1 - n = sc_cursor s + len"
    by (rule token_loop_inv [OF s 1(1), where I = "\<lambda>len p. p = sc_cursor s + len"]) (auto split: if_splits)
  then have len: "sc_cursor s + len \<le> length (sc_msg s)" using 1(2,3) by (simp add: sc_ok_def same_msg_def)
  show "\<exists>st x s1. match_non_ws_string s = Some (st, x, s1) \<and> same_msg s s1 \<and> sc_ok s1"
    using 1 s by (auto simp: match_non_ws_string_def Let_def sc_ok_def same_msg_def)
  fix st' x s' b
  assume l: "\<not> sc_entire_msg_loaded s" and run: "match_non_ws_string s = Some (st', x, s')"
    and "st' \<noteq> PARSE_INCOMPLETE"
  moreover have l1: "\<not> sc_entire_msg_loaded s1" using l 1(2) by (simp add: same_msg_def)
  ultimately have "st \<noteq> PARSE_INCOMPLETE" using 1(1) by (auto simp: match_non_ws_string_def Let_def)
  from token_loop_final [OF s l 1(1) this, of b]
  show "match_non_ws_string (arrive b s) = Some (st', x, arrive b s')"
    using run 1(1) l1 take_rest_arrive [OF s len, of b]
    by (auto simp: match_non_ws_string_def Let_def split: if_splits)
qed

lemma trim_right_le: "trim_right buf n \<le> n"
  by (induction n) auto

lemma trim_right_cong: "n \<le> length buf \<Longrightarrow> trim_right (buf @ b) n = trim_right buf n"
  by (induction n) (auto simp: rd_def nth_append)

lemma match_raw_value_op: "scan_op match_raw_value"
proof
  fix s assume s: "sc_ok s"
  obtain st a n s1 where 1: "token_loop raw_value_go (False, 0, 0) s = Some (st, a, n, s1)"
    "same_msg s s1" "sc_ok s1" "sc_cursor s + n \<le> sc_cursor s1"
    by (rule token_loop_run [OF s, of raw_value_go "(False, 0, 0)"])
  obtain saw pos len where a: "a = (saw, pos, len)" by (cases a)
  have "sc_cursor s1 - n = sc_cursor s + snd (snd a) \<and> fst (snd a) \<le> sc_cursor s1 - n"
    by (rule token_loop_inv [OF s 1(1),
          where I = "\<lambda>a p. p = sc_cursor s + snd (snd a) \<and> fst (snd a) \<le> p"])
      (auto simp: raw_value_go_def split: if_splits)
  then have len: "sc_cursor s + len \<le> length (sc_msg s)" "pos \<le> length (sc_msg s)"
    using 1(2,3) a by (auto simp: sc_ok_def same_msg_def)
  show "\<exists>st x s1. match_raw_value s = Some (st, x, s1) \<and> same_msg s s1 \<and> sc_ok s1"
    using 1 s len a by (auto simp: match_raw_value_def Let_def sc_ok_def same_msg_def)
  fix st' x s' b
  assume l: "\<not> sc_entire_msg_loaded s" and run: "match_raw_value s = Some (st', x, s')"
    and "st' \<noteq> PARSE_INCOMPLETE"
  then have "st \<noteq> PARSE_INCOMPLETE" using 1(1) a by (auto simp: match_raw_value_def Let_def)
  note fin = token_loop_final [OF s l 1(1) this, of b]
  let ?r = "scanner_rest s"
  have r: "len \<le> length ?r" using len s by (simp add: scanner_rest_def sc_ok_def)
  then have "trim_right (scanner_rest (arrive b s)) len = trim_right ?r len"
    using arrive_rest [OF s] trim_right_cong by simp
  moreover have "take (trim_right ?r len) (scanner_rest (arrive b s)) = take (trim_right ?r len) ?r"
    "take len (scanner_rest (arrive b s)) = take len ?r"
    using arrive_rest [OF s] r trim_right_le [of ?r len] by simp_all
  ultimately show "match_raw_value (arrive b s) = Some (st', x, arrive b s')"
    using fin run 1(1) a by (auto simp: match_raw_value_def Let_def split: if_splits)
qed

lemma read_until_crlf_op: "scan_op read_until_crlf"
proof
  fix s assume s: "sc_ok s"
  let ?go = "\<lambda>_ _ tt _. if tt \<noteq> TT_CRLF then Some () else None"
  obtain st a n s1 where 1: "token_loop ?go () s = Some (st, a, n, s1)" "same_msg s s1" "sc_ok s1"
    "sc_cursor s + n \<le> sc_cursor s1"
    by (rule token_loop_run [OF s, of ?go "()"])
  then have len: "sc_cursor s + (sc_cursor s1 - n - sc_cursor s) \<le> length (sc_msg s)"
    by (auto simp: sc_ok_def same_msg_def)
  show "\<exists>st x s1. read_until_crlf s = Some (st, x, s1) \<and> same_msg s s1 \<and> sc_ok s1"
    using 1 by (auto simp: read_until_crlf_def Let_def sc_ok_def same_msg_def)
  fix st' x s' b
  assume l: "\<not> sc_entire_msg_loaded s" and run: "read_until_crlf s = Some (st', x, s')"
    and "st' \<noteq> PARSE_INCOMPLETE"
  then have "st \<noteq> PARSE_INCOMPLETE" using 1(1) by (auto simp: read_until_crlf_def Let_def split: if_splits)
  from token_loop_final [OF s l 1(1) this, of b]
  show "read_until_crlf (arrive b s) = Some (st', x, arrive b s')"
    using run 1(1) take_rest_arrive [OF s len, of b]
    by (auto simp: read_until_crlf_def Let_def split: if_splits)
qed

subsection \<open>The matcher keeps the contract\<close>

interpretation lws: scan_op skip_lws by (rule skip_lws_op)
interpretation blank_lines: scan_op skip_blank_lines by (rule skip_blank_lines_op)
interpretation raw_value: scan_op match_raw_value by (rule match_raw_value_op)

text \<open>Format strings whose conversions exist; those that can be used on a partial message.\<close>

fun fmt_over :: "c_string \<Rightarrow> c_string \<Rightarrow> bool" where
  "fmt_over cset [] = True"
| "fmt_over cset (c # fmt) =
     (if c = CHR ''%'' then (case fmt of [] \<Rightarrow> False | d # fmt' \<Rightarrow> d \<in> set cset \<and> fmt_over cset fmt')
      else fmt_over cset fmt)"

abbreviation (input) inc_fmt :: "c_string \<Rightarrow> bool" where
  "inc_fmt \<equiv> fmt_over ''RscdxSUL %niqwP''"

abbreviation (input) wf_fmt :: "c_string \<Rightarrow> bool" where
  "wf_fmt \<equiv> fmt_over ''RscdxSUL %niqwP0''"

lemma scan_nil_op: "scan_op (\<lambda>s. Some (st, [], s))"
  by unfold_locales auto

lemma scan_pos_op: "scan_op (\<lambda>s. Some (st, [CapInt (wrap32 (int (sc_cursor s)))], s))"
  by unfold_locales auto

lemma scan_if_op: "(b \<Longrightarrow> scan_op f) \<Longrightarrow> (\<not> b \<Longrightarrow> scan_op g) \<Longrightarrow> scan_op (if b then f else g)"
  by simp

lemma match_uri_op: "scan_op (match_uri U)"
proof
  fix s
  assume s: "sc_ok s"
  obtain st x s1 where 1: "match_non_ws_string s = Some (st, x, s1)" "same_msg s s1" "sc_ok s1"
    using scan_total.run [OF scan_op.axioms(1) [OF match_non_ws_string_op] s] by blast
  then show "\<exists>st x s1. match_uri U s = Some (st, x, s1) \<and> same_msg s s1 \<and> sc_ok s1"
    by (auto simp: match_uri_def split: prod.splits)
  show "match_uri U (arrive b s) = Some (st', y, arrive b s')"
    if "\<not> sc_entire_msg_loaded s" "match_uri U s = Some (st', y, s')" "st' \<noteq> PARSE_INCOMPLETE" for st' y s' b
  proof -
    have "st \<noteq> PARSE_INCOMPLETE" using that(2,3) 1(1) by (auto simp: match_uri_def)
    from scan_op.final [OF match_non_ws_string_op s that(1) 1(1) this, of b] that(2) 1(1)
    show ?thesis by (auto simp: match_uri_def split: prod.splits if_splits)
  qed
qed

lemmas scan_ops = scan_map_op scan_seq_op match_raw_value_op match_token_op match_int_op
  match_non_ws_string_op match_uri_op read_until_crlf_op match_char_op optional_ws_op skip_lws_op

lemma conversion_op:
  assumes "c \<in> set ''RscdxSUL %niqwP''"
  shows "scan_op (conversion U c cs)"
  unfolding conversion_def
  by (intro scan_if_op scan_ops scan_nil_op scan_pos_op) (use assms in simp_all)

lemma literal_op: "scan_op (literal c cs)"
  by (simp add: literal_def scan_ops)

lemma vfmatch_loop_op: "inc_fmt fmt \<Longrightarrow> scan_op (vfmatch_loop U fmt cs)"
proof (induction U fmt cs rule: vfmatch_loop.induct)
  case (1 U cs)
  show ?case by (simp add: scan_nil_op)
next
  case (2 U c fmt cs)
  then show ?case
    by (cases fmt) (auto intro!: scan_seq_op conversion_op scan_map_op literal_op split: if_splits)
qed

lemma conversion_total:
  assumes "c \<in> set ''RscdxSUL %niqwP0''"
  shows "scan_total (conversion U c cs)"
proof (cases "c = CHR ''0''")
  case True
  have "scan_total (scan_map (\<lambda>_. []) match_end)"
    by unfold_locales (auto simp: scan_map_def match_end_def)
  with True show ?thesis by (simp add: conversion_def)
qed (use assms conversion_op [of c U cs] scan_op.axioms(1) in auto)

lemma vfmatch_loop_total: "wf_fmt fmt \<Longrightarrow> scan_total (vfmatch_loop U fmt cs)"
proof (induction U fmt cs rule: vfmatch_loop.induct)
  case (1 U cs)
  show ?case by unfold_locales auto
next
  case (2 U c fmt cs)
  have "scan_total (scan_map (\<lambda>_. []) (literal c cs))"
    by (rule scan_op.axioms(1) [OF scan_map_op [OF literal_op]])
  with 2 show ?case
    by (cases fmt) (auto intro!: scan_seq_total conversion_total split: if_splits)
qed


subsection \<open>Properties\<close>

lemma vfmatch_op:
  assumes "inc_fmt fmt"
  shows "scan_op (vfmatch U fmt)"
proof
  note op = vfmatch_loop_op [OF assms, of U True]
  fix s
  assume s: "sc_ok s"
  obtain st x s1 where 1: "vfmatch_loop U fmt True s = Some (st, x, s1)" "same_msg s s1" "sc_ok s1"
    using scan_total.run [OF scan_op.axioms(1) [OF op] s] by blast
  then show "\<exists>st x s1. vfmatch U fmt s = Some (st, x, s1) \<and> same_msg s s1 \<and> sc_ok s1"
    using s by (auto simp: vfmatch_def sc_ok_def same_msg_def)
  show "vfmatch U fmt (arrive b s) = Some (st', y, arrive b s')"
    if "\<not> sc_entire_msg_loaded s" "vfmatch U fmt s = Some (st', y, s')" "st' \<noteq> PARSE_INCOMPLETE" for st' y s' b
  proof -
    have "st \<noteq> PARSE_INCOMPLETE" using that(2,3) 1(1) by (auto simp: vfmatch_def)
    from scan_op.final [OF op s that(1) 1(1) this, of b] that(2) 1(1)
    show ?thesis by (auto simp: vfmatch_def)
  qed
qed

lemma vfmatch_run:
  assumes "wf_fmt fmt" and s: "sc_ok s"
  obtains st caps s1 where "vfmatch U fmt s = Some (st, caps, s1)" "same_msg s s1" "sc_ok s1"
    "st \<noteq> PARSE_OK \<longrightarrow> s1 = s"
proof -
  obtain st x s1 where 1: "vfmatch_loop U fmt True s = Some (st, x, s1)" "same_msg s s1" "sc_ok s1"
    using scan_total.run [OF vfmatch_loop_total [OF assms(1)] s] by blast
  then show thesis using that s restore_eq [OF 1(2)] by (auto simp: vfmatch_def)
qed

text \<open>The formats of the message parser, for its use.\<close>

interpretation simple_get_line: scan_op "vfmatch U (''%s'' @ [TAB] @ ''%S%w%c'')" for U
  by (rule vfmatch_op) simp
interpretation request_line: scan_op "vfmatch U (''%s'' @ [TAB] @ ''%S'' @ [TAB] @ ''%ihttp%w/%w%L%c'')" for U
  by (rule vfmatch_op) simp
interpretation status_line: scan_op "vfmatch U ''%ihttp%w/%w%L%c''" for U
  by (rule vfmatch_op) simp
interpretation header_line: scan_op "vfmatch U '' : %R%c''" for U
  by (rule vfmatch_op) simp
interpretation chunk_line: scan_op "vfmatch U ''%x%L%c''" for U
  by (rule vfmatch_op) simp
interpretation line_end: scan_op "vfmatch U ''%c''" for U
  by (rule vfmatch_op) simp

text \<open>
  C14: The pattern matcher of the HTTP parser. For every format made of its conversions and every
  scanner positioned inside its message, \<^verbatim>\<open>vfmatch\<close> returns without reading outside the message
  and leaves the scanner inside it and the message untouched; when it does not match, for
  whatever reason, the scanner is exactly the one it was called with.
\<close>

theorem vfmatch_restores:
  assumes "wf_fmt fmt" and "sc_ok s"
  shows "\<exists>st caps s1. vfmatch U fmt s = Some (st, caps, s1) \<and> same_msg s s1 \<and> sc_ok s1 \<and>
    (st \<noteq> PARSE_OK \<longrightarrow> s1 = s)"
  using vfmatch_run [OF assms] by metis

definition no_uri :: "c_string \<Rightarrow> int \<times> uri_type" where
  "no_uri _ = (UPNP_E_INVALID_URL, blank_uri)"

theorem vfmatch_restores_witness:
  "\<exists>st caps s1. vfmatch no_uri ''%iSecond-%d%0'' (scanner_init ''second-x'') = Some (st, caps, s1) \<and>
     same_msg (scanner_init ''second-x'') s1 \<and> sc_ok s1 \<and>
     (st \<noteq> PARSE_OK \<longrightarrow> s1 = scanner_init ''second-x'')"
proof (rule vfmatch_restores)
  show "wf_fmt ''%iSecond-%d%0''" by simp
  show "sc_ok (scanner_init ''second-x'')" by (simp add: sc_ok_def scanner_init_def)
qed

text \<open>
  C11: Matching a message that is still arriving. While the message is incomplete, any answer of
  \<^verbatim>\<open>vfmatch\<close> other than \<^verbatim>\<open>PARSE_INCOMPLETE\<close> (a match, a mismatch or bad input) is final: on the
  message with any further bytes behind it the same call gives the same answer, stores the same
  values and stops at the same place. So asking again after more bytes were received never
  contradicts an earlier answer.
\<close>

theorem vfmatch_final:
  assumes "inc_fmt fmt" and "sc_ok s" and "\<not> sc_entire_msg_loaded s"
    and "vfmatch U fmt s = Some (st, caps, s1)" and "st \<noteq> PARSE_INCOMPLETE"
  shows "vfmatch U fmt (arrive b s) = Some (st, caps, arrive b s1)"
  using scan_op.final [OF vfmatch_op [OF assms(1)] assms(2-5)] .

theorem vfmatch_final_witness:
  "vfmatch no_uri ''%x%L%c'' (arrive ''Hello'' (scanner_init (''5;n=v'' @ [TOKCHAR_CR, TOKCHAR_LF]))) =
     Some (PARSE_OK, [CapInt 5, CapStr '';n=v''],
       arrive ''Hello'' ((scanner_init (''5;n=v'' @ [TOKCHAR_CR, TOKCHAR_LF]))\<lparr>sc_cursor := 7\<rparr>))"
proof (rule vfmatch_final)
  show "inc_fmt ''%x%L%c''" by simp
  show "sc_ok (scanner_init (''5;n=v'' @ [TOKCHAR_CR, TOKCHAR_LF]))"
    and "\<not> sc_entire_msg_loaded (scanner_init (''5;n=v'' @ [TOKCHAR_CR, TOKCHAR_LF]))"
    by (simp_all add: sc_ok_def scanner_init_def)
  show "vfmatch no_uri ''%x%L%c'' (scanner_init (''5;n=v'' @ [TOKCHAR_CR, TOKCHAR_LF])) =
      Some (PARSE_OK, [CapInt 5, CapStr '';n=v''],
        (scanner_init (''5;n=v'' @ [TOKCHAR_CR, TOKCHAR_LF]))\<lparr>sc_cursor := 7\<rparr>)"
    by code_simp
qed simp

end
