(* ===== verification/HttpParser.thy ===== *)
theory HttpParser
  imports Scanner LinkedList
begin

section \<open>The HTTP message parser (second half of upnp/src/genlib/net/http/httpparser.c)\<close>

text \<open>
  The parser is fed with the bytes of one message as they arrive (\<open>parser_append\<close>) and moves
  through the start line, the headers and the entity. Its state is the struct
  \<^verbatim>\<open>http_parser_t\<close>: the message with its buffer, its headers in list order (a linked list in
  the code, whose operations implement those of lists), and the positions. The scanner of the
  struct points to the message buffer; here its cursor is kept and \<open>parser_scanner\<close> is the
  scanner over the current contents. Pointers into the message buffer (the entity) are offsets.
  The length of the entity is kept as an integer below \<open>2 ^ 64\<close> (it is a \<^verbatim>\<open>size_t\<close>).
  The allocator and the name resolver are arguments; a fault (an access outside a block, a
  failed assertion) is \<^term>\<open>None\<close>.

  Enumeration values are integers with the names of \<^verbatim>\<open>httpparser.h\<close>, since the name tables
  store them.
\<close>

abbreviation (input) HTTPMETHOD_POST :: int where "HTTPMETHOD_POST \<equiv> 0"
abbreviation (input) HTTPMETHOD_MPOST :: int where "HTTPMETHOD_MPOST \<equiv> 1"
abbreviation (input) HTTPMETHOD_SUBSCRIBE :: int where "HTTPMETHOD_SUBSCRIBE \<equiv> 2"
abbreviation (input) HTTPMETHOD_UNSUBSCRIBE :: int where "HTTPMETHOD_UNSUBSCRIBE \<equiv> 3"
abbreviation (input) HTTPMETHOD_NOTIFY :: int where "HTTPMETHOD_NOTIFY \<equiv> 4"
abbreviation (input) HTTPMETHOD_GET :: int where "HTTPMETHOD_GET \<equiv> 5"
abbreviation (input) HTTPMETHOD_HEAD :: int where "HTTPMETHOD_HEAD \<equiv> 6"
abbreviation (input) HTTPMETHOD_MSEARCH :: int where "HTTPMETHOD_MSEARCH \<equiv> 7"
abbreviation (input) SOAPMETHOD_POST :: int where "SOAPMETHOD_POST \<equiv> 9"
abbreviation (input) HTTPMETHOD_SIMPLEGET :: int where "HTTPMETHOD_SIMPLEGET \<equiv> 10"

abbreviation (input) HDR_UNKNOWN :: int where "HDR_UNKNOWN \<equiv> -1"
abbreviation (input) HDR_CONTENT_LENGTH :: int where "HDR_CONTENT_LENGTH \<equiv> 3"
abbreviation (input) HDR_SOAPACTION :: int where "HDR_SOAPACTION \<equiv> 19"
abbreviation (input) HDR_TRANSFER_ENCODING :: int where "HDR_TRANSFER_ENCODING \<equiv> 22"

abbreviation (input) HTTP_SUCCESS :: int where "HTTP_SUCCESS \<equiv> 1"
abbreviation (input) HTTP_BAD_REQUEST :: int where "HTTP_BAD_REQUEST \<equiv> 400"
abbreviation (input) HTTP_LENGTH_REQUIRED :: int where "HTTP_LENGTH_REQUIRED \<equiv> 411"
abbreviation (input) HTTP_INTERNAL_SERVER_ERROR :: int where "HTTP_INTERNAL_SERVER_ERROR \<equiv> 500"
abbreviation (input) HTTP_NOT_IMPLEMENTED :: int where "HTTP_NOT_IMPLEMENTED \<equiv> 501"

definition entry :: "c_string \<Rightarrow> int \<Rightarrow> str_int_entry" where
  "entry n i = \<lparr>se_name = n, se_id = i\<rparr>"

definition Http_Method_Table :: "str_int_entry list" where
  "Http_Method_Table =
     [entry ''GET'' 5, entry ''HEAD'' 6, entry ''M-POST'' 1, entry ''M-SEARCH'' 7,
      entry ''NOTIFY'' 4, entry ''POST'' 0, entry ''SUBSCRIBE'' 2, entry ''UNSUBSCRIBE'' 3,
      entry ''POST'' 9]"

definition Http_Header_Names :: "str_int_entry list" where
  "Http_Header_Names =
     [entry ''ACCEPT'' 25, entry ''ACCEPT-CHARSET'' 27, entry ''ACCEPT-ENCODING'' 26,
      entry ''ACCEPT-LANGUAGE'' 28, entry ''ACCEPT-RANGES'' 29, entry ''CACHE-CONTROL'' 1,
      entry ''CALLBACK'' 2, entry ''CONTENT-ENCODING'' 30, entry ''CONTENT-LANGUAGE'' 31,
      entry ''CONTENT-LENGTH'' 3, entry ''CONTENT-LOCATION'' 32, entry ''CONTENT-RANGE'' 33,
      entry ''CONTENT-TYPE'' 4, entry ''DATE'' 5, entry ''EXT'' 6, entry ''HOST'' 7,
      entry ''IF-RANGE'' 34, entry ''LOCATION'' 11, entry ''MAN'' 12, entry ''MX'' 13,
      entry ''NT'' 14, entry ''NTS'' 15, entry ''RANGE'' 35, entry ''SEQ'' 17,
      entry ''SERVER'' 16, entry ''SID'' 18, entry ''SOAPACTION'' 19, entry ''ST'' 20,
      entry ''TE'' 36, entry ''TIMEOUT'' 21, entry ''TRANSFER-ENCODING'' 22,
      entry ''USER-AGENT'' 24, entry ''USN'' 23]"

abbreviation (input) NUM_HTTP_METHODS :: int where "NUM_HTTP_METHODS \<equiv> 9"
abbreviation (input) NUM_HTTP_HEADER_NAMES :: int where "NUM_HTTP_HEADER_NAMES \<equiv> 33"

subsection \<open>Messages\<close>

datatype parser_pos_t = POS_REQUEST_LINE | POS_RESPONSE_LINE | POS_HEADERS | POS_ENTITY | POS_COMPLETE

datatype ent_pos_t =
  ENTREAD_DETERMINE_READ_METHOD | ENTREAD_USING_CLEN | ENTREAD_USING_CHUNKED
| ENTREAD_UNTIL_CLOSE | ENTREAD_CHUNKY_BODY | ENTREAD_CHUNKY_HEADERS

text \<open>A header's name points into its \<^verbatim>\<open>name_buf\<close>.\<close>

record http_header_t =
  hh_name_buf :: membuffer
  hh_name_id :: int
  hh_value :: membuffer

record http_message_t =
  hm_initialized :: int
  hm_method :: int
  hm_uri :: uri_type
  hm_request_method :: int
  hm_status_code :: int
  hm_status_msg :: membuffer
  hm_is_request :: bool
  hm_major_version :: int
  hm_minor_version :: int
  hm_headers :: "http_header_t list"
  hm_entity_buf :: "nat option"
  hm_entity_length :: int
  hm_msg :: membuffer
  hm_urlbuf :: "c_block option"

record http_parser_t =
  pa_msg :: http_message_t
  pa_http_error_code :: int
  pa_valid_ssdp_notify_hack :: bool
  pa_position :: parser_pos_t
  pa_ent_position :: ent_pos_t
  pa_content_length :: int
  pa_chunk_size :: int
  pa_entity_start_position :: nat
  pa_cursor :: nat
  pa_entire_msg_loaded :: bool

definition hh_name :: "http_header_t \<Rightarrow> memptr" where
  "hh_name h = as_memptr (mb_data (hh_name_buf h))"

definition httpmsg_compare :: "int \<Rightarrow> http_header_t \<Rightarrow> bool" where
  "httpmsg_compare name_id h \<longleftrightarrow> name_id = hh_name_id h"

definition httpheader_free :: "http_header_t \<Rightarrow> http_header_t" where
  "httpheader_free h = h\<lparr>hh_name_buf := membuffer_destroy (hh_name_buf h),
                         hh_value := membuffer_destroy (hh_value h)\<rparr>"

definition httpmsg_init :: "http_message_t \<Rightarrow> http_message_t" where
  "httpmsg_init m =
     m\<lparr>hm_initialized := 1, hm_entity_buf := None, hm_entity_length := 0, hm_headers := [],
       hm_msg := membuffer_init (hm_msg m), hm_status_msg := membuffer_init (hm_status_msg m)\<rparr>"

definition httpmsg_destroy :: "http_message_t \<Rightarrow> http_message_t" where
  "httpmsg_destroy m =
     (if hm_initialized m = 1
      then m\<lparr>hm_headers := [], hm_msg := membuffer_destroy (hm_msg m),
             hm_status_msg := membuffer_destroy (hm_status_msg m), hm_urlbuf := None,
             hm_initialized := 0\<rparr>
      else m)"

text \<open>A header found in the list is named by its position.\<close>

fun find_pos :: "('a \<Rightarrow> bool) \<Rightarrow> 'a list \<Rightarrow> nat option" where
  "find_pos P [] = None"
| "find_pos P (x # xs) = (if P x then Some 0 else map_option Suc (find_pos P xs))"

definition httpmsg_find_hdr_str :: "http_message_t \<Rightarrow> c_string \<Rightarrow> nat option" where
  "httpmsg_find_hdr_str m header_name =
     find_pos (\<lambda>h. memptr_cmp_nocase (hh_name h) header_name = 0) (hm_headers m)"

definition httpmsg_find_hdr :: "http_message_t \<Rightarrow> int \<Rightarrow> nat option" where
  "httpmsg_find_hdr m header_name_id = find_pos (httpmsg_compare header_name_id) (hm_headers m)"

definition hdr_value :: "http_message_t \<Rightarrow> nat \<Rightarrow> c_string" where
  "hdr_value m i = mb_data (hh_value (hm_headers m ! i))"

definition raw_to_int :: "c_string \<Rightarrow> nat \<Rightarrow> int" where
  "raw_to_int raw_value base =
     (if raw_value = [] then -1
      else
        (case strtol raw_value base of (num, used, erange) \<Rightarrow>
           if num < 0 \<or> used \<noteq> length raw_value \<or> ((num = LONG_MIN \<or> num = LONG_MAX) \<and> erange)
           then -1 else num))"

definition raw_find_str :: "c_string \<Rightarrow> c_string \<Rightarrow> int" where
  "raw_find_str raw_value str =
     (case strstr (takeWhile (\<lambda>c. c \<noteq> NUL) raw_value) str of None \<Rightarrow> -1 | Some i \<Rightarrow> int i)"

definition method_to_str :: "int \<Rightarrow> c_string option" where
  "method_to_str meth =
     do { index \<leftarrow> map_int_to_str meth Http_Method_Table NUM_HTTP_METHODS;
          if index = -1 then None else Some (se_name (Http_Method_Table ! nat index)) }"

subsection \<open>Parser state\<close>

definition parser_scanner :: "http_parser_t \<Rightarrow> scanner_t" where
  "parser_scanner p = \<lparr>sc_msg = mb_data (hm_msg (pa_msg p)), sc_cursor = pa_cursor p,
                       sc_entire_msg_loaded = pa_entire_msg_loaded p\<rparr>"

definition move_to :: "scanner_t \<Rightarrow> http_parser_t \<Rightarrow> http_parser_t" where
  "move_to s p = p\<lparr>pa_cursor := sc_cursor s\<rparr>"

definition on_msg :: "(http_message_t \<Rightarrow> http_message_t) \<Rightarrow> http_parser_t \<Rightarrow> http_parser_t" where
  "on_msg f p = p\<lparr>pa_msg := f (pa_msg p)\<rparr>"

definition zero_membuffer :: membuffer where
  "zero_membuffer = \<lparr>mb_buf = None, mb_length = 0, mb_capacity = 0, mb_size_inc = 0\<rparr>"

definition zero_uri :: uri_type where
  "zero_uri = blank_uri\<lparr>uri_ty := ABSOLUTE, uri_path_type := ABS_PATH\<rparr>"

definition zero_message :: http_message_t where
  "zero_message =
     \<lparr>hm_initialized = 0, hm_method = 0, hm_uri = zero_uri, hm_request_method = 0,
      hm_status_code = 0, hm_status_msg = zero_membuffer, hm_is_request = False,
      hm_major_version = 0, hm_minor_version = 0, hm_headers = [], hm_entity_buf = None,
      hm_entity_length = 0, hm_msg = zero_membuffer, hm_urlbuf = None\<rparr>"

definition parser_init :: http_parser_t where
  "parser_init =
     \<lparr>pa_msg = httpmsg_init zero_message, pa_http_error_code = HTTP_BAD_REQUEST,
      pa_valid_ssdp_notify_hack = False, pa_position = POS_REQUEST_LINE,
      pa_ent_position = ENTREAD_DETERMINE_READ_METHOD, pa_content_length = 0,
      pa_chunk_size = 0, pa_entity_start_position = 0,
      pa_cursor = sc_cursor (scanner_init []),
      pa_entire_msg_loaded = sc_entire_msg_loaded (scanner_init [])\<rparr>"

definition parser_request_init :: http_parser_t where
  "parser_request_init =
     (on_msg (\<lambda>m. m\<lparr>hm_is_request := True\<rparr>) parser_init)\<lparr>pa_position := POS_REQUEST_LINE\<rparr>"

definition parser_response_init :: "int \<Rightarrow> http_parser_t" where
  "parser_response_init request_method =
     (on_msg (\<lambda>m. m\<lparr>hm_is_request := False, hm_request_method := request_method\<rparr>) parser_init)
       \<lparr>pa_position := POS_RESPONSE_LINE\<rparr>"

subsection \<open>Start lines\<close>

text \<open>What \<^verbatim>\<open>%U\<close> would do; none of the parser's formats uses it.\<close>

definition parse_uri_arg :: "resolver \<Rightarrow> allocator \<Rightarrow> http_parser_t \<Rightarrow> c_string \<Rightarrow> int \<times> uri_type" where
  "parse_uri_arg R A p x = parse_uri R A (0, x) (length x) (hm_uri (pa_msg p))"

text \<open>Storing the request URL: a copy in \<^verbatim>\<open>urlbuf\<close>, parsed into \<^verbatim>\<open>uri\<close>. True on success.\<close>

definition store_url ::
  "resolver \<Rightarrow> allocator \<Rightarrow> c_string \<Rightarrow> http_parser_t \<Rightarrow> (bool \<times> http_parser_t) option" where
  "store_url R A url p =
     do { r \<leftarrow> str_alloc A url (length url);
          case r of
            None \<Rightarrow> Some (False, (on_msg (\<lambda>m. m\<lparr>hm_urlbuf := None\<rparr>) p)
                             \<lparr>pa_http_error_code := HTTP_INTERNAL_SERVER_ERROR\<rparr>)
          | Some blk \<Rightarrow>
              (case parse_uri R A (0, url) (length url) (hm_uri (pa_msg p)) of (rc, u) \<Rightarrow>
                 Some (rc = HTTP_SUCCESS,
                       on_msg (\<lambda>m. m\<lparr>hm_urlbuf := Some blk, hm_uri := u\<rparr>) p)) }"

text \<open>\<^verbatim>\<open>sscanf\<close> with \<^verbatim>\<open>"%d . %d"\<close> and \<^verbatim>\<open>"%d . %d %d"\<close>: the numbers it stored.\<close>

definition scan_version :: "c_string \<Rightarrow> int list \<times> c_string" where
  "scan_version s =
     (case scan_int s of
        None \<Rightarrow> ([], s)
      | Some (a, s1) \<Rightarrow>
          (case scan_lit (CHR ''.'') (scan_ws s1) of
             None \<Rightarrow> ([a], s1)
           | Some s2 \<Rightarrow>
               (case scan_int (scan_ws s2) of
                  None \<Rightarrow> ([a], s2)
                | Some (b, s3) \<Rightarrow> ([a, b], s3))))"

definition scan_status :: "c_string \<Rightarrow> int list" where
  "scan_status s =
     (case scan_version s of (vs, s1) \<Rightarrow>
        if length vs = 2
        then (case scan_int (scan_ws s1) of None \<Rightarrow> vs | Some (c, _) \<Rightarrow> vs @ [c])
        else vs)"

definition store_numbers :: "int list \<Rightarrow> http_message_t \<Rightarrow> http_message_t" where
  "store_numbers vs m =
     (case vs of
        [] \<Rightarrow> m
      | [a] \<Rightarrow> m\<lparr>hm_major_version := a\<rparr>
      | [a, b] \<Rightarrow> m\<lparr>hm_major_version := a, hm_minor_version := b\<rparr>
      | a # b # c # _ \<Rightarrow> m\<lparr>hm_major_version := a, hm_minor_version := b, hm_status_code := c\<rparr>)"

definition parser_parse_requestline ::
  "resolver \<Rightarrow> allocator \<Rightarrow> http_parser_t \<Rightarrow> (parse_status_t \<times> http_parser_t) option" where
  "parser_parse_requestline R A p =
     (if pa_position p \<noteq> POS_REQUEST_LINE then None
      else
        do { (st0, _, s0) \<leftarrow> skip_blank_lines (parser_scanner p);
             let p0 = move_to s0 p;
             if st0 \<noteq> PARSE_OK then Some (st0, p0)
             else
               do { (st1, caps1, s1) \<leftarrow> match (parse_uri_arg R A p0) (''%s'' @ [TAB] @ ''%S%w%c'') s0;
                    let p1 = move_to s1 p0;
                    case (st1, caps1) of
                      (PARSE_OK, [CapStr method_str, CapStr url_str]) \<Rightarrow>
                        do { index \<leftarrow> map_str_to_int method_str (length method_str) Http_Method_Table
                                       NUM_HTTP_METHODS True;
                             if index < 0
                             then Some (PARSE_FAILURE, p1\<lparr>pa_http_error_code := HTTP_NOT_IMPLEMENTED\<rparr>)
                             else if se_id (Http_Method_Table ! nat index) \<noteq> HTTPMETHOD_GET
                             then Some (PARSE_FAILURE, p1\<lparr>pa_http_error_code := HTTP_BAD_REQUEST\<rparr>)
                             else
                               do { (ok, p2) \<leftarrow> store_url R A url_str
                                      (on_msg (\<lambda>m. m\<lparr>hm_method := HTTPMETHOD_SIMPLEGET\<rparr>) p1);
                                    Some (if ok then (PARSE_SUCCESS, p2\<lparr>pa_position := POS_COMPLETE\<rparr>)
                                          else (PARSE_FAILURE, p2)) } }
                    | _ \<Rightarrow>
                        do { (st2, caps2, s2) \<leftarrow> match (parse_uri_arg R A p1)
                               (''%s'' @ [TAB] @ ''%S'' @ [TAB] @ ''%ihttp%w/%w%L%c'') s1;
                             let p2 = move_to s2 p1;
                             case (st2, caps2) of
                               (PARSE_OK, [CapStr method_str, CapStr url_str, CapStr version_str]) \<Rightarrow>
                                 do { (ok, p3) \<leftarrow> store_url R A url_str p2;
                                      if \<not> ok then Some (PARSE_FAILURE, p3)
                                      else
                                        (let vs = fst (scan_version version_str);
                                             p4 = on_msg (store_numbers vs) p3;
                                             m4 = pa_msg p4 in
                                         if length vs \<noteq> 2 \<or> hm_major_version m4 < 0 \<or> hm_minor_version m4 < 0
                                         then Some (PARSE_FAILURE, p4)
                                         else
                                           do { index \<leftarrow> map_str_to_int method_str (length method_str)
                                                  Http_Method_Table NUM_HTTP_METHODS True;
                                                if index < 0
                                                then Some (PARSE_FAILURE,
                                                       p4\<lparr>pa_http_error_code := HTTP_NOT_IMPLEMENTED\<rparr>)
                                                else Some (PARSE_OK,
                                                       (on_msg (\<lambda>m. m\<lparr>hm_method := se_id (Http_Method_Table ! nat index)\<rparr>) p4)
                                                         \<lparr>pa_position := POS_HEADERS\<rparr>) }) }
                             | _ \<Rightarrow> Some (st2, p2) } } })"

text \<open>The three loops over the numbers of the status line.\<close>

definition skip_number :: "c_string \<Rightarrow> c_string" where
  "skip_number s = dropWhile isdigit (dropWhile (\<lambda>c. \<not> isdigit c) s)"

definition parser_parse_responseline ::
  "resolver \<Rightarrow> allocator \<Rightarrow> http_parser_t \<Rightarrow> (parse_status_t \<times> http_parser_t) option" where
  "parser_parse_responseline R A p =
     (if pa_position p \<noteq> POS_RESPONSE_LINE then None
      else
        do { (st0, _, s0) \<leftarrow> skip_blank_lines (parser_scanner p);
             let p0 = move_to s0 p;
             if st0 \<noteq> PARSE_OK then Some (st0, p0)
             else
               do { (st1, caps, s1) \<leftarrow> match (parse_uri_arg R A p0) ''%ihttp%w/%w%L%c'' s0;
                    let p1 = move_to s1 p0;
                    case (st1, caps) of
                      (PARSE_OK, [CapStr line]) \<Rightarrow>
                        (let vs = scan_status line;
                             p2 = on_msg (store_numbers vs) p1;
                             m2 = pa_msg p2;
                             rest = skip_number (skip_number (skip_number line));
                             text = dropWhile is_blank_char rest in
                         if length vs \<noteq> 3 \<or> hm_major_version m2 < 0 \<or> hm_minor_version m2 < 0 \<or>
                            hm_status_code m2 < 0
                         then Some (PARSE_FAILURE, p2)
                         else if \<not> is_blank_char (cur rest) then Some (PARSE_FAILURE, p2)
                         else
                           do { (rc, sm) \<leftarrow> membuffer_assign A (hm_status_msg m2) (Some text) (length text);
                                let p3 = on_msg (\<lambda>m. m\<lparr>hm_status_msg := sm\<rparr>) p2;
                                Some (if rc \<noteq> 0
                                      then (PARSE_FAILURE, p3\<lparr>pa_http_error_code := HTTP_INTERNAL_SERVER_ERROR\<rparr>)
                                      else (PARSE_OK, p3\<lparr>pa_position := POS_HEADERS\<rparr>)) })
                    | _ \<Rightarrow> Some (st1, p1) } })"

subsection \<open>Headers\<close>

abbreviation (input) sizeof_http_header_t :: nat where "sizeof_http_header_t \<equiv> 88"

text \<open>
  One header with its value joins the list. \<open>Inl\<close> is the end of the function with that status,
  \<open>Inr\<close> the next round of its loop. A header whose list node cannot be allocated is dropped
  (the code ignores the NULL of \<^verbatim>\<open>ListAddTail\<close>).
\<close>

definition new_header ::
  "allocator \<Rightarrow> int \<Rightarrow> c_string \<Rightarrow> c_string \<Rightarrow> http_parser_t \<Rightarrow>
   ((parse_status_t \<times> http_parser_t) + http_parser_t) option" where
  "new_header A header_id name v p =
     (let oom = Inl (PARSE_FAILURE, p\<lparr>pa_http_error_code := HTTP_INTERNAL_SERVER_ERROR\<rparr>);
          v1 = (if v = [] then [NUL] else v) in
      if \<not> grants A sizeof_http_header_t then Some oom
      else
        do { (rc1, nb) \<leftarrow> membuffer_assign A (membuffer_init zero_membuffer) (Some name) (length name);
             if rc1 \<noteq> 0 then Some oom
             else
               do { (rc2, vb) \<leftarrow> membuffer_assign A (membuffer_init zero_membuffer) (Some v1) (length v1);
                    if rc2 \<noteq> 0 then Some oom
                    else
                      (let h = \<lparr>hh_name_buf = nb, hh_name_id = header_id, hh_value = vb\<rparr> in
                       Some (Inr (if grants A sizeof_ListNode
                                  then on_msg (\<lambda>m. m\<lparr>hm_headers := hm_headers m @ [h]\<rparr>) p
                                  else p))) } })"

definition append_value ::
  "allocator \<Rightarrow> nat \<Rightarrow> c_string \<Rightarrow> http_parser_t \<Rightarrow>
   ((parse_status_t \<times> http_parser_t) + http_parser_t) option" where
  "append_value A i v p =
     (let h = hm_headers (pa_msg p) ! i in
      do { (ret, vb1) \<leftarrow> membuffer_append_str A (hh_value h) '', '';
           (ret2, vb2) \<leftarrow> membuffer_append A vb1 (Some v) (length v);
           let p1 = on_msg (\<lambda>m. m\<lparr>hm_headers := (hm_headers m)[i := h\<lparr>hh_value := vb2\<rparr>]\<rparr>) p;
           Some (if ret = UPNP_E_OUTOF_MEMORY \<or> ret2 = UPNP_E_OUTOF_MEMORY
                 then Inl (PARSE_FAILURE, p1\<lparr>pa_http_error_code := HTTP_INTERNAL_SERVER_ERROR\<rparr>)
                 else Inr p1) })"

definition add_header ::
  "allocator \<Rightarrow> c_string \<Rightarrow> c_string \<Rightarrow> http_parser_t \<Rightarrow>
   ((parse_status_t \<times> http_parser_t) + http_parser_t) option" where
  "add_header A name v p =
     do { index \<leftarrow> map_str_to_int name (length name) Http_Header_Names NUM_HTTP_HEADER_NAMES False;
          let header_id = (if index \<noteq> -1 then se_id (Http_Header_Names ! nat index) else HDR_UNKNOWN);
          let p1 = (if index \<noteq> -1 \<and> header_id = HDR_SOAPACTION
                    then on_msg (\<lambda>m. m\<lparr>hm_method := SOAPMETHOD_POST\<rparr>) p else p);
          case (if index \<noteq> -1 then httpmsg_find_hdr (pa_msg p1) header_id
                else httpmsg_find_hdr_str (pa_msg p1) name) of
            None \<Rightarrow> new_header A header_id name v p1
          | Some i \<Rightarrow> if v \<noteq> [] then append_value A i v p1 else Some (Inr p1) }"

definition headers_step ::
  "resolver \<Rightarrow> allocator \<Rightarrow> http_parser_t \<Rightarrow>
   ((parse_status_t \<times> http_parser_t) + http_parser_t) option" where
  "headers_step R A p =
     do { (tok, s1) \<leftarrow> scanner_get_token (parser_scanner p);
          let p1 = move_to s1 p;
          case tok of
            NoToken st \<Rightarrow> Some (Inl (st, p1))
          | Token tt name \<Rightarrow>
              if tt = TT_CRLF then
                Some (Inl (if hm_is_request (pa_msg p1) \<and> hm_method (pa_msg p1) = HTTPMETHOD_POST
                           then (PARSE_SUCCESS, p1\<lparr>pa_position := POS_COMPLETE\<rparr>)
                           else (PARSE_OK, p1\<lparr>pa_position := POS_ENTITY\<rparr>)))
              else if tt \<noteq> TT_IDENTIFIER then Some (Inl (PARSE_FAILURE, p1))
              else
                do { (st, caps, s2) \<leftarrow> match (parse_uri_arg R A p1) '' : %R%c'' s1;
                     case (st, caps) of
                       (PARSE_OK, [CapStr v]) \<Rightarrow> add_header A name v (move_to s2 p1)
                     | _ \<Rightarrow> Some (Inl (st, p)) } }"

partial_function (option) headers_loop ::
  "resolver \<Rightarrow> allocator \<Rightarrow> http_parser_t \<Rightarrow> (parse_status_t \<times> http_parser_t) option" where
  "headers_loop R A p =
     do { r \<leftarrow> headers_step R A p;
          case r of Inl out \<Rightarrow> Some out | Inr p1 \<Rightarrow> headers_loop R A p1 }"

definition parser_parse_headers ::
  "resolver \<Rightarrow> allocator \<Rightarrow> http_parser_t \<Rightarrow> (parse_status_t \<times> http_parser_t) option" where
  "parser_parse_headers R A p =
     (if pa_position p \<noteq> POS_HEADERS \<and> pa_ent_position p \<noteq> ENTREAD_CHUNKY_HEADERS then None
      else headers_loop R A p)"

subsection \<open>The entity\<close>

text \<open>Adding a signed \<^verbatim>\<open>int\<close> to a \<^verbatim>\<open>size_t\<close>.\<close>

definition size_wrap :: "int \<Rightarrow> int" where
  "size_wrap x = x mod 18446744073709551616"

definition size_add_int :: "nat \<Rightarrow> int \<Rightarrow> nat" where
  "size_add_int a b = nat (size_wrap (int a + b))"

definition parser_parse_entity_using_clen ::
  "http_parser_t \<Rightarrow> (parse_status_t \<times> http_parser_t) option" where
  "parser_parse_entity_using_clen p =
     (if pa_ent_position p \<noteq> ENTREAD_USING_CLEN then None
      else
        (let mb = hm_msg (pa_msg p);
             start = pa_entity_start_position p;
             clen = nat (pa_content_length p);
             len = size_sub (mb_length mb) start;
             p1 = on_msg (\<lambda>m. m\<lparr>hm_entity_length := int len\<rparr>) p in
         if len < clen then Some (PARSE_INCOMPLETE, p1)
         else
           do { mb1 \<leftarrow> (if len > clen
                        then do { b \<leftarrow> mb_buf mb; b1 \<leftarrow> mem_write b (start + clen) [NUL];
                                  Some (mb\<lparr>mb_buf := Some b1\<rparr>) }
                        else Some mb);
                Some (PARSE_SUCCESS,
                      (on_msg (\<lambda>m. m\<lparr>hm_msg := mb1, hm_entity_length := int clen, hm_entity_buf := Some start\<rparr>) p1)
                        \<lparr>pa_position := POS_COMPLETE\<rparr>) }))"

text \<open>Cutting bytes out of the message and putting the cursor there.\<close>

definition cut_message :: "allocator \<Rightarrow> nat \<Rightarrow> nat \<Rightarrow> http_parser_t \<Rightarrow> http_parser_t option" where
  "cut_message A pos n p =
     do { mb \<leftarrow> membuffer_delete A (hm_msg (pa_msg p)) (wrap32 (int pos)) n;
          Some ((on_msg (\<lambda>m. m\<lparr>hm_msg := mb\<rparr>) p)\<lparr>pa_cursor := pos\<rparr>) }"

definition parser_parse_chunky_body ::
  "resolver \<Rightarrow> allocator \<Rightarrow> http_parser_t \<Rightarrow> (parse_status_t \<times> http_parser_t) option" where
  "parser_parse_chunky_body R A p =
     (if wrap32 (int (size_sub (mb_length (hm_msg (pa_msg p))) (pa_cursor p))) \<ge> pa_chunk_size p
      then
        (let save_pos = size_add_int (pa_cursor p) (pa_chunk_size p);
             p0 = p\<lparr>pa_cursor := save_pos\<rparr> in
         do { (st, _, s1) \<leftarrow> match (parse_uri_arg R A p0) ''%c'' (parser_scanner p0);
              if st \<noteq> PARSE_OK
              then Some (st, p0\<lparr>pa_cursor := size_add_int (sc_cursor s1) (- pa_chunk_size p)\<rparr>)
              else
                do { p1 \<leftarrow> cut_message A save_pos (size_sub (sc_cursor s1) save_pos) p0;
                     Some (PARSE_CONTINUE_1,
                           (on_msg (\<lambda>m. m\<lparr>hm_entity_length :=
                                        size_wrap (hm_entity_length m + pa_chunk_size p)\<rparr>) p1)
                             \<lparr>pa_ent_position := ENTREAD_USING_CHUNKED\<rparr>) } })
      else Some (PARSE_INCOMPLETE, p))"

definition parser_parse_chunky_headers ::
  "resolver \<Rightarrow> allocator \<Rightarrow> http_parser_t \<Rightarrow> (parse_status_t \<times> http_parser_t) option" where
  "parser_parse_chunky_headers R A p =
     do { (st, p1) \<leftarrow> parser_parse_headers R A p;
          if st = PARSE_OK
          then
            do { p2 \<leftarrow> cut_message A (pa_cursor p) (size_sub (pa_cursor p1) (pa_cursor p))
                        ((on_msg (\<lambda>m. m\<lparr>hm_entity_buf := Some (pa_entity_start_position p1)\<rparr>) p1)
                           \<lparr>pa_position := POS_COMPLETE\<rparr>);
                 Some (PARSE_SUCCESS, p2) }
          else Some (st, p1) }"

text \<open>The match stores the chunk size into the parser, also when the line is not yet complete.\<close>

definition parser_parse_chunky_entity ::
  "resolver \<Rightarrow> allocator \<Rightarrow> http_parser_t \<Rightarrow> (parse_status_t \<times> http_parser_t) option" where
  "parser_parse_chunky_entity R A p =
     (if pa_ent_position p \<noteq> ENTREAD_USING_CHUNKED then None
      else
        do { (st, caps, s1) \<leftarrow> match (parse_uri_arg R A p) ''%x%L%c'' (parser_scanner p);
             let p1 = (case caps of CapInt n # _ \<Rightarrow> p\<lparr>pa_chunk_size := n\<rparr> | _ \<Rightarrow> p);
             if st \<noteq> PARSE_OK then Some (st, p1)
             else
               do { p2 \<leftarrow> cut_message A (pa_cursor p) (size_sub (sc_cursor s1) (pa_cursor p)) p1;
                    Some (PARSE_CONTINUE_1,
                          if pa_chunk_size p2 = 0
                          then (on_msg (\<lambda>m. m\<lparr>hm_entity_length :=
                                       size_wrap (int (pa_cursor p2) - int (pa_entity_start_position p2))\<rparr>) p2)
                                 \<lparr>pa_ent_position := ENTREAD_CHUNKY_HEADERS\<rparr>
                          else p2\<lparr>pa_ent_position := ENTREAD_CHUNKY_BODY\<rparr>) } })"

definition parser_parse_entity_until_close ::
  "http_parser_t \<Rightarrow> (parse_status_t \<times> http_parser_t) option" where
  "parser_parse_entity_until_close p =
     (if pa_ent_position p \<noteq> ENTREAD_UNTIL_CLOSE then None
      else
        (let cursor = mb_length (hm_msg (pa_msg p));
             start = pa_entity_start_position p in
         Some (PARSE_INCOMPLETE_ENTITY,
               (on_msg (\<lambda>m. m\<lparr>hm_entity_length := size_wrap (int cursor - int start), hm_entity_buf := Some start\<rparr>) p)
                 \<lparr>pa_cursor := cursor\<rparr>)))"

text \<open>Which requests and responses have no entity.\<close>

definition no_entity :: "http_message_t \<Rightarrow> bool" where
  "no_entity m =
     (if hm_is_request m
      then hm_method m \<in> {HTTPMETHOD_HEAD, HTTPMETHOD_GET, HTTPMETHOD_SUBSCRIBE,
                          HTTPMETHOD_UNSUBSCRIBE, HTTPMETHOD_MSEARCH}
      else hm_status_code m = 204 \<or> hm_status_code m = 304 \<or>
           (hm_status_code m \<ge> 100 \<and> hm_status_code m \<le> 199) \<or>
           hm_request_method m \<in> {HTTPMETHOD_HEAD, HTTPMETHOD_MSEARCH, HTTPMETHOD_SUBSCRIBE,
                                  HTTPMETHOD_UNSUBSCRIBE, HTTPMETHOD_NOTIFY})"

definition parser_get_entity_read_method ::
  "http_parser_t \<Rightarrow> (parse_status_t \<times> http_parser_t) option" where
  "parser_get_entity_read_method p =
     (if pa_ent_position p \<noteq> ENTREAD_DETERMINE_READ_METHOD then None
      else
        (let p1 = (on_msg (\<lambda>m. m\<lparr>hm_entity_buf := Some (scanner_get_str (parser_scanner p)),
                                 hm_entity_length := 0\<rparr>) p)
                    \<lparr>pa_entity_start_position := pa_cursor p\<rparr>;
             m = pa_msg p1 in
         if no_entity m then Some (PARSE_SUCCESS, p1\<lparr>pa_position := POS_COMPLETE\<rparr>)
         else if (case httpmsg_find_hdr m HDR_TRANSFER_ENCODING of
                    None \<Rightarrow> False | Some i \<Rightarrow> raw_find_str (hdr_value m i) ''chunked'' \<ge> 0)
         then Some (PARSE_CONTINUE_1, p1\<lparr>pa_ent_position := ENTREAD_USING_CHUNKED\<rparr>)
         else
           (case httpmsg_find_hdr m HDR_CONTENT_LENGTH of
              Some i \<Rightarrow>
                (let clen = raw_to_int (hdr_value m i) 10;
                     p2 = p1\<lparr>pa_content_length := clen\<rparr> in
                 if clen < 0 then Some (PARSE_FAILURE, p2)
                 else Some (PARSE_CONTINUE_1, p2\<lparr>pa_ent_position := ENTREAD_USING_CLEN\<rparr>))
            | None \<Rightarrow>
                if hm_is_request m
                then Some (PARSE_FAILURE,
                       p1\<lparr>pa_valid_ssdp_notify_hack :=
                            (hm_method m = HTTPMETHOD_NOTIFY \<or> pa_valid_ssdp_notify_hack p1),
                          pa_http_error_code := HTTP_LENGTH_REQUIRED\<rparr>)
                else Some (PARSE_CONTINUE_1, p1\<lparr>pa_ent_position := ENTREAD_UNTIL_CLOSE\<rparr>))))"

definition entity_step ::
  "resolver \<Rightarrow> allocator \<Rightarrow> http_parser_t \<Rightarrow> (parse_status_t \<times> http_parser_t) option" where
  "entity_step R A p =
     (case pa_ent_position p of
        ENTREAD_USING_CLEN \<Rightarrow> parser_parse_entity_using_clen p
      | ENTREAD_USING_CHUNKED \<Rightarrow> parser_parse_chunky_entity R A p
      | ENTREAD_CHUNKY_BODY \<Rightarrow> parser_parse_chunky_body R A p
      | ENTREAD_CHUNKY_HEADERS \<Rightarrow> parser_parse_chunky_headers R A p
      | ENTREAD_UNTIL_CLOSE \<Rightarrow> parser_parse_entity_until_close p
      | ENTREAD_DETERMINE_READ_METHOD \<Rightarrow> parser_get_entity_read_method p)"

partial_function (option) entity_loop ::
  "resolver \<Rightarrow> allocator \<Rightarrow> http_parser_t \<Rightarrow> (parse_status_t \<times> http_parser_t) option" where
  "entity_loop R A p =
     do { (st, p1) \<leftarrow> entity_step R A p;
          if st = PARSE_CONTINUE_1 then entity_loop R A p1 else Some (st, p1) }"

definition parser_parse_entity ::
  "resolver \<Rightarrow> allocator \<Rightarrow> http_parser_t \<Rightarrow> (parse_status_t \<times> http_parser_t) option" where
  "parser_parse_entity R A p = (if pa_position p \<noteq> POS_ENTITY then None else entity_loop R A p)"

subsection \<open>The parser\<close>

definition parse_step ::
  "resolver \<Rightarrow> allocator \<Rightarrow> http_parser_t \<Rightarrow> (parse_status_t \<times> http_parser_t) option" where
  "parse_step R A p =
     (case pa_position p of
        POS_ENTITY \<Rightarrow> parser_parse_entity R A p
      | POS_HEADERS \<Rightarrow> parser_parse_headers R A p
      | POS_REQUEST_LINE \<Rightarrow> parser_parse_requestline R A p
      | POS_RESPONSE_LINE \<Rightarrow> parser_parse_responseline R A p
      | POS_COMPLETE \<Rightarrow> None)"

partial_function (option) parser_parse ::
  "resolver \<Rightarrow> allocator \<Rightarrow> http_parser_t \<Rightarrow> (parse_status_t \<times> http_parser_t) option" where
  "parser_parse R A p =
     do { (st, p1) \<leftarrow> parse_step R A p;
          if st = PARSE_OK then parser_parse R A p1 else Some (st, p1) }"

definition parser_append ::
  "resolver \<Rightarrow> allocator \<Rightarrow> http_parser_t \<Rightarrow> c_block \<Rightarrow> nat \<Rightarrow>
   (parse_status_t \<times> http_parser_t) option" where
  "parser_append R A p buf buf_length =
     do { (rc, mb) \<leftarrow> membuffer_append A (hm_msg (pa_msg p)) (Some buf) buf_length;
          let p1 = on_msg (\<lambda>m. m\<lparr>hm_msg := mb\<rparr>) p;
          if rc \<noteq> 0
          then Some (PARSE_FAILURE, p1\<lparr>pa_http_error_code := HTTP_INTERNAL_SERVER_ERROR\<rparr>)
          else parser_parse R A p1 }"

declare headers_loop.simps [code] entity_loop.simps [code] parser_parse.simps [code]

subsection \<open>The name tables\<close>

text \<open>
  The header names ascend when case is ignored, so the binary search meets its contract for
  every name the scanner can produce (an identifier has no NUL).
\<close>

lemma identifiers_no_nul: "no_nul (takeWhile is_identifier_char s)"
  by (auto simp: no_nul_def is_identifier_char_def dest!: set_takeWhileD)

lemma header_names_ascending: "ascending (map tolower) Http_Header_Names"
  by code_simp

lemma header_names_no_nul: "\<forall>e \<in> set Http_Header_Names. no_nul (se_name e)"
  by (simp add: Http_Header_Names_def entry_def)

interpretation hdr: sorted_table "memptr_cmp_nocase (as_memptr (takeWhile is_identifier_char s))"
    Http_Header_Names for s
  by (rule sorted_table_nocase [OF header_names_ascending header_names_no_nul identifiers_no_nul])

lemma length_header_names: "length Http_Header_Names = 33"
  by (simp add: Http_Header_Names_def)

lemma nocase_equal:
  assumes "no_nul a" and "no_nul s"
  shows "memptr_cmp_nocase (as_memptr a) s = 0 \<longleftrightarrow> map tolower a = map tolower s"
  using sgn_memptr_cmp(3) [of "map tolower a" "map tolower s"] assms
  by (simp add: memptr_cmp_nocase_fold)

text \<open>
  C25: Header names are recognised without regard to case, and only they. For every identifier,
  \<^verbatim>\<open>map_str_to_int\<close> on the table of header names returns the index of the one entry that equals
  it up to case, and -1 exactly when there is none; it never reads outside the table.
\<close>

theorem header_lookup:
  assumes "\<forall>c \<in> set name. is_identifier_char c"
  shows "\<exists>r. map_str_to_int name (length name) Http_Header_Names 33 False = Some r \<and>
    (if \<exists>e \<in> set Http_Header_Names. map tolower (se_name e) = map tolower name
     then 0 \<le> r \<and> r < 33 \<and> map tolower (se_name (Http_Header_Names ! nat r)) = map tolower name
     else r = -1)"
proof -
  have name: "takeWhile is_identifier_char name = name" using assms by simp
  have nn: "no_nul name" using identifiers_no_nul [of name] name by simp
  have eq: "memptr_cmp_nocase (as_memptr name) (se_name e) = 0 \<longleftrightarrow> map tolower (se_name e) = map tolower name"
    if "e \<in> set Http_Header_Names" for e
    using nocase_equal [OF nn] header_names_no_nul that by auto
  obtain r where r: "map_str_loop (memptr_cmp_nocase (as_memptr name)) Http_Header_Names 0
        (int (length Http_Header_Names) - 1) = Some r"
    "r = -1 \<and> (\<forall>k < length Http_Header_Names. memptr_cmp_nocase (as_memptr name) (se_name (Http_Header_Names ! k)) \<noteq> 0) \<or>
     0 \<le> r \<and> r < int (length Http_Header_Names) \<and>
       memptr_cmp_nocase (as_memptr name) (se_name (Http_Header_Names ! nat r)) = 0"
    using hdr.search_spec [of name] name by auto
  have run: "map_str_to_int name (length name) Http_Header_Names 33 False = Some r"
    using r(1) by (simp add: map_str_to_int_def length_header_names as_memptr_def Let_def)
  show ?thesis
  proof (cases "r = -1")
    case True
    with r(2) have "\<forall>e \<in> set Http_Header_Names. memptr_cmp_nocase (as_memptr name) (se_name e) \<noteq> 0"
      by (auto simp: in_set_conv_nth)
    then show ?thesis using run True eq by auto
  next
    case False
    with r(2) have r': "0 \<le> r" "r < 33" "Http_Header_Names ! nat r \<in> set Http_Header_Names"
      "memptr_cmp_nocase (as_memptr name) (se_name (Http_Header_Names ! nat r)) = 0"
      by (auto simp: length_header_names)
    then show ?thesis using run eq by auto
  qed
qed

theorem header_lookup_witness:
  "\<exists>r. map_str_to_int ''Content-Length'' (length ''Content-Length'') Http_Header_Names 33 False = Some r \<and>
     (if \<exists>e \<in> set Http_Header_Names. map tolower (se_name e) = map tolower ''Content-Length''
      then 0 \<le> r \<and> r < 33 \<and> map tolower (se_name (Http_Header_Names ! nat r)) = map tolower ''Content-Length''
      else r = -1)"
proof (rule header_lookup)
  show "\<forall>c \<in> set ''Content-Length''. is_identifier_char c" by code_simp
qed

definition method_roundtrip :: "int \<Rightarrow> int option" where
  "method_roundtrip meth =
     do { name \<leftarrow> method_to_str meth;
          index \<leftarrow> map_str_to_int name (length name) Http_Method_Table NUM_HTTP_METHODS True;
          if index < 0 then None else Some (se_id (Http_Method_Table ! nat index)) }"

text \<open>
  Method names. For the eight HTTP methods, \<^verbatim>\<open>method_to_str\<close> gives a name that the request
  line parser maps back to the same method; the ninth entry of the table, a second \<^verbatim>\<open>POST\<close> for
  SOAP, is printed as \<^verbatim>\<open>POST\<close> and read back as the plain method, so a SOAP request is never
  recognised by its request line.
\<close>

lemma method_names_roundtrip:
  "map method_roundtrip [0, 1, 2, 3, 4, 5, 6, 7, SOAPMETHOD_POST] =
     [Some 0, Some 1, Some 2, Some 3, Some 4, Some 5, Some 6, Some 7, Some HTTPMETHOD_POST] \<and>
   method_to_str SOAPMETHOD_POST = Some ''POST''"
proof
  show "map method_roundtrip [0, 1, 2, 3, 4, 5, 6, 7, 9] =
      [Some 0, Some 1, Some 2, Some 3, Some 4, Some 5, Some 6, Some 7, Some 0]"
    by code_simp
  show "method_to_str 9 = Some ''POST''" by code_simp
qed

abbreviation (input) CRLF :: c_string where "CRLF \<equiv> [TOKCHAR_CR, TOKCHAR_LF]"

definition huge_chunk_response :: c_string where
  "huge_chunk_response =
     ''HTTP/1.1 200 OK'' @ CRLF @ ''TRANSFER-ENCODING: chunked'' @ CRLF @ CRLF @
     ''FFFFFFFF'' @ CRLF @ ''0'' @ CRLF @ CRLF"

definition entity_report :: "(parse_status_t \<times> http_parser_t) option \<Rightarrow>
    (parse_status_t \<times> nat option \<times> int \<times> nat) option" where
  "entity_report r =
     do { (st, p) \<leftarrow> r;
          Some (st, hm_entity_buf (pa_msg p), hm_entity_length (pa_msg p), mb_length (hm_msg (pa_msg p))) }"


end
