(* ===== verification/ThreadPool.thy ===== *)
theory ThreadPool
  imports Prelude "HOL-Library.Multiset" "HOL-Library.Signed_Division"
begin

unbundle bit_operations_syntax

section \<open>The thread pool (threadutil/src/ThreadPool.c)\<close>

text \<open>
  Jobs of three priorities wait in queues until a worker thread runs them; persistent jobs are
  handed to a worker directly. All of the pool's state is guarded by one mutex, so what a thread
  does between taking and releasing it is one atomic step; those steps are the definitions here.
  The queues are lists (the code's linked lists implement lists with appending and taking the
  head), the memory of the jobs is the cell pool of \<^verbatim>\<open>FreeList.c\<close> and appears as the question
  whether a job is granted. What the system answers is an argument: the time of day, whether
  memory for a job or a list node is granted, the results of creating and detaching a thread.
  Divisions and remainders of C truncate (\<open>sdiv\<close>, \<open>smod\<close>).

  Here are the functions of the file in their order, run without interference: \<open>CreateWorker\<close>
  returns once the new thread has counted itself. Theory \<open>PoolSystem\<close> interleaves them.
\<close>

datatype ThreadPriority = LOW_PRIORITY | MED_PRIORITY | HIGH_PRIORITY

record timeval =
  tv_sec :: int
  tv_usec :: int

record ThreadPoolAttr =
  minThreads :: int
  maxThreads :: int
  maxIdleTime :: int
  jobsPerThread :: int
  maxJobsTotal :: int
  starvationTime :: int
  schedPolicy :: int

record ThreadPoolJob =
  tpj_func :: nat
  tpj_arg :: nat
  tpj_free_func :: bool
  tpj_requestTime :: timeval
  tpj_priority :: ThreadPriority
  tpj_jobId :: int

text \<open>The statistics; the times are sums of whole milliseconds and seconds.\<close>

record ThreadPoolStats =
  totalTimeHQ :: int
  totalJobsHQ :: int
  totalTimeMQ :: int
  totalJobsMQ :: int
  totalTimeLQ :: int
  totalJobsLQ :: int
  totalWorkTime :: int
  totalIdleTime :: int
  st_workerThreads :: int
  st_idleThreads :: int
  st_maxThreads :: int

text \<open>
  The pool. Of the cleanup function of the user the pool knows whether it is set; \<open>tp_cleanups\<close>
  counts its calls.
\<close>

record ThreadPool =
  tp_lastJobId :: int
  tp_shutdown :: bool
  tp_totalThreads :: int
  tp_busyThreads :: int
  tp_persistentThreads :: int
  tp_lowJobQ :: "ThreadPoolJob list"
  tp_medJobQ :: "ThreadPoolJob list"
  tp_highJobQ :: "ThreadPoolJob list"
  tp_persistentJob :: "ThreadPoolJob option"
  tp_attr :: ThreadPoolAttr
  tp_free_func :: bool
  tp_cleanups :: nat
  tp_stats :: ThreadPoolStats

abbreviation (input) INFINITE_THREADS :: int where "INFINITE_THREADS \<equiv> -1"

text \<open>The error codes are the expressions of the headers, on 32-bit integers.\<close>

definition error_code :: "32 word \<Rightarrow> int" where
  "error_code w = sint (w AND push_bit 29 1)"

definition EMAXTHREADS :: int where "EMAXTHREADS = error_code (-8)"
definition INVALID_POLICY :: int where "INVALID_POLICY = error_code (-9)"
definition INVALID_JOB_ID :: int where "INVALID_JOB_ID = error_code (-2)"
definition EOUTOFMEM :: int where "EOUTOFMEM = error_code (-7)"

definition CmpThreadPoolJob :: "ThreadPoolJob \<Rightarrow> ThreadPoolJob \<Rightarrow> bool" where
  "CmpThreadPoolJob a b \<longleftrightarrow> tpj_jobId a = tpj_jobId b"

definition SetPolicyType :: "int \<Rightarrow> int" where
  "SetPolicyType _ = 0"

text \<open>
  The scheduling priority, from the limits of the current policy if the system tells them;
  \<open>setschedparam\<close> is the system's answer to the call that sets it.
\<close>

definition SetPriority :: "(int \<times> int) option \<Rightarrow> (int \<Rightarrow> int) \<Rightarrow> ThreadPriority \<Rightarrow> int" where
  "SetPriority limits setschedparam p =
     (case limits of
        None \<Rightarrow> 0
      | Some (minPriority, maxPriority) \<Rightarrow>
          setschedparam
            (case p of
               LOW_PRIORITY \<Rightarrow> minPriority
             | MED_PRIORITY \<Rightarrow> (maxPriority - minPriority) sdiv 2
             | HIGH_PRIORITY \<Rightarrow> maxPriority))"

definition DiffMillis :: "timeval \<Rightarrow> timeval \<Rightarrow> int" where
  "DiffMillis time1 time2 =
     (tv_sec time1 - tv_sec time2) * 1000 + (tv_usec time1 sdiv 1000 - tv_usec time2 sdiv 1000)"

text \<open>
  Aging. A node for the higher queue is needed for each move; the result of \<^verbatim>\<open>ListAddTail\<close> is not
  looked at, so without memory the job is in no queue afterwards.
\<close>

definition bump_med :: "timeval \<Rightarrow> ThreadPool \<Rightarrow> bool" where
  "bump_med now tp =
     (case tp_medJobQ tp of
        [] \<Rightarrow> False | j # _ \<Rightarrow> DiffMillis now (tpj_requestTime j) \<ge> starvationTime (tp_attr tp))"

definition bump_low :: "timeval \<Rightarrow> ThreadPool \<Rightarrow> bool" where
  "bump_low now tp =
     (case tp_lowJobQ tp of
        [] \<Rightarrow> False | j # _ \<Rightarrow> DiffMillis now (tpj_requestTime j) \<ge> maxIdleTime (tp_attr tp))"

function BumpPriority :: "(ThreadPoolJob \<Rightarrow> bool) \<Rightarrow> timeval \<Rightarrow> ThreadPool \<Rightarrow> ThreadPool" where
  "BumpPriority node_ok now tp =
     (if bump_med now tp then
        (let j = hd (tp_medJobQ tp); s = tp_stats tp in
         BumpPriority node_ok now
           (tp\<lparr>tp_stats := s\<lparr>totalJobsMQ := totalJobsMQ s + 1,
                            totalTimeMQ := totalTimeMQ s + DiffMillis now (tpj_requestTime j)\<rparr>,
               tp_medJobQ := tl (tp_medJobQ tp),
               tp_highJobQ := (if node_ok j then tp_highJobQ tp @ [j] else tp_highJobQ tp)\<rparr>))
      else if bump_low now tp then
        (let j = hd (tp_lowJobQ tp); s = tp_stats tp in
         BumpPriority node_ok now
           (tp\<lparr>tp_stats := s\<lparr>totalJobsLQ := totalJobsLQ s + 1,
                            totalTimeLQ := totalTimeLQ s + DiffMillis now (tpj_requestTime j)\<rparr>,
               tp_lowJobQ := tl (tp_lowJobQ tp),
               tp_medJobQ := (if node_ok j then tp_medJobQ tp @ [j] else tp_medJobQ tp)\<rparr>))
      else tp)"
  by pat_completeness auto
termination
  by (relation "measure (\<lambda>(_, _, tp). length (tp_medJobQ tp) + 2 * length (tp_lowJobQ tp))")
    (auto simp: bump_med_def bump_low_def split: list.splits)

declare BumpPriority.simps [simp del]

text \<open>The absolute time of a wait: seconds and nanoseconds.\<close>

definition SetRelTimeout :: "timeval \<Rightarrow> int \<Rightarrow> int \<times> int" where
  "SetRelTimeout now relMillis =
     (tv_sec now + relMillis sdiv 1000, (tv_usec now sdiv 1000 + relMillis smod 1000) * 1000000)"

definition StatsInit :: ThreadPoolStats where
  "StatsInit =
     \<lparr>totalTimeHQ = 0, totalJobsHQ = 0, totalTimeMQ = 0, totalJobsMQ = 0, totalTimeLQ = 0,
      totalJobsLQ = 0, totalWorkTime = 0, totalIdleTime = 0, st_workerThreads = 0,
      st_idleThreads = 0, st_maxThreads = 0\<rparr>"

definition CalcWaitTime ::
  "timeval \<Rightarrow> ThreadPriority \<Rightarrow> ThreadPoolJob \<Rightarrow> ThreadPoolStats \<Rightarrow> ThreadPoolStats" where
  "CalcWaitTime now p job s =
     (let diff = DiffMillis now (tpj_requestTime job) in
      case p of
        HIGH_PRIORITY \<Rightarrow> s\<lparr>totalJobsHQ := totalJobsHQ s + 1, totalTimeHQ := totalTimeHQ s + diff\<rparr>
      | MED_PRIORITY \<Rightarrow> s\<lparr>totalJobsMQ := totalJobsMQ s + 1, totalTimeMQ := totalTimeMQ s + diff\<rparr>
      | LOW_PRIORITY \<Rightarrow> s\<lparr>totalJobsLQ := totalJobsLQ s + 1, totalTimeLQ := totalTimeLQ s + diff\<rparr>)"

subsection \<open>The critical sections of a worker thread\<close>

text \<open>A worker keeps the job it runs and whether that is a persistent one (-1 before the first).\<close>

definition on_stats :: "(ThreadPoolStats \<Rightarrow> ThreadPoolStats) \<Rightarrow> ThreadPool \<Rightarrow> ThreadPool" where
  "on_stats f tp = tp\<lparr>tp_stats := f (tp_stats tp)\<rparr>"

definition worker_start :: "ThreadPool \<Rightarrow> ThreadPool" where
  "worker_start tp = tp\<lparr>tp_totalThreads := tp_totalThreads tp + 1\<rparr>"

definition worker_top :: "int \<Rightarrow> ThreadPoolJob option \<Rightarrow> int \<Rightarrow> ThreadPool \<Rightarrow> ThreadPool" where
  "worker_top work_time job persistent tp =
     (let tp1 = (if job \<noteq> None then tp\<lparr>tp_busyThreads := tp_busyThreads tp - 1\<rparr> else tp);
          tp2 = on_stats (\<lambda>s. s\<lparr>st_idleThreads := st_idleThreads s + 1,
                                totalWorkTime := totalWorkTime s + work_time\<rparr>) tp1;
          tp3 = (if persistent = 1
                 then tp2\<lparr>tp_persistentThreads := tp_persistentThreads tp2 - 1\<rparr> else tp2) in
      if persistent = 0
      then on_stats (\<lambda>s. s\<lparr>st_workerThreads := st_workerThreads s - 1\<rparr>) tp3 else tp3)"

definition no_work :: "ThreadPool \<Rightarrow> bool" where
  "no_work tp \<longleftrightarrow>
     tp_lowJobQ tp = [] \<and> tp_medJobQ tp = [] \<and> tp_highJobQ tp = [] \<and>
     tp_persistentJob tp = None \<and> \<not> tp_shutdown tp"

definition may_die :: "bool \<Rightarrow> ThreadPool \<Rightarrow> bool" where
  "may_die timed_out tp \<longleftrightarrow>
     (timed_out \<and> tp_totalThreads tp > minThreads (tp_attr tp)) \<or>
     (maxThreads (tp_attr tp) \<noteq> -1 \<and> tp_totalThreads tp > maxThreads (tp_attr tp))"

definition worker_exit :: "ThreadPool \<Rightarrow> ThreadPool" where
  "worker_exit tp =
     tp\<lparr>tp_totalThreads := tp_totalThreads tp - 1,
        tp_cleanups := tp_cleanups tp + (if tp_free_func tp then 1 else 0)\<rparr>"

definition worker_die :: "ThreadPool \<Rightarrow> ThreadPool" where
  "worker_die tp = worker_exit (on_stats (\<lambda>s. s\<lparr>st_idleThreads := st_idleThreads s - 1\<rparr>) tp)"

text \<open>
  Behind the waiting loop: stop on shutdown, else pick the persistent job or the job at the head
  of the highest queue. No job at all trips the assertion.
\<close>

datatype worker_next = Exit | Sleep | Run ThreadPoolJob int

definition worker_take ::
  "(ThreadPoolJob \<Rightarrow> bool) \<Rightarrow> timeval \<Rightarrow> int \<Rightarrow> ThreadPool \<Rightarrow> (worker_next \<times> ThreadPool) option" where
  "worker_take node_ok now idle_time tp =
     (let tp1 = BumpPriority node_ok now
                  (on_stats (\<lambda>s. s\<lparr>st_idleThreads := st_idleThreads s - 1,
                                   totalIdleTime := totalIdleTime s + idle_time\<rparr>) tp);
          busy = (\<lambda>t. t\<lparr>tp_busyThreads := tp_busyThreads t + 1\<rparr>);
          picked = (\<lambda>p job t. on_stats (\<lambda>s. CalcWaitTime now p job
                                (s\<lparr>st_workerThreads := st_workerThreads s + 1\<rparr>)) t) in
      if tp_shutdown tp1 then Some (Exit, worker_exit tp1)
      else
        (case tp_persistentJob tp1 of
           Some job \<Rightarrow>
             Some (Run job 1,
                   busy (tp1\<lparr>tp_persistentJob := None,
                             tp_persistentThreads := tp_persistentThreads tp1 + 1\<rparr>))
         | None \<Rightarrow>
             (case tp_highJobQ tp1 of
                job # rest \<Rightarrow> Some (Run job 0, busy (picked HIGH_PRIORITY job (tp1\<lparr>tp_highJobQ := rest\<rparr>)))
              | [] \<Rightarrow>
                  (case tp_medJobQ tp1 of
                     job # rest \<Rightarrow> Some (Run job 0, busy (picked MED_PRIORITY job (tp1\<lparr>tp_medJobQ := rest\<rparr>)))
                   | [] \<Rightarrow>
                       (case tp_lowJobQ tp1 of
                          job # rest \<Rightarrow>
                            Some (Run job 0, busy (picked LOW_PRIORITY job (tp1\<lparr>tp_lowJobQ := rest\<rparr>)))
                        | [] \<Rightarrow> None)))))"

subsection \<open>The functions of the interface\<close>

definition CreateThreadPoolJob ::
  "bool \<Rightarrow> timeval \<Rightarrow> ThreadPoolJob \<Rightarrow> int \<Rightarrow> ThreadPoolJob option" where
  "CreateThreadPoolJob job_ok now job jid =
     (if job_ok then Some (job\<lparr>tpj_jobId := jid, tpj_requestTime := now\<rparr>) else None)"

text \<open>
  Creating a worker: the limit, the answers of the system for this number of threads (to
  \<^verbatim>\<open>ithread_create\<close> and \<^verbatim>\<open>ithread_detach\<close>), and the new thread's first step, for which the caller
  waits.
\<close>

definition at_limit :: "ThreadPool \<Rightarrow> bool" where
  "at_limit tp \<longleftrightarrow>
     maxThreads (tp_attr tp) \<noteq> INFINITE_THREADS \<and> tp_totalThreads tp + 1 > maxThreads (tp_attr tp)"

definition note_max :: "ThreadPool \<Rightarrow> ThreadPool" where
  "note_max tp =
     on_stats (\<lambda>s. if st_maxThreads s < tp_totalThreads tp
                   then s\<lparr>st_maxThreads := tp_totalThreads tp\<rparr> else s) tp"

definition CreateWorker :: "(int \<Rightarrow> int \<times> int) \<Rightarrow> ThreadPool \<Rightarrow> int \<times> ThreadPool" where
  "CreateWorker create tp =
     (if at_limit tp then (EMAXTHREADS, tp)
      else
        (case create (tp_totalThreads tp) of
           (rc, detached) \<Rightarrow>
             if rc = 0 then (detached, note_max (worker_start tp)) else (rc, note_max tp)))"

definition total_jobs :: "ThreadPool \<Rightarrow> int" where
  "total_jobs tp =
     int (length (tp_highJobQ tp)) + int (length (tp_lowJobQ tp)) + int (length (tp_medJobQ tp))"

definition want_worker :: "int \<Rightarrow> int \<Rightarrow> ThreadPool \<Rightarrow> bool" where
  "want_worker jobs threads tp \<longleftrightarrow>
     threads = 0 \<or> jobs sdiv threads > jobsPerThread (tp_attr tp) \<or>
     tp_totalThreads tp = tp_busyThreads tp"

partial_function (option) add_worker_loop ::
  "(int \<Rightarrow> int \<times> int) \<Rightarrow> int \<Rightarrow> int \<Rightarrow> ThreadPool \<Rightarrow> ThreadPool option" where
  "add_worker_loop create jobs threads tp =
     (if want_worker jobs threads tp
      then (case CreateWorker create tp of (rc, tp1) \<Rightarrow>
              if rc \<noteq> 0 then Some tp1 else add_worker_loop create jobs (threads + 1) tp1)
      else Some tp)"

declare add_worker_loop.simps [code]

definition AddWorker :: "(int \<Rightarrow> int \<times> int) \<Rightarrow> ThreadPool \<Rightarrow> ThreadPool option" where
  "AddWorker create tp =
     add_worker_loop create (total_jobs tp) (tp_totalThreads tp - tp_persistentThreads tp) tp"

definition enqueue :: "ThreadPriority \<Rightarrow> ThreadPoolJob \<Rightarrow> ThreadPool \<Rightarrow> ThreadPool" where
  "enqueue p j tp =
     (case p of
        HIGH_PRIORITY \<Rightarrow> tp\<lparr>tp_highJobQ := tp_highJobQ tp @ [j]\<rparr>
      | MED_PRIORITY \<Rightarrow> tp\<lparr>tp_medJobQ := tp_medJobQ tp @ [j]\<rparr>
      | LOW_PRIORITY \<Rightarrow> tp\<lparr>tp_lowJobQ := tp_lowJobQ tp @ [j]\<rparr>)"

text \<open>The result: the code, the id stored for the caller and the pool.\<close>

definition ThreadPoolAdd ::
  "(int \<Rightarrow> int \<times> int) \<Rightarrow> bool \<Rightarrow> (ThreadPoolJob \<Rightarrow> bool) \<Rightarrow> timeval \<Rightarrow> ThreadPoolJob \<Rightarrow> ThreadPool \<Rightarrow>
   (int \<times> int option \<times> ThreadPool) option" where
  "ThreadPoolAdd create job_ok node_ok now job tp =
     (if total_jobs tp \<ge> maxJobsTotal (tp_attr tp) then Some (EOUTOFMEM, None, tp)
      else
        (case CreateThreadPoolJob job_ok now job (tp_lastJobId tp) of
           None \<Rightarrow> Some (EOUTOFMEM, Some INVALID_JOB_ID, tp)
         | Some temp \<Rightarrow>
             do { tp1 \<leftarrow> AddWorker create
                           (if node_ok temp then enqueue (tpj_priority job) temp tp else tp);
                  Some (if node_ok temp then 0 else EOUTOFMEM, Some (tp_lastJobId tp1),
                        tp1\<lparr>tp_lastJobId := tp_lastJobId tp1 + 1\<rparr>) }))"

text \<open>
  A persistent job: the slot is filled, a worker takes it (\<open>pick\<close> is that worker's step on the
  pool) and the call returns.
\<close>

definition ThreadPoolAddPersistent ::
  "(int \<Rightarrow> int \<times> int) \<Rightarrow> bool \<Rightarrow> timeval \<Rightarrow> (ThreadPool \<Rightarrow> ThreadPool) \<Rightarrow> ThreadPoolJob \<Rightarrow> ThreadPool \<Rightarrow>
   int \<times> int \<times> ThreadPool" where
  "ThreadPoolAddPersistent create job_ok now pick job tp =
     (let room = (tp_totalThreads tp < maxThreads (tp_attr tp));
          tp1 = (if room then snd (CreateWorker create tp) else tp) in
      if \<not> room \<and> (tp_totalThreads tp - tp_persistentThreads tp) - 1 = 0
      then (EMAXTHREADS, INVALID_JOB_ID, tp1)
      else
        (case CreateThreadPoolJob job_ok now job (tp_lastJobId tp1) of
           None \<Rightarrow> (EOUTOFMEM, INVALID_JOB_ID, tp1)
         | Some temp \<Rightarrow>
             (let tp2 = pick (tp1\<lparr>tp_persistentJob := Some temp\<rparr>) in
              (0, tp_lastJobId tp2, tp2\<lparr>tp_lastJobId := tp_lastJobId tp2 + 1\<rparr>))))"

definition with_id :: "int \<Rightarrow> ThreadPoolJob \<Rightarrow> bool" where
  "with_id jid j \<longleftrightarrow> tpj_jobId j = jid"

fun take_out :: "('a \<Rightarrow> bool) \<Rightarrow> 'a list \<Rightarrow> ('a \<times> 'a list) option" where
  "take_out P [] = None"
| "take_out P (x # xs) =
     (if P x then Some (x, xs) else map_option (\<lambda>(y, ys). (y, x # ys)) (take_out P xs))"

definition ThreadPoolRemove :: "int \<Rightarrow> ThreadPool \<Rightarrow> int \<times> ThreadPoolJob option \<times> ThreadPool" where
  "ThreadPoolRemove jobId tp =
     (case take_out (with_id jobId) (tp_highJobQ tp) of
        Some (j, q) \<Rightarrow> (0, Some j, tp\<lparr>tp_highJobQ := q\<rparr>)
      | None \<Rightarrow>
          (case take_out (with_id jobId) (tp_medJobQ tp) of
             Some (j, q) \<Rightarrow> (0, Some j, tp\<lparr>tp_medJobQ := q\<rparr>)
           | None \<Rightarrow>
               (case take_out (with_id jobId) (tp_lowJobQ tp) of
                  Some (j, q) \<Rightarrow> (0, Some j, tp\<lparr>tp_lowJobQ := q\<rparr>)
                | None \<Rightarrow>
                    (case tp_persistentJob tp of
                       Some j \<Rightarrow> if with_id jobId j then (0, Some j, tp\<lparr>tp_persistentJob := None\<rparr>)
                                 else (INVALID_JOB_ID, None, tp)
                     | None \<Rightarrow> (INVALID_JOB_ID, None, tp)))))"

definition TPAttrInit :: ThreadPoolAttr where
  "TPAttrInit =
     \<lparr>minThreads = 1, maxThreads = 10, maxIdleTime = 10 * 1000, jobsPerThread = 10,
      maxJobsTotal = 100, starvationTime = 500, schedPolicy = 0\<rparr>"

primrec create_workers :: "(int \<Rightarrow> int \<times> int) \<Rightarrow> nat \<Rightarrow> ThreadPool \<Rightarrow> int \<times> ThreadPool" where
  "create_workers create 0 tp = (0, tp)"
| "create_workers create (Suc n) tp =
     (case CreateWorker create tp of (rc, tp1) \<Rightarrow>
        if rc \<noteq> 0 then (rc, tp1) else create_workers create n tp1)"

text \<open>
  The part of \<open>ThreadPoolShutdown\<close> before it waits for the workers: all jobs that wait are
  dropped, their arguments freed if they have a free function.
\<close>

definition drop_jobs :: "ThreadPool \<Rightarrow> nat list \<times> ThreadPool" where
  "drop_jobs tp =
     (map tpj_arg (filter tpj_free_func (tp_highJobQ tp @ tp_medJobQ tp @ tp_lowJobQ tp @
        (case tp_persistentJob tp of None \<Rightarrow> [] | Some j \<Rightarrow> [j]))),
      tp\<lparr>tp_highJobQ := [], tp_medJobQ := [], tp_lowJobQ := [], tp_persistentJob := None,
         tp_shutdown := True\<rparr>)"

text \<open>Afterwards every worker exits. The destruction of mutex and conditions is the system's.\<close>

definition ThreadPoolShutdown :: "ThreadPool \<Rightarrow> int \<times> nat list \<times> ThreadPool" where
  "ThreadPoolShutdown tp =
     (case drop_jobs tp of
        (freed, tp1) \<Rightarrow> (0, freed, (worker_exit ^^ nat (tp_totalThreads tp1)) tp1))"

definition ThreadPoolInit ::
  "(int \<Rightarrow> int \<times> int) \<Rightarrow> bool \<Rightarrow> ThreadPoolAttr option \<Rightarrow> int \<times> ThreadPool" where
  "ThreadPoolInit create free_func attr =
     (let a = (case attr of Some x \<Rightarrow> x | None \<Rightarrow> TPAttrInit);
          tp = \<lparr>tp_lastJobId = 0, tp_shutdown = False, tp_totalThreads = 0, tp_busyThreads = 0,
                tp_persistentThreads = 0, tp_lowJobQ = [], tp_medJobQ = [], tp_highJobQ = [],
                tp_persistentJob = None, tp_attr = a, tp_free_func = free_func, tp_cleanups = 0,
                tp_stats = StatsInit\<rparr> in
      if SetPolicyType (schedPolicy a) \<noteq> 0 then (INVALID_POLICY, tp)
      else
        (case create_workers create (nat (minThreads a)) tp of (rc, tp1) \<Rightarrow>
           if rc \<noteq> 0 then (rc, snd (snd (ThreadPoolShutdown tp1))) else (rc, tp1)))"

definition ThreadPoolGetAttr :: "ThreadPool \<Rightarrow> int \<times> ThreadPoolAttr" where
  "ThreadPoolGetAttr tp = (0, tp_attr tp)"

definition ThreadPoolSetAttr ::
  "(int \<Rightarrow> int \<times> int) \<Rightarrow> ThreadPoolAttr option \<Rightarrow> ThreadPool \<Rightarrow> int \<times> ThreadPool" where
  "ThreadPoolSetAttr create attr tp =
     (let a = (case attr of Some x \<Rightarrow> x | None \<Rightarrow> TPAttrInit) in
      if SetPolicyType (schedPolicy a) \<noteq> 0 then (INVALID_POLICY, tp)
      else
        (case create_workers create (nat (minThreads a - tp_totalThreads tp)) (tp\<lparr>tp_attr := a\<rparr>) of
           (rc, tp1) \<Rightarrow>
             if rc \<noteq> 0 then (rc, snd (snd (ThreadPoolShutdown tp1))) else (rc, tp1)))"

definition TPJobInit :: "nat \<Rightarrow> nat \<Rightarrow> ThreadPoolJob \<Rightarrow> int \<times> ThreadPoolJob" where
  "TPJobInit func arg job =
     (0, job\<lparr>tpj_func := func, tpj_arg := arg, tpj_priority := MED_PRIORITY, tpj_free_func := False\<rparr>)"

definition TPJobSetPriority :: "ThreadPriority \<Rightarrow> ThreadPoolJob \<Rightarrow> int \<times> ThreadPoolJob" where
  "TPJobSetPriority p job = (0, job\<lparr>tpj_priority := p\<rparr>)"

definition TPJobSetFreeFunction :: "bool \<Rightarrow> ThreadPoolJob \<Rightarrow> int \<times> ThreadPoolJob" where
  "TPJobSetFreeFunction func job = (0, job\<lparr>tpj_free_func := func\<rparr>)"

definition TPAttrSetMaxThreads :: "int \<Rightarrow> ThreadPoolAttr \<Rightarrow> int \<times> ThreadPoolAttr" where
  "TPAttrSetMaxThreads n a = (0, a\<lparr>maxThreads := n\<rparr>)"

definition TPAttrSetMinThreads :: "int \<Rightarrow> ThreadPoolAttr \<Rightarrow> int \<times> ThreadPoolAttr" where
  "TPAttrSetMinThreads n a = (0, a\<lparr>minThreads := n\<rparr>)"

definition TPAttrSetIdleTime :: "int \<Rightarrow> ThreadPoolAttr \<Rightarrow> int \<times> ThreadPoolAttr" where
  "TPAttrSetIdleTime n a = (0, a\<lparr>maxIdleTime := n\<rparr>)"

definition TPAttrSetJobsPerThread :: "int \<Rightarrow> ThreadPoolAttr \<Rightarrow> int \<times> ThreadPoolAttr" where
  "TPAttrSetJobsPerThread n a = (0, a\<lparr>jobsPerThread := n\<rparr>)"

definition TPAttrSetStarvationTime :: "int \<Rightarrow> ThreadPoolAttr \<Rightarrow> int \<times> ThreadPoolAttr" where
  "TPAttrSetStarvationTime n a = (0, a\<lparr>starvationTime := n\<rparr>)"

definition TPAttrSetSchedPolicy :: "int \<Rightarrow> ThreadPoolAttr \<Rightarrow> int \<times> ThreadPoolAttr" where
  "TPAttrSetSchedPolicy p a = (0, a\<lparr>schedPolicy := p\<rparr>)"

definition TPAttrSetMaxJobsTotal :: "int \<Rightarrow> ThreadPoolAttr \<Rightarrow> int \<times> ThreadPoolAttr" where
  "TPAttrSetMaxJobsTotal n a = (0, a\<lparr>maxJobsTotal := n\<rparr>)"


subsection \<open>Aging\<close>

definition starved :: "timeval \<Rightarrow> int \<Rightarrow> ThreadPoolJob \<Rightarrow> bool" where
  "starved now limit j \<longleftrightarrow> DiffMillis now (tpj_requestTime j) \<ge> limit"

text \<open>What aging leaves alone.\<close>

definition same_frame :: "ThreadPool \<Rightarrow> ThreadPool \<Rightarrow> bool" where
  "same_frame tp tp' \<longleftrightarrow>
     tp_lastJobId tp' = tp_lastJobId tp \<and> tp_shutdown tp' = tp_shutdown tp \<and>
     tp_persistentThreads tp' = tp_persistentThreads tp \<and> tp_busyThreads tp' = tp_busyThreads tp \<and>
     tp_persistentJob tp' = tp_persistentJob tp \<and> tp_attr tp' = tp_attr tp \<and>
     tp_free_func tp' = tp_free_func tp \<and> tp_cleanups tp' = tp_cleanups tp"

definition same_threads :: "ThreadPool \<Rightarrow> ThreadPool \<Rightarrow> bool" where
  "same_threads tp tp' \<longleftrightarrow>
     tp_totalThreads tp' = tp_totalThreads tp \<and>
     st_idleThreads (tp_stats tp') = st_idleThreads (tp_stats tp) \<and>
     st_workerThreads (tp_stats tp') = st_workerThreads (tp_stats tp) \<and>
     st_maxThreads (tp_stats tp') = st_maxThreads (tp_stats tp)"

definition same_queues :: "ThreadPool \<Rightarrow> ThreadPool \<Rightarrow> bool" where
  "same_queues tp tp' \<longleftrightarrow>
     tp_highJobQ tp' = tp_highJobQ tp \<and> tp_medJobQ tp' = tp_medJobQ tp \<and>
     tp_lowJobQ tp' = tp_lowJobQ tp"

lemma BumpPriority_frame:
  "same_frame tp (BumpPriority node_ok now tp) \<and> same_threads tp (BumpPriority node_ok now tp)"
proof (induction node_ok now tp rule: BumpPriority.induct)
  case (1 node_ok now tp)
  show ?case
    using 1 by (subst (1 2) BumpPriority.simps)
      (auto simp: Let_def same_frame_def same_threads_def split: if_splits)
qed

text \<open>With memory for the nodes, aging moves the starved front of the queues upwards.\<close>

abbreviation (input) granted :: "ThreadPoolJob \<Rightarrow> bool" where "granted \<equiv> \<lambda>_. True"

lemma BumpPriority_queues:
  "tp_highJobQ (BumpPriority granted now tp) = tp_highJobQ tp @
           takeWhile (starved now (starvationTime (tp_attr tp)))
             (tp_medJobQ tp @ takeWhile (starved now (maxIdleTime (tp_attr tp))) (tp_lowJobQ tp)) \<and>
         tp_medJobQ (BumpPriority granted now tp) =
           dropWhile (starved now (starvationTime (tp_attr tp)))
             (tp_medJobQ tp @ takeWhile (starved now (maxIdleTime (tp_attr tp))) (tp_lowJobQ tp)) \<and>
         tp_lowJobQ (BumpPriority granted now tp) =
           dropWhile (starved now (maxIdleTime (tp_attr tp))) (tp_lowJobQ tp)"
proof (induction granted now tp rule: BumpPriority.induct)
  case (1 now tp)
  consider (med) "bump_med now tp" | (low) "\<not> bump_med now tp" "bump_low now tp"
    | (none) "\<not> bump_med now tp" "\<not> bump_low now tp" by blast
  then show ?case
  proof cases
    case med
    then obtain j m where q: "tp_medJobQ tp = j # m" "starved now (starvationTime (tp_attr tp)) j"
      by (auto simp: bump_med_def starved_def split: list.splits)
    have "BumpPriority granted now tp = BumpPriority granted now
        (tp\<lparr>tp_stats := (tp_stats tp)\<lparr>totalJobsMQ := totalJobsMQ (tp_stats tp) + 1,
              totalTimeMQ := totalTimeMQ (tp_stats tp) + DiffMillis now (tpj_requestTime j)\<rparr>,
            tp_medJobQ := m, tp_highJobQ := tp_highJobQ tp @ [j]\<rparr>)" (is "_ = BumpPriority _ _ ?t")
      using med q by (subst BumpPriority.simps) (simp add: Let_def)
    then show ?thesis
      using 1(1)[OF med refl refl] q by simp
  next
    case low
    then obtain j l where q: "tp_lowJobQ tp = j # l" "starved now (maxIdleTime (tp_attr tp)) j"
      by (auto simp: bump_low_def starved_def split: list.splits)
    have "BumpPriority granted now tp = BumpPriority granted now
        (tp\<lparr>tp_stats := (tp_stats tp)\<lparr>totalJobsLQ := totalJobsLQ (tp_stats tp) + 1,
              totalTimeLQ := totalTimeLQ (tp_stats tp) + DiffMillis now (tpj_requestTime j)\<rparr>,
            tp_lowJobQ := l, tp_medJobQ := tp_medJobQ tp @ [j]\<rparr>)" (is "_ = BumpPriority _ _ ?t")
      using low q by (subst BumpPriority.simps) (simp add: Let_def)
    then show ?thesis
      using 1(2)[OF low refl refl] q by simp
  next
    case none
    then have "takeWhile (starved now (maxIdleTime (tp_attr tp))) (tp_lowJobQ tp) = []"
      "dropWhile (starved now (maxIdleTime (tp_attr tp))) (tp_lowJobQ tp) = tp_lowJobQ tp"
      "takeWhile (starved now (starvationTime (tp_attr tp))) (tp_medJobQ tp) = []"
      "dropWhile (starved now (starvationTime (tp_attr tp))) (tp_medJobQ tp) = tp_medJobQ tp"
      by (auto simp: bump_med_def bump_low_def starved_def split: list.splits)
    then show ?thesis
      using none by (subst (1 2 3) BumpPriority.simps) simp
  qed
qed

definition all_jobs :: "ThreadPool \<Rightarrow> ThreadPoolJob multiset" where
  "all_jobs tp = mset (tp_highJobQ tp) + mset (tp_medJobQ tp) + mset (tp_lowJobQ tp)"

definition slot_jobs :: "ThreadPool \<Rightarrow> ThreadPoolJob multiset" where
  "slot_jobs tp = (case tp_persistentJob tp of None \<Rightarrow> {#} | Some j \<Rightarrow> {#j#})"

lemma mset_takeWhile_dropWhile: "mset (takeWhile P xs) + mset (dropWhile P xs) = mset xs"
  by (metis mset_append takeWhile_dropWhile_id)

lemma BumpPriority_jobs: "all_jobs (BumpPriority granted now tp) = all_jobs tp"
proof -
  let ?S = "starved now (starvationTime (tp_attr tp))"
  let ?I = "starved now (maxIdleTime (tp_attr tp))"
  let ?q = "tp_medJobQ tp @ takeWhile ?I (tp_lowJobQ tp)"
  have "all_jobs (BumpPriority granted now tp) =
      mset (tp_highJobQ tp) + (mset (takeWhile ?S ?q) + mset (dropWhile ?S ?q)) +
      mset (dropWhile ?I (tp_lowJobQ tp))"
    using BumpPriority_queues[of now tp] by (simp add: all_jobs_def)
  also have "\<dots> = all_jobs tp"
    unfolding mset_takeWhile_dropWhile all_jobs_def mset_append
    using mset_takeWhile_dropWhile[of ?I "tp_lowJobQ tp"] by (simp add: ac_simps)
  finally show ?thesis .
qed




subsection \<open>Taking a job\<close>

text \<open>The queue a worker serves next.\<close>

definition next_job :: "ThreadPool \<Rightarrow> (ThreadPriority \<times> ThreadPoolJob) option" where
  "next_job tp =
     (case (tp_highJobQ tp, tp_medJobQ tp, tp_lowJobQ tp) of
        (j # _, _, _) \<Rightarrow> Some (HIGH_PRIORITY, j)
      | ([], j # _, _) \<Rightarrow> Some (MED_PRIORITY, j)
      | ([], [], j # _) \<Rightarrow> Some (LOW_PRIORITY, j)
      | ([], [], []) \<Rightarrow> None)"

lemma next_job_None: "next_job tp = None \<longleftrightarrow> all_jobs tp = {#}"
  by (auto simp: next_job_def all_jobs_def split: list.splits)

lemma next_job_in: "next_job tp = Some (p, j) \<Longrightarrow> j \<in># all_jobs tp"
  by (auto simp: next_job_def all_jobs_def split: list.splits)

lemma same_frameD:
  assumes "same_frame tp tp'"
  shows "tp_lastJobId tp' = tp_lastJobId tp" "tp_shutdown tp' = tp_shutdown tp"
    "tp_persistentThreads tp' = tp_persistentThreads tp" "tp_busyThreads tp' = tp_busyThreads tp"
    "tp_persistentJob tp' = tp_persistentJob tp" "tp_attr tp' = tp_attr tp"
    "tp_free_func tp' = tp_free_func tp" "tp_cleanups tp' = tp_cleanups tp"
  using assms by (simp_all add: same_frame_def)

lemma same_threadsD:
  assumes "same_threads tp tp'"
  shows "tp_totalThreads tp' = tp_totalThreads tp"
    "st_idleThreads (tp_stats tp') = st_idleThreads (tp_stats tp)"
    "st_workerThreads (tp_stats tp') = st_workerThreads (tp_stats tp)"
    "st_maxThreads (tp_stats tp') = st_maxThreads (tp_stats tp)"
  using assms by (simp_all add: same_threads_def)

lemmas Bump_same = same_frameD[OF BumpPriority_frame[THEN conjunct1]]
  same_threadsD[OF BumpPriority_frame[THEN conjunct2]]

lemma on_stats_simps [simp]:
  "tp_lastJobId (on_stats f tp) = tp_lastJobId tp" "tp_shutdown (on_stats f tp) = tp_shutdown tp"
  "tp_totalThreads (on_stats f tp) = tp_totalThreads tp"
  "tp_busyThreads (on_stats f tp) = tp_busyThreads tp"
  "tp_persistentThreads (on_stats f tp) = tp_persistentThreads tp"
  "tp_highJobQ (on_stats f tp) = tp_highJobQ tp" "tp_medJobQ (on_stats f tp) = tp_medJobQ tp"
  "tp_lowJobQ (on_stats f tp) = tp_lowJobQ tp" "tp_persistentJob (on_stats f tp) = tp_persistentJob tp"
  "tp_attr (on_stats f tp) = tp_attr tp" "tp_free_func (on_stats f tp) = tp_free_func tp"
  "tp_cleanups (on_stats f tp) = tp_cleanups tp" "tp_stats (on_stats f tp) = f (tp_stats tp)"
  by (simp_all add: on_stats_def)

lemma all_jobs_on_stats [simp]: "all_jobs (on_stats f tp) = all_jobs tp"
  by (simp add: all_jobs_def)

lemma CalcWaitTime_threads [simp]:
  "st_idleThreads (CalcWaitTime now p job s) = st_idleThreads s"
  "st_workerThreads (CalcWaitTime now p job s) = st_workerThreads s"
  "st_maxThreads (CalcWaitTime now p job s) = st_maxThreads s"
  by (simp_all add: CalcWaitTime_def Let_def split: ThreadPriority.splits)

text \<open>What a worker finds when it leaves the waiting loop, with memory for the nodes.\<close>

definition aged :: "timeval \<Rightarrow> int \<Rightarrow> ThreadPool \<Rightarrow> ThreadPool" where
  "aged now idle tp =
     BumpPriority granted now
       (on_stats (\<lambda>s. s\<lparr>st_idleThreads := st_idleThreads s - 1,
                        totalIdleTime := totalIdleTime s + idle\<rparr>) tp)"

lemma aged_same [simp]:
  "tp_lastJobId (aged now idle tp) = tp_lastJobId tp" "tp_shutdown (aged now idle tp) = tp_shutdown tp"
  "tp_totalThreads (aged now idle tp) = tp_totalThreads tp"
  "tp_busyThreads (aged now idle tp) = tp_busyThreads tp"
  "tp_persistentThreads (aged now idle tp) = tp_persistentThreads tp"
  "tp_persistentJob (aged now idle tp) = tp_persistentJob tp"
  "tp_attr (aged now idle tp) = tp_attr tp"
  "all_jobs (aged now idle tp) = all_jobs tp"
  "st_idleThreads (tp_stats (aged now idle tp)) = st_idleThreads (tp_stats tp) - 1"
  "st_workerThreads (tp_stats (aged now idle tp)) = st_workerThreads (tp_stats tp)"
  by (simp_all add: aged_def Bump_same BumpPriority_jobs)

lemma worker_take_shutdown:
  "tp_shutdown tp \<Longrightarrow> worker_take granted now idle tp = Some (Exit, worker_exit (aged now idle tp))"
  by (simp add: worker_take_def Let_def aged_def Bump_same)

lemma worker_take_persistent:
  "\<not> tp_shutdown tp \<Longrightarrow> tp_persistentJob tp = Some job \<Longrightarrow>
   worker_take granted now idle tp =
     Some (Run job 1, (aged now idle tp)\<lparr>tp_persistentJob := None,
                       tp_persistentThreads := tp_persistentThreads tp + 1,
                       tp_busyThreads := tp_busyThreads tp + 1\<rparr>)"
  by (simp add: worker_take_def Let_def aged_def Bump_same)

lemma worker_take_queued:
  assumes "\<not> tp_shutdown tp" "tp_persistentJob tp = None" "all_jobs tp \<noteq> {#}"
  obtains p j tp' where "next_job (aged now idle tp) = Some (p, j)"
    "worker_take granted now idle tp = Some (Run j 0, tp')"
    "all_jobs tp = add_mset j (all_jobs tp')"
    "tp_busyThreads tp' = tp_busyThreads tp + 1" "tp_totalThreads tp' = tp_totalThreads tp"
    "tp_persistentThreads tp' = tp_persistentThreads tp" "tp_persistentJob tp' = None"
    "\<not> tp_shutdown tp'" "tp_attr tp' = tp_attr tp" "tp_lastJobId tp' = tp_lastJobId tp"
    "st_idleThreads (tp_stats tp') = st_idleThreads (tp_stats tp) - 1"
    "st_workerThreads (tp_stats tp') = st_workerThreads (tp_stats tp) + 1"
proof -
  have "all_jobs (aged now idle tp) \<noteq> {#}" using assms(3) by simp
  then obtain p j where n: "next_job (aged now idle tp) = Some (p, j)"
    by (metis next_job_None not_None_eq prod.exhaust)
  define q :: "ThreadPool \<Rightarrow> ThreadPool" where "q = (case p of HIGH_PRIORITY \<Rightarrow> \<lambda>t. t\<lparr>tp_highJobQ := tl (tp_highJobQ t)\<rparr>
    | MED_PRIORITY \<Rightarrow> \<lambda>t. t\<lparr>tp_medJobQ := tl (tp_medJobQ t)\<rparr>
    | LOW_PRIORITY \<Rightarrow> \<lambda>t. t\<lparr>tp_lowJobQ := tl (tp_lowJobQ t)\<rparr>)"
  define tp' where "tp' = (on_stats (\<lambda>s. CalcWaitTime now p j
      (s\<lparr>st_workerThreads := st_workerThreads s + 1\<rparr>)) (q (aged now idle tp)))
      \<lparr>tp_busyThreads := tp_busyThreads tp + 1\<rparr>"
  have "worker_take granted now idle tp = Some (Run j 0, tp')"
    using n assms(1,2)
    by (auto simp: worker_take_def Let_def aged_def[symmetric] next_job_def tp'_def q_def
        split: list.splits)
  moreover have "all_jobs (aged now idle tp) = add_mset j (all_jobs tp')"
    using n by (auto simp: next_job_def tp'_def q_def all_jobs_def split: list.splits)
  moreover have "tp_totalThreads tp' = tp_totalThreads tp" "tp_shutdown tp' = tp_shutdown tp"
    "tp_persistentThreads tp' = tp_persistentThreads tp" "tp_persistentJob tp' = tp_persistentJob tp"
    "tp_attr tp' = tp_attr tp" "tp_lastJobId tp' = tp_lastJobId tp"
    "st_idleThreads (tp_stats tp') = st_idleThreads (tp_stats tp) - 1"
    "st_workerThreads (tp_stats tp') = st_workerThreads (tp_stats tp) + 1"
    by (simp_all add: tp'_def q_def split: ThreadPriority.splits)
  ultimately show ?thesis
    using that[OF n, of tp'] assms by (simp add: tp'_def)
qed



text \<open>
  A worker that leaves its waiting loop while the pool is not shut down always finds a job (the
  assertion behind the queues is not reached, memory for list nodes given): the persistent job if
  there is one, else the head of the highest non-empty queue after aging. Exactly that job is taken
  out, and the worker is counted as busy.
\<close>

theorem worker_takes_highest:
  assumes "\<not> no_work tp" "\<not> tp_shutdown tp"
  shows "\<exists>j p tp'. worker_take granted now idle tp = Some (Run j p, tp') \<and>
     tp_busyThreads tp' = tp_busyThreads tp + 1 \<and> tp_persistentJob tp' = None \<and>
     (case tp_persistentJob tp of
        Some job \<Rightarrow> j = job \<and> p = 1 \<and> all_jobs tp' = all_jobs tp
      | None \<Rightarrow> p = 0 \<and> map_option snd (next_job (aged now idle tp)) = Some j \<and>
                all_jobs tp = add_mset j (all_jobs tp'))"
proof (cases "tp_persistentJob tp")
  case None
  then have "all_jobs tp \<noteq> {#}" using assms by (auto simp: no_work_def all_jobs_def)
  from worker_take_queued[OF assms(2) None this, of now idle]
  obtain p j tp' where "next_job (aged now idle tp) = Some (p, j)"
    "worker_take granted now idle tp = Some (Run j 0, tp')" "all_jobs tp = add_mset j (all_jobs tp')"
    "tp_busyThreads tp' = tp_busyThreads tp + 1" "tp_persistentJob tp' = None" .
  then show ?thesis
    using None by (intro exI[of _ j] exI[of _ 0] exI[of _ tp']) simp
next
  case (Some job)
  have "all_jobs ((aged now idle tp)\<lparr>tp_persistentJob := None,
      tp_persistentThreads := x, tp_busyThreads := y\<rparr>) = all_jobs (aged now idle tp)" for x y
    by (simp add: all_jobs_def)
  then show ?thesis
    using worker_take_persistent[OF assms(2) Some, of now idle] Some by simp
qed

definition job_at :: "int \<Rightarrow> ThreadPriority \<Rightarrow> int \<Rightarrow> ThreadPoolJob" where
  "job_at sec p jid =
     \<lparr>tpj_func = 1, tpj_arg = 2, tpj_free_func = False, tpj_requestTime = \<lparr>tv_sec = sec, tv_usec = 0\<rparr>,
      tpj_priority = p, tpj_jobId = jid\<rparr>"

definition pool_of :: "int \<Rightarrow> ThreadPoolJob list \<Rightarrow> ThreadPoolJob list \<Rightarrow> ThreadPool" where
  "pool_of n med low =
     \<lparr>tp_lastJobId = 7, tp_shutdown = False, tp_totalThreads = n, tp_busyThreads = 0,
      tp_persistentThreads = 0, tp_lowJobQ = low, tp_medJobQ = med, tp_highJobQ = [],
      tp_persistentJob = None, tp_attr = TPAttrInit, tp_free_func = True, tp_cleanups = 0,
      tp_stats = StatsInit\<rparr>"

lemmas pool_of_simps = pool_of_def job_at_def TPAttrInit_def StatsInit_def

theorem worker_takes_highest_witness:
  "\<exists>j p tp'. worker_take granted \<lparr>tv_sec = 50, tv_usec = 0\<rparr> 0
       (pool_of 1 [job_at 50 MED_PRIORITY 5] [job_at 0 LOW_PRIORITY 6]) = Some (Run j p, tp')"
  using worker_takes_highest[of "pool_of 1 [job_at 50 MED_PRIORITY 5] [job_at 0 LOW_PRIORITY 6]"
      "\<lparr>tv_sec = 50, tv_usec = 0\<rparr>" 0]
  by (force simp: pool_of_simps no_work_def)

text \<open>
  The result of appending to the higher queue is not looked at. When a starved job is alone in
  the queues and no list node is granted, the job is in no queue afterwards, and the worker that was
  woken for it reaches the assertion.
\<close>

lemma starved_job_lost:
  "worker_take (\<lambda>_. False) \<lparr>tv_sec = 51, tv_usec = 0\<rparr> 0 (pool_of 1 [job_at 50 MED_PRIORITY 5] []) = None \<and>
   all_jobs (BumpPriority (\<lambda>_. False) \<lparr>tv_sec = 51, tv_usec = 0\<rparr>
               (pool_of 1 [job_at 50 MED_PRIORITY 5] [])) = {#}"
  by (simp add: worker_take_def BumpPriority.simps bump_med_def bump_low_def pool_of_simps DiffMillis_def
      Let_def on_stats_def all_jobs_def)

subsection \<open>Adding workers\<close>

lemma note_max_simps [simp]:
  "tp_lastJobId (note_max tp) = tp_lastJobId tp" "tp_shutdown (note_max tp) = tp_shutdown tp"
  "tp_totalThreads (note_max tp) = tp_totalThreads tp"
  "tp_busyThreads (note_max tp) = tp_busyThreads tp"
  "tp_persistentThreads (note_max tp) = tp_persistentThreads tp"
  "tp_highJobQ (note_max tp) = tp_highJobQ tp" "tp_medJobQ (note_max tp) = tp_medJobQ tp"
  "tp_lowJobQ (note_max tp) = tp_lowJobQ tp" "tp_persistentJob (note_max tp) = tp_persistentJob tp"
  "tp_attr (note_max tp) = tp_attr tp" "tp_free_func (note_max tp) = tp_free_func tp"
  "tp_cleanups (note_max tp) = tp_cleanups tp"
  "st_idleThreads (tp_stats (note_max tp)) = st_idleThreads (tp_stats tp)"
  "st_workerThreads (tp_stats (note_max tp)) = st_workerThreads (tp_stats tp)"
  by (simp_all add: note_max_def)

text \<open>The pool with some more threads.\<close>

definition grown :: "ThreadPool \<Rightarrow> ThreadPool \<Rightarrow> bool" where
  "grown tp tp' \<longleftrightarrow> same_frame tp tp' \<and> same_queues tp tp' \<and> tp_totalThreads tp \<le> tp_totalThreads tp' \<and>
     (maxThreads (tp_attr tp) \<noteq> INFINITE_THREADS \<longrightarrow>
        tp_totalThreads tp' \<le> max (tp_totalThreads tp) (maxThreads (tp_attr tp)))"

lemma grown_refl [simp]: "grown tp tp"
  by (simp add: grown_def same_frame_def same_queues_def)

lemma grown_trans: "grown a b \<Longrightarrow> grown b c \<Longrightarrow> grown a c"
  by (auto simp: grown_def same_frame_def same_queues_def)

lemma grown_CreateWorker: "grown tp (snd (CreateWorker create tp))"
  by (auto simp: CreateWorker_def grown_def same_frame_def same_queues_def worker_start_def
      at_limit_def split: prod.splits)

lemma CreateWorker_0: "CreateWorker create tp = (0, tp') \<Longrightarrow> tp_totalThreads tp' = tp_totalThreads tp + 1"
  by (auto simp: CreateWorker_def worker_start_def EMAXTHREADS_def error_code_def split: if_splits prod.splits)

lemma sdiv_positive: "0 \<le> a \<Longrightarrow> 0 < b \<Longrightarrow> a < b \<Longrightarrow> a sdiv b = (0::int)"
  by (simp add: signed_divide_int_def sgn_if)

text \<open>
  The loop of \<open>AddWorker\<close> ends: with enough threads the ratio is met and one of them is free. It
  leaves no thread free only at the limit or when the system refuses a thread.
\<close>

definition no_more_threads :: "(int \<Rightarrow> int \<times> int) \<Rightarrow> ThreadPool \<Rightarrow> bool" where
  "no_more_threads create tp \<longleftrightarrow> at_limit tp \<or> fst (create (tp_totalThreads tp)) \<noteq> 0"

lemma CreateWorker_fails:
  assumes "CreateWorker create tp = (rc, tp')" "rc \<noteq> 0" "tp_busyThreads tp \<le> tp_totalThreads tp"
  shows "tp_busyThreads tp' < tp_totalThreads tp' \<or> no_more_threads create tp'"
  using assms
  by (auto simp: CreateWorker_def worker_start_def no_more_threads_def at_limit_def
      split: if_splits prod.splits)

lemma add_worker_loop_ends:
  assumes "0 \<le> jobs" "0 \<le> threads" "0 \<le> jobsPerThread (tp_attr tp)"
    "tp_busyThreads tp \<le> tp_totalThreads tp"
  shows "\<exists>tp'. add_worker_loop create jobs threads tp = Some tp' \<and> grown tp tp' \<and>
           (tp_busyThreads tp' < tp_totalThreads tp' \<or> no_more_threads create tp')"
  using assms
proof (induction "nat (max (jobs + 1 - threads) (tp_busyThreads tp + 1 - tp_totalThreads tp))"
    arbitrary: threads tp rule: less_induct)
  case less
  show ?case
  proof (cases "want_worker jobs threads tp")
    case False
    then show ?thesis using less.prems by (auto simp: add_worker_loop.simps want_worker_def)
  next
    case True
    obtain rc tp1 where c: "CreateWorker create tp = (rc, tp1)" by fastforce
    then have g: "grown tp tp1" using grown_CreateWorker[of tp create] by simp
    show ?thesis
    proof (cases "rc = 0")
      case False
      then show ?thesis
        using True c g CreateWorker_fails[OF c] less.prems by (simp add: add_worker_loop.simps)
    next
      case rc: True
      have "tp_totalThreads tp1 = tp_totalThreads tp + 1" using c rc CreateWorker_0 by blast
      moreover have "tp_busyThreads tp1 = tp_busyThreads tp" "tp_attr tp1 = tp_attr tp"
        using g by (simp_all add: grown_def same_frame_def)
      moreover have "threads < jobs + 1 \<or> tp_totalThreads tp = tp_busyThreads tp"
        using True less.prems sdiv_positive[of jobs threads] by (fastforce simp: want_worker_def)
      ultimately obtain tp' where "add_worker_loop create jobs (threads + 1) tp1 = Some tp'" "grown tp1 tp'"
          "tp_busyThreads tp' < tp_totalThreads tp' \<or> no_more_threads create tp'"
        using less(1)[of "threads + 1" tp1] less.prems by fastforce
      then show ?thesis
        using True c rc g grown_trans by (auto simp: add_worker_loop.simps)
    qed
  qed
qed



subsection \<open>Adding and removing jobs\<close>

definition stamp :: "timeval \<Rightarrow> ThreadPool \<Rightarrow> ThreadPoolJob \<Rightarrow> ThreadPoolJob" where
  "stamp now tp job = job\<lparr>tpj_jobId := tp_lastJobId tp, tpj_requestTime := now\<rparr>"

lemma enqueue_simps [simp]:
  "tp_lastJobId (enqueue p j tp) = tp_lastJobId tp" "tp_attr (enqueue p j tp) = tp_attr tp"
  "tp_totalThreads (enqueue p j tp) = tp_totalThreads tp"
  "tp_busyThreads (enqueue p j tp) = tp_busyThreads tp"
  "tp_persistentThreads (enqueue p j tp) = tp_persistentThreads tp"
  "tp_persistentJob (enqueue p j tp) = tp_persistentJob tp"
  "tp_shutdown (enqueue p j tp) = tp_shutdown tp" "tp_stats (enqueue p j tp) = tp_stats tp"
  "all_jobs (enqueue p j tp) = add_mset j (all_jobs tp)"
  by (simp_all add: enqueue_def all_jobs_def split: ThreadPriority.splits)

lemma total_jobs_nonneg [simp]: "0 \<le> total_jobs tp"
  by (simp add: total_jobs_def)

lemma AddWorker_ends:
  assumes "tp_persistentThreads tp \<le> tp_totalThreads tp" "0 \<le> jobsPerThread (tp_attr tp)"
    "tp_busyThreads tp \<le> tp_totalThreads tp"
  shows "\<exists>tp'. AddWorker create tp = Some tp' \<and> grown tp tp' \<and>
           (tp_busyThreads tp' < tp_totalThreads tp' \<or> no_more_threads create tp')"
  unfolding AddWorker_def by (rule add_worker_loop_ends) (use assms in auto)

lemma ThreadPoolAdd_ok:
  assumes "total_jobs tp < maxJobsTotal (tp_attr tp)" "0 \<le> jobsPerThread (tp_attr tp)"
    "tp_persistentThreads tp \<le> tp_totalThreads tp" "tp_busyThreads tp \<le> tp_totalThreads tp"
  shows "\<exists>tp'. ThreadPoolAdd create True granted now job tp = Some (0, Some (tp_lastJobId tp), tp') \<and>
     tp_lastJobId tp' = tp_lastJobId tp + 1 \<and>
     grown (enqueue (tpj_priority job) (stamp now tp job) tp) (tp'\<lparr>tp_lastJobId := tp_lastJobId tp\<rparr>) \<and>
     (tp_busyThreads tp' < tp_totalThreads tp' \<or> no_more_threads create tp')"
proof -
  let ?e = "enqueue (tpj_priority job) (stamp now tp job) tp"
  obtain tp1 where w: "AddWorker create ?e = Some tp1" and g: "grown ?e tp1"
    and f: "tp_busyThreads tp1 < tp_totalThreads tp1 \<or> no_more_threads create tp1"
    using AddWorker_ends[of ?e create] assms by auto
  have l: "tp_lastJobId tp1 = tp_lastJobId tp" using g by (simp add: grown_def same_frame_def)
  then have "tp1\<lparr>tp_lastJobId := tp_lastJobId tp\<rparr> = tp1" by (metis ThreadPool.surjective ThreadPool.update_convs(1))
  moreover have "ThreadPoolAdd create True granted now job tp =
      Some (0, Some (tp_lastJobId tp), tp1\<lparr>tp_lastJobId := tp_lastJobId tp + 1\<rparr>)"
    using assms w l by (simp add: ThreadPoolAdd_def CreateThreadPoolJob_def stamp_def)
  ultimately show ?thesis
    using g f by (simp add: no_more_threads_def at_limit_def)
qed


definition idle_pool :: ThreadPool where
  "idle_pool = pool_of 1 [] [job_at 9 LOW_PRIORITY 3]"


lemma take_out_append:
  "(\<And>x. x \<in> set xs \<Longrightarrow> \<not> P x) \<Longrightarrow> P y \<Longrightarrow> take_out P (xs @ [y]) = Some (y, xs)"
  by (induction xs) auto

lemma take_out_None: "take_out P xs = None \<longleftrightarrow> (\<forall>x\<in>set xs. \<not> P x)"
  by (induction xs) auto

lemma take_out_mset: "take_out P xs = Some (x, ys) \<Longrightarrow> P x \<and> mset xs = add_mset x (mset ys)"
  by (induction xs arbitrary: ys) (auto split: if_splits)

lemma ThreadPoolRemove_jobs:
  "case ThreadPoolRemove jid tp of (rc, out, tp') \<Rightarrow>
     (rc = 0 \<longrightarrow> (\<exists>j. out = Some j \<and> tpj_jobId j = jid \<and>
        all_jobs tp + slot_jobs tp =
        add_mset j (all_jobs tp' + slot_jobs tp'))) \<and>
     (rc \<noteq> 0 \<longrightarrow> rc = INVALID_JOB_ID \<and> out = None \<and> tp' = tp \<and>
        (\<forall>j \<in># all_jobs tp + slot_jobs tp. tpj_jobId j \<noteq> jid))"
  by (auto simp: ThreadPoolRemove_def all_jobs_def slot_jobs_def with_id_def INVALID_JOB_ID_def error_code_def
      take_out_None dest!: take_out_mset split: option.splits prod.splits)

text \<open>
  Without interference, the id that \<open>ThreadPoolAdd\<close> returns serves to remove the job again: as
  long as the ids of the waiting jobs are those given out before, removing it directly gives the job
  back and leaves the queues as they were.
\<close>

theorem add_remove_roundtrip:
  assumes "total_jobs tp < maxJobsTotal (tp_attr tp)" "0 \<le> jobsPerThread (tp_attr tp)"
    "tp_persistentThreads tp \<le> tp_totalThreads tp" "tp_busyThreads tp \<le> tp_totalThreads tp"
    "\<forall>j \<in># all_jobs tp. tpj_jobId j < tp_lastJobId tp"
  shows "\<exists>i tp1 tp2. ThreadPoolAdd create True granted now job tp = Some (0, Some i, tp1) \<and>
     ThreadPoolRemove i tp1 = (0, Some (stamp now tp job), tp2) \<and> same_queues tp tp2"
proof -
  obtain tp1 where a: "ThreadPoolAdd create True granted now job tp = Some (0, Some (tp_lastJobId tp), tp1)"
    and g: "grown (enqueue (tpj_priority job) (stamp now tp job) tp) (tp1\<lparr>tp_lastJobId := tp_lastJobId tp\<rparr>)"
    using ThreadPoolAdd_ok[OF assms(1-4), of create now job] by blast
  have n: "\<And>j. j \<in> set (tp_highJobQ tp) \<or> j \<in> set (tp_medJobQ tp) \<or> j \<in> set (tp_lowJobQ tp) \<Longrightarrow>
      \<not> with_id (tp_lastJobId tp) j"
    using assms(5) by (force simp: all_jobs_def with_id_def)
  then have none: "take_out (with_id (tp_lastJobId tp)) (tp_highJobQ tp) = None"
      "take_out (with_id (tp_lastJobId tp)) (tp_medJobQ tp) = None"
      "take_out (with_id (tp_lastJobId tp)) (tp_lowJobQ tp) = None"
    by (auto simp: take_out_None)
  have "with_id (tp_lastJobId tp) (stamp now tp job)" by (simp add: with_id_def stamp_def)
  then have "\<exists>tp2. ThreadPoolRemove (tp_lastJobId tp) tp1 = (0, Some (stamp now tp job), tp2) \<and> same_queues tp tp2"
    using g n none
    by (cases "tpj_priority job")
      (simp_all add: grown_def same_queues_def ThreadPoolRemove_def enqueue_def take_out_append)
  then show ?thesis using a by blast
qed

theorem add_remove_roundtrip_witness:
  "\<exists>i tp1 tp2. ThreadPoolAdd (\<lambda>_. (0, 0)) True granted \<lparr>tv_sec = 10, tv_usec = 0\<rparr> (job_at 0 LOW_PRIORITY 0) idle_pool
       = Some (0, Some i, tp1) \<and>
     ThreadPoolRemove i tp1 = (0, Some (job_at 10 LOW_PRIORITY 7), tp2) \<and> same_queues idle_pool tp2"
  using add_remove_roundtrip[of idle_pool "\<lambda>_. (0, 0)" "\<lparr>tv_sec = 10, tv_usec = 0\<rparr>"
      "job_at 0 LOW_PRIORITY 0"]
  by (simp add: idle_pool_def pool_of_simps total_jobs_def all_jobs_def stamp_def)



subsection \<open>Corner cases\<close>

text \<open>The four error codes of the two headers are one number.\<close>

lemma error_codes_collide:
  "EMAXTHREADS = 2 ^ 29 \<and> INVALID_POLICY = EMAXTHREADS \<and> INVALID_JOB_ID = EMAXTHREADS \<and> EOUTOFMEM = EMAXTHREADS"
  by (simp add: EMAXTHREADS_def INVALID_POLICY_def INVALID_JOB_ID_def EOUTOFMEM_def error_code_def)

text \<open>
  A pool without a limit of threads (\<^verbatim>\<open>INFINITE_THREADS\<close>) that runs one worker refuses every
  persistent job: the limit -1 is compared as a number.
\<close>

lemma persistent_infinite_refused:
  assumes "maxThreads (tp_attr tp) = INFINITE_THREADS" "tp_totalThreads tp = 1" "tp_persistentThreads tp = 0"
  shows "ThreadPoolAddPersistent create job_ok now pick job tp = (EMAXTHREADS, INVALID_JOB_ID, tp)"
  using assms by (simp add: ThreadPoolAddPersistent_def)

text \<open>The nanoseconds of the waiting time are not carried into the seconds.\<close>

lemma rel_timeout_overflow: "SetRelTimeout \<lparr>tv_sec = 1, tv_usec = 900000\<rparr> 500 = (1, 1400000000)"
  by (simp add: SetRelTimeout_def signed_divide_int_def signed_modulo_int_def)


end
