(* ===== verification/PoolSystem.thy ===== *)
theory PoolSystem
  imports ThreadPool
begin

section \<open>The thread pool under concurrency (threadutil/src/ThreadPool.c)\<close>

text \<open>
  The functions of \<^verbatim>\<open>ThreadPool.c\<close> release the mutex of the pool only where they wait for a condition
  or return. Between two such points a thread runs alone, so a system of workers and callers is a
  transition system whose steps are those sections, in any order and any number of threads. The
  sections are executable functions on the state; \<open>pool_step\<close> relates a state to the results of
  all sections that can run next. A waiting thread may wake at any time (conditions allow spurious
  wakeups, and every signal and timeout is one of those wakeups).

  Callers do not start a call once the pool is shut down, as the interface demands. Memory for the
  list nodes of aging is granted (\<open>starved_job_lost\<close> shows what happens otherwise); all other
  answers of the system are arbitrary.
\<close>

subsection \<open>State\<close>

text \<open>
  A caller that waits: in \<open>CreateWorker\<close> for the given number of threads, on behalf of
  \<open>ThreadPoolAdd\<close> (with its local variables), of \<open>ThreadPoolAddPersistent\<close>, or of the loops of
  \<open>ThreadPoolInit\<close> and \<open>ThreadPoolSetAttr\<close> (workers still to create); for its persistent job to be
  picked up; before the call of \<open>ThreadPoolShutdown\<close> that cleans up; or in it for the workers to exit.
\<close>

datatype caller =
  AddWait (cl_temp: ThreadPoolJob) (cl_rc: int) (cl_jobs: int) (cl_threads: int) (cl_target: int) (cl_detached: int)
| PersistWait ThreadPoolJob int
| PickWait ThreadPoolJob
| ManyWait nat int int
| ShutCall
| ShutWait

text \<open>
  Workers: created but not counted yet; counted but not yet in their loop; waiting; running a job
  (with the flag \<^verbatim>\<open>persistent\<close>). The last four fields are history: the jobs that were put into a
  queue or the persistent slot, those that ended (were run, removed or dropped by the shutdown),
  those that were overwritten in the slot, and what the calls returned, with the job they had added.
\<close>

record pool_sys =
  sy_pool :: ThreadPool
  sy_fresh :: nat
  sy_starting :: nat
  sy_idle :: nat
  sy_busy :: "(ThreadPoolJob \<times> int) multiset"
  sy_callers :: "caller multiset"
  sy_added :: "ThreadPoolJob multiset"
  sy_gone :: "ThreadPoolJob multiset"
  sy_lost :: "ThreadPoolJob multiset"
  sy_returned :: "(ThreadPoolJob \<times> int \<times> int) list"

subsection \<open>The sections of a worker\<close>

definition worker_section ::
  "bool \<Rightarrow> timeval \<Rightarrow> int \<Rightarrow> ThreadPool \<Rightarrow> (worker_next \<times> ThreadPool) option" where
  "worker_section timed_out now idle tp =
     (if no_work tp then
        (if may_die timed_out tp then Some (Exit, worker_die tp) else Some (Sleep, tp))
      else worker_take granted now idle tp)"

definition place :: "worker_next \<times> ThreadPool \<Rightarrow> pool_sys \<Rightarrow> pool_sys" where
  "place r s =
     (case r of (next, tp) \<Rightarrow>
        (case next of
           Exit \<Rightarrow> s\<lparr>sy_pool := tp\<rparr>
         | Sleep \<Rightarrow> s\<lparr>sy_pool := tp, sy_idle := sy_idle s + 1\<rparr>
         | Run j p \<Rightarrow> s\<lparr>sy_pool := tp, sy_busy := add_mset (j, p) (sy_busy s)\<rparr>))"

definition start_sec :: "pool_sys \<Rightarrow> pool_sys" where
  "start_sec s = s\<lparr>sy_pool := worker_start (sy_pool s), sy_fresh := sy_fresh s - 1,
                   sy_starting := sy_starting s + 1\<rparr>"

definition first_sec :: "timeval \<Rightarrow> int \<Rightarrow> int \<Rightarrow> pool_sys \<Rightarrow> pool_sys option" where
  "first_sec now work idle s =
     map_option (\<lambda>r. place r (s\<lparr>sy_starting := sy_starting s - 1\<rparr>))
       (worker_section False now idle (worker_top work None (-1) (sy_pool s)))"

definition finish_sec :: "ThreadPoolJob \<Rightarrow> int \<Rightarrow> timeval \<Rightarrow> int \<Rightarrow> int \<Rightarrow> pool_sys \<Rightarrow> pool_sys option" where
  "finish_sec j p now work idle s =
     map_option (\<lambda>r. place r (s\<lparr>sy_busy := sy_busy s - {#(j, p)#}, sy_gone := add_mset j (sy_gone s)\<rparr>))
       (worker_section False now idle (worker_top work (Some j) p (sy_pool s)))"

definition wake_sec :: "bool \<Rightarrow> timeval \<Rightarrow> int \<Rightarrow> pool_sys \<Rightarrow> pool_sys option" where
  "wake_sec timed_out now idle s =
     map_option (\<lambda>r. place r (s\<lparr>sy_idle := sy_idle s - 1\<rparr>))
       (worker_section timed_out now idle (sy_pool s))"

subsection \<open>The sections of a caller\<close>

definition wait_as :: "caller \<Rightarrow> pool_sys \<Rightarrow> pool_sys" where
  "wait_as c s = s\<lparr>sy_callers := add_mset c (sy_callers s)\<rparr>"

definition wakes :: "caller \<Rightarrow> pool_sys \<Rightarrow> pool_sys" where
  "wakes c s = s\<lparr>sy_callers := sy_callers s - {#c#}\<rparr>"

text \<open>
  \<open>CreateWorker\<close> up to its wait: refused with a code, or a new thread, the number of threads to
  wait for and the answer of \<^verbatim>\<open>ithread_detach\<close>.
\<close>

datatype create_result = Refused int | Await int int

definition create_sec :: "(int \<Rightarrow> int \<times> int) \<Rightarrow> pool_sys \<Rightarrow> create_result \<times> pool_sys" where
  "create_sec create s =
     (let tp = sy_pool s in
      if at_limit tp then (Refused EMAXTHREADS, s)
      else
        (case create (tp_totalThreads tp) of
           (rc, detached) \<Rightarrow>
             if rc = 0 then (Await (tp_totalThreads tp + 1) detached, s\<lparr>sy_fresh := sy_fresh s + 1\<rparr>)
             else (Refused rc, s\<lparr>sy_pool := note_max tp\<rparr>)))"

definition returns :: "ThreadPoolJob \<Rightarrow> int \<Rightarrow> pool_sys \<Rightarrow> pool_sys" where
  "returns temp rc s =
     (let tp = sy_pool s in
      s\<lparr>sy_pool := tp\<lparr>tp_lastJobId := tp_lastJobId tp + 1\<rparr>,
        sy_returned := (temp, rc, tp_lastJobId tp) # sy_returned s\<rparr>)"

definition add_loop_sec ::
  "(int \<Rightarrow> int \<times> int) \<Rightarrow> ThreadPoolJob \<Rightarrow> int \<Rightarrow> int \<Rightarrow> int \<Rightarrow> pool_sys \<Rightarrow> pool_sys" where
  "add_loop_sec create temp rc jobs threads s =
     (if want_worker jobs threads (sy_pool s) then
        (case create_sec create s of
           (Refused _, s1) \<Rightarrow> returns temp rc s1
         | (Await target detached, s1) \<Rightarrow> wait_as (AddWait temp rc jobs threads target detached) s1)
      else returns temp rc s)"

definition add_sec ::
  "(int \<Rightarrow> int \<times> int) \<Rightarrow> bool \<Rightarrow> (ThreadPoolJob \<Rightarrow> bool) \<Rightarrow> timeval \<Rightarrow> ThreadPoolJob \<Rightarrow> pool_sys \<Rightarrow> pool_sys" where
  "add_sec create job_ok node_ok now job s =
     (let tp = sy_pool s in
      if total_jobs tp \<ge> maxJobsTotal (tp_attr tp) then s
      else
        (case CreateThreadPoolJob job_ok now job (tp_lastJobId tp) of
           None \<Rightarrow> s
         | Some temp \<Rightarrow>
             (let s1 = (if node_ok temp
                        then s\<lparr>sy_pool := enqueue (tpj_priority job) temp tp,
                               sy_added := add_mset temp (sy_added s)\<rparr>
                        else s) in
              add_loop_sec create temp (if node_ok temp then 0 else EOUTOFMEM)
                (total_jobs (sy_pool s1))
                (tp_totalThreads (sy_pool s1) - tp_persistentThreads (sy_pool s1)) s1)))"

definition add_resume_sec ::
  "(int \<Rightarrow> int \<times> int) \<Rightarrow> ThreadPoolJob \<Rightarrow> int \<Rightarrow> int \<Rightarrow> int \<Rightarrow> int \<Rightarrow> pool_sys \<Rightarrow> pool_sys" where
  "add_resume_sec create temp rc jobs threads detached s =
     (let s1 = s\<lparr>sy_pool := note_max (sy_pool s)\<rparr> in
      if detached \<noteq> 0 then returns temp rc s1
      else add_loop_sec create temp rc jobs (threads + 1) s1)"

text \<open>\<open>ThreadPoolAddPersistent\<close>: the slot is written without a look at what it holds.\<close>

definition slot_sec :: "bool \<Rightarrow> timeval \<Rightarrow> ThreadPoolJob \<Rightarrow> pool_sys \<Rightarrow> pool_sys" where
  "slot_sec job_ok now job s =
     (let tp = sy_pool s in
      case CreateThreadPoolJob job_ok now job (tp_lastJobId tp) of
        None \<Rightarrow> s
      | Some temp \<Rightarrow>
          wait_as (PickWait temp)
            (s\<lparr>sy_pool := tp\<lparr>tp_persistentJob := Some temp\<rparr>,
               sy_added := add_mset temp (sy_added s),
               sy_lost := (case tp_persistentJob tp of
                             None \<Rightarrow> sy_lost s | Some old \<Rightarrow> add_mset old (sy_lost s))\<rparr>))"

definition persist_sec ::
  "(int \<Rightarrow> int \<times> int) \<Rightarrow> bool \<Rightarrow> timeval \<Rightarrow> ThreadPoolJob \<Rightarrow> pool_sys \<Rightarrow> pool_sys" where
  "persist_sec create job_ok now job s =
     (let tp = sy_pool s in
      if tp_totalThreads tp < maxThreads (tp_attr tp) then
        (case create_sec create s of
           (Refused _, s1) \<Rightarrow> slot_sec job_ok now job s1
         | (Await target _, s1) \<Rightarrow> wait_as (PersistWait job target) s1)
      else if (tp_totalThreads tp - tp_persistentThreads tp) - 1 = 0 then s
      else slot_sec job_ok now job s)"

definition persist_resume_sec :: "bool \<Rightarrow> timeval \<Rightarrow> ThreadPoolJob \<Rightarrow> pool_sys \<Rightarrow> pool_sys" where
  "persist_resume_sec job_ok now job s =
     slot_sec job_ok now job (s\<lparr>sy_pool := note_max (sy_pool s)\<rparr>)"

definition remove_sec :: "int \<Rightarrow> pool_sys \<Rightarrow> pool_sys" where
  "remove_sec jid s =
     (case ThreadPoolRemove jid (sy_pool s) of
        (_, out, tp) \<Rightarrow>
          s\<lparr>sy_pool := tp,
            sy_gone := (case out of None \<Rightarrow> sy_gone s | Some j \<Rightarrow> add_mset j (sy_gone s))\<rparr>)"

definition many_sec :: "(int \<Rightarrow> int \<times> int) \<Rightarrow> nat \<Rightarrow> pool_sys \<Rightarrow> pool_sys" where
  "many_sec create n s =
     (case n of
        0 \<Rightarrow> s
      | Suc m \<Rightarrow>
          (case create_sec create s of
             (Refused _, s1) \<Rightarrow> wait_as ShutCall s1
           | (Await target detached, s1) \<Rightarrow> wait_as (ManyWait m target detached) s1))"

definition many_resume_sec :: "(int \<Rightarrow> int \<times> int) \<Rightarrow> nat \<Rightarrow> int \<Rightarrow> pool_sys \<Rightarrow> pool_sys" where
  "many_resume_sec create m detached s =
     (let s1 = s\<lparr>sy_pool := note_max (sy_pool s)\<rparr> in
      if detached \<noteq> 0 then wait_as ShutCall s1 else many_sec create m s1)"

definition setattr_sec :: "(int \<Rightarrow> int \<times> int) \<Rightarrow> ThreadPoolAttr \<Rightarrow> pool_sys \<Rightarrow> pool_sys" where
  "setattr_sec create a s =
     many_sec create (nat (minThreads a - tp_totalThreads (sy_pool s)))
       (s\<lparr>sy_pool := (sy_pool s)\<lparr>tp_attr := a\<rparr>\<rparr>)"

definition shutdown_sec :: "pool_sys \<Rightarrow> pool_sys" where
  "shutdown_sec s =
     (let tp = sy_pool s in
      wait_as ShutWait
        (s\<lparr>sy_pool := snd (drop_jobs tp),
           sy_gone := sy_gone s + all_jobs tp + slot_jobs tp\<rparr>))"

definition init_sys :: "(int \<Rightarrow> int \<times> int) \<Rightarrow> bool \<Rightarrow> ThreadPoolAttr \<Rightarrow> pool_sys" where
  "init_sys create free_func a =
     many_sec create (nat (minThreads a))
       \<lparr>sy_pool = \<lparr>tp_lastJobId = 0, tp_shutdown = False, tp_totalThreads = 0, tp_busyThreads = 0,
                   tp_persistentThreads = 0, tp_lowJobQ = [], tp_medJobQ = [], tp_highJobQ = [],
                   tp_persistentJob = None, tp_attr = a, tp_free_func = free_func, tp_cleanups = 0,
                   tp_stats = StatsInit\<rparr>,
        sy_fresh = 0, sy_starting = 0, sy_idle = 0, sy_busy = {#}, sy_callers = {#},
        sy_added = {#}, sy_gone = {#}, sy_lost = {#}, sy_returned = []\<rparr>"

subsection \<open>The transition system\<close>

inductive pool_step :: "pool_sys \<Rightarrow> pool_sys \<Rightarrow> bool" where
  start: "0 < sy_fresh s \<Longrightarrow> pool_step s (start_sec s)"
| first: "0 < sy_starting s \<Longrightarrow> first_sec now work idle s = Some s' \<Longrightarrow> pool_step s s'"
| finish: "(j, p) \<in># sy_busy s \<Longrightarrow> finish_sec j p now work idle s = Some s' \<Longrightarrow> pool_step s s'"
| wake: "0 < sy_idle s \<Longrightarrow> wake_sec timed_out now idle s = Some s' \<Longrightarrow> pool_step s s'"
| add: "\<not> tp_shutdown (sy_pool s) \<Longrightarrow> pool_step s (add_sec create job_ok node_ok now job s)"
| add_resume: "c = AddWait temp rc jobs threads target detached \<Longrightarrow> c \<in># sy_callers s \<Longrightarrow>
    target \<le> tp_totalThreads (sy_pool s) \<Longrightarrow>
    pool_step s (add_resume_sec create temp rc jobs threads detached (wakes c s))"
| persist: "\<not> tp_shutdown (sy_pool s) \<Longrightarrow> pool_step s (persist_sec create job_ok now job s)"
| persist_resume: "c = PersistWait job target \<Longrightarrow> c \<in># sy_callers s \<Longrightarrow>
    target \<le> tp_totalThreads (sy_pool s) \<Longrightarrow>
    pool_step s (persist_resume_sec job_ok now job (wakes c s))"
| picked: "c = PickWait temp \<Longrightarrow> c \<in># sy_callers s \<Longrightarrow> tp_persistentJob (sy_pool s) = None \<Longrightarrow>
    pool_step s (returns temp 0 (wakes c s))"
| remove: "\<not> tp_shutdown (sy_pool s) \<Longrightarrow> pool_step s (remove_sec jid s)"
| setattr: "\<not> tp_shutdown (sy_pool s) \<Longrightarrow> pool_step s (setattr_sec create a s)"
| many_resume: "c = ManyWait m target detached \<Longrightarrow> c \<in># sy_callers s \<Longrightarrow>
    target \<le> tp_totalThreads (sy_pool s) \<Longrightarrow>
    pool_step s (many_resume_sec create m detached (wakes c s))"
| shutdown: "\<not> tp_shutdown (sy_pool s) \<Longrightarrow> pool_step s (shutdown_sec s)"
| shutdown_call: "ShutCall \<in># sy_callers s \<Longrightarrow> pool_step s (shutdown_sec (wakes ShutCall s))"
| shutdown_done: "ShutWait \<in># sy_callers s \<Longrightarrow> tp_totalThreads (sy_pool s) \<le> 0 \<Longrightarrow>
    pool_step s (wakes ShutWait s)"

inductive pool_init :: "pool_sys \<Rightarrow> bool" where
  "pool_init (init_sys create free_func a)"


subsection \<open>The counters\<close>

text \<open>
  The counters of the pool (all threads, busy threads, threads on persistent jobs, idle threads,
  threads on other jobs) and the workers there are.
\<close>

definition tally :: "ThreadPool \<Rightarrow> int \<times> int \<times> int \<times> int \<times> int" where
  "tally tp = (tp_totalThreads tp, tp_busyThreads tp, tp_persistentThreads tp,
               st_idleThreads (tp_stats tp), st_workerThreads (tp_stats tp))"

definition census :: "pool_sys \<Rightarrow> int \<times> int \<times> int \<times> int \<times> int" where
  "census s =
     (int (sy_starting s + sy_idle s + size (sy_busy s)), int (size (sy_busy s)),
      int (size {# x \<in># sy_busy s. snd x = 1 #}), int (sy_idle s),
      int (size {# x \<in># sy_busy s. snd x = 0 #}))"

definition counters_ok :: "pool_sys \<Rightarrow> bool" where
  "counters_ok s \<longleftrightarrow> tally (sy_pool s) = census s \<and> snd ` set_mset (sy_busy s) \<subseteq> {0, 1}"

text \<open>The jobs the pool keeps, and the account of all jobs ever added.\<close>

definition pool_jobs :: "ThreadPool \<Rightarrow> ThreadPoolJob multiset" where
  "pool_jobs tp = all_jobs tp + slot_jobs tp"

definition jobs_ok :: "pool_sys \<Rightarrow> bool" where
  "jobs_ok s \<longleftrightarrow>
     sy_added s = pool_jobs (sy_pool s) + image_mset fst (sy_busy s) + sy_gone s + sy_lost s"

text \<open>One look of a worker at the pool: what it does to the counters and the jobs.\<close>

definition look_ok :: "ThreadPool \<Rightarrow> worker_next \<times> ThreadPool \<Rightarrow> bool" where
  "look_ok tp r =
     (case r of (next, tp') \<Rightarrow>
        (case tally tp of (ths, busy, pers, idle, work) \<Rightarrow>
           (case next of
              Exit \<Rightarrow> tally tp' = (ths - 1, busy, pers, idle - 1, work) \<and> pool_jobs tp' = pool_jobs tp
            | Sleep \<Rightarrow> tp' = tp
            | Run j p \<Rightarrow> p \<in> {0, 1} \<and>
                tally tp' = (ths, busy + 1, pers + p, idle - 1, work + (1 - p)) \<and>
                pool_jobs tp = add_mset j (pool_jobs tp'))))"

lemma pool_jobs_simps [simp]:
  "pool_jobs (on_stats f tp) = pool_jobs tp" "pool_jobs (worker_exit tp) = pool_jobs tp"
  "pool_jobs (note_max tp) = pool_jobs tp" "pool_jobs (worker_start tp) = pool_jobs tp"
  "pool_jobs (aged now idle tp) = pool_jobs tp"
  "pool_jobs (tp\<lparr>tp_busyThreads := b\<rparr>) = pool_jobs tp"
  "pool_jobs (tp\<lparr>tp_persistentThreads := b\<rparr>) = pool_jobs tp"
  "pool_jobs (tp\<lparr>tp_lastJobId := b\<rparr>) = pool_jobs tp"
  "pool_jobs (tp\<lparr>tp_attr := a\<rparr>) = pool_jobs tp"
  "pool_jobs (enqueue p j tp) = add_mset j (pool_jobs tp)"
proof -
  have "pool_jobs (aged now idle tp) = all_jobs (aged now idle tp) + slot_jobs (aged now idle tp)"
    by (simp add: pool_jobs_def)
  then show "pool_jobs (aged now idle tp) = pool_jobs tp"
    by (simp add: pool_jobs_def slot_jobs_def)
  show "pool_jobs (enqueue p j tp) = add_mset j (pool_jobs tp)"
    using enqueue_simps(9)[of p j tp] by (simp add: pool_jobs_def slot_jobs_def)
qed (simp_all add: pool_jobs_def all_jobs_def slot_jobs_def worker_exit_def worker_start_def)

lemma tally_simps [simp]:
  "tally (note_max tp) = tally tp" "tally (tp\<lparr>tp_lastJobId := b\<rparr>) = tally tp"
  "tally (tp\<lparr>tp_attr := a\<rparr>) = tally tp" "tally (tp\<lparr>tp_persistentJob := q\<rparr>) = tally tp"
  "tally (enqueue p j tp) = tally tp"
  by (simp_all add: tally_def)

lemma worker_take_look:
  assumes "worker_take granted now idle tp = Some r" "\<not> no_work tp"
  shows "look_ok tp r"
proof -
  consider (shut) "tp_shutdown tp" | (slot) j where "\<not> tp_shutdown tp" "tp_persistentJob tp = Some j"
    | (queue) "\<not> tp_shutdown tp" "tp_persistentJob tp = None" by fastforce
  then show ?thesis
  proof cases
    case shut
    then have "r = (Exit, worker_exit (aged now idle tp))" using assms worker_take_shutdown by simp
    moreover have "tally (worker_exit t) = (case tally t of (n, x) \<Rightarrow> (n - 1, x))" for t
      by (simp add: tally_def worker_exit_def)
    ultimately show ?thesis by (simp add: look_ok_def tally_def)
  next
    case slot
    have "all_jobs (t\<lparr>tp_persistentJob := q, tp_persistentThreads := x, tp_busyThreads := y\<rparr>) = all_jobs t"
      for t :: ThreadPool and q x y by (simp add: all_jobs_def)
    then show ?thesis
      using assms worker_take_persistent[OF slot, of now idle] slot
      by (auto simp: look_ok_def tally_def pool_jobs_def slot_jobs_def)
  next
    case queue
    then have "all_jobs tp \<noteq> {#}" using assms(2) by (auto simp: no_work_def all_jobs_def)
    then show ?thesis
    proof (rule worker_take_queued[OF queue, of now idle])
      fix p j tp'
      assume "worker_take granted now idle tp = Some (Run j 0, tp')"
      then have "r = (Run j 0, tp')" using assms(1) by simp
      moreover assume "all_jobs tp = add_mset j (all_jobs tp')" "tp_persistentJob tp' = None"
      moreover assume "tp_busyThreads tp' = tp_busyThreads tp + 1" "tp_totalThreads tp' = tp_totalThreads tp"
        "tp_persistentThreads tp' = tp_persistentThreads tp"
        "st_idleThreads (tp_stats tp') = st_idleThreads (tp_stats tp) - 1"
        "st_workerThreads (tp_stats tp') = st_workerThreads (tp_stats tp) + 1"
      ultimately show ?thesis
        using queue by (simp add: look_ok_def tally_def pool_jobs_def slot_jobs_def)
    qed
  qed
qed

lemma worker_section_look: "worker_section timed_out now idle tp = Some r \<Longrightarrow> look_ok tp r"
  using worker_take_look
  by (auto simp: worker_section_def worker_die_def worker_exit_def look_ok_def tally_def
      pool_jobs_def all_jobs_def slot_jobs_def split: if_splits)

text \<open>Every look ends: the assertion behind the queues is not reached.\<close>

lemma worker_section_total: "\<exists>r. worker_section timed_out now idle tp = Some r"
proof (cases "no_work tp \<or> tp_shutdown tp")
  case True
  then show ?thesis by (auto simp: worker_section_def worker_take_shutdown)
next
  case False
  then have "\<exists>r. worker_take granted now idle tp = Some r"
    using worker_take_persistent[of tp _ now idle]
  proof (cases "tp_persistentJob tp")
    case None
    then have "all_jobs tp \<noteq> {#}" using False by (auto simp: no_work_def all_jobs_def)
    then show ?thesis using worker_take_queued[of tp now idle] None False by blast
  qed auto
  then show ?thesis using False by (simp add: worker_section_def)
qed

lemma place_counters:
  assumes "look_ok tp r" "tally tp = census (s\<lparr>sy_idle := Suc (sy_idle s)\<rparr>)"
    "snd ` set_mset (sy_busy s) \<subseteq> {0, 1}"
  shows "counters_ok (place r s)"
  using assms
  by (auto simp: look_ok_def place_def counters_ok_def census_def split: prod.splits worker_next.splits)

lemma place_jobs:
  assumes "look_ok tp r"
    "sy_added s = pool_jobs tp + image_mset fst (sy_busy s) + sy_gone s + sy_lost s"
  shows "jobs_ok (place r s)"
  using assms
  by (auto simp: look_ok_def place_def jobs_ok_def split: prod.splits worker_next.splits)



text \<open>The sections of callers touch no counted worker and keep the account of the jobs.\<close>

definition quiet :: "pool_sys \<Rightarrow> pool_sys \<Rightarrow> bool" where
  "quiet s s' \<longleftrightarrow>
     sy_starting s' = sy_starting s \<and> sy_idle s' = sy_idle s \<and> sy_busy s' = sy_busy s \<and>
     tally (sy_pool s') = tally (sy_pool s) \<and> (jobs_ok s \<longrightarrow> jobs_ok s')"

named_theorems quiet_rules

lemma quiet_refl [simp, quiet_rules]: "quiet s s"
  by (simp add: quiet_def)

lemma quiet_trans: "quiet a b \<Longrightarrow> quiet b c \<Longrightarrow> quiet a c"
  by (simp add: quiet_def)

lemma quiet_wait [quiet_rules]: "quiet s s' \<Longrightarrow> quiet s (wait_as c s')"
  by (simp add: quiet_def wait_as_def jobs_ok_def)

lemma quiet_wakes: "quiet (wakes c s) s' \<Longrightarrow> quiet s s'"
  by (simp add: quiet_def wakes_def jobs_ok_def)

lemma quiet_returns [quiet_rules]: "quiet s s' \<Longrightarrow> quiet s (returns temp rc s')"
  by (simp add: quiet_def returns_def jobs_ok_def Let_def)

lemma quiet_note_max [quiet_rules]: "quiet s (s\<lparr>sy_pool := note_max (sy_pool s)\<rparr>)"
  by (simp add: quiet_def jobs_ok_def)

lemma quiet_create:
  assumes "create_sec create s = (r, s')"
  shows "quiet s s'"
  using assms
  by (auto simp: create_sec_def quiet_def jobs_ok_def Let_def split: if_splits prod.splits)

lemma quiet_add_loop: "quiet s (add_loop_sec create temp rc jobs threads s)"
  using quiet_create[of create s]
  by (auto simp: add_loop_sec_def intro: quiet_rules split: prod.splits create_result.splits)

lemma quiet_add: "quiet s (add_sec create job_ok node_ok now job s)"
proof -
  have "quiet s (s\<lparr>sy_pool := enqueue p temp (sy_pool s), sy_added := add_mset temp (sy_added s)\<rparr>)" for p temp
    by (simp add: quiet_def jobs_ok_def)
  then show ?thesis
    using quiet_trans[OF _ quiet_add_loop]
    by (auto simp: add_sec_def Let_def split: option.splits)
qed

lemma quiet_add_resume: "quiet s (add_resume_sec create temp rc jobs threads detached s)"
  using quiet_trans[OF quiet_note_max quiet_add_loop] quiet_note_max
  by (auto simp: add_resume_sec_def Let_def intro: quiet_rules)

lemma quiet_slot: "quiet s (slot_sec job_ok now job s)"
  by (auto simp: slot_sec_def Let_def quiet_def wait_as_def jobs_ok_def pool_jobs_def all_jobs_def
      slot_jobs_def tally_def split: option.splits)

lemma quiet_persist: "quiet s (persist_sec create job_ok now job s)"
  using quiet_create[of create s] quiet_trans[OF _ quiet_slot]
  by (auto simp: persist_sec_def Let_def intro: quiet_rules quiet_slot
      split: prod.splits create_result.splits)

lemma quiet_persist_resume: "quiet s (persist_resume_sec job_ok now job s)"
  unfolding persist_resume_sec_def using quiet_trans[OF quiet_note_max quiet_slot] .

lemma quiet_many: "quiet s (many_sec create n s)"
  using quiet_create[of create s]
  by (auto simp: many_sec_def intro: quiet_rules split: nat.splits prod.splits create_result.splits)

lemma quiet_many_resume: "quiet s (many_resume_sec create m detached s)"
  using quiet_trans[OF quiet_note_max quiet_many] quiet_note_max
  by (auto simp: many_resume_sec_def Let_def intro: quiet_rules)

lemma quiet_setattr: "quiet s (setattr_sec create a s)"
proof -
  have "quiet s (s\<lparr>sy_pool := (sy_pool s)\<lparr>tp_attr := a\<rparr>\<rparr>)" by (simp add: quiet_def jobs_ok_def)
  then show ?thesis unfolding setattr_sec_def by (rule quiet_trans) (rule quiet_many)
qed

lemma quiet_remove: "quiet s (remove_sec jid s)"
proof -
  obtain rc out tp where r: "ThreadPoolRemove jid (sy_pool s) = (rc, out, tp)" by (metis prod_cases3)
  then have "tally tp = tally (sy_pool s)"
    by (auto simp: ThreadPoolRemove_def tally_def split: option.splits prod.splits if_splits)
  then show ?thesis
    using ThreadPoolRemove_jobs[of jid "sy_pool s"] r
    by (cases "rc = 0") (auto simp: remove_sec_def quiet_def jobs_ok_def pool_jobs_def)
qed

lemma quiet_shutdown: "quiet s (shutdown_sec s)"
  by (simp add: shutdown_sec_def Let_def quiet_def wait_as_def jobs_ok_def drop_jobs_def pool_jobs_def
      all_jobs_def slot_jobs_def tally_def)

lemmas quiet_sections = quiet_add quiet_add_resume quiet_persist quiet_persist_resume quiet_remove
  quiet_setattr quiet_many_resume quiet_shutdown

subsection \<open>The invariant\<close>

definition pool_inv :: "pool_sys \<Rightarrow> bool" where
  "pool_inv s \<longleftrightarrow> counters_ok s \<and> jobs_ok s"

lemma quiet_inv: "quiet s s' \<Longrightarrow> pool_inv s \<Longrightarrow> pool_inv s'"
  by (simp add: quiet_def pool_inv_def counters_ok_def census_def)

lemma quiet_wakes_inv: "quiet (wakes c s) s' \<Longrightarrow> pool_inv s \<Longrightarrow> pool_inv s'"
  using quiet_inv quiet_wakes by blast

lemma init_pool_inv: "pool_init s \<Longrightarrow> pool_inv s"
proof (induction rule: pool_init.induct)
  case (1 create free_func a)
  show ?case
    unfolding init_sys_def
    by (rule quiet_inv[OF quiet_many])
      (simp add: pool_inv_def counters_ok_def jobs_ok_def census_def tally_def StatsInit_def pool_jobs_def
        all_jobs_def slot_jobs_def)
qed

lemma worker_top_jobs: "pool_jobs (worker_top work job p tp) = pool_jobs tp"
  by (simp add: worker_top_def Let_def)

lemma start_inv: "0 < sy_fresh s \<Longrightarrow> pool_inv s \<Longrightarrow> pool_inv (start_sec s)"
  by (auto simp: pool_inv_def start_sec_def counters_ok_def jobs_ok_def census_def tally_def worker_start_def
      pool_jobs_def all_jobs_def slot_jobs_def)

text \<open>A worker that looks at the pool has counted itself as idle.\<close>

lemma look_inv:
  assumes "worker_section timed_out now idle tp = Some r"
    "tally tp = census (s\<lparr>sy_idle := Suc (sy_idle s)\<rparr>)" "snd ` set_mset (sy_busy s) \<subseteq> {0, 1}"
    "sy_added s = pool_jobs tp + image_mset fst (sy_busy s) + sy_gone s + sy_lost s"
  shows "pool_inv (place r s)"
  unfolding pool_inv_def using worker_section_look[OF assms(1)] assms place_counters place_jobs by blast

lemma wake_inv:
  assumes "0 < sy_idle s" "wake_sec timed_out now idle s = Some s'" "pool_inv s"
  shows "pool_inv s'"
proof -
  obtain r where r: "worker_section timed_out now idle (sy_pool s) = Some r"
    "s' = place r (s\<lparr>sy_idle := sy_idle s - 1\<rparr>)" using assms(2) by (auto simp: wake_sec_def)
  show ?thesis
    unfolding r(2) by (rule look_inv[OF r(1)])
      (use assms(1,3) in \<open>auto simp: pool_inv_def counters_ok_def jobs_ok_def census_def\<close>)
qed

lemma first_inv:
  assumes "0 < sy_starting s" "first_sec now work idle s = Some s'" "pool_inv s"
  shows "pool_inv s'"
proof -
  obtain r where r: "worker_section False now idle (worker_top work None (-1) (sy_pool s)) = Some r"
    "s' = place r (s\<lparr>sy_starting := sy_starting s - 1\<rparr>)" using assms(2) by (auto simp: first_sec_def)
  show ?thesis
    unfolding r(2) by (rule look_inv[OF r(1)])
      (use assms(1,3) in \<open>auto simp: pool_inv_def counters_ok_def jobs_ok_def census_def worker_top_jobs
         worker_top_def Let_def tally_def\<close>)
qed

lemma finish_inv:
  assumes "(j, p) \<in># sy_busy s" "finish_sec j p now work idle s = Some s'" "pool_inv s"
  shows "pool_inv s'"
proof -
  obtain r where r: "worker_section False now idle (worker_top work (Some j) p (sy_pool s)) = Some r"
    "s' = place r (s\<lparr>sy_busy := sy_busy s - {#(j, p)#}, sy_gone := add_mset j (sy_gone s)\<rparr>)"
    using assms(2) by (auto simp: finish_sec_def)
  obtain B where B: "sy_busy s = add_mset (j, p) B" using assms(1) by (metis mset_add)
  then have "p = 0 \<or> p = 1" using assms(3) by (auto simp: pool_inv_def counters_ok_def)
  then show ?thesis
    unfolding r(2) by (rule disjE; intro look_inv[OF r(1)])
      (use assms(3) B in \<open>auto simp: pool_inv_def counters_ok_def jobs_ok_def census_def worker_top_jobs
         worker_top_def Let_def tally_def\<close>)
qed

lemma pool_step_inv:
  assumes "pool_step s t" "pool_inv s"
  shows "pool_inv t"
  using assms(1)
proof cases
  case shutdown_done
  then show ?thesis using quiet_wakes_inv[OF quiet_refl assms(2)] by simp
next
  case picked
  then show ?thesis using quiet_wakes_inv[OF quiet_returns[OF quiet_refl] assms(2)] by simp
qed (blast intro: start_inv[OF _ assms(2)] first_inv[OF _ _ assms(2)] finish_inv[OF _ _ assms(2)]
    wake_inv[OF _ _ assms(2)] quiet_sections quiet_inv[OF _ assms(2)] quiet_wakes_inv[OF _ assms(2)])+

interpretation pool: transitions pool_init pool_step pool_inv
  by unfold_locales (auto intro: init_pool_inv pool_step_inv)



text \<open>
  C13: In every reachable state of workers and callers, whatever the interleaving, the counters of
  the pool are exact: \<open>totalThreads\<close> counts the workers that have started and not exited,
  \<open>busyThreads\<close> those that run a job, \<open>persistentThreads\<close> those that run a persistent one, and the
  statistics count the idle ones and the ones on other jobs.
\<close>

theorem pool_counters_exact:
  assumes "pool_init s0" "pool_step\<^sup>*\<^sup>* s0 s"
  shows "tp_totalThreads (sy_pool s) = int (sy_starting s + sy_idle s + size (sy_busy s)) \<and>
    tp_busyThreads (sy_pool s) = int (size (sy_busy s)) \<and>
    tp_persistentThreads (sy_pool s) = int (size {# x \<in># sy_busy s. snd x = 1 #}) \<and>
    st_idleThreads (tp_stats (sy_pool s)) = int (sy_idle s) \<and>
    st_workerThreads (tp_stats (sy_pool s)) = int (size {# x \<in># sy_busy s. snd x = 0 #})"
  using pool.reachable_inv[OF assms]
  by (simp add: pool_inv_def counters_ok_def tally_def census_def)


lemma worker_take_runs:
  assumes "\<not> no_work tp" "\<not> tp_shutdown tp"
  shows "\<exists>j p tp'. worker_take granted now idle tp = Some (Run j p, tp')"
proof (cases "tp_persistentJob tp")
  case None
  then have "all_jobs tp \<noteq> {#}" using assms by (auto simp: no_work_def all_jobs_def)
  then show ?thesis using worker_take_queued[OF assms(2) None, of now idle] by metis
qed (use worker_take_persistent[OF assms(2)] in auto)




subsection \<open>Shutdown\<close>

text \<open>After a shutdown every look of a worker is its last.\<close>

definition workers :: "pool_sys \<Rightarrow> nat" where
  "workers s = sy_starting s + sy_idle s + size (sy_busy s)"

lemma look_shutdown:
  assumes "tp_shutdown tp"
  shows "worker_section timed_out now idle tp = Some (Exit, worker_exit (aged now idle tp))"
  using assms by (simp add: worker_section_def no_work_def worker_take_shutdown)

lemma worker_top_shutdown [simp]: "tp_shutdown (worker_top work job p tp) = tp_shutdown tp"
  by (simp add: worker_top_def Let_def)

lemma worker_exit_shutdown [simp]: "tp_shutdown (worker_exit tp) = tp_shutdown tp"
  by (simp add: worker_exit_def)

lemma shutdown_progress:
  assumes "tp_shutdown (sy_pool s)" "0 < sy_fresh s + workers s"
  shows "\<exists>t. pool_step s t \<and> tp_shutdown (sy_pool t) \<and> sy_callers t = sy_callers s \<and>
           2 * sy_fresh t + workers t < 2 * sy_fresh s + workers s"
proof -
  consider (fresh) "0 < sy_fresh s" | (starting) "0 < sy_starting s" | (idle) "0 < sy_idle s"
    | (busy) j p where "(j, p) \<in># sy_busy s"
  proof -
    assume th: "0 < sy_fresh s \<Longrightarrow> thesis" "0 < sy_starting s \<Longrightarrow> thesis" "0 < sy_idle s \<Longrightarrow> thesis"
      "\<And>j p. (j, p) \<in># sy_busy s \<Longrightarrow> thesis"
    show thesis
    proof (cases "sy_busy s = {#}")
      case True
      then show ?thesis using assms(2) th(1-3) by (auto simp: workers_def)
    next
      case False
      then obtain x where "x \<in># sy_busy s" by blast
      then show ?thesis using th(4) by (cases x) simp
    qed
  qed
  then show ?thesis
  proof cases
    case fresh
    then show ?thesis
      using assms(1) pool_step.start[OF fresh]
      by (intro exI[of _ "start_sec s"]) (simp add: start_sec_def worker_start_def workers_def)
  next
    case starting
    then obtain t where "first_sec undefined 0 0 s = Some t" "tp_shutdown (sy_pool t)"
      "sy_callers t = sy_callers s" "sy_fresh t = sy_fresh s" "Suc (workers t) = workers s"
      using assms(1) by (auto simp: first_sec_def look_shutdown place_def workers_def)
    then show ?thesis using pool_step.first[OF starting] by (intro exI[of _ t]) auto
  next
    case idle
    then obtain t where "wake_sec False undefined 0 s = Some t" "tp_shutdown (sy_pool t)"
      "sy_callers t = sy_callers s" "sy_fresh t = sy_fresh s" "Suc (workers t) = workers s"
      using assms(1) by (auto simp: wake_sec_def look_shutdown place_def workers_def)
    then show ?thesis using pool_step.wake[OF idle] by (intro exI[of _ t]) auto
  next
    case busy
    then obtain B where "sy_busy s = add_mset (j, p) B" by (metis mset_add)
    then obtain t where "finish_sec j p undefined 0 0 s = Some t" "tp_shutdown (sy_pool t)"
      "sy_callers t = sy_callers s" "sy_fresh t = sy_fresh s" "Suc (workers t) = workers s"
      using assms(1) by (auto simp: finish_sec_def look_shutdown place_def workers_def)
    then show ?thesis using pool_step.finish[OF busy] by (intro exI[of _ t]) auto
  qed
qed

lemma shutdown_drains:
  "tp_shutdown (sy_pool s) \<Longrightarrow>
   \<exists>t. pool_step\<^sup>*\<^sup>* s t \<and> sy_callers t = sy_callers s \<and> sy_fresh t + workers t = 0"
proof (induction "2 * sy_fresh s + workers s" arbitrary: s rule: less_induct)
  case less
  show ?case
  proof (cases "sy_fresh s + workers s = 0")
    case False
    then obtain t where "pool_step s t" "tp_shutdown (sy_pool t)" "sy_callers t = sy_callers s"
      "2 * sy_fresh t + workers t < 2 * sy_fresh s + workers s"
      using shutdown_progress[OF less.prems] by auto
    then show ?thesis using less.hyps[of t] by (metis converse_rtranclp_into_rtranclp)
  qed auto
qed

text \<open>
  C28: Shutting down can always be completed: from every reachable state in which a call of
  \<open>ThreadPoolShutdown\<close> waits, there is a run of the workers alone after which no worker is left and
  the waiting call can return.
\<close>

theorem shutdown_completes:
  assumes "pool_init s0" "pool_step\<^sup>*\<^sup>* s0 s" "tp_shutdown (sy_pool s)" "ShutWait \<in># sy_callers s"
  shows "\<exists>t. pool_step\<^sup>*\<^sup>* s t \<and> sy_callers t = sy_callers s \<and> tp_totalThreads (sy_pool t) = 0 \<and>
           pool_step t (wakes ShutWait t)"
proof -
  obtain t where t: "pool_step\<^sup>*\<^sup>* s t" "sy_callers t = sy_callers s" "sy_fresh t + workers t = 0"
    using shutdown_drains[OF assms(3)] by metis
  have "pool_inv t" by (rule pool.reachable_inv[OF assms(1) rtranclp_trans[OF assms(2) t(1)]])
  then have "tp_totalThreads (sy_pool t) = 0"
    using t(3) by (simp add: pool_inv_def counters_ok_def tally_def census_def workers_def)
  then show ?thesis
    using t(1,2) assms(4) pool_step.shutdown_done[of t] by (intro exI[of _ t]) simp
qed



subsection \<open>Schedules\<close>

text \<open>
  A schedule names the sections that run, one after the other, at time 0 and with a system that
  grants everything. Its execution is a run of the transition system.
\<close>

datatype action =
  Start | First | Finish ThreadPoolJob int | Wake bool | Add ThreadPoolJob | Persist ThreadPoolJob
| Resume caller | Shut

abbreviation (input) t0 :: timeval where "t0 \<equiv> \<lparr>tv_sec = 0, tv_usec = 0\<rparr>"
abbreviation (input) yes :: "int \<Rightarrow> int \<times> int" where "yes \<equiv> \<lambda>_. (0, 0)"

definition resume :: "caller \<Rightarrow> pool_sys \<Rightarrow> pool_sys option" where
  "resume c s =
     (if c \<in># sy_callers s then
        (case c of
           AddWait temp rc jobs threads target detached \<Rightarrow>
             if target \<le> tp_totalThreads (sy_pool s)
             then Some (add_resume_sec yes temp rc jobs threads detached (wakes c s)) else None
         | PersistWait job target \<Rightarrow>
             if target \<le> tp_totalThreads (sy_pool s)
             then Some (persist_resume_sec True t0 job (wakes c s)) else None
         | PickWait temp \<Rightarrow>
             if tp_persistentJob (sy_pool s) = None then Some (returns temp 0 (wakes c s)) else None
         | ManyWait m target detached \<Rightarrow>
             if target \<le> tp_totalThreads (sy_pool s)
             then Some (many_resume_sec yes m detached (wakes c s)) else None
         | ShutCall \<Rightarrow> Some (shutdown_sec (wakes c s))
         | ShutWait \<Rightarrow> if tp_totalThreads (sy_pool s) \<le> 0 then Some (wakes c s) else None)
      else None)"

fun perform :: "action \<Rightarrow> pool_sys \<Rightarrow> pool_sys option" where
  "perform Start s = (if 0 < sy_fresh s then Some (start_sec s) else None)"
| "perform First s = (if 0 < sy_starting s then first_sec t0 0 0 s else None)"
| "perform (Finish j p) s = (if (j, p) \<in># sy_busy s then finish_sec j p t0 0 0 s else None)"
| "perform (Wake timed_out) s = (if 0 < sy_idle s then wake_sec timed_out t0 0 s else None)"
| "perform (Add job) s =
     (if tp_shutdown (sy_pool s) then None else Some (add_sec yes True granted t0 job s))"
| "perform (Persist job) s =
     (if tp_shutdown (sy_pool s) then None else Some (persist_sec yes True t0 job s))"
| "perform (Resume c) s = resume c s"
| "perform Shut s = (if tp_shutdown (sy_pool s) then None else Some (shutdown_sec s))"

fun schedule :: "action list \<Rightarrow> pool_sys \<Rightarrow> pool_sys option" where
  "schedule [] s = Some s"
| "schedule (a # as) s = (case perform a s of None \<Rightarrow> None | Some t \<Rightarrow> schedule as t)"

lemma perform_step: "perform a s = Some t \<Longrightarrow> pool_step s t"
  by (cases a; simp add: resume_def split: if_splits caller.splits)
    (auto intro: pool_step.intros)

lemma schedule_run: "schedule as s = Some t \<Longrightarrow> pool_step\<^sup>*\<^sup>* s t"
proof (induction as arbitrary: s)
  case (Cons a as)
  then obtain u where "pool_step s u" "schedule as u = Some t"
    by (auto dest: perform_step split: option.splits)
  then show ?case using Cons.IH by (simp add: converse_rtranclp_into_rtranclp)
qed simp

text \<open>The pool reaches a state with the given property.\<close>

definition can_reach :: "ThreadPoolAttr \<Rightarrow> (pool_sys \<Rightarrow> bool) \<Rightarrow> bool" where
  "can_reach a P \<longleftrightarrow> (\<exists>s. pool_step\<^sup>*\<^sup>* (init_sys yes False a) s \<and> P s)"

lemma can_reachI:
  "(case schedule as (init_sys yes False a) of None \<Rightarrow> False | Some s \<Rightarrow> P s) \<Longrightarrow> can_reach a P"
  unfolding can_reach_def using schedule_run by (auto split: option.splits)

definition limits :: "int \<Rightarrow> int \<Rightarrow> ThreadPoolAttr" where
  "limits lo hi = TPAttrInit\<lparr>minThreads := lo, maxThreads := hi\<rparr>"

definition job_no :: "nat \<Rightarrow> int \<Rightarrow> ThreadPoolJob" where
  "job_no n jid =
     \<lparr>tpj_func = n, tpj_arg = 0, tpj_free_func = False, tpj_requestTime = t0,
      tpj_priority = MED_PRIORITY, tpj_jobId = jid\<rparr>"

text \<open>A pool with one worker that runs a job, and two callers that both ask for another worker.\<close>

definition two_adds :: "action list" where
  "two_adds = [Start, Resume (ManyWait 0 1 0), First, Add (job_no 0 0), Wake False, Add (job_no 1 0), Add (job_no 2 0)]"

text \<open>
  The limit \<open>maxThreads\<close> is not kept: two callers that add a job at the same time may each
  find room for one more worker, since a new worker counts itself only later. A pool limited to
  two threads then runs three.
\<close>

theorem max_threads_exceeded:
  "can_reach (limits 1 2) (\<lambda>s. tp_totalThreads (sy_pool s) = 3 \<and> maxThreads (tp_attr (sy_pool s)) = 2)"
  by (rule can_reachI[where as = "two_adds @ [Start, Start]"]) code_simp

text \<open>
  The id a caller is given need not be the id of its job: with two concurrent calls of
  \<open>ThreadPoolAdd\<close>, both jobs get the same id, and the second call to return reports another one.
\<close>

theorem job_id_mismatch:
  "can_reach (limits 1 3) (\<lambda>s. (job_no 1 1, 0, 2) \<in> set (sy_returned s) \<and> (job_no 2 1, 0, 1) \<in> set (sy_returned s))"
  by (rule can_reachI[where as = "two_adds @ [Start, Resume (AddWait (job_no 2 1) 0 2 1 2 0),
         Resume (AddWait (job_no 1 1) 0 1 1 2 0)]"]) code_simp


text \<open>
  \<open>CreateWorker\<close> can miss its own thread: when an idle worker times out after the new one has
  started and before the caller runs again, the number of threads the caller waits for is not there
  any more, no new thread is on its way, and the workers of the pool sleep: the call does not return
  until some other call creates a thread.
\<close>

theorem creator_stuck:
  "can_reach (limits 1 2) (\<lambda>s. sy_callers s = {#PersistWait (job_no 1 0) 2#} \<and> tp_totalThreads (sy_pool s) = 1 \<and>
     sy_fresh s = 0 \<and> sy_starting s = 0 \<and> sy_busy s = {#} \<and> no_work (sy_pool s))"
  by (rule can_reachI[where as = "[Start, Resume (ManyWait 0 1 0), First, Persist (job_no 1 0), Start, First, Wake True]"]) code_simp


subsection \<open>Witnesses\<close>

definition demo :: "action list \<Rightarrow> pool_sys" where
  "demo as = the (schedule as (init_sys yes False (limits 1 2)))"

lemma demo_reach:
  "schedule as (init_sys yes False (limits 1 2)) \<noteq> None \<Longrightarrow>
   pool_step\<^sup>*\<^sup>* (init_sys yes False (limits 1 2)) (demo as)"
  unfolding demo_def by (auto intro: schedule_run)

lemma demo_two_adds: "pool_step\<^sup>*\<^sup>* (init_sys yes False (limits 1 2)) (demo two_adds)"
  by (rule demo_reach) code_simp

theorem pool_counters_exact_witness:
  "tp_totalThreads (sy_pool (demo two_adds)) =
     int (sy_starting (demo two_adds) + sy_idle (demo two_adds) + size (sy_busy (demo two_adds)))"
  using pool_counters_exact[OF pool_init.intros demo_two_adds] by blast



theorem shutdown_completes_witness:
  "\<exists>t. pool_step\<^sup>*\<^sup>* (demo (two_adds @ [Shut])) t \<and> tp_totalThreads (sy_pool t) = 0"
proof -
  have "pool_step\<^sup>*\<^sup>* (init_sys yes False (limits 1 2)) (demo (two_adds @ [Shut]))"
    by (rule demo_reach) code_simp
  moreover have "tp_shutdown (sy_pool (demo (two_adds @ [Shut])))"
    "ShutWait \<in># sy_callers (demo (two_adds @ [Shut]))" by code_simp+
  ultimately show ?thesis
    using shutdown_completes[OF pool_init.intros, of yes False "limits 1 2" "demo (two_adds @ [Shut])"] by metis
qed


end
