(* ===== verification/TimerThread.thy ===== *)
theory TimerThread
  imports ThreadPool
begin

section \<open>The timer thread (threadutil/src/TimerThread.c)\<close>

text \<open>
  Events wait in a queue ordered by time; the timer thread, a persistent job of a thread pool,
  hands the jobs of due events to that pool. The queue is a list, its operations are those of the
  linked list. All functions but the initialisation hold the mutex of the timer throughout; the
  timer thread releases it only while it waits, so what it does between two waits is one section
  (\<open>timer_section\<close>). The answers of the system are arguments: whether memory for an event or a list
  node is granted, the time, and those of the thread pool.
\<close>

unbundle bit_operations_syntax

datatype TimeoutType = ABS_SEC | REL_SEC

datatype Duration = SHORT_TERM | PERSISTENT

record TimerEvent =
  te_job :: ThreadPoolJob
  te_eventTime :: int
  te_persistent :: Duration
  te_id :: int

record TimerThread =
  tt_lastEventId :: int
  tt_eventQ :: "TimerEvent list"
  tt_shutdown :: int

definition INVALID_EVENT_ID :: int where "INVALID_EVENT_ID = error_code (-10)"

text \<open>What the pool is told by its environment during one call.\<close>

record pool_env =
  pe_create :: "int \<Rightarrow> int \<times> int"
  pe_job_ok :: bool
  pe_node_ok :: "ThreadPoolJob \<Rightarrow> bool"
  pe_now :: timeval
  pe_pick :: "ThreadPool \<Rightarrow> ThreadPool"

definition pool_add :: "pool_env \<Rightarrow> TimerEvent \<Rightarrow> ThreadPool \<Rightarrow> (int \<times> ThreadPool) option" where
  "pool_add env e tp =
     (if te_persistent e = PERSISTENT
      then (case ThreadPoolAddPersistent (pe_create env) (pe_job_ok env) (pe_now env) (pe_pick env) (te_job e) tp of
              (rc, _, tp1) \<Rightarrow> Some (rc, tp1))
      else map_option (\<lambda>(rc, _, tp1). (rc, tp1))
             (ThreadPoolAdd (pe_create env) (pe_job_ok env) (pe_node_ok env) (pe_now env) (te_job e) tp))"

text \<open>
  The timer thread between two waits. The time is read in every round (\<open>clock k\<close> in round \<open>k\<close>).
  The result: the timer, the pool, and what the thread does next: return, wait for a signal, or
  wait until a time. The code returned by the pool is not looked at.
\<close>

datatype timer_next = TimerReturns | TimerWaits "int option"

fun timer_rounds ::
  "(nat \<Rightarrow> int) \<Rightarrow> pool_env \<Rightarrow> nat \<Rightarrow> TimerEvent list \<Rightarrow> ThreadPool \<Rightarrow>
   (timer_next \<times> TimerEvent list \<times> ThreadPool) option" where
  "timer_rounds clock env k [] tp = Some (TimerWaits None, [], tp)"
| "timer_rounds clock env k (e # q) tp =
     (if clock k \<ge> te_eventTime e
      then (case pool_add env e tp of
              None \<Rightarrow> None
            | Some (_, tp1) \<Rightarrow> timer_rounds clock env (k + 1) q tp1)
      else Some (TimerWaits (Some (te_eventTime e)), e # q, tp))"

definition timer_section ::
  "(nat \<Rightarrow> int) \<Rightarrow> pool_env \<Rightarrow> TimerThread \<Rightarrow> ThreadPool \<Rightarrow>
   (timer_next \<times> TimerThread \<times> ThreadPool) option" where
  "timer_section clock env timer tp =
     (if tt_shutdown timer \<noteq> 0 then Some (TimerReturns, timer\<lparr>tt_shutdown := 0\<rparr>, tp)
      else map_option (\<lambda>(nx, q, tp1). (nx, timer\<lparr>tt_eventQ := q\<rparr>, tp1))
             (timer_rounds clock env 0 (tt_eventQ timer) tp))"

definition CalculateEventTime :: "int \<Rightarrow> int \<Rightarrow> TimeoutType \<Rightarrow> int \<times> int" where
  "CalculateEventTime now timeout type =
     (case type of ABS_SEC \<Rightarrow> (0, timeout) | REL_SEC \<Rightarrow> (0, timeout + now))"

definition CreateTimerEvent ::
  "bool \<Rightarrow> ThreadPoolJob \<Rightarrow> Duration \<Rightarrow> int \<Rightarrow> int \<Rightarrow> TimerEvent option" where
  "CreateTimerEvent event_ok job persistent eventTime eid =
     (if event_ok
      then Some \<lparr>te_job = job, te_eventTime = eventTime, te_persistent = persistent, te_id = eid\<rparr>
      else None)"

text \<open>The first parameter of the pool's environment is what the new timer thread sees.\<close>

definition timer_job :: ThreadPoolJob where
  "timer_job =
     snd (TPJobSetPriority HIGH_PRIORITY
       (snd (TPJobInit 0 0 \<lparr>tpj_func = 0, tpj_arg = 0, tpj_free_func = False,
          tpj_requestTime = \<lparr>tv_sec = 0, tv_usec = 0\<rparr>, tpj_priority = LOW_PRIORITY, tpj_jobId = 0\<rparr>)))"

definition TimerThreadInit :: "pool_env \<Rightarrow> ThreadPool \<Rightarrow> int \<times> TimerThread \<times> ThreadPool" where
  "TimerThreadInit env tp =
     (case ThreadPoolAddPersistent (pe_create env) (pe_job_ok env) (pe_now env) (pe_pick env) timer_job tp of
        (rc, _, tp1) \<Rightarrow> (rc, \<lparr>tt_lastEventId = 0, tt_eventQ = [], tt_shutdown = 0\<rparr>, tp1))"

text \<open>
  The search of the place in the queue and the insertion there; \<open>node_ok\<close> is the answer to the
  request for a list node, without which the queue is unchanged.
\<close>

fun insert_event :: "bool \<Rightarrow> TimerEvent \<Rightarrow> TimerEvent list \<Rightarrow> int \<times> TimerEvent list" where
  "insert_event node_ok new [] = (if node_ok then (0, [new]) else (EOUTOFMEM, []))"
| "insert_event node_ok new (temp # q) =
     (if te_eventTime temp \<ge> te_eventTime new
      then (if node_ok then (0, new # temp # q) else (EOUTOFMEM, temp # q))
      else (case insert_event node_ok new q of (rc, q1) \<Rightarrow> (rc, temp # q1)))"

definition TimerThreadSchedule ::
  "bool \<Rightarrow> bool \<Rightarrow> int \<Rightarrow> int \<Rightarrow> TimeoutType \<Rightarrow> ThreadPoolJob \<Rightarrow> Duration \<Rightarrow> TimerThread \<Rightarrow>
   int \<times> int \<times> TimerThread" where
  "TimerThreadSchedule event_ok node_ok now timeout type job duration timer =
     (case CreateTimerEvent event_ok job duration (snd (CalculateEventTime now timeout type)) (tt_lastEventId timer) of
        None \<Rightarrow> (EOUTOFMEM, INVALID_EVENT_ID, timer)
      | Some newEvent \<Rightarrow>
          (case insert_event node_ok newEvent (tt_eventQ timer) of
             (rc, q) \<Rightarrow> (rc, tt_lastEventId timer,
                         timer\<lparr>tt_eventQ := q, tt_lastEventId := tt_lastEventId timer + 1\<rparr>)))"

definition has_id :: "int \<Rightarrow> TimerEvent \<Rightarrow> bool" where
  "has_id eid e \<longleftrightarrow> te_id e = eid"

definition TimerThreadRemove :: "int \<Rightarrow> TimerThread \<Rightarrow> int \<times> ThreadPoolJob option \<times> TimerThread" where
  "TimerThreadRemove eid timer =
     (case take_out (has_id eid) (tt_eventQ timer) of
        None \<Rightarrow> (INVALID_EVENT_ID, None, timer)
      | Some (e, q) \<Rightarrow> (0, Some (te_job e), timer\<lparr>tt_eventQ := q\<rparr>))"

text \<open>The arguments freed, and the timer that now waits for its thread.\<close>

definition TimerThreadShutdown :: "TimerThread \<Rightarrow> nat list \<times> TimerThread" where
  "TimerThreadShutdown timer =
     (map (tpj_arg \<circ> te_job) (filter (tpj_free_func \<circ> te_job) (tt_eventQ timer)),
      timer\<lparr>tt_shutdown := 1, tt_eventQ := []\<rparr>)"

subsection \<open>The queue of events\<close>

text \<open>
  An agenda: entries with times, insertion that keeps the order, and the due entries at its front.
\<close>

locale agenda =
  fixes time_of :: "'e \<Rightarrow> int"
    and insert :: "'e \<Rightarrow> 'e list \<Rightarrow> 'e list"
  assumes insert_mset: "mset (insert e q) = add_mset e (mset q)"
    and insert_sorted: "sorted (map time_of q) \<Longrightarrow> sorted (map time_of (insert e q))"
begin

lemma inserts_mset: "mset (fold insert es q) = mset es + mset q"
  by (induction es arbitrary: q) (simp_all add: insert_mset)

lemma inserts_sorted: "sorted (map time_of q) \<Longrightarrow> sorted (map time_of (fold insert es q))"
  by (induction es arbitrary: q) (simp_all add: insert_sorted)

lemma due_prefix:
  assumes "sorted (map time_of q)"
  shows "takeWhile (\<lambda>e. time_of e \<le> t) q = filter (\<lambda>e. time_of e \<le> t) q"
  using assms
proof (induction q)
  case (Cons e q)
  then show ?case
    by (cases "time_of e \<le> t") (auto intro!: filter_False[symmetric] dest: order_trans)
qed simp

lemma late_suffix:
  assumes "sorted (map time_of q)"
  shows "dropWhile (\<lambda>e. time_of e \<le> t) q = filter (\<lambda>e. \<not> time_of e \<le> t) q"
  using assms
proof (induction q)
  case (Cons e q)
  then show ?case
    by (cases "time_of e \<le> t") (auto intro!: filter_True[symmetric] dest: order_trans)
qed simp

end

lemma insert_event_refused [simp]: "insert_event False new q = (EOUTOFMEM, q)"
  by (induction False new q rule: insert_event.induct) auto

lemma insert_event_granted: "fst (insert_event True new q) = 0"
  by (induction True new q rule: insert_event.induct) (auto split: prod.splits)

lemma insert_event_mset: "mset (snd (insert_event True new q)) = add_mset new (mset q)"
  by (induction True new q rule: insert_event.induct) (auto split: prod.splits)

lemma insert_event_sorted:
  "sorted (map te_eventTime q) \<Longrightarrow> sorted (map te_eventTime (snd (insert_event True new q)))"
proof (induction True new q rule: insert_event.induct)
  case (2 new temp q)
  have "set (snd (insert_event True new q)) = insert new (set q)"
    using insert_event_mset[of new q] by (metis set_mset_add_mset_insert set_mset_mset)
  then show ?case using 2 by (auto split: prod.splits dest: order_trans)
qed simp

interpretation events: agenda te_eventTime "\<lambda>e q. snd (insert_event True e q)"
  by unfold_locales (simp_all add: insert_event_mset insert_event_sorted)


subsection \<open>Scheduling\<close>

text \<open>The invariant: the queue is in order, the ids are distinct and were given out before.\<close>

definition timer_inv :: "TimerThread \<Rightarrow> bool" where
  "timer_inv timer \<longleftrightarrow>
     sorted (map te_eventTime (tt_eventQ timer)) \<and> distinct (map te_id (tt_eventQ timer)) \<and>
     (\<forall>e\<in>set (tt_eventQ timer). te_id e < tt_lastEventId timer)"

lemma insert_event_set: "set (snd (insert_event True new q)) = insert new (set q)"
  using insert_event_mset[of new q] by (metis set_mset_add_mset_insert set_mset_mset)

lemma insert_event_ids:
  "distinct (map te_id q) \<Longrightarrow> te_id new \<notin> te_id ` set q \<Longrightarrow> distinct (map te_id (snd (insert_event True new q)))"
proof (induction True new q rule: insert_event.induct)
  case (2 new temp q)
  then show ?case using insert_event_set[of new q] by (auto split: prod.splits)
qed simp

text \<open>
  Scheduling keeps the invariant of the timer (queue ordered by time, ids distinct and below the
  next id), whatever memory is granted. With memory it succeeds, returns the next id and adds
  exactly the new event; without it returns \<open>EOUTOFMEM\<close> and adds nothing.
\<close>

theorem timer_schedule_inserts:
  assumes "timer_inv timer"
  shows "case TimerThreadSchedule event_ok node_ok now timeout type job duration timer of
     (rc, eid, timer') \<Rightarrow>
       timer_inv timer' \<and>
       rc = (if event_ok \<and> node_ok then 0 else EOUTOFMEM) \<and>
       eid = (if event_ok then tt_lastEventId timer else INVALID_EVENT_ID) \<and>
       mset (tt_eventQ timer') = mset (tt_eventQ timer) +
         (if event_ok \<and> node_ok
          then {#\<lparr>te_job = job, te_eventTime = (if type = REL_SEC then timeout + now else timeout),
                  te_persistent = duration, te_id = tt_lastEventId timer\<rparr>#}
          else {#})"
proof (cases "event_ok \<and> node_ok")
  case True
  let ?new = "\<lparr>te_job = job, te_eventTime = (if type = REL_SEC then timeout + now else timeout),
                te_persistent = duration, te_id = tt_lastEventId timer\<rparr>"
  have s: "TimerThreadSchedule event_ok node_ok now timeout type job duration timer =
      (0, tt_lastEventId timer, timer\<lparr>tt_eventQ := snd (insert_event True ?new (tt_eventQ timer)),
                                       tt_lastEventId := tt_lastEventId timer + 1\<rparr>)"
    using True insert_event_granted[of ?new "tt_eventQ timer"]
    by (auto simp: TimerThreadSchedule_def CreateTimerEvent_def CalculateEventTime_def
        split: TimeoutType.splits prod.splits)
  have "timer_inv (timer\<lparr>tt_eventQ := snd (insert_event True ?new (tt_eventQ timer)),
                         tt_lastEventId := tt_lastEventId timer + 1\<rparr>)"
    using assms insert_event_ids[of "tt_eventQ timer" ?new]
    by (force simp: timer_inv_def insert_event_set insert_event_sorted)
  then show ?thesis using True s insert_event_mset[of ?new] by simp
next
  case False
  then show ?thesis
    using assms by (cases event_ok) (auto simp: TimerThreadSchedule_def CreateTimerEvent_def timer_inv_def)
qed

definition event_at :: "int \<Rightarrow> int \<Rightarrow> TimerEvent" where
  "event_at t eid =
     \<lparr>te_job = job_at 0 MED_PRIORITY 0, te_eventTime = t, te_persistent = SHORT_TERM, te_id = eid\<rparr>"

definition some_timer :: TimerThread where
  "some_timer = \<lparr>tt_lastEventId = 3, tt_eventQ = [event_at 10 1, event_at 20 2], tt_shutdown = 0\<rparr>"

theorem timer_schedule_inserts_witness:
  "case TimerThreadSchedule True True 5 10 REL_SEC (job_at 0 LOW_PRIORITY 9) SHORT_TERM some_timer of
     (rc, eid, timer') \<Rightarrow> timer_inv timer' \<and> rc = 0 \<and> eid = 3"
  using timer_schedule_inserts[where timer = some_timer and event_ok = True and node_ok = True and now = 5
      and timeout = 10 and type = REL_SEC and job = "job_at 0 LOW_PRIORITY 9" and duration = SHORT_TERM]
  by (simp add: some_timer_def event_at_def timer_inv_def case_prod_beta)

lemma take_out_insert:
  assumes "\<forall>e\<in>set q. te_id e \<noteq> te_id new"
  shows "take_out (has_id (te_id new)) (snd (insert_event True new q)) = Some (new, q)"
  using assms
  by (induction True new q rule: insert_event.induct) (auto simp: has_id_def split: prod.splits)

text \<open>
  The id that scheduling returns removes the event again: the timer's queue is as before and
  the job is given back.
\<close>

theorem timer_schedule_remove:
  assumes "timer_inv timer"
  shows "\<exists>eid timer1 timer2. TimerThreadSchedule True True now timeout type job duration timer = (0, eid, timer1) \<and>
     TimerThreadRemove eid timer1 = (0, Some job, timer2) \<and> tt_eventQ timer2 = tt_eventQ timer"
proof -
  let ?new = "\<lparr>te_job = job, te_eventTime = snd (CalculateEventTime now timeout type),
                te_persistent = duration, te_id = tt_lastEventId timer\<rparr>"
  have "\<forall>e\<in>set (tt_eventQ timer). te_id e \<noteq> te_id ?new" using assms by (auto simp: timer_inv_def)
  from take_out_insert[OF this] show ?thesis
    using insert_event_granted[of ?new "tt_eventQ timer"]
    by (auto simp: TimerThreadSchedule_def CreateTimerEvent_def TimerThreadRemove_def split: prod.splits)
qed

theorem timer_schedule_remove_witness:
  "\<exists>eid timer1 timer2. TimerThreadSchedule True True 5 10 REL_SEC (job_at 0 LOW_PRIORITY 9) SHORT_TERM some_timer
       = (0, eid, timer1) \<and>
     TimerThreadRemove eid timer1 = (0, Some (job_at 0 LOW_PRIORITY 9), timer2) \<and>
     tt_eventQ timer2 = tt_eventQ some_timer"
  by (rule timer_schedule_remove) (simp add: some_timer_def event_at_def timer_inv_def)

subsection \<open>Due events\<close>

text \<open>The jobs of events handed to the pool one after the other.\<close>

fun pool_adds :: "pool_env \<Rightarrow> TimerEvent list \<Rightarrow> ThreadPool \<Rightarrow> ThreadPool option" where
  "pool_adds env [] tp = Some tp"
| "pool_adds env (e # es) tp =
     (case pool_add env e tp of None \<Rightarrow> None | Some (_, tp1) \<Rightarrow> pool_adds env es tp1)"

lemma timer_rounds_prefix:
  "timer_rounds (\<lambda>_. now) env k q tp =
     (let rest = dropWhile (\<lambda>e. te_eventTime e \<le> now) q in
      map_option (\<lambda>tp1. (TimerWaits (case rest of [] \<Rightarrow> None | e # _ \<Rightarrow> Some (te_eventTime e)), rest, tp1))
        (pool_adds env (takeWhile (\<lambda>e. te_eventTime e \<le> now) q) tp))"
  by (induction "\<lambda>_::nat. now" env k q tp rule: timer_rounds.induct)
    (auto simp: Let_def split: option.splits)

text \<open>Adding the jobs returns: the thread counts of a pool stay in order.\<close>

definition healthy :: "ThreadPool \<Rightarrow> bool" where
  "healthy tp \<longleftrightarrow> 0 \<le> jobsPerThread (tp_attr tp) \<and> tp_persistentThreads tp \<le> tp_totalThreads tp \<and>
     tp_busyThreads tp \<le> tp_totalThreads tp"

lemma AddWorker_healthy: "healthy tp \<Longrightarrow> \<exists>tp'. AddWorker create tp = Some tp' \<and> healthy tp'"
  using AddWorker_ends[of tp create] by (force simp: healthy_def grown_def same_frame_def)

lemma ThreadPoolAdd_healthy:
  assumes "healthy tp"
  shows "\<exists>rc i tp'. ThreadPoolAdd create job_ok node_ok now job tp = Some (rc, i, tp') \<and> healthy tp'"
proof -
  have "healthy (enqueue p j tp)" for p j using assms by (simp add: healthy_def)
  then have "\<exists>tp'. AddWorker create (if node_ok j then enqueue p j tp else tp) = Some tp' \<and>
      healthy (tp'\<lparr>tp_lastJobId := i\<rparr>)" for p j i
    using AddWorker_healthy[of _ create] assms by (auto simp: healthy_def)
  from this[of "job\<lparr>tpj_jobId := tp_lastJobId tp, tpj_requestTime := now\<rparr>" "tpj_priority job"] show ?thesis
    using assms by (fastforce simp: ThreadPoolAdd_def CreateThreadPoolJob_def healthy_def)
qed

lemma pool_adds_returns:
  "healthy tp \<Longrightarrow> (\<And>e. e \<in> set es \<Longrightarrow> te_persistent e = SHORT_TERM) \<Longrightarrow> \<exists>tp'. pool_adds env es tp = Some tp'"
proof (induction es arbitrary: tp)
  case (Cons e es)
  obtain rc i tp1 where "ThreadPoolAdd (pe_create env) (pe_job_ok env) (pe_node_ok env) (pe_now env) (te_job e) tp
      = Some (rc, i, tp1)" "healthy tp1"
    using ThreadPoolAdd_healthy[OF Cons.prems(1)] by blast
  then show ?case using Cons by (auto simp: pool_add_def)
qed simp

text \<open>
  C27: Within one second, the timer thread hands exactly the due events to the pool, in the order of
  their times, removes exactly them from the queue, and then waits for the time of the next one (or
  for a signal if there is none), with the invariant of the queue kept. For short-term jobs and a
  pool whose thread counts are in order this always ends.
\<close>

theorem timer_fires_due:
  fixes now :: int
  assumes "timer_inv timer" "tt_shutdown timer = 0"
  defines "due \<equiv> filter (\<lambda>e. te_eventTime e \<le> now) (tt_eventQ timer)"
    and "late \<equiv> filter (\<lambda>e. now < te_eventTime e) (tt_eventQ timer)"
  shows "timer_section (\<lambda>_. now) env timer tp =
       map_option (\<lambda>tp'. (TimerWaits (case late of [] \<Rightarrow> None | e # _ \<Rightarrow> Some (te_eventTime e)),
                           timer\<lparr>tt_eventQ := late\<rparr>, tp'))
         (pool_adds env due tp) \<and>
     timer_inv (timer\<lparr>tt_eventQ := late\<rparr>) \<and>
     (healthy tp \<and> (\<forall>e\<in>set due. te_persistent e = SHORT_TERM) \<longrightarrow> pool_adds env due tp \<noteq> None)"
proof -
  have q: "sorted (map te_eventTime (tt_eventQ timer))" using assms(1) by (simp add: timer_inv_def)
  have "timer_section (\<lambda>_. now) env timer tp =
       map_option (\<lambda>tp'. (TimerWaits (case late of [] \<Rightarrow> None | e # _ \<Rightarrow> Some (te_eventTime e)),
                           timer\<lparr>tt_eventQ := late\<rparr>, tp'))
         (pool_adds env due tp)"
    using assms(2) events.due_prefix[OF q, of now] events.late_suffix[OF q, of now]
    by (simp add: timer_section_def timer_rounds_prefix Let_def due_def late_def not_le
        option.map_comp o_def)
  moreover have "timer_inv (timer\<lparr>tt_eventQ := late\<rparr>)"
    using assms(1) by (auto simp: timer_inv_def late_def sorted_filter distinct_map_filter)
  ultimately show ?thesis using pool_adds_returns[of tp due env] by auto
qed

definition quiet_env :: pool_env where
  "quiet_env = \<lparr>pe_create = \<lambda>_. (0, 0), pe_job_ok = True, pe_node_ok = \<lambda>_. True,
                pe_now = \<lparr>tv_sec = 15, tv_usec = 0\<rparr>, pe_pick = \<lambda>tp. tp\<rparr>"

theorem timer_fires_due_witness:
  "\<exists>tp'. timer_section (\<lambda>_. 15) quiet_env some_timer (pool_of 1 [] []) =
     Some (TimerWaits (Some 20), some_timer\<lparr>tt_eventQ := [event_at 20 2]\<rparr>, tp')"
proof -
  have "timer_inv some_timer" "tt_shutdown some_timer = 0" "healthy (pool_of 1 [] [])" by code_simp+
  with timer_fires_due[of some_timer 15 quiet_env "pool_of 1 [] []"] show ?thesis
    by (auto simp: some_timer_def event_at_def)
qed

text \<open>
  A due event whose job the pool rejects is dropped: with a full pool the event is deleted
  although its job is in no queue, and its argument is not freed.
\<close>

theorem full_pool_drops_event:
  assumes "tt_shutdown timer = 0" "tt_eventQ timer = e # q" "te_eventTime e \<le> clock 0"
    "te_persistent e = SHORT_TERM" "total_jobs tp \<ge> maxJobsTotal (tp_attr tp)"
  shows "timer_section clock env timer tp =
           timer_section (\<lambda>k. clock (k + 1)) env (timer\<lparr>tt_eventQ := q\<rparr>) tp"
proof -
  have shift: "timer_rounds clock env (k + 1) q tp = timer_rounds (\<lambda>k. clock (k + 1)) env k q tp" for k q tp
    by (induction "\<lambda>k. clock (k + 1)" env k q tp rule: timer_rounds.induct) (auto split: option.splits)
  have "pool_add env e tp = Some (EOUTOFMEM, tp)"
    using assms(4,5) by (simp add: pool_add_def ThreadPoolAdd_def)
  then show ?thesis using assms(1-3) shift[of 0] by (simp add: timer_section_def)
qed

definition full_pool :: ThreadPool where
  "full_pool = (pool_of 1 [] [])\<lparr>tp_attr := TPAttrInit\<lparr>maxJobsTotal := 0\<rparr>\<rparr>"

theorem full_pool_drops_event_witness:
  "timer_section (\<lambda>_. 30) quiet_env some_timer full_pool =
     timer_section (\<lambda>_. 30) quiet_env (some_timer\<lparr>tt_eventQ := [event_at 20 2]\<rparr>) full_pool"
  by (rule full_pool_drops_event[where e = "event_at 10 1" and clock = "\<lambda>_. 30"])
    (simp_all add: some_timer_def event_at_def full_pool_def pool_of_def total_jobs_def)

text \<open>Events of the same time fire in the reverse order of their scheduling.\<close>

lemma equal_times_reversed:
  "map te_id (tt_eventQ (snd (snd (TimerThreadSchedule True True 0 10 ABS_SEC job SHORT_TERM some_timer)))) = [3, 1, 2]"
  by (simp add: TimerThreadSchedule_def CreateTimerEvent_def CalculateEventTime_def some_timer_def event_at_def)


end
