(* ===== verification/XmlLexer.thy ===== *)
theory XmlLexer
  imports Cstdlib
begin

section \<open>Characters and tokens of the XML parser (ixml/src/ixmlparser.c, first half)\<close>

text \<open>
  The text of a document is a C string, a pointer into it is the list of the characters from
  there to the terminator. A read behind the terminator or outside a table is a fault,
  \<^term>\<open>None\<close>. Characters are numbers once they are decoded, as in the code (\<^verbatim>\<open>int\<close>). The character
  \<^verbatim>\<open>g_error_char\<close> that replaces malformed input (0 for strict parsing) is an argument \<open>err\<close>. The
  token buffer is the string it holds; memory for it is granted.
\<close>

unbundle bit_operations_syntax

abbreviation (input) IXML_SUCCESS :: int where "IXML_SUCCESS \<equiv> 0"
abbreviation (input) IXML_SYNTAX_ERR :: int where "IXML_SYNTAX_ERR \<equiv> 12"
abbreviation (input) IXML_FILE_DONE :: int where "IXML_FILE_DONE \<equiv> 104"
abbreviation (input) IXML_FAILED :: int where "IXML_FAILED \<equiv> 106"

abbreviation (input) XMLDECL :: c_string where "XMLDECL \<equiv> ''<?xml ''"
abbreviation (input) XMLDECL2 :: c_string where "XMLDECL2 \<equiv> ''<?xml?''"
abbreviation (input) BEGIN_COMMENT :: c_string where "BEGIN_COMMENT \<equiv> ''<!--''"
abbreviation (input) END_COMMENT :: c_string where "END_COMMENT \<equiv> ''-->''"
abbreviation (input) BEGIN_PI :: c_string where "BEGIN_PI \<equiv> ''<?''"
abbreviation (input) END_PI :: c_string where "END_PI \<equiv> ''?>''"
abbreviation (input) BEGIN_DOCTYPE :: c_string where "BEGIN_DOCTYPE \<equiv> ''<!DOCTYPE''"

text \<open>The tables of the characters that start a name, and of the others that it may contain.\<close>

definition Letter :: "(int \<times> int) list" where
  "Letter =
     [(0x003A, 0x003A), (0x0041, 0x005A), (0x005F, 0x005F), (0x0061, 0x007A), (0x00C0, 0x00D6),
      (0x00D8, 0x00F6), (0x00F8, 0x00FF), (0x0100, 0x0131), (0x0134, 0x013E), (0x0141, 0x0148),
      (0x014A, 0x017E), (0x0180, 0x01C3), (0x01CD, 0x01F0), (0x01F4, 0x01F5), (0x01FA, 0x0217),
      (0x0250, 0x02A8), (0x02BB, 0x02C1), (0x0386, 0x0386), (0x0388, 0x038A), (0x038C, 0x038C),
      (0x038E, 0x03A1), (0x03A3, 0x03CE), (0x03D0, 0x03D6), (0x03DA, 0x03DA), (0x03DC, 0x03DC),
      (0x03DE, 0x03DE), (0x03E0, 0x03E0), (0x03E2, 0x03F3), (0x0401, 0x040C), (0x040E, 0x044F),
      (0x0451, 0x045C), (0x045E, 0x0481), (0x0490, 0x04C4), (0x04C7, 0x04C8), (0x04CB, 0x04CC),
      (0x04D0, 0x04EB), (0x04EE, 0x04F5), (0x04F8, 0x04F9), (0x0531, 0x0556), (0x0559, 0x0559),
      (0x0561, 0x0586), (0x05D0, 0x05EA), (0x05F0, 0x05F2), (0x0621, 0x063A), (0x0641, 0x064A),
      (0x0671, 0x06B7), (0x06BA, 0x06BE), (0x06C0, 0x06CE), (0x06D0, 0x06D3), (0x06D5, 0x06D5),
      (0x06E5, 0x06E6), (0x0905, 0x0939), (0x093D, 0x093D), (0x0958, 0x0961), (0x0985, 0x098C),
      (0x098F, 0x0990), (0x0993, 0x09A8), (0x09AA, 0x09B0), (0x09B2, 0x09B2), (0x09B6, 0x09B9),
      (0x09DC, 0x09DD), (0x09DF, 0x09E1), (0x09F0, 0x09F1), (0x0A05, 0x0A0A), (0x0A0F, 0x0A10),
      (0x0A13, 0x0A28), (0x0A2A, 0x0A30), (0x0A32, 0x0A33), (0x0A35, 0x0A36), (0x0A38, 0x0A39),
      (0x0A59, 0x0A5C), (0x0A5E, 0x0A5E), (0x0A72, 0x0A74), (0x0A85, 0x0A8B), (0x0A8D, 0x0A8D),
      (0x0A8F, 0x0A91), (0x0A93, 0x0AA8), (0x0AAA, 0x0AB0), (0x0AB2, 0x0AB3), (0x0AB5, 0x0AB9),
      (0x0ABD, 0x0ABD), (0x0AE0, 0x0AE0), (0x0B05, 0x0B0C), (0x0B0F, 0x0B10), (0x0B13, 0x0B28),
      (0x0B2A, 0x0B30), (0x0B32, 0x0B33), (0x0B36, 0x0B39), (0x0B3D, 0x0B3D), (0x0B5C, 0x0B5D),
      (0x0B5F, 0x0B61), (0x0B85, 0x0B8A), (0x0B8E, 0x0B90), (0x0B92, 0x0B95), (0x0B99, 0x0B9A),
      (0x0B9C, 0x0B9C), (0x0B9E, 0x0B9F), (0x0BA3, 0x0BA4), (0x0BA8, 0x0BAA), (0x0BAE, 0x0BB5),
      (0x0BB7, 0x0BB9), (0x0C05, 0x0C0C), (0x0C0E, 0x0C10), (0x0C12, 0x0C28), (0x0C2A, 0x0C33),
      (0x0C35, 0x0C39), (0x0C60, 0x0C61), (0x0C85, 0x0C8C), (0x0C8E, 0x0C90), (0x0C92, 0x0CA8),
      (0x0CAA, 0x0CB3), (0x0CB5, 0x0CB9), (0x0CDE, 0x0CDE), (0x0CE0, 0x0CE1), (0x0D05, 0x0D0C),
      (0x0D0E, 0x0D10), (0x0D12, 0x0D28), (0x0D2A, 0x0D39), (0x0D60, 0x0D61), (0x0E01, 0x0E2E),
      (0x0E30, 0x0E30), (0x0E32, 0x0E33), (0x0E40, 0x0E45), (0x0E81, 0x0E82), (0x0E84, 0x0E84),
      (0x0E87, 0x0E88), (0x0E8A, 0x0E8A), (0x0E8D, 0x0E8D), (0x0E94, 0x0E97), (0x0E99, 0x0E9F),
      (0x0EA1, 0x0EA3), (0x0EA5, 0x0EA5), (0x0EA7, 0x0EA7), (0x0EAA, 0x0EAB), (0x0EAD, 0x0EAE),
      (0x0EB0, 0x0EB0), (0x0EB2, 0x0EB3), (0x0EBD, 0x0EBD), (0x0EC0, 0x0EC4), (0x0F40, 0x0F47),
      (0x0F49, 0x0F69), (0x10A0, 0x10C5), (0x10D0, 0x10F6), (0x1100, 0x1100), (0x1102, 0x1103),
      (0x1105, 0x1107), (0x1109, 0x1109), (0x110B, 0x110C), (0x110E, 0x1112), (0x113C, 0x113C),
      (0x113E, 0x113E), (0x1140, 0x1140), (0x114C, 0x114C), (0x114E, 0x114E), (0x1150, 0x1150),
      (0x1154, 0x1155), (0x1159, 0x1159), (0x115F, 0x1161), (0x1163, 0x1163), (0x1165, 0x1165),
      (0x1167, 0x1167), (0x1169, 0x1169), (0x116D, 0x116E), (0x1172, 0x1173), (0x1175, 0x1175),
      (0x119E, 0x119E), (0x11A8, 0x11A8), (0x11AB, 0x11AB), (0x11AE, 0x11AF), (0x11B7, 0x11B8),
      (0x11BA, 0x11BA), (0x11BC, 0x11C2), (0x11EB, 0x11EB), (0x11F0, 0x11F0), (0x11F9, 0x11F9),
      (0x1E00, 0x1E9B), (0x1EA0, 0x1EF9), (0x1F00, 0x1F15), (0x1F18, 0x1F1D), (0x1F20, 0x1F45),
      (0x1F48, 0x1F4D), (0x1F50, 0x1F57), (0x1F59, 0x1F59), (0x1F5B, 0x1F5B), (0x1F5D, 0x1F5D),
      (0x1F5F, 0x1F7D), (0x1F80, 0x1FB4), (0x1FB6, 0x1FBC), (0x1FBE, 0x1FBE), (0x1FC2, 0x1FC4),
      (0x1FC6, 0x1FCC), (0x1FD0, 0x1FD3), (0x1FD6, 0x1FDB), (0x1FE0, 0x1FEC), (0x1FF2, 0x1FF4),
      (0x1FF6, 0x1FFC), (0x2126, 0x2126), (0x212A, 0x212B), (0x212E, 0x212E), (0x2180, 0x2182),
      (0x3007, 0x3007), (0x3021, 0x3029), (0x3041, 0x3094), (0x30A1, 0x30FA), (0x3105, 0x312C),
      (0x4E00, 0x9FA5), (0xAC00, 0xD7A3)]"

definition NameChar :: "(int \<times> int) list" where
  "NameChar =
     [(0x002D, 0x002D), (0x002E, 0x002E), (0x0030, 0x0039), (0x00B7, 0x00B7), (0x02D0, 0x02D0),
      (0x02D1, 0x02D1), (0x0300, 0x0345), (0x0360, 0x0361), (0x0387, 0x0387), (0x0483, 0x0486),
      (0x0591, 0x05A1), (0x05A3, 0x05B9), (0x05BB, 0x05BD), (0x05BF, 0x05BF), (0x05C1, 0x05C2),
      (0x05C4, 0x05C4), (0x0640, 0x0640), (0x064B, 0x0652), (0x0660, 0x0669), (0x0670, 0x0670),
      (0x06D6, 0x06DC), (0x06DD, 0x06DF), (0x06E0, 0x06E4), (0x06E7, 0x06E8), (0x06EA, 0x06ED),
      (0x06F0, 0x06F9), (0x0901, 0x0903), (0x093C, 0x093C), (0x093E, 0x094C), (0x094D, 0x094D),
      (0x0951, 0x0954), (0x0962, 0x0963), (0x0966, 0x096F), (0x0981, 0x0983), (0x09BC, 0x09BC),
      (0x09BE, 0x09BE), (0x09BF, 0x09BF), (0x09C0, 0x09C4), (0x09C7, 0x09C8), (0x09CB, 0x09CD),
      (0x09D7, 0x09D7), (0x09E2, 0x09E3), (0x09E6, 0x09EF), (0x0A02, 0x0A02), (0x0A3C, 0x0A3C),
      (0x0A3E, 0x0A3E), (0x0A3F, 0x0A3F), (0x0A40, 0x0A42), (0x0A47, 0x0A48), (0x0A4B, 0x0A4D),
      (0x0A66, 0x0A6F), (0x0A70, 0x0A71), (0x0A81, 0x0A83), (0x0ABC, 0x0ABC), (0x0ABE, 0x0AC5),
      (0x0AC7, 0x0AC9), (0x0ACB, 0x0ACD), (0x0AE6, 0x0AEF), (0x0B01, 0x0B03), (0x0B3C, 0x0B3C),
      (0x0B3E, 0x0B43), (0x0B47, 0x0B48), (0x0B4B, 0x0B4D), (0x0B56, 0x0B57), (0x0B66, 0x0B6F),
      (0x0B82, 0x0B83), (0x0BBE, 0x0BC2), (0x0BC6, 0x0BC8), (0x0BCA, 0x0BCD), (0x0BD7, 0x0BD7),
      (0x0BE7, 0x0BEF), (0x0C01, 0x0C03), (0x0C3E, 0x0C44), (0x0C46, 0x0C48), (0x0C4A, 0x0C4D),
      (0x0C55, 0x0C56), (0x0C66, 0x0C6F), (0x0C82, 0x0C83), (0x0CBE, 0x0CC4), (0x0CC6, 0x0CC8),
      (0x0CCA, 0x0CCD), (0x0CD5, 0x0CD6), (0x0CE6, 0x0CEF), (0x0D02, 0x0D03), (0x0D3E, 0x0D43),
      (0x0D46, 0x0D48), (0x0D4A, 0x0D4D), (0x0D57, 0x0D57), (0x0D66, 0x0D6F), (0x0E31, 0x0E31),
      (0x0E34, 0x0E3A), (0x0E46, 0x0E46), (0x0E47, 0x0E4E), (0x0E50, 0x0E59), (0x0EB1, 0x0EB1),
      (0x0EB4, 0x0EB9), (0x0EBB, 0x0EBC), (0x0EC6, 0x0EC6), (0x0EC8, 0x0ECD), (0x0ED0, 0x0ED9),
      (0x0F18, 0x0F19), (0x0F20, 0x0F29), (0x0F35, 0x0F35), (0x0F37, 0x0F37), (0x0F39, 0x0F39),
      (0x0F3E, 0x0F3E), (0x0F3F, 0x0F3F), (0x0F71, 0x0F84), (0x0F86, 0x0F8B), (0x0F90, 0x0F95),
      (0x0F97, 0x0F97), (0x0F99, 0x0FAD), (0x0FB1, 0x0FB7), (0x0FB9, 0x0FB9), (0x20D0, 0x20DC),
      (0x20E1, 0x20E1), (0x3005, 0x3005), (0x302A, 0x302F), (0x3031, 0x3035), (0x3099, 0x3099),
      (0x309A, 0x309A), (0x309D, 0x309E), (0x30FC, 0x30FE)]"

abbreviation (input) LETTERTABLESIZE :: int where "LETTERTABLESIZE \<equiv> 207"
abbreviation (input) NAMECHARTABLESIZE :: int where "NAMECHARTABLESIZE \<equiv> 123"

text \<open>The binary search, with both bounds as the code has them.\<close>

definition tbl_read :: "'a list \<Rightarrow> int \<Rightarrow> 'a option" where
  "tbl_read tbl m = (if 0 \<le> m \<and> m < int (length tbl) then Some (tbl ! nat m) else None)"

function table_loop :: "int \<Rightarrow> (int \<times> int) list \<Rightarrow> int \<Rightarrow> int \<Rightarrow> bool option" where
  "table_loop c tbl t b =
     (if t \<le> b then
        (let m = (t + b) div 2 in
         case tbl_read tbl m of
           None \<Rightarrow> None
         | Some (l, h) \<Rightarrow>
             if c < l then table_loop c tbl t (m - 1)
             else if c > h then table_loop c tbl (m + 1) b
             else Some True)
      else Some False)"
  by pat_completeness auto
termination
  by (relation "measure (\<lambda>(c, tbl, t, b). nat (b - t + 1))") auto

declare table_loop.simps [simp del]

definition Parser_isCharInTable :: "int \<Rightarrow> (int \<times> int) list \<Rightarrow> int \<Rightarrow> bool option" where
  "Parser_isCharInTable c tbl sz = table_loop c tbl 0 sz"

definition Parser_isXmlChar :: "int \<Rightarrow> bool" where
  "Parser_isXmlChar c \<longleftrightarrow>
     c = 0x9 \<or> c = 0xA \<or> c = 0xD \<or> (0x20 \<le> c \<and> c \<le> 0xD7FF) \<or>
     (0xE000 \<le> c \<and> c \<le> 0xFFFD) \<or> (0x10000 \<le> c \<and> c \<le> 0x10FFFF)"

definition Parser_isNameChar :: "int \<Rightarrow> bool \<Rightarrow> bool option" where
  "Parser_isNameChar c bNameChar =
     do { letter \<leftarrow> Parser_isCharInTable c Letter LETTERTABLESIZE;
          if letter then Some True
          else if bNameChar then Parser_isCharInTable c NameChar NAMECHARTABLESIZE
          else Some False }"

text \<open>A \<^verbatim>\<open>char\<close> is signed.\<close>

definition schar :: "char \<Rightarrow> int" where
  "schar c = (if code c < 128 then int (code c) else int (code c) - 256)"

fun all_name_chars :: "c_string \<Rightarrow> bool option" where
  "all_name_chars [] = Some True"
| "all_name_chars (c # s) =
     do { ok \<leftarrow> Parser_isNameChar (schar c) True; if ok then all_name_chars s else Some False }"

definition Parser_isValidXmlName :: "c_string \<Rightarrow> bool option" where
  "Parser_isValidXmlName name =
     do { first \<leftarrow> Parser_isNameChar (schar (cur name)) False;
          if first then all_name_chars (tl name) else Some True }"

subsection \<open>UTF-8\<close>

definition byte :: "int \<Rightarrow> char" where
  "byte x = char_of (nat (x mod 256))"

text \<open>The bytes of a character; no bytes when the code returns 0.\<close>

definition Parser_intToUTF8 :: "int \<Rightarrow> c_string" where
  "Parser_intToUTF8 c =
     (if c < 0 then []
      else if c \<le> 127 then [byte c]
      else if c \<le> 0x07FF then [byte (0xC0 OR drop_bit 6 c), byte (0x80 OR (c AND 0x3f))]
      else if c \<le> 0xFFFF then
        [byte (0xE0 OR drop_bit 12 c), byte (0x80 OR (drop_bit 6 c AND 0x3f)), byte (0x80 OR (c AND 0x3f))]
      else if c \<le> 0x1FFFFF then
        [byte (0xF0 OR drop_bit 18 c), byte (0x80 OR (drop_bit 12 c AND 0x3f)),
         byte (0x80 OR (drop_bit 6 c AND 0x3f)), byte (0x80 OR (c AND 0x3f))]
      else if c \<le> 0x3FFFFFF then
        [byte (0xF8 OR drop_bit 24 c), byte (0x80 OR (drop_bit 18 c AND 0x3f)),
         byte (0x80 OR (drop_bit 12 c AND 0x3f)), byte (0x80 OR (drop_bit 6 c AND 0x3f)),
         byte (0x80 OR (c AND 0x3f))]
      else if c \<le> 0x7FFFFFFF then
        [byte (0xFC OR drop_bit 30 c), byte (0x80 OR (drop_bit 24 c AND 0x3f)),
         byte (0x80 OR (drop_bit 18 c AND 0x3f)), byte (0x80 OR (drop_bit 12 c AND 0x3f)),
         byte (0x80 OR (drop_bit 6 c AND 0x3f)), byte (0x80 OR (c AND 0x3f))]
      else [])"

text \<open>
  Reads a character and its length. Bytes behind the terminator are not looked at, since the
  terminator is no continuation byte.
\<close>

definition octet :: "c_string \<Rightarrow> nat \<Rightarrow> int" where
  "octet s i = int (code (cur (drop i s)))"

definition cont :: "c_string \<Rightarrow> nat \<Rightarrow> bool" where
  "cont s i \<longleftrightarrow> octet s i AND 0xc0 = 0x80"

definition Parser_UTF8ToInt :: "int \<Rightarrow> c_string \<Rightarrow> int \<times> nat" where
  "Parser_UTF8ToInt err s =
     (let c = octet s 0; six = (\<lambda>i. octet s i AND 0x3f) in
      if c \<le> 127 then (c, 1)
      else if c AND 0xE0 = 0xC0 \<and> cont s 1 then (push_bit 6 (c AND 0x1f) OR six 1, 2)
      else if c AND 0xF0 = 0xE0 \<and> cont s 1 \<and> cont s 2 then
        (push_bit 12 (c AND 0xf) OR push_bit 6 (six 1) OR six 2, 3)
      else if c AND 0xf8 = 0xf0 \<and> cont s 1 \<and> cont s 2 \<and> cont s 3 then
        (push_bit 18 (c AND 0x7) OR push_bit 12 (six 1) OR push_bit 6 (six 2) OR six 3, 4)
      else if c AND 0xfc = 0xf8 \<and> cont s 1 \<and> cont s 2 \<and> cont s 3 \<and> cont s 4 then
        (push_bit 24 (c AND 0x3) OR push_bit 18 (six 1) OR push_bit 12 (six 2) OR push_bit 6 (six 3) OR
         six 4, 5)
      else if c AND 0xfe = 0xfc \<and> cont s 1 \<and> cont s 2 \<and> cont s 3 \<and> cont s 4 \<and> cont s 5 then
        (push_bit 30 (c AND 0x1) OR push_bit 24 (six 1) OR push_bit 18 (six 2) OR push_bit 12 (six 3) OR
         push_bit 6 (six 4) OR six 5, 6)
      else if err \<noteq> 0 then (err, 1) else (-1, 0))"

subsection \<open>References and text\<close>

text \<open>
  The digits of a character reference. \<^verbatim>\<open>strchr\<close> finds the terminator in every string, so the
  loops run over the end of the text. The sum wraps like an \<^verbatim>\<open>int\<close>.
\<close>

definition hex_value :: "char \<Rightarrow> int" where
  "hex_value c =
     (if code c \<le> 57 then int (code c) - 48
      else if code c \<le> 70 then int (code c) - 65 + 10
      else int (code c) - 97 + 10)"

fun hex_loop :: "c_string \<Rightarrow> int \<Rightarrow> nat \<Rightarrow> (int \<times> nat \<times> char) option" where
  "hex_loop [] val n = None"
| "hex_loop (c # s) val n =
     (if c \<in> set ''0123456789ABCDEFabcdef'' then hex_loop s (wrap32 (val * 16 + hex_value c)) (n + 1)
      else Some (val, n, c))"

fun dec_loop :: "c_string \<Rightarrow> int \<Rightarrow> nat \<Rightarrow> (int \<times> nat \<times> char) option" where
  "dec_loop [] val n = None"
| "dec_loop (c # s) val n =
     (if c \<in> set ''0123456789'' then dec_loop s (wrap32 (val * 10 + (int (code c) - 48))) (n + 1)
      else Some (val, n, c))"

definition fail_entity :: "int \<Rightarrow> int \<times> nat" where
  "fail_entity err = (if err \<noteq> 0 then (38, 1) else (-1, 0))"

definition number_ref :: "int \<Rightarrow> (int \<times> nat \<times> char) option \<Rightarrow> (int \<times> nat) option" where
  "number_ref err r =
     (case r of
        None \<Rightarrow> None
      | Some (val, n, stop) \<Rightarrow>
          if stop \<noteq> CHR '';'' \<or> \<not> Parser_isXmlChar val then Some (fail_entity err)
          else Some (val, n + 1))"

definition Parser_getChar :: "int \<Rightarrow> c_string \<Rightarrow> (int \<times> nat) option" where
  "Parser_getChar err src =
     (let is = (\<lambda>ent. strncasecmp (length ent) src ent = 0) in
      if cur src \<noteq> CHR ''&'' then
        (if schar (cur src) > 0 \<and> Parser_isXmlChar (schar (cur src)) then Some (schar (cur src), 1)
         else
           (case Parser_UTF8ToInt err src of
              (i, n) \<Rightarrow> Some (if \<not> Parser_isXmlChar i then (if err \<noteq> 0 then err else -1) else i, n)))
      else if is ''&quot;'' then Some (34, 6)
      else if is ''&lt;'' then Some (60, 4)
      else if is ''&gt;'' then Some (62, 4)
      else if is ''&apos;'' then Some (39, 6)
      else if is ''&amp;'' then Some (38, 5)
      else if is ''&#x'' then number_ref err (hex_loop (drop 3 src) 0 3)
      else if is ''&#'' then number_ref err (dec_loop (drop 2 src) 0 2)
      else Some (fail_entity err))"

text \<open>
  Copies the text up to a length into the token buffer. The result is the status and the buffer.
\<close>

function copy_chars :: "int \<Rightarrow> c_string \<Rightarrow> int \<Rightarrow> c_string \<Rightarrow> (int \<times> c_string) option" where
  "copy_chars err src len buf =
     (if len > 0 then
        (case Parser_getChar err src of
           None \<Rightarrow> None
         | Some (c, cl) \<Rightarrow>
             if c \<le> 0 then Some (IXML_FAILED, buf)
             else if cl = 1 then
               (case src of
                  [] \<Rightarrow> if len > 1 then None else Some (IXML_SUCCESS, buf @ [byte c])
                | _ # rest \<Rightarrow> copy_chars err rest (len - 1) (buf @ [byte c]))
             else if Parser_intToUTF8 c = [] then Some (IXML_FAILED, buf)
             else if cl = 0 \<or> length src < cl then None
             else copy_chars err (drop cl src) (len - int cl) (buf @ Parser_intToUTF8 c))
      else if len < 0 then Some (IXML_FAILED, buf)
      else Some (IXML_SUCCESS, buf))"
  by pat_completeness auto
termination
  by (relation "measure (\<lambda>(err, src, len, buf). length src)") auto

declare copy_chars.simps [simp del]

definition Parser_copyToken :: "int \<Rightarrow> c_string \<Rightarrow> int \<Rightarrow> c_string \<Rightarrow> (int \<times> c_string) option" where
  "Parser_copyToken err src len buf =
     (if len \<le> 0 then Some (IXML_FAILED, buf) else copy_chars err src len buf)"

subsection \<open>Skipping\<close>

definition is_white :: "char \<Rightarrow> bool" where
  "is_white c \<longleftrightarrow> c \<in> {CHR 0x0A, CHR 0x09, CHR 0x0D, CHR '' ''}"

definition Parser_skipWhiteSpaces :: "c_string \<Rightarrow> c_string" where
  "Parser_skipWhiteSpaces s = dropWhile is_white s"

definition starts :: "c_string \<Rightarrow> c_string \<Rightarrow> bool" where
  "starts s key \<longleftrightarrow> strncmp (length key) s key = 0"

definition starts_nocase :: "c_string \<Rightarrow> c_string \<Rightarrow> bool" where
  "starts_nocase s key \<longleftrightarrow> strncasecmp (length key) s key = 0"

fun skip_until :: "c_string \<Rightarrow> c_string \<Rightarrow> c_string" where
  "skip_until [] key = []"
| "skip_until (c # s) key = (if starts (c # s) key then c # s else skip_until s key)"

definition Parser_skipString :: "c_string \<Rightarrow> c_string \<Rightarrow> int \<times> c_string" where
  "Parser_skipString src key =
     (case skip_until src key of
        [] \<Rightarrow> (IXML_SYNTAX_ERR, [])
      | t \<Rightarrow> (IXML_SUCCESS, drop (length key) t))"

definition Parser_skipPI :: "c_string \<Rightarrow> int \<times> c_string" where
  "Parser_skipPI src =
     (if starts_nocase src XMLDECL \<or> starts_nocase src XMLDECL2 then (IXML_SYNTAX_ERR, src)
      else if starts_nocase src BEGIN_PI then
        (case strstr src END_PI of
           None \<Rightarrow> (IXML_SYNTAX_ERR, src)
         | Some p \<Rightarrow> if p \<noteq> 0 then (IXML_SUCCESS, drop (p + length BEGIN_PI) src) else (IXML_SYNTAX_ERR, src))
      else (IXML_SUCCESS, src))"

definition Parser_skipXMLDecl :: "c_string \<Rightarrow> int \<times> c_string" where
  "Parser_skipXMLDecl src =
     (case Parser_skipString src END_PI of (rc, t) \<Rightarrow> (rc, Parser_skipWhiteSpaces t))"

definition Parser_skipComment :: "c_string \<Rightarrow> int \<times> c_string" where
  "Parser_skipComment src =
     (case strstr src END_COMMENT of
        None \<Rightarrow> (IXML_SYNTAX_ERR, src)
      | Some p \<Rightarrow>
          if p \<noteq> 0 \<and> src ! (p - 1) \<noteq> CHR ''-'' then (IXML_SUCCESS, drop (p + length END_COMMENT) src)
          else (IXML_SYNTAX_ERR, src))"

fun strchr_from :: "char \<Rightarrow> c_string \<Rightarrow> c_string option" where
  "strchr_from q [] = None"
| "strchr_from q (c # s) = (if c = q then Some (c # s) else strchr_from q s)"

lemma strchr_from_length: "strchr_from q s = Some t \<Longrightarrow> t \<noteq> [] \<and> length t \<le> length s"
  by (induction s) (auto split: if_splits)

function doctype_loop :: "c_string \<Rightarrow> int \<Rightarrow> (int \<times> c_string) option" where
  "doctype_loop [] num = Some (num, [])"
| "doctype_loop (c # s) num =
     (if num = 0 then Some (num, c # s)
      else if c = CHR ''<'' then doctype_loop s (num + 1)
      else if c = CHR ''>'' then doctype_loop s (num - 1)
      else if c = CHR 0x22 then
        (case strchr_from (CHR 0x22) s of
           None \<Rightarrow> None
         | Some t \<Rightarrow> doctype_loop (tl t) num)
      else doctype_loop s num)"
  by pat_completeness auto
termination
proof (relation "measure (\<lambda>(s, num). length s)", goal_cases)
  case (4 c s num t)
  then show ?case using strchr_from_length[of "CHR 0x22" s t] by (cases t) auto
qed auto

definition Parser_skipDocType :: "c_string \<Rightarrow> int \<times> c_string" where
  "Parser_skipDocType src =
     (case doctype_loop src 1 of
        None \<Rightarrow> (IXML_SYNTAX_ERR, src)
      | Some (num, t) \<Rightarrow> if num = 0 then (IXML_SUCCESS, t) else (IXML_SYNTAX_ERR, src))"

lemma skip_white_length: "length (Parser_skipWhiteSpaces s) \<le> length s"
  by (simp add: Parser_skipWhiteSpaces_def length_dropWhile_le)

lemma skip_until_length: "length (skip_until s key) \<le> length s"
  by (induction s key rule: skip_until.induct) auto

text \<open>Every round of \<open>Parser_skipMisc\<close> that goes on has skipped something.\<close>

definition misc_round :: "c_string \<Rightarrow> bool \<times> int \<times> c_string" where
  "misc_round s =
     (if starts_nocase s BEGIN_COMMENT then (False, Parser_skipComment s)
      else if starts_nocase s XMLDECL \<or> starts_nocase s XMLDECL2 then (False, IXML_SYNTAX_ERR, s)
      else if starts_nocase s BEGIN_PI then (False, Parser_skipString s END_PI)
      else (True, IXML_SUCCESS, s))"

lemma strstr_bound: "strstr s pat = Some p \<Longrightarrow> p + length pat \<le> length s"
proof (induction s pat arbitrary: p rule: strstr.induct)
  case (2 c s pat)
  show ?case
  proof (cases "take (length pat) (c # s) = pat")
    case True
    then have "length pat \<le> length (c # s)" by (metis length_take min.cobounded1)
    then show ?thesis using 2(2) True by simp
  qed (use 2 in auto)
qed (auto split: if_splits)

lemma misc_round_progress: "misc_round s = (False, IXML_SUCCESS, t) \<Longrightarrow> length t < length s"
  using skip_until_length[of s END_PI]
  by (auto simp: misc_round_def Parser_skipComment_def Parser_skipString_def
      dest!: strstr_bound split: if_splits option.splits list.splits)

function misc_loop :: "c_string \<Rightarrow> int \<times> c_string" where
  "misc_loop s =
     (let r = misc_round s; fin = fst r; rc = fst (snd r); t = Parser_skipWhiteSpaces (snd (snd r)) in
      if fin \<or> rc \<noteq> IXML_SUCCESS then (rc, t) else misc_loop t)"
  by pat_completeness auto
termination
proof (relation "measure length", goal_cases)
  case (2 s r fin rc t)
  then have "misc_round s = (False, IXML_SUCCESS, snd (snd (misc_round s)))"
    by (metis prod.collapse)
  then have "length (snd (snd (misc_round s))) < length s" by (rule misc_round_progress)
  then show ?case
    using skip_white_length[of "snd (snd (misc_round s))"] 2 by simp
qed auto

declare misc_loop.simps [simp del]

definition Parser_skipMisc :: "c_string \<Rightarrow> int \<times> c_string" where
  "Parser_skipMisc s = misc_loop s"

definition Parser_skipProlog :: "c_string \<Rightarrow> int \<times> c_string" where
  "Parser_skipProlog s0 =
     (let s1 = Parser_skipWhiteSpaces s0;
          (rc1, s2) = (if starts s1 XMLDECL then Parser_skipXMLDecl s1 else (IXML_SUCCESS, s1)) in
      if rc1 \<noteq> IXML_SUCCESS then (rc1, s2)
      else
        (let (rc2, s3) = Parser_skipMisc s2;
             (rc3, s4) = (if rc2 = IXML_SUCCESS \<and> starts s3 BEGIN_DOCTYPE
                          then Parser_skipDocType (tl s3) else (rc2, s3)) in
         if rc3 = IXML_SUCCESS then Parser_skipMisc s4 else (rc3, s4)))"

subsection \<open>Tokens\<close>

text \<open>
  The next token: its length (0 for an error or the end), the position behind it, the token
  buffer, and the saved position, which is set at an empty-element tag only.
\<close>

function name_length :: "int \<Rightarrow> c_string \<Rightarrow> nat \<Rightarrow> nat option" where
  "name_length err s i =
     (case Parser_UTF8ToInt err (drop i s) of
        (c, tlen) \<Rightarrow>
          do { ok \<leftarrow> Parser_isNameChar c True;
               if \<not> ok then Some i
               else if tlen = 0 \<or> length s < i + tlen then None
               else name_length err s (i + tlen) })"
  by pat_completeness auto
termination
  by (relation "measure (\<lambda>(err, s, i). length s - i)") auto

declare name_length.simps [simp del]

text \<open>The length of the token at a position, without the copy.\<close>

definition token_length :: "int \<Rightarrow> c_string \<Rightarrow> nat option" where
  "token_length err s =
     (if cur s = CHR 0x22 \<or> cur s = CHR 0x27 then Some 1
      else if cur s = CHR ''<'' then
        (case Parser_UTF8ToInt err (tl s) of
           (temp, _) \<Rightarrow>
             if temp = 47 then Some 2
             else do { ok \<leftarrow> Parser_isNameChar temp False; Some (if ok then 1 else 0) })
      else if cur s = CHR ''='' then Some 1
      else if cur s = CHR ''/'' then Some (if cur (tl s) = CHR ''>'' then 2 else 0)
      else if cur s = CHR ''>'' then Some 1
      else
        (case Parser_UTF8ToInt err s of
           (c, tlen) \<Rightarrow>
             do { ok \<leftarrow> Parser_isNameChar c False;
                  if ok then name_length err s tlen else Some 0 }))"

record lexer =
  lx_curPtr :: c_string
  lx_savePtr :: c_string
  lx_tokenBuf :: c_string

definition Parser_getNextToken :: "int \<Rightarrow> lexer \<Rightarrow> (nat \<times> lexer) option" where
  "Parser_getNextToken err x0 =
     (let x = x0\<lparr>lx_tokenBuf := []\<rparr> in
      if lx_curPtr x = [] then Some (0, x)
      else
        (case Parser_skipMisc (lx_curPtr x) of
           (rc, s) \<Rightarrow>
             if rc \<noteq> IXML_SUCCESS then Some (0, x\<lparr>lx_curPtr := s\<rparr>)
             else
               do { n \<leftarrow> token_length err s;
                    let x1 = (if cur s = CHR ''/'' \<and> n = 2 then x\<lparr>lx_curPtr := s, lx_savePtr := s\<rparr>
                              else x\<lparr>lx_curPtr := s\<rparr>);
                    (rc2, buf) \<leftarrow> Parser_copyToken err s (int n) [];
                    if rc2 \<noteq> IXML_SUCCESS then Some (0, x1\<lparr>lx_tokenBuf := buf\<rparr>)
                    else Some (n, x1\<lparr>lx_tokenBuf := buf, lx_curPtr := drop n s\<rparr>) }))"


subsection \<open>The name tables\<close>

definition in_ranges :: "int \<Rightarrow> (int \<times> int) list \<Rightarrow> bool" where
  "in_ranges c tbl \<longleftrightarrow> (\<exists>(l, h)\<in>set tbl. l \<le> c \<and> c \<le> h)"

definition ascending_ranges :: "(int \<times> int) list \<Rightarrow> bool" where
  "ascending_ranges tbl \<longleftrightarrow> list_all (\<lambda>(l, h). l \<le> h) tbl \<and> successively (\<lambda>p q. snd p < fst q) tbl"

lemma ascending_sorted: "ascending_ranges tbl \<Longrightarrow> sorted_wrt (\<lambda>p q. snd p < fst q) tbl"
proof (induction tbl rule: induct_list012)
  case (3 p q tbl)
  then have s: "sorted_wrt (\<lambda>p q. snd p < fst q) (q # tbl)" and pq: "snd p < fst q" "fst q \<le> snd q"
    by (auto simp: ascending_ranges_def case_prod_beta)
  have "snd p < fst x" if "x \<in> set (q # tbl)" for x
    using s pq that by force
  then show ?case using s by simp
qed auto

lemma ascending_nth:
  assumes "ascending_ranges tbl" "i < j" "j < length tbl"
  shows "snd (tbl ! i) < fst (tbl ! j)"
  using ascending_sorted[OF assms(1)] assms(2,3) by (auto simp: sorted_wrt_iff_nth_less)

lemma ascending_range: "ascending_ranges tbl \<Longrightarrow> i < length tbl \<Longrightarrow> fst (tbl ! i) \<le> snd (tbl ! i)"
  by (auto simp: ascending_ranges_def list_all_length)

text \<open>What the search knows: the entries left of \<open>t\<close> are too small, those right of \<open>b\<close> too large.\<close>

definition narrowed :: "int \<Rightarrow> (int \<times> int) list \<Rightarrow> int \<Rightarrow> int \<Rightarrow> bool" where
  "narrowed c tbl t b \<longleftrightarrow> 0 \<le> t \<and> b \<le> int (length tbl) \<and>
     (\<forall>i<length tbl. int i < t \<longrightarrow> snd (tbl ! i) < c) \<and> (\<forall>i<length tbl. b < int i \<longrightarrow> c < fst (tbl ! i))"

lemma table_loop_finds:
  assumes "ascending_ranges tbl" "tbl \<noteq> []" "c \<le> snd (last tbl)" "narrowed c tbl t b"
  shows "table_loop c tbl t b = Some (in_ranges c tbl)"
  using assms
proof (induction c tbl t b rule: table_loop.induct)
  case (1 c tbl t b)
  show ?case
  proof (cases "t \<le> b")
    case False
    have "\<not> (fst p \<le> c \<and> c \<le> snd p)" if "p \<in> set tbl" for p
    proof -
      obtain i where "i < length tbl" "p = tbl ! i" using \<open>p \<in> set tbl\<close> by (metis in_set_conv_nth)
      then show ?thesis using 1(6) False by (cases "int i < t") (auto simp: narrowed_def)
    qed
    then have "\<not> in_ranges c tbl" by (auto simp: in_ranges_def)
    then show ?thesis using False by (subst table_loop.simps) simp
  next
    case True
    let ?m = "(t + b) div 2"
    have "t < int (length tbl)"
    proof (rule ccontr)
      assume "\<not> t < int (length tbl)"
      then have "snd (tbl ! (length tbl - 1)) < c" using 1(4,6) by (simp add: narrowed_def)
      then show False using 1(4,5) by (simp add: last_conv_nth)
    qed
    then have m: "0 \<le> ?m" "?m < int (length tbl)" using True 1(6) by (auto simp: narrowed_def)
    obtain k where k: "?m = int k" "k < length tbl" using m by (metis nonneg_int_cases of_nat_less_iff)
    obtain l h where lh: "tbl ! k = (l, h)" by fastforce
    have rd: "tbl_read tbl ?m = Some (l, h)" using k lh by (simp add: tbl_read_def)
    consider "c < l" | "\<not> c < l" "h < c" | "l \<le> c" "c \<le> h" by linarith
    then show ?thesis
    proof cases
      case 1: 1
      have "c < fst (tbl ! i)" if "int k - 1 < int i" "i < length tbl" for i
        using ascending_nth[OF \<open>ascending_ranges tbl\<close>, of k i] ascending_range[OF \<open>ascending_ranges tbl\<close>, of k] that 1 lh k
        by (cases "i = k") auto
      then have "narrowed c tbl t (?m - 1)"
        using \<open>narrowed c tbl t b\<close> k by (auto simp: narrowed_def)
      then show ?thesis
        using "1.IH"(1)[OF True refl rd refl 1 \<open>ascending_ranges tbl\<close> \<open>tbl \<noteq> []\<close> \<open>c \<le> snd (last tbl)\<close>] True rd 1
        by (subst table_loop.simps) simp
    next
      case 2
      have "snd (tbl ! i) < c" if "int i < int k + 1" "i < length tbl" for i
        using ascending_nth[OF \<open>ascending_ranges tbl\<close>, of i k] ascending_range[OF \<open>ascending_ranges tbl\<close>, of k] that 2 lh k
        by (cases "i = k") auto
      then have "narrowed c tbl (?m + 1) b"
        using \<open>narrowed c tbl t b\<close> k by (auto simp: narrowed_def)
      then show ?thesis
        using "1.IH"(2)[OF True refl rd refl 2 \<open>ascending_ranges tbl\<close> \<open>tbl \<noteq> []\<close> \<open>c \<le> snd (last tbl)\<close>] True rd 2
        by (subst table_loop.simps) simp
    next
      case 3
      then have "in_ranges c tbl" using lh k(2) by (force simp: in_ranges_def set_conv_nth)
      then show ?thesis using True rd 3 by (subst table_loop.simps) simp
    qed
  qed
qed

lemma table_loop_overruns:
  assumes "\<forall>(l, h)\<in>set tbl. l \<le> h \<and> h < c" "0 \<le> t" "t \<le> b" "b = int (length tbl)"
  shows "table_loop c tbl t b = None"
  using assms
proof (induction c tbl t b rule: table_loop.induct)
  case (1 c tbl t b)
  let ?m = "(t + b) div 2"
  show ?case
  proof (cases "?m = b")
    case True
    then show ?thesis using 1(5,6) by (subst table_loop.simps) (simp add: tbl_read_def)
  next
    case False
    then have m: "0 \<le> ?m" "?m < int (length tbl)" using 1(4,5,6) by auto
    obtain l h where lh: "tbl ! nat ?m = (l, h)" by fastforce
    then have rd: "tbl_read tbl ?m = Some (l, h)" using m by (simp add: tbl_read_def)
    have "(l, h) \<in> set tbl" using m lh by (metis nat_less_iff nth_mem)
    then have "l \<le> h" "h < c" using 1(3) by auto
    then show ?thesis
      using 1(2)[OF 1(5) refl rd refl] m rd 1(3-6) by (subst table_loop.simps) simp
  qed
qed

lemma Letter_ascending: "ascending_ranges Letter \<and> length Letter = 207 \<and> last Letter = (0xAC00, 0xD7A3)"
  by code_simp

lemma NameChar_ascending: "ascending_ranges NameChar \<and> length NameChar = 123 \<and> last NameChar = (0x30FC, 0x30FE)"
  by code_simp

lemma ascending_below_last:
  assumes "ascending_ranges tbl" "tbl \<noteq> []" "snd (last tbl) < c"
  shows "\<forall>(l, h)\<in>set tbl. l \<le> h \<and> h < c"
proof (clarify)
  fix l h assume "(l, h) \<in> set tbl"
  then obtain i where i: "i < length tbl" "tbl ! i = (l, h)" by (metis in_set_conv_nth)
  have "snd (tbl ! i) \<le> snd (tbl ! (length tbl - 1))"
  proof (cases "i = length tbl - 1")
    case False
    then have "i < length tbl - 1" "length tbl - 1 < length tbl" using i(1) by auto
    then show ?thesis
      using ascending_nth[OF assms(1)] ascending_range[OF assms(1)] by (meson less_imp_le order_trans)
  qed simp
  then have "snd (tbl ! i) \<le> snd (last tbl)" using assms(2) by (simp add: last_conv_nth)
  then show "l \<le> h \<and> h < c" using i ascending_range[OF assms(1) i(1)] assms(3) by simp
qed

lemma Parser_isCharInTable_eq:
  assumes "ascending_ranges tbl" "tbl \<noteq> []" "sz = int (length tbl)"
  shows "Parser_isCharInTable c tbl sz = (if c \<le> snd (last tbl) then Some (in_ranges c tbl) else None)"
  using table_loop_finds[OF assms(1,2), of c 0 sz] assms(3)
    table_loop_overruns[OF ascending_below_last[OF assms(1,2)], of c 0 sz]
  by (simp add: Parser_isCharInTable_def narrowed_def)

lemma Letter_search:
  "Parser_isCharInTable c Letter LETTERTABLESIZE = (if c \<le> 0xD7A3 then Some (in_ranges c Letter) else None)"
  using Parser_isCharInTable_eq[of Letter LETTERTABLESIZE c] Letter_ascending by force

lemma NameChar_search:
  "Parser_isCharInTable c NameChar NAMECHARTABLESIZE = (if c \<le> 0x30FE then Some (in_ranges c NameChar) else None)"
  using Parser_isCharInTable_eq[of NameChar NAMECHARTABLESIZE c] NameChar_ascending by force

text \<open>The tables restricted to ASCII; the evaluation of small documents uses this equation.\<close>

lemma in_ranges_take:
  assumes "list_all (\<lambda>(l, h). 128 \<le> l) (drop n tbl)" "c < 128"
  shows "in_ranges c tbl \<longleftrightarrow> in_ranges c (take n tbl)"
proof -
  have "set tbl = set (take n tbl) \<union> set (drop n tbl)" by (metis append_take_drop_id set_append)
  then show ?thesis using assms by (fastforce simp: in_ranges_def list_all_iff)
qed

lemma Letter_ascii:
  assumes "c < 128"
  shows "in_ranges c Letter \<longleftrightarrow> c = 58 \<or> (65 \<le> c \<and> c \<le> 90) \<or> c = 95 \<or> (97 \<le> c \<and> c \<le> 122)"
proof -
  have t: "take 4 Letter = [(58, 58), (65, 90), (95, 95), (97, 122)]" and "list_all (\<lambda>(l, h). 128 \<le> l) (drop 4 Letter)"
    by code_simp+
  then have "in_ranges c Letter \<longleftrightarrow> in_ranges c (take 4 Letter)" using in_ranges_take assms by blast
  then show ?thesis by (auto simp: t in_ranges_def)
qed

lemma NameChar_ascii:
  assumes "c < 128"
  shows "in_ranges c NameChar \<longleftrightarrow> c = 45 \<or> c = 46 \<or> (48 \<le> c \<and> c \<le> 57)"
proof -
  have t: "take 3 NameChar = [(45, 45), (46, 46), (48, 57)]" and "list_all (\<lambda>(l, h). 128 \<le> l) (drop 3 NameChar)"
    by code_simp+
  then have "in_ranges c NameChar \<longleftrightarrow> in_ranges c (take 3 NameChar)" using in_ranges_take assms by blast
  then show ?thesis by (auto simp: t in_ranges_def)
qed

lemma isNameChar_ascii [code]:
  "Parser_isNameChar c b =
     (if c < 128
      then Some (c = 58 \<or> (65 \<le> c \<and> c \<le> 90) \<or> c = 95 \<or> (97 \<le> c \<and> c \<le> 122) \<or>
                 (b \<and> (c = 45 \<or> c = 46 \<or> (48 \<le> c \<and> c \<le> 57))))
      else do { letter \<leftarrow> Parser_isCharInTable c Letter LETTERTABLESIZE;
          if letter then Some True
          else if b then Parser_isCharInTable c NameChar NAMECHARTABLESIZE
          else Some False })"
  by (auto simp: Parser_isNameChar_def Letter_search NameChar_search Letter_ascii NameChar_ascii)

text \<open>
  Whether a character may start or continue a name is decided correctly by the binary search for
  every character up to the last one of the table searched. The upper bound of the search is one
  too large: for every character above it the search reads the entry behind the table.
\<close>

theorem name_char_search:
  "Parser_isNameChar c bNameChar =
     (if c > 0xD7A3 then None
      else if in_ranges c Letter then Some True
      else if \<not> bNameChar then Some False
      else if c > 0x30FE then None
      else Some (in_ranges c NameChar))"
  by (simp add: Parser_isNameChar_def Letter_search NameChar_search)

text \<open>
  A name that does not begin with a letter is accepted as valid, whatever it consists of: the
  check only looks at the rest of names that begin well.
\<close>

lemma invalid_name_accepted:
  assumes "\<not> in_ranges (schar (cur name)) Letter"
  shows "Parser_isValidXmlName name = Some True"
proof -
  have "schar (cur name) < 128" using less_trans[OF code_less[of "cur name"], of 384] by (simp add: schar_def)
  then show ?thesis
    using assms by (simp add: Parser_isValidXmlName_def Parser_isNameChar_def Letter_search)
qed

subsection \<open>UTF-8 round trip\<close>

lemma octet_simps [simp]:
  "octet (c # s) 0 = int (code c)" "octet (c # s) (Suc i) = octet s i"
  "octet (c # s) (numeral k) = octet s (pred_numeral k)"
  by (simp_all add: octet_def numeral_eq_Suc)

lemma code_byte [simp]: "int (code (byte x)) = x mod 256"
  by (simp add: byte_def)

lemma and_low_mask:
  "(x::int) AND 0x3f = x mod 64" "x AND 0x1f = x mod 32" "x AND 0xf = x mod 16"
  "x AND 0x7 = x mod 8" "x AND 0x3 = x mod 4" "x AND 0x1 = x mod 2"
  using take_bit_eq_mask[of 6 x] take_bit_eq_mask[of 5 x] take_bit_eq_mask[of 4 x]
    take_bit_eq_mask[of 3 x] take_bit_eq_mask[of 2 x] take_bit_eq_mask[of 1 x]
  by (simp_all add: take_bit_eq_mod mask_eq_exp_minus_1)

text \<open>Statements about the few values of some bits are checked one by one.\<close>

lemma upto_all: "list_all P [0..n] \<Longrightarrow> 0 \<le> x \<Longrightarrow> x \<le> n \<Longrightarrow> P x"
  by (simp add: list_all_iff)

lemma or_add:
  assumes "0 \<le> (b::int)" "b < 2 ^ n"
  shows "push_bit n a OR b = a * 2 ^ n + b"
proof -
  have "take_bit n b = b" using assms by (simp add: take_bit_eq_mod)
  then have "\<not> bit (push_bit n a) k \<or> \<not> bit b k" for k
    by (metis bit_push_bit_iff_int bit_take_bit_iff not_le)
  then have "push_bit n a + b = push_bit n a OR b" by (rule disjunctive_add)
  then show ?thesis by (simp add: push_bit_eq_mult)
qed

text \<open>Leading and continuation bytes: how they are made and what the masks see of them.\<close>

lemma cont_octet:
  assumes "0 \<le> (x::int)" "x < 64"
  shows "0x80 OR x < 256 \<and> 0 \<le> 0x80 OR x \<and> (0x80 OR x) AND 0xc0 = 0x80 \<and> (0x80 OR x) AND 0x3f = x"
  using assms by - (rule upto_all[of _ 63], code_simp, simp_all)

lemma lead_octet2:
  assumes "0 \<le> (x::int)" "x < 32"
  shows "0xC0 OR x < 256 \<and> 128 \<le> 0xC0 OR x \<and> (0xC0 OR x) AND 0xE0 = 0xC0 \<and> (0xC0 OR x) AND 0x1f = x"
  using assms by - (rule upto_all[of _ 31], code_simp, simp_all)

lemma lead_octet3:
  assumes "0 \<le> (x::int)" "x < 16"
  shows "0xE0 OR x < 256 \<and> 128 \<le> 0xE0 OR x \<and> (0xE0 OR x) AND 0xE0 \<noteq> 0xC0 \<and> (0xE0 OR x) AND 0xF0 = 0xE0 \<and>
    (0xE0 OR x) AND 0xf = x"
  using assms by - (rule upto_all[of _ 15], code_simp, simp_all)

lemma lead_octet4:
  assumes "0 \<le> (x::int)" "x < 8"
  shows "0xF0 OR x < 256 \<and> 128 \<le> 0xF0 OR x \<and> (0xF0 OR x) AND 0xE0 \<noteq> 0xC0 \<and> (0xF0 OR x) AND 0xF0 \<noteq> 0xE0 \<and>
    (0xF0 OR x) AND 0xF8 = 0xF0 \<and> (0xF0 OR x) AND 0x7 = x"
  using assms by - (rule upto_all[of _ 7], code_simp, simp_all)

lemma lead_octet5:
  assumes "0 \<le> (x::int)" "x < 4"
  shows "0xF8 OR x < 256 \<and> 128 \<le> 0xF8 OR x \<and> (0xF8 OR x) AND 0xE0 \<noteq> 0xC0 \<and> (0xF8 OR x) AND 0xF0 \<noteq> 0xE0 \<and>
    (0xF8 OR x) AND 0xF8 \<noteq> 0xF0 \<and> (0xF8 OR x) AND 0xFC = 0xF8 \<and> (0xF8 OR x) AND 0x3 = x"
  using assms by - (rule upto_all[of _ 3], code_simp, simp_all)

lemma lead_octet6:
  assumes "0 \<le> (x::int)" "x < 2"
  shows "0xFC OR x < 256 \<and> 128 \<le> 0xFC OR x \<and> (0xFC OR x) AND 0xE0 \<noteq> 0xC0 \<and> (0xFC OR x) AND 0xF0 \<noteq> 0xE0 \<and>
    (0xFC OR x) AND 0xF8 \<noteq> 0xF0 \<and> (0xFC OR x) AND 0xFC \<noteq> 0xF8 \<and> (0xFC OR x) AND 0xFE = 0xFC \<and>
    (0xFC OR x) AND 0x1 = x"
  using assms by - (rule upto_all[of _ 1], code_simp, simp_all)

text \<open>Bytes of the two kinds, with the bits they carry, and the value a decoder makes of them.\<close>

lemma octet_byte: "0 \<le> x \<Longrightarrow> x < 256 \<Longrightarrow> octet (byte x # s) 0 = x"
  by simp

lemma cont_at [simp]:
  "0 \<le> x \<Longrightarrow> x < 64 \<Longrightarrow> cont (byte (0x80 OR x) # s) 0"
  "cont (c # s) (Suc i) = cont s i" "cont (c # s) (numeral k) = cont s (pred_numeral k)"
  using cont_octet[of x] by (simp_all add: cont_def)

lemma six_at [simp]: "0 \<le> x \<Longrightarrow> x < 64 \<Longrightarrow> (0x80 OR x) mod 256 AND 0x3f = x" for x :: int
  using cont_octet[of x] by simp

lemma or6: "0 \<le> b \<Longrightarrow> b < 64 \<Longrightarrow> push_bit 6 a OR b = a * 64 + b" for a b :: int
  using or_add[of b 6 a] by simp

lemma or12: "0 \<le> b \<Longrightarrow> b < 4096 \<Longrightarrow> push_bit 12 a OR b = a * 4096 + b" for a b :: int
  using or_add[of b 12 a] by simp

lemma or18: "0 \<le> b \<Longrightarrow> b < 262144 \<Longrightarrow> push_bit 18 a OR b = a * 262144 + b" for a b :: int
  using or_add[of b 18 a] by simp

lemma or24: "0 \<le> b \<Longrightarrow> b < 16777216 \<Longrightarrow> push_bit 24 a OR b = a * 16777216 + b" for a b :: int
  using or_add[of b 24 a] by simp

lemma or30: "0 \<le> b \<Longrightarrow> b < 1073741824 \<Longrightarrow> push_bit 30 a OR b = a * 1073741824 + b" for a b :: int
  using or_add[of b 30 a] by simp

lemmas or_all = or6 or12 or18 or24 or30

lemma decode2:
  assumes "0 \<le> a" "a < 32" "0 \<le> b" "b < 64"
  shows "Parser_UTF8ToInt err (byte (0xC0 OR a) # byte (0x80 OR b) # s) = (a * 64 + b, 2)"
  using assms lead_octet2[of a] by (simp add: Parser_UTF8ToInt_def Let_def or_all)

lemma decode3:
  assumes "0 \<le> a" "a < 16" "0 \<le> b" "b < 64" "0 \<le> d" "d < 64"
  shows "Parser_UTF8ToInt err (byte (0xE0 OR a) # byte (0x80 OR b) # byte (0x80 OR d) # s) =
    (a * 4096 + b * 64 + d, 3)"
  using assms lead_octet3[of a] by (simp add: Parser_UTF8ToInt_def Let_def or_all)

lemma decode4:
  assumes "0 \<le> a" "a < 8" "0 \<le> b" "b < 64" "0 \<le> d" "d < 64" "0 \<le> e" "e < 64"
  shows "Parser_UTF8ToInt err (byte (0xF0 OR a) # byte (0x80 OR b) # byte (0x80 OR d) # byte (0x80 OR e) # s) =
    (a * 262144 + b * 4096 + d * 64 + e, 4)"
  using assms lead_octet4[of a] by (simp add: Parser_UTF8ToInt_def Let_def or_all)

lemma decode5:
  assumes "0 \<le> a" "a < 4" "0 \<le> b" "b < 64" "0 \<le> d" "d < 64" "0 \<le> e" "e < 64" "0 \<le> f" "f < 64"
  shows "Parser_UTF8ToInt err (byte (0xF8 OR a) # byte (0x80 OR b) # byte (0x80 OR d) # byte (0x80 OR e) #
      byte (0x80 OR f) # s) = (a * 16777216 + b * 262144 + d * 4096 + e * 64 + f, 5)"
  using assms lead_octet5[of a] by (simp add: Parser_UTF8ToInt_def Let_def or_all)

lemma decode6:
  assumes "0 \<le> a" "a < 2" "0 \<le> b" "b < 64" "0 \<le> d" "d < 64" "0 \<le> e" "e < 64" "0 \<le> f" "f < 64"
    "0 \<le> g" "g < 64"
  shows "Parser_UTF8ToInt err (byte (0xFC OR a) # byte (0x80 OR b) # byte (0x80 OR d) # byte (0x80 OR e) #
      byte (0x80 OR f) # byte (0x80 OR g) # s) =
      (a * 1073741824 + b * 16777216 + d * 262144 + e * 4096 + f * 64 + g, 6)"
  using assms lead_octet6[of a] by (simp add: Parser_UTF8ToInt_def Let_def or_all)

lemma base64_step: "(c::int) div 2 ^ (n + 6) * 64 + c div 2 ^ n mod 64 = c div 2 ^ n"
proof -
  have "c div 2 ^ (n + 6) = c div 2 ^ n div 64" by (simp add: power_add zdiv_zmult2_eq)
  then show ?thesis by simp
qed

lemma base64:
  fixes c :: int
  shows "c div 64 * 64 + c mod 64 = c" "c div 4096 * 64 + c div 64 mod 64 = c div 64"
    "c div 262144 * 64 + c div 4096 mod 64 = c div 4096"
    "c div 16777216 * 64 + c div 262144 mod 64 = c div 262144"
    "c div 1073741824 * 64 + c div 16777216 mod 64 = c div 16777216"
  using base64_step[of c 6] base64_step[of c 12] base64_step[of c 18] base64_step[of c 24] by simp_all

lemma base64_sums:
  fixes c :: int
  shows "c div 4096 * 4096 + c div 64 mod 64 * 64 + c mod 64 = c"
    "c div 262144 * 262144 + c div 4096 mod 64 * 4096 + c div 64 mod 64 * 64 + c mod 64 = c"
    "c div 16777216 * 16777216 + c div 262144 mod 64 * 262144 + c div 4096 mod 64 * 4096 + c div 64 mod 64 * 64 +
       c mod 64 = c"
    "c div 1073741824 * 1073741824 + c div 16777216 mod 64 * 16777216 + c div 262144 mod 64 * 262144 +
       c div 4096 mod 64 * 4096 + c div 64 mod 64 * 64 + c mod 64 = c"
  using base64[of c] by linarith+

lemma utf8_roundtrip:
  assumes "0 \<le> c" "c \<le> 0x7FFFFFFF"
  shows "Parser_UTF8ToInt err (Parser_intToUTF8 c @ s) = (c, length (Parser_intToUTF8 c))"
proof -
  consider (1) "c \<le> 127" | (2) "128 \<le> c" "c \<le> 0x7FF" | (3) "0x800 \<le> c" "c \<le> 0xFFFF"
    | (4) "0x10000 \<le> c" "c \<le> 0x1FFFFF" | (5) "0x200000 \<le> c" "c \<le> 0x3FFFFFF" | (6) "0x4000000 \<le> c"
    by linarith
  then show ?thesis
  proof cases
    case 1
    then show ?thesis using assms by (simp add: Parser_intToUTF8_def Parser_UTF8ToInt_def Let_def)
  next
    case 2
    define a b where digits: "a = c div 64" "b = c mod 64"
    have "Parser_intToUTF8 c = [byte (0xC0 OR a), byte (0x80 OR b)]"
      using 2 by (simp add: Parser_intToUTF8_def digits and_low_mask drop_bit_eq_div)
    moreover have "0 \<le> a" "a < 32" using 2 assms by (auto simp: digits)
    moreover have "0 \<le> b" "b < 64" by (simp_all add: digits)
    moreover have "a * 64 + b = c" unfolding digits by (rule base64(1))
    ultimately show ?thesis using decode2[of a b err s] by simp
  next
    case 3
    define a b d where digits: "a = c div 4096" "b = c div 64 mod 64" "d = c mod 64"
    have "Parser_intToUTF8 c = [byte (0xE0 OR a), byte (0x80 OR b), byte (0x80 OR d)]"
      using 3 by (simp add: Parser_intToUTF8_def digits and_low_mask drop_bit_eq_div)
    moreover have "0 \<le> a" "a < 16" using 3 assms by (auto simp: digits)
    moreover have "0 \<le> b" "b < 64" "0 \<le> d" "d < 64" by (simp_all add: digits)
    moreover have "a * 4096 + b * 64 + d = c" unfolding digits by (rule base64_sums(1))
    ultimately show ?thesis using decode3[of a b d err s] by simp
  next
    case 4
    define a b d e where digits: "a = c div 262144" "b = c div 4096 mod 64" "d = c div 64 mod 64" "e = c mod 64"
    have "Parser_intToUTF8 c = [byte (0xF0 OR a), byte (0x80 OR b), byte (0x80 OR d), byte (0x80 OR e)]"
      using 4 by (simp add: Parser_intToUTF8_def digits and_low_mask drop_bit_eq_div)
    moreover have "0 \<le> a" "a < 8" using 4 assms by (auto simp: digits)
    moreover have "0 \<le> b" "b < 64" "0 \<le> d" "d < 64" "0 \<le> e" "e < 64" by (simp_all add: digits)
    moreover have "a * 262144 + b * 4096 + d * 64 + e = c" unfolding digits by (rule base64_sums(2))
    ultimately show ?thesis using decode4[of a b d e err s] by simp
  next
    case 5
    define a b d e f where digits: "a = c div 16777216" "b = c div 262144 mod 64" "d = c div 4096 mod 64" "e = c div 64 mod 64" "f = c mod 64"
    have "Parser_intToUTF8 c = [byte (0xF8 OR a), byte (0x80 OR b), byte (0x80 OR d), byte (0x80 OR e), byte (0x80 OR f)]"
      using 5 by (simp add: Parser_intToUTF8_def digits and_low_mask drop_bit_eq_div)
    moreover have "0 \<le> a" "a < 4" using 5 assms by (auto simp: digits)
    moreover have "0 \<le> b" "b < 64" "0 \<le> d" "d < 64" "0 \<le> e" "e < 64" "0 \<le> f" "f < 64" by (simp_all add: digits)
    moreover have "a * 16777216 + b * 262144 + d * 4096 + e * 64 + f = c" unfolding digits by (rule base64_sums(3))
    ultimately show ?thesis using decode5[of a b d e f err s] by simp
  next
    case 6
    define a b d e f g where digits: "a = c div 1073741824" "b = c div 16777216 mod 64" "d = c div 262144 mod 64" "e = c div 4096 mod 64" "f = c div 64 mod 64" "g = c mod 64"
    have "Parser_intToUTF8 c = [byte (0xFC OR a), byte (0x80 OR b), byte (0x80 OR d), byte (0x80 OR e), byte (0x80 OR f), byte (0x80 OR g)]"
      using 6 assms by (simp add: Parser_intToUTF8_def digits and_low_mask drop_bit_eq_div)
    moreover have "0 \<le> a" "a < 2" using 6 assms by (auto simp: digits)
    moreover have "0 \<le> b" "b < 64" "0 \<le> d" "d < 64" "0 \<le> e" "e < 64" "0 \<le> f" "f < 64" "0 \<le> g" "g < 64" by (simp_all add: digits)
    moreover have "a * 1073741824 + b * 16777216 + d * 262144 + e * 4096 + f * 64 + g = c" unfolding digits by (rule base64_sums(4))
    ultimately show ?thesis using decode6[of a b d e f g err s] by simp
  qed
qed

subsection \<open>Text\<close>

text \<open>
  A character reference that is not ended within the text makes the parser read behind the end
  of the document: the loop over the digits does not stop at the terminator.
\<close>

theorem reference_overruns:
  assumes "set ds \<subseteq> set ''0123456789ABCDEFabcdef''"
  shows "Parser_getChar err (''&#x'' @ ds) = None"
proof -
  have "hex_loop ds val n = None" for val n
    using assms by (induction ds arbitrary: val n) auto
  moreover have "Parser_getChar err (''&#x'' @ ds) = number_ref err (hex_loop ds 0 3)"
    by (simp add: Parser_getChar_def strncasecmp_def tolower_def isupper_def code_def Let_def numeral_eq_Suc)
  ultimately show ?thesis by (simp add: number_ref_def)
qed

theorem reference_overruns_witness: "Parser_getChar 0 ''&#x41'' = None"
  using reference_overruns[of "''41''" 0] by simp

text \<open>The escaping of the printer (\<open>copy_with_escape\<close> of ixml/src/ixml.c).\<close>

definition escape_char :: "char \<Rightarrow> c_string" where
  "escape_char c =
     (if c = CHR ''<'' then ''&lt;''
      else if c = CHR ''>'' then ''&gt;''
      else if c = CHR ''&'' then ''&amp;''
      else if c = CHR 0x27 then ''&apos;''
      else if c = CHR 0x22 then ''&quot;''
      else [c])"

definition copy_with_escape :: "c_string \<Rightarrow> c_string \<Rightarrow> c_string" where
  "copy_with_escape buf p = buf @ concat (map escape_char p)"

lemma escape_Nil [simp]: "copy_with_escape buf [] = buf"
  by (simp add: copy_with_escape_def)

definition xml_bytes :: "int list \<Rightarrow> c_string" where
  "xml_bytes cs = concat (map Parser_intToUTF8 cs)"

lemma utf8_ascii: "0 \<le> c \<Longrightarrow> c \<le> 127 \<Longrightarrow> Parser_intToUTF8 c = [byte c]"
  by (simp add: Parser_intToUTF8_def)

lemma utf8_high:
  assumes "128 \<le> c" "c \<le> 0x10FFFF"
  shows "length (Parser_intToUTF8 c) > 1 \<and> (\<forall>b\<in>set (Parser_intToUTF8 c). 128 \<le> code b)"
proof -
  have b: "128 \<le> code (byte x)" if "128 \<le> x" "x < 256" for x
    using that by (simp add: byte_def)
  have s: "128 \<le> 0x80 OR x \<and> 0x80 OR x < (256::int)" if "0 \<le> x" "x < 64" for x :: int
    using that by - (rule upto_all[of _ 63], code_simp, simp_all)
  consider "c \<le> 0x7FF" | "0x800 \<le> c" "c \<le> 0xFFFF" | "0x10000 \<le> c" by linarith
  then show ?thesis
  proof cases
    case 1
    then have "128 \<le> code (byte (0xC0 OR drop_bit 6 c))"
      using lead_octet2[of "drop_bit 6 c"] assms by (intro b) (auto simp: drop_bit_eq_div)
    then show ?thesis
      using 1 assms b s[of "c AND 0x3f"] by (auto simp: Parser_intToUTF8_def and_low_mask)
  next
    case 2
    then have "128 \<le> code (byte (0xE0 OR drop_bit 12 c))"
      using lead_octet3[of "drop_bit 12 c"] by (intro b) (auto simp: drop_bit_eq_div)
    then show ?thesis
      using 2 b s[of "c AND 0x3f"] s[of "drop_bit 6 c AND 0x3f"] by (auto simp: Parser_intToUTF8_def and_low_mask)
  next
    case 3
    then have "128 \<le> code (byte (0xF0 OR drop_bit 18 c))"
      using lead_octet4[of "drop_bit 18 c"] assms by (intro b) (auto simp: drop_bit_eq_div)
    then show ?thesis
      using 3 assms b s[of "c AND 0x3f"] s[of "drop_bit 6 c AND 0x3f"] s[of "drop_bit 12 c AND 0x3f"]
      by (auto simp: Parser_intToUTF8_def and_low_mask)
  qed
qed

lemma escape_high: "128 \<le> code b \<Longrightarrow> escape_char b = [b]"
  by (auto simp: escape_char_def code_def)

lemma escape_high_all: "(\<And>b. b \<in> set u \<Longrightarrow> 128 \<le> code b) \<Longrightarrow> concat (map escape_char u) = u"
  by (induction u) (auto simp: escape_high)



text \<open>One escaped character is read as the character.\<close>

lemmas getChar_defs = Parser_getChar_def strncasecmp_def tolower_def isupper_def code_def Let_def

lemma getChar_special:
  assumes "c \<in> {CHR ''<'', CHR ''>'', CHR ''&'', CHR 0x27, CHR 0x22}"
  shows "Parser_getChar err (escape_char c @ t) = Some (int (code c), length (escape_char c))"
proof -
  consider "c = CHR ''<''" | "c = CHR ''>''" | "c = CHR ''&''" | "c = CHR 0x27" | "c = CHR 0x22"
    using assms by blast
  then show ?thesis
    by cases (simp_all add: escape_char_def getChar_defs)
qed

lemma escape_special_length:
  "c \<in> {CHR ''<'', CHR ''>'', CHR ''&'', CHR 0x27, CHR 0x22} \<Longrightarrow> length (escape_char c) > 1"
  by (auto simp: escape_char_def)

lemma getChar_plain:
  assumes "Parser_isXmlChar (int (code c))" "code c < 128" "c \<noteq> CHR ''&''"
  shows "Parser_getChar err (c # t) = Some (int (code c), 1)"
  using assms by (auto simp: Parser_getChar_def schar_def Parser_isXmlChar_def Let_def)

lemma getChar_high:
  assumes "128 \<le> c" "Parser_isXmlChar c"
  shows "Parser_getChar err (Parser_intToUTF8 c @ t) = Some (c, length (Parser_intToUTF8 c))"
proof -
  have c: "c \<le> 0x10FFFF" using assms by (auto simp: Parser_isXmlChar_def)
  obtain b u where bu: "Parser_intToUTF8 c = b # u" "128 \<le> code b"
    using utf8_high[OF assms(1) c] by (cases "Parser_intToUTF8 c") auto
  then have "schar b < 0" "b \<noteq> CHR ''&''" by (auto simp: schar_def code_def)
  then show ?thesis
    using utf8_roundtrip[of c err t] c assms bu by (simp add: Parser_getChar_def)
qed

lemma copy_token_char:
  assumes "Parser_isXmlChar c" and that: "0 \<le> len"
  defines "u \<equiv> Parser_intToUTF8 c"
  shows "copy_chars err (concat (map escape_char u) @ t) (int (length (concat (map escape_char u))) + len) buf =
    copy_chars err t len (buf @ u)"
proof (cases "128 \<le> c")
  case True
  have c: "c \<le> 0x10FFFF" using assms by (auto simp: Parser_isXmlChar_def)
  have e: "concat (map escape_char u) = u" using utf8_high[OF True c] by (auto simp: u_def intro: escape_high_all)
  have l: "length u > 1" using utf8_high[OF True c] by (simp add: u_def)
  then have "u \<noteq> []" by auto
  then show ?thesis
    unfolding e using getChar_high[OF True assms(1), of err t] that True l
    by (subst copy_chars.simps) (simp add: u_def)
next
  case False
  then have c: "0 < c" "c < 128" using assms by (auto simp: Parser_isXmlChar_def)
  let ?b = "byte c"
  have u: "u = [?b]" using c by (simp add: u_def utf8_ascii)
  have b: "int (code ?b) = c" using c by simp
  show ?thesis
  proof (cases "?b \<in> {CHR ''<'', CHR ''>'', CHR ''&'', CHR 0x27, CHR 0x22}")
    case True
    then have "escape_char ?b \<noteq> []" by (auto simp: escape_char_def)
    then show ?thesis
      using getChar_special[OF True, of err t] escape_special_length[OF True] that c b u
      by (subst copy_chars.simps) (simp add: utf8_ascii)
  next
    case no: False
    then have "escape_char ?b = [?b]" "?b \<noteq> CHR ''&''" by (auto simp: escape_char_def)
    moreover have "Parser_getChar err (?b # t) = Some (c, 1)"
      using getChar_plain[of ?b err t] calculation assms(1) b c by (metis of_nat_less_iff of_nat_numeral)
    ultimately show ?thesis
      using that c u by (subst copy_chars.simps) simp
  qed
qed

lemma copy_token_text:
  assumes "\<forall>c\<in>set cs. Parser_isXmlChar c"
  shows "copy_chars err (concat (map escape_char (xml_bytes cs)) @ t)
      (int (length (concat (map escape_char (xml_bytes cs))))) buf = Some (IXML_SUCCESS, buf @ xml_bytes cs)"
  using assms
proof (induction cs arbitrary: buf)
  case Nil
  then show ?case by (subst copy_chars.simps) (simp add: xml_bytes_def)
next
  case (Cons c cs)
  let ?e = "\<lambda>u. concat (map escape_char u)"
  have "xml_bytes (c # cs) = Parser_intToUTF8 c @ xml_bytes cs" by (simp add: xml_bytes_def)
  then show ?case
    using copy_token_char[of c "int (length (?e (xml_bytes cs)))" err "?e (xml_bytes cs) @ t" buf] Cons by simp
qed

text \<open>
  What the printer escapes, the parser reads back: for any text of XML characters in UTF-8,
  copying the token of its escaped form into the token buffer succeeds and gives the text.
\<close>

lemma text_escape_roundtrip:
  assumes "\<forall>c\<in>set cs. Parser_isXmlChar c" "cs \<noteq> []"
  shows "Parser_copyToken err (copy_with_escape [] (xml_bytes cs) @ t)
     (int (length (copy_with_escape [] (xml_bytes cs)))) [] = Some (IXML_SUCCESS, xml_bytes cs)"
proof -
  have "xml_bytes cs \<noteq> []"
  proof (cases cs)
    case (Cons c cs')
    then have "0 \<le> c" "c \<le> 0x7FFFFFFF" using assms(1) by (auto simp: Parser_isXmlChar_def)
    then have "Parser_intToUTF8 c \<noteq> []" by (simp add: Parser_intToUTF8_def)
    then show ?thesis using Cons by (simp add: xml_bytes_def)
  qed (use assms in simp)
  then have "concat (map escape_char (xml_bytes cs)) \<noteq> []"
    by (cases "xml_bytes cs") (auto simp: escape_char_def)
  then show ?thesis
    using copy_token_text[OF assms(1), of err t "[]"] by (simp add: Parser_copyToken_def copy_with_escape_def)
qed

end
