(* ===== verification/XmlParser.thy ===== *)
theory XmlParser
  imports XmlLexer
begin

section \<open>The XML parser (ixml/src/ixmlparser.c, second half)\<close>

text \<open>
  The parser turns the tokens of a document into a tree of nodes. Its state is the struct
  \<^verbatim>\<open>Parser\<close>: the positions and the token buffer (a \<open>lexer\<close>), the name of the last start tag, the
  stack of open elements with their namespaces, the node under which new nodes go, and an element
  that still waits for the definition of its namespace. The nodes made so far are a list; a pointer
  to a node is its index, the document node has index 0. The children of a node and its attributes
  are lists (sibling chains in the code, which only append here). Memory is granted.

  A fault (a read outside the text, a null pointer, a failed assertion) is \<^term>\<open>None\<close>.
\<close>

datatype node_type =
  eINVALID_NODE | eELEMENT_NODE | eATTRIBUTE_NODE | eTEXT_NODE | eCDATA_SECTION_NODE | eENTITY_REFERENCE_NODE
| eENTITY_NODE | ePROCESSING_INSTRUCTION_NODE | eCOMMENT_NODE | eDOCUMENT_NODE | eDOCUMENT_TYPE_NODE
| eDOCUMENT_FRAGMENT_NODE | eNOTATION_NODE

datatype PARSER_STATE = eELEMENT | eATTRIBUTE | eCONTENT

record attr_node =
  an_name :: c_string
  an_value :: "c_string option"
  an_prefix :: "c_string option"
  an_localName :: "c_string option"

record node =
  n_type :: node_type
  n_name :: c_string
  n_value :: "c_string option"
  n_namespaceURI :: "c_string option"
  n_prefix :: "c_string option"
  n_localName :: "c_string option"
  n_attrs :: "attr_node list"
  n_children :: "nat list"
  n_parent :: "nat option"

text \<open>The node that \<open>Parser_getNextNode\<close> fills in.\<close>

record new_node =
  nn_type :: node_type
  nn_name :: "c_string option"
  nn_value :: "c_string option"
  nn_prefix :: "c_string option"
  nn_localName :: "c_string option"

definition ixmlNode_init :: new_node where
  "ixmlNode_init =
     \<lparr>nn_type = eINVALID_NODE, nn_name = None, nn_value = None, nn_prefix = None, nn_localName = None\<rparr>"

record stack_item =
  si_element :: c_string
  si_prefix :: "c_string option"
  si_namespaceUri :: "c_string option"
  si_nsURIs :: "(c_string \<times> c_string) list"

record xml_parser =
  xp_lexer :: lexer
  xp_lastElem :: "c_string option"
  xp_needPrefix :: "nat option"
  xp_stack :: "stack_item list"
  xp_current :: nat
  xp_state :: PARSER_STATE
  xp_hasTopLevel :: bool
  xp_nodes :: "node list"

definition cur_ptr :: "xml_parser \<Rightarrow> c_string" where
  "cur_ptr p = lx_curPtr (xp_lexer p)"

definition set_cur :: "c_string \<Rightarrow> xml_parser \<Rightarrow> xml_parser" where
  "set_cur s p = p\<lparr>xp_lexer := (xp_lexer p)\<lparr>lx_curPtr := s\<rparr>\<rparr>"

definition save_cur :: "xml_parser \<Rightarrow> xml_parser" where
  "save_cur p = p\<lparr>xp_lexer := (xp_lexer p)\<lparr>lx_savePtr := cur_ptr p\<rparr>\<rparr>"

definition restore_cur :: "xml_parser \<Rightarrow> xml_parser" where
  "restore_cur p = set_cur (lx_savePtr (xp_lexer p)) p"

definition cur_token :: "xml_parser \<Rightarrow> c_string" where
  "cur_token p = lx_tokenBuf (xp_lexer p)"

definition next_token :: "int \<Rightarrow> xml_parser \<Rightarrow> (nat \<times> xml_parser) option" where
  "next_token err p =
     map_option (\<lambda>(n, x). (n, p\<lparr>xp_lexer := x\<rparr>)) (Parser_getNextToken err (xp_lexer p))"

subsection \<open>Elements and namespaces\<close>

definition Parser_pushElement :: "node \<Rightarrow> xml_parser \<Rightarrow> xml_parser" where
  "Parser_pushElement n p =
     p\<lparr>xp_stack := \<lparr>si_element = n_name n, si_prefix = n_prefix n, si_namespaceUri = n_namespaceURI n,
                    si_nsURIs = []\<rparr> # xp_stack p\<rparr>"

definition Parser_popElement :: "xml_parser \<Rightarrow> xml_parser" where
  "Parser_popElement p = p\<lparr>xp_stack := tl (xp_stack p)\<rparr>"

definition Parser_isValidEndElement :: "xml_parser \<Rightarrow> c_string \<Rightarrow> bool option" where
  "Parser_isValidEndElement p name =
     (case xp_stack p of [] \<Rightarrow> None | i # _ \<Rightarrow> Some (si_element i = name))"

definition isTopLevelElement :: "xml_parser \<Rightarrow> bool" where
  "isTopLevelElement p \<longleftrightarrow> xp_stack p = []"

definition Parser_setNodePrefixAndLocalName :: "c_string \<Rightarrow> c_string option \<times> c_string" where
  "Parser_setNodePrefixAndLocalName name =
     (case strchr_from (CHR '':'') name of
        None \<Rightarrow> (None, name)
      | Some t \<Rightarrow> (Some (take (length name - length t) name), tl t))"

text \<open>A prefix is compared with \<^verbatim>\<open>strcmp\<close>, which faults on a null pointer.\<close>

definition Parser_getNameSpace :: "stack_item \<Rightarrow> c_string option \<Rightarrow> c_string option option" where
  "Parser_getNameSpace pCur prefix =
     (case (si_prefix pCur, prefix) of
        (Some q, Some r) \<Rightarrow>
          Some (if q \<noteq> r then map_of (si_nsURIs pCur) r else si_namespaceUri pCur)
      | _ \<Rightarrow> None)"

definition set_namespace :: "nat \<Rightarrow> c_string option \<Rightarrow> xml_parser \<Rightarrow> xml_parser" where
  "set_namespace k uri p = p\<lparr>xp_nodes := (xp_nodes p)[k := (xp_nodes p ! k)\<lparr>n_namespaceURI := uri\<rparr>]\<rparr>"

definition Parser_addNamespace :: "nat \<Rightarrow> xml_parser \<Rightarrow> (int \<times> xml_parser) option" where
  "Parser_addNamespace k p =
     (case xp_stack p of
        [] \<Rightarrow> None
      | pCur # _ \<Rightarrow>
          (let pNode = xp_nodes p ! k in
           case n_prefix pNode of
             None \<Rightarrow>
               if n_name pNode \<noteq> si_element pCur then Some (IXML_FAILED, p)
               else if si_namespaceUri pCur \<noteq> None then
                 (if n_namespaceURI pNode \<noteq> None then None
                  else Some (IXML_SUCCESS, (set_namespace k (si_namespaceUri pCur) p)\<lparr>xp_needPrefix := None\<rparr>))
               else Some (IXML_SUCCESS, p\<lparr>xp_needPrefix := None\<rparr>)
           | Some pre \<Rightarrow>
               do { mismatch \<leftarrow> (if n_name pNode \<noteq> si_element pCur
                                then map_option (\<lambda>q. pre \<noteq> q) (si_prefix pCur) else Some False);
                    if mismatch then Some (IXML_FAILED, p)
                    else
                      do { uri \<leftarrow> Parser_getNameSpace pCur (si_prefix pCur);
                           Some (IXML_SUCCESS,
                             (if uri \<noteq> None then (set_namespace k uri p)\<lparr>xp_needPrefix := None\<rparr> else p)) } }))"

text \<open>A namespace definition replaces one of the same prefix or comes last.\<close>

fun define_ns :: "c_string \<Rightarrow> c_string \<Rightarrow> (c_string \<times> c_string) list \<Rightarrow> (c_string \<times> c_string) list" where
  "define_ns q uri [] = [(q, uri)]"
| "define_ns q uri ((r, v) # ns) = (if r = q then (r, uri) # ns else (r, v) # define_ns q uri ns)"

definition Parser_xmlNamespace ::
  "new_node \<Rightarrow> xml_parser \<Rightarrow> (int \<times> new_node \<times> xml_parser) option" where
  "Parser_xmlNamespace n p =
     (case (nn_name n, nn_value n) of
        (Some name, Some val) \<Rightarrow>
          (let finish = (\<lambda>n' p'. case xp_needPrefix p' of
                           None \<Rightarrow> Some (IXML_SUCCESS, n', p')
                         | Some k \<Rightarrow> map_option (\<lambda>(rc, p2). (rc, n', p2)) (Parser_addNamespace k p')) in
           if name = ''xmlns'' then
             (case xp_stack p of
                [] \<Rightarrow> None
              | i # is \<Rightarrow> finish n (p\<lparr>xp_stack := i\<lparr>si_namespaceUri := Some val\<rparr> # is\<rparr>))
           else if starts name ''xmlns:'' then
             (let (pre, loc) = Parser_setNodePrefixAndLocalName name;
                  n1 = n\<lparr>nn_prefix := pre, nn_localName := Some loc\<rparr> in
              case xp_stack p of
                [] \<Rightarrow> Some (IXML_FAILED, n1, p)
              | i # is \<Rightarrow>
                  finish n1
                    (p\<lparr>xp_stack := (if si_prefix i = Some loc then i\<lparr>si_namespaceUri := Some val\<rparr>
                                    else i\<lparr>si_nsURIs := define_ns loc val (si_nsURIs i)\<rparr>) # is\<rparr>))
           else finish n p)
      | _ \<Rightarrow> None)"

fun Parser_hasDefaultNamespace :: "stack_item list \<Rightarrow> c_string option" where
  "Parser_hasDefaultNamespace [] = None"
| "Parser_hasDefaultNamespace (i # is) =
     (if si_prefix i = None \<and> si_namespaceUri i \<noteq> None then si_namespaceUri i
      else Parser_hasDefaultNamespace is)"

text \<open>The result: whether the prefix is defined, and its namespace (possibly null).\<close>

fun Parser_ElementPrefixDefined :: "stack_item list \<Rightarrow> c_string \<Rightarrow> c_string option option" where
  "Parser_ElementPrefixDefined [] pre = None"
| "Parser_ElementPrefixDefined (i # is) pre =
     (if si_prefix i = Some pre then Some (si_namespaceUri i)
      else
        (case map_of (si_nsURIs i) pre of
           Some uri \<Rightarrow> Some (Some uri)
         | None \<Rightarrow> Parser_ElementPrefixDefined is pre))"

text \<open>A new element has no namespace yet; copying a null one faults.\<close>

definition Parser_setElementNamespace :: "nat \<Rightarrow> c_string option \<Rightarrow> xml_parser \<Rightarrow> xml_parser option" where
  "Parser_setElementNamespace k uri p =
     (if n_namespaceURI (xp_nodes p ! k) \<noteq> None then Some p
      else (case uri of None \<Rightarrow> None | Some u \<Rightarrow> Some (set_namespace k (Some u) p)))"

subsection \<open>Reading the next node\<close>

definition Parser_processSTag :: "int \<Rightarrow> new_node \<Rightarrow> xml_parser \<Rightarrow> (int \<times> new_node \<times> xml_parser) option" where
  "Parser_processSTag err n p =
     do { (k, p1) \<leftarrow> next_token err p;
          if k = 0 \<or> cur_token p1 = [] then Some (IXML_SYNTAX_ERR, n, p1)
          else
            (let name = cur_token p1;
                 (pre, loc) = Parser_setNodePrefixAndLocalName name;
                 n1 = n\<lparr>nn_name := Some name, nn_prefix := pre, nn_localName := Some loc, nn_value := None,
                        nn_type := eELEMENT_NODE\<rparr>;
                 p2 = save_cur (p1\<lparr>xp_lastElem := Some name\<rparr>) in
             do { (k2, p3) \<leftarrow> next_token err p2;
                  if k2 = 0 then Some (IXML_SYNTAX_ERR, n1, p3)
                  else if cur_token p3 = ''/>'' then Some (IXML_SUCCESS, n1, (restore_cur p3)\<lparr>xp_state := eELEMENT\<rparr>)
                  else if cur_token p3 = ''>'' then Some (IXML_SUCCESS, n1, p3\<lparr>xp_state := eCONTENT\<rparr>)
                  else Some (IXML_SUCCESS, n1, (restore_cur p3)\<lparr>xp_state := eATTRIBUTE\<rparr>) }) }"

definition Parser_processETag :: "int \<Rightarrow> new_node \<Rightarrow> xml_parser \<Rightarrow> (int \<times> new_node \<times> bool \<times> xml_parser) option" where
  "Parser_processETag err n p =
     do { (k, p1) \<leftarrow> next_token err p;
          if k = 0 \<or> cur_token p1 = [] then Some (IXML_SYNTAX_ERR, n, False, p1)
          else
            (let n1 = n\<lparr>nn_name := Some (cur_token p1), nn_value := None, nn_type := eELEMENT_NODE\<rparr>;
                 p2 = set_cur (Parser_skipWhiteSpaces (cur_ptr p1)) p1 in
             do { (k2, p3) \<leftarrow> next_token err p2;
                  if k2 = 0 \<or> cur_token p3 \<noteq> ''>'' then Some (IXML_SYNTAX_ERR, n1, False, p3)
                  else Some (IXML_SUCCESS, n1, True, p3) }) }"

text \<open>
  The characters of a CDATA section are tested as signed bytes, and the section is closed at the
  first one that fails: the code steps three bytes on from there, whatever they are.
\<close>

fun cdata_end :: "c_string \<Rightarrow> nat" where
  "cdata_end [] = 0"
| "cdata_end (c # s) =
     (if Parser_isXmlChar (schar c) \<and> \<not> starts (c # s) '']]>'' then Suc (cdata_end s) else 0)"

definition Parser_processCDSect :: "c_string \<Rightarrow> new_node \<Rightarrow> (int \<times> new_node \<times> c_string) option" where
  "Parser_processCDSect src n =
     (let start = drop 9 src; len = cdata_end start in
      if len > 0 \<and> drop len start \<noteq> [] then
        (if length start < len + 3 then None
         else Some (IXML_SUCCESS,
                    n\<lparr>nn_value := Some (take len start), nn_name := Some ''#cdata-section'',
                      nn_type := eCDATA_SECTION_NODE\<rparr>,
                    drop (len + 3) start))
      else Some (IXML_SYNTAX_ERR, n, src))"

fun content_length :: "c_string \<Rightarrow> nat" where
  "content_length [] = 0"
| "content_length (c # s) = (if c \<noteq> CHR ''<'' \<and> \<not> starts (c # s) '']]>'' then Suc (content_length s) else 0)"

definition Parser_processContent :: "int \<Rightarrow> new_node \<Rightarrow> xml_parser \<Rightarrow> (int \<times> new_node \<times> xml_parser) option" where
  "Parser_processContent err n p0 =
     (let p = save_cur p0; s = Parser_skipWhiteSpaces (cur_ptr p) in
      if s = [] then Some (IXML_SUCCESS, n, set_cur s p)
      else if cur s = CHR ''<'' then
        (if starts s ''<![CDATA['' then
           do { (rc, n1, t) \<leftarrow> Parser_processCDSect s n;
                if rc \<noteq> IXML_SUCCESS then Some (IXML_SYNTAX_ERR, n1, set_cur s p)
                else Some (IXML_SUCCESS, n1, set_cur t p) }
         else if starts s BEGIN_COMMENT then
           (case Parser_skipComment s of
              (rc, t) \<Rightarrow>
                if rc \<noteq> IXML_SUCCESS then Some (IXML_SYNTAX_ERR, n, set_cur s p)
                else Some (IXML_SUCCESS, n, set_cur t p))
         else if starts s BEGIN_PI then
           (case Parser_skipPI s of
              (rc, t) \<Rightarrow>
                if rc \<noteq> IXML_SUCCESS then Some (IXML_SYNTAX_ERR, n, set_cur s p)
                else Some (IXML_SUCCESS, n, set_cur t p))
         else Some (IXML_SUCCESS, n, (set_cur s p)\<lparr>xp_state := eELEMENT\<rparr>))
      else
        (let u = cur_ptr p; len = content_length u in
         if starts (drop len u) '']]>'' then Some (IXML_SYNTAX_ERR, n, p)
         else
           do { (rc, buf) \<leftarrow> Parser_copyToken err u (int len) [];
                let p1 = p\<lparr>xp_lexer := (xp_lexer p)\<lparr>lx_tokenBuf := buf\<rparr>\<rparr>;
                if rc \<noteq> IXML_SUCCESS \<or> buf = [] then Some (IXML_SYNTAX_ERR, n, p1)
                else Some (IXML_SUCCESS,
                       n\<lparr>nn_value := Some buf, nn_name := Some ''#text'', nn_type := eTEXT_NODE\<rparr>,
                       set_cur (drop len u) p1) }))"

text \<open>
  The test for illegal characters of an attribute value steps over the character behind an
  ampersand.
\<close>

fun attr_legal :: "c_string \<Rightarrow> bool" where
  "attr_legal [] = True"
| "attr_legal (c # s) =
     (if c = CHR ''<'' then False else if c = CHR ''&'' then attr_legal (tl s) else attr_legal s)"

text \<open>The value between the quotes, and the look ahead behind the attribute.\<close>

definition attribute_value :: "int \<Rightarrow> c_string \<Rightarrow> nat \<Rightarrow> (int \<times> c_string) option" where
  "attribute_value err s q =
     (if q = 0 then Some (IXML_SUCCESS, []) else Parser_copyToken err s (int q) [])"

definition attribute_end :: "int \<Rightarrow> new_node \<Rightarrow> xml_parser \<Rightarrow> (int \<times> new_node \<times> xml_parser) option" where
  "attribute_end err n p =
     do { (rc, n1, p1) \<leftarrow> Parser_xmlNamespace n p;
          if rc \<noteq> IXML_SUCCESS then Some (IXML_FAILED, n1, p1)
          else
            do { (k, p2) \<leftarrow> next_token err (save_cur p1);
                 if k = 0 then Some (IXML_SYNTAX_ERR, n1, p2)
                 else if cur_token p2 = ''<'' then Some (IXML_FAILED, n1, p2)
                 else if cur_token p2 \<noteq> ''>'' then Some (IXML_SUCCESS, n1, restore_cur p2)
                 else Some (IXML_SUCCESS, n1, p2\<lparr>xp_state := eCONTENT\<rparr>) } }"

definition Parser_processAttribute :: "int \<Rightarrow> new_node \<Rightarrow> xml_parser \<Rightarrow> (int \<times> new_node \<times> xml_parser) option" where
  "Parser_processAttribute err n p =
     (if cur_token p = [] then Some (IXML_SYNTAX_ERR, n, p)
      else
        do { ok \<leftarrow> Parser_isNameChar (fst (Parser_UTF8ToInt err (cur_token p))) False;
             if \<not> ok then Some (IXML_SYNTAX_ERR, n, p)
             else
               (let n1 = n\<lparr>nn_name := Some (cur_token p)\<rparr> in
                do { (k1, p1) \<leftarrow> next_token err p;
                     if k1 = 0 \<or> cur (cur_token p1) \<noteq> CHR ''='' then Some (IXML_SYNTAX_ERR, n1, p1)
                     else
                       do { (k2, p2) \<leftarrow> next_token err p1;
                            if k2 = 0 \<or> (cur (cur_token p2) \<noteq> CHR 0x22 \<and> cur (cur_token p2) \<noteq> CHR 0x27)
                            then Some (IXML_SYNTAX_ERR, n1, p2)
                            else
                              (let s = cur_ptr p2 in
                               case strstr s (cur_token p2) of
                                 None \<Rightarrow> Some (IXML_SYNTAX_ERR, n1, p2)
                               | Some q \<Rightarrow>
                                   if \<not> attr_legal (take q s) then Some (IXML_SYNTAX_ERR, n1, p2)
                                   else
                                     do { (rc, buf) \<leftarrow> attribute_value err s q;
                                          let p3 = p2\<lparr>xp_lexer := (xp_lexer p2)\<lparr>lx_tokenBuf := buf\<rparr>\<rparr>;
                                          if rc \<noteq> IXML_SUCCESS then Some (IXML_SYNTAX_ERR, n1, p3)
                                          else attribute_end err
                                                 (n1\<lparr>nn_value := Some buf, nn_type := eATTRIBUTE_NODE\<rparr>)
                                                 (set_cur (drop (q + 1) s) p3) }) } }) })"

definition Parser_getNextNode :: "int \<Rightarrow> xml_parser \<Rightarrow> (int \<times> new_node \<times> bool \<times> xml_parser) option" where
  "Parser_getNextNode err p =
     (let n = ixmlNode_init in
      if cur_ptr p = [] then Some (IXML_FILE_DONE, n, True, p)
      else if xp_state p = eCONTENT then
        map_option (\<lambda>(rc, n1, p1). (if rc \<noteq> IXML_SUCCESS then IXML_FAILED else IXML_SUCCESS, n1, False, p1))
          (Parser_processContent err n p)
      else
        do { (k, p1) \<leftarrow> next_token err (set_cur (Parser_skipWhiteSpaces (cur_ptr p)) p);
             if k = 0 \<and> xp_stack p1 = [] \<and> cur_ptr p1 = [] then Some (IXML_SUCCESS, n, False, p1)
             else if cur_token p1 = [] then Some (IXML_SYNTAX_ERR, n, False, p1)
             else if cur (cur_token p1) = CHR ''>'' then Some (IXML_SUCCESS, n, False, p1)
             else if cur_token p1 = ''</'' then Parser_processETag err n p1
             else if cur (cur_token p1) = CHR ''<'' then
               map_option (\<lambda>(rc, n1, p2). (rc, n1, False, p2)) (Parser_processSTag err n p1)
             else if cur_token p1 = ''/>'' then
               (case xp_lastElem p1 of
                  None \<Rightarrow> Some (IXML_SYNTAX_ERR, n, False, p1)
                | Some name \<Rightarrow>
                    Some (IXML_SUCCESS, n\<lparr>nn_name := Some name, nn_type := eELEMENT_NODE\<rparr>, True, p1))
             else if xp_state p1 = eATTRIBUTE \<and> xp_stack p1 \<noteq> [] then
               map_option (\<lambda>(rc, n1, p2). (if rc \<noteq> IXML_SUCCESS then IXML_SYNTAX_ERR else IXML_SUCCESS, n1, False, p2))
                 (Parser_processAttribute err n p1)
             else Some (IXML_SYNTAX_ERR, n, False, p1) })"

subsection \<open>Building the tree\<close>

definition blank_node :: "node_type \<Rightarrow> c_string \<Rightarrow> node" where
  "blank_node t name =
     \<lparr>n_type = t, n_name = name, n_value = None, n_namespaceURI = None, n_prefix = None, n_localName = None,
      n_attrs = [], n_children = [], n_parent = None\<rparr>"

definition ixmlNode_allowChildren :: "node_type \<Rightarrow> node_type \<Rightarrow> bool" where
  "ixmlNode_allowChildren t child =
     (case t of
        eATTRIBUTE_NODE \<Rightarrow> False | eTEXT_NODE \<Rightarrow> False | eCDATA_SECTION_NODE \<Rightarrow> False
      | eELEMENT_NODE \<Rightarrow> child \<noteq> eATTRIBUTE_NODE \<and> child \<noteq> eDOCUMENT_NODE
      | eDOCUMENT_NODE \<Rightarrow> child = eELEMENT_NODE
      | _ \<Rightarrow> True)"

text \<open>
  A new node goes to the end of the store and, if its type is allowed there, to the end of the
  children of the current node.
\<close>

definition create_node :: "node \<Rightarrow> xml_parser \<Rightarrow> nat \<times> xml_parser" where
  "create_node n p = (length (xp_nodes p), p\<lparr>xp_nodes := xp_nodes p @ [n]\<rparr>)"

definition append_child :: "nat \<Rightarrow> xml_parser \<Rightarrow> int \<times> xml_parser" where
  "append_child k p =
     (let cu = xp_current p; par = xp_nodes p ! cu in
      if \<not> ixmlNode_allowChildren (n_type par) (n_type (xp_nodes p ! k)) then (3, p)
      else (IXML_SUCCESS,
            p\<lparr>xp_nodes := (xp_nodes p)[k := (xp_nodes p ! k)\<lparr>n_parent := Some cu\<rparr>,
                                       cu := par\<lparr>n_children := n_children par @ [k]\<rparr>]\<rparr>))"

definition element_namespace :: "new_node \<Rightarrow> nat \<Rightarrow> xml_parser \<Rightarrow> xml_parser option" where
  "element_namespace n k p =
     (case nn_prefix n of
        Some pre \<Rightarrow>
          (case Parser_ElementPrefixDefined (xp_stack p) pre of
             None \<Rightarrow> Some (p\<lparr>xp_needPrefix := Some k\<rparr>)
           | Some uri \<Rightarrow> Parser_setElementNamespace k uri p)
      | None \<Rightarrow>
          (case Parser_hasDefaultNamespace (xp_stack p) of
             Some uri \<Rightarrow> Parser_setElementNamespace k (Some uri) p
           | None \<Rightarrow> Some (if xp_state p = eATTRIBUTE then p\<lparr>xp_needPrefix := Some k\<rparr> else p)))"

definition enter_element :: "nat \<Rightarrow> xml_parser \<Rightarrow> int \<times> xml_parser" where
  "enter_element k p =
     (let (rc, p1) = append_child k p in
      if rc \<noteq> IXML_SUCCESS then (rc, p1)
      else (IXML_SUCCESS, Parser_pushElement (xp_nodes p1 ! k) (p1\<lparr>xp_current := k\<rparr>)))"

definition Parser_processElementName :: "new_node \<Rightarrow> xml_parser \<Rightarrow> (int \<times> xml_parser) option" where
  "Parser_processElementName n p0 =
     (if xp_hasTopLevel p0 \<and> isTopLevelElement p0 then Some (IXML_SYNTAX_ERR, p0)
      else
        (case nn_name n of
           None \<Rightarrow> None
         | Some name \<Rightarrow>
             (let (k, p) = create_node ((blank_node (nn_type n) name)\<lparr>n_value := nn_value n,
                             n_localName := nn_localName n, n_prefix := nn_prefix n\<rparr>)
                             (save_cur (p0\<lparr>xp_hasTopLevel := True\<rparr>)) in
              map_option (enter_element k) (element_namespace n k p))))"

definition isDuplicateAttribute :: "c_string \<Rightarrow> xml_parser \<Rightarrow> bool" where
  "isDuplicateAttribute name p \<longleftrightarrow> name \<in> an_name ` set (n_attrs (xp_nodes p ! xp_current p))"

definition Parser_processAttributeName :: "new_node \<Rightarrow> xml_parser \<Rightarrow> (int \<times> xml_parser) option" where
  "Parser_processAttributeName n p =
     (case nn_name n of
        None \<Rightarrow> None
      | Some name \<Rightarrow>
          if isDuplicateAttribute name p then Some (IXML_SYNTAX_ERR, p)
          else
            (let cu = xp_current p; el = xp_nodes p ! cu;
                 attr = \<lparr>an_name = name, an_value = nn_value n, an_prefix = nn_prefix n,
                         an_localName = nn_localName n\<rparr> in
             Some (IXML_SUCCESS, p\<lparr>xp_nodes := (xp_nodes p)[cu := el\<lparr>n_attrs := n_attrs el @ [attr]\<rparr>]\<rparr>)))"

definition add_text :: "node_type \<Rightarrow> c_string \<Rightarrow> c_string option \<Rightarrow> xml_parser \<Rightarrow> int \<times> xml_parser" where
  "add_text t name val p =
     (let (k, p1) = create_node ((blank_node t name)\<lparr>n_value := val\<rparr>) p in append_child k p1)"

definition Parser_eTagVerification :: "new_node \<Rightarrow> xml_parser \<Rightarrow> (int \<times> xml_parser) option" where
  "Parser_eTagVerification n p =
     (case nn_name n of
        None \<Rightarrow> None
      | Some name \<Rightarrow>
          do { p1 \<leftarrow> (if nn_type n = eELEMENT_NODE
                     then map_option (\<lambda>ok. if ok then (True, Parser_popElement p) else (False, p))
                            (Parser_isValidEndElement p name)
                     else Some (True, p));
               if \<not> fst p1 then Some (IXML_SYNTAX_ERR, p)
               else
                 (let cu = xp_nodes p ! xp_current p in
                  if name = n_name cu
                  then map_option (\<lambda>k. (IXML_SUCCESS, (snd p1)\<lparr>xp_current := k\<rparr>)) (n_parent cu)
                  else Some (IXML_SYNTAX_ERR, snd p1)) })"

text \<open>
  One round of the loop: go on, or the end with a status. The loop is bounded by fuel; running out
  of it is a result of its own.
\<close>

datatype 'a round = Go 'a | Finished int

definition parse_round :: "int \<Rightarrow> xml_parser \<Rightarrow> xml_parser round option" where
  "parse_round err p =
     do { (rc, n, bETag, p1) \<leftarrow> Parser_getNextNode err p;
          if rc = IXML_SUCCESS then
            do { (rc2, p2) \<leftarrow>
                   (if \<not> bETag then
                      (case nn_type n of
                         eELEMENT_NODE \<Rightarrow> Parser_processElementName n p1
                       | eTEXT_NODE \<Rightarrow> Some (add_text eTEXT_NODE ''#text'' (nn_value n) p1)
                       | eCDATA_SECTION_NODE \<Rightarrow> Some (add_text eCDATA_SECTION_NODE ''#cdata-section'' (nn_value n) p1)
                       | eATTRIBUTE_NODE \<Rightarrow> Parser_processAttributeName n p1
                       | _ \<Rightarrow> Some (IXML_SUCCESS, p1))
                    else map_option (\<lambda>(rc3, p3). (rc3, if rc3 = IXML_SUCCESS then p3\<lparr>xp_state := eCONTENT\<rparr> else p3))
                           (Parser_eTagVerification n p1));
                 Some (if rc2 \<noteq> IXML_SUCCESS then Finished rc2 else Go p2) }
          else if bETag then Some (Finished (if xp_stack p1 \<noteq> [] then IXML_SYNTAX_ERR else IXML_SUCCESS))
          else Some (Finished IXML_FAILED) }"

datatype parse_result = Crash | Timeout | Parsed int "node list"

fun parse_loop :: "nat \<Rightarrow> int \<Rightarrow> xml_parser \<Rightarrow> parse_result" where
  "parse_loop 0 err p = Timeout"
| "parse_loop (Suc fuel) err p =
     (case parse_round err p of
        None \<Rightarrow> Crash
      | Some (Finished rc) \<Rightarrow> Parsed rc (xp_nodes p)
      | Some (Go p1) \<Rightarrow> parse_loop fuel err p1)"

definition Parser_init :: "c_string \<Rightarrow> xml_parser" where
  "Parser_init text =
     \<lparr>xp_lexer = \<lparr>lx_curPtr = text, lx_savePtr = [], lx_tokenBuf = []\<rparr>, xp_lastElem = None,
      xp_needPrefix = None, xp_stack = [], xp_current = 0, xp_state = eELEMENT, xp_hasTopLevel = False,
      xp_nodes = [blank_node eDOCUMENT_NODE ''#document'']\<rparr>"

definition Parser_parseDocument :: "nat \<Rightarrow> int \<Rightarrow> c_string \<Rightarrow> parse_result" where
  "Parser_parseDocument fuel err text =
     (let p = Parser_init text in
      case Parser_skipProlog text of
        (rc, s) \<Rightarrow> if rc \<noteq> IXML_SUCCESS then Parsed rc (xp_nodes p) else parse_loop fuel err (set_cur s p))"

subsection \<open>Termination\<close>

text \<open>
  A round that goes on has used up some of the text, or has left the state of reading content.
\<close>

definition progress :: "xml_parser \<Rightarrow> nat" where
  "progress p = 2 * length (cur_ptr p) + (if xp_state p = eCONTENT then 1 else 0)"

lemma cur_ptr_simps [simp]:
  "cur_ptr (set_cur s p) = s" "cur_ptr (save_cur p) = cur_ptr p"
  "cur_ptr (restore_cur p) = lx_savePtr (xp_lexer p)"
  "lx_savePtr (xp_lexer (save_cur p)) = cur_ptr p"
  "lx_savePtr (xp_lexer (set_cur s p)) = lx_savePtr (xp_lexer p)"
  "cur_ptr (xp_state_update f p) = cur_ptr p" "cur_ptr (xp_lastElem_update f1 p) = cur_ptr p"
  "cur_ptr (xp_needPrefix_update f2 p) = cur_ptr p" "cur_ptr (xp_stack_update f3 p) = cur_ptr p"
  "cur_ptr (xp_current_update f4 p) = cur_ptr p" "cur_ptr (xp_hasTopLevel_update f5 p) = cur_ptr p"
  "cur_ptr (xp_nodes_update f6 p) = cur_ptr p"
  by (simp_all add: cur_ptr_def set_cur_def save_cur_def restore_cur_def)

lemma skip_comment_length: "length (snd (Parser_skipComment s)) \<le> length s"
  by (simp add: Parser_skipComment_def split: option.split)

lemma skip_string_length: "length (snd (Parser_skipString s key)) \<le> length s"
  using skip_until_length[of s key] by (auto simp: Parser_skipString_def split: list.split)

lemma misc_loop_length: "length (snd (misc_loop s)) \<le> length s"
proof (induction s rule: misc_loop.induct)
  case (1 s)
  have "length (snd (snd (misc_round s))) \<le> length s"
    using skip_comment_length[of s] skip_string_length[of s END_PI] by (simp add: misc_round_def)
  then show ?case
    using 1[OF refl refl refl refl] skip_white_length[of "snd (snd (misc_round s))"]
    by (subst misc_loop.simps) (auto simp: Let_def)
qed

text \<open>No token that is only partly copied starts like a tag's end.\<close>

lemma not_letters: "Parser_isNameChar 62 False = Some False" "Parser_isNameChar 47 False = Some False"
  by code_simp+

lemma byte_eq: "0 \<le> c \<Longrightarrow> c \<le> 127 \<Longrightarrow> byte c = d \<Longrightarrow> c = int (code d)"
  using code_byte[of c] by auto

lemma UTF8ToInt_one:
  assumes "Parser_UTF8ToInt err s = (c, n)" "n \<le> 1" "-128 \<le> err" "err \<le> 127"
  shows "c \<le> 127"
  using assms by (auto simp: Parser_UTF8ToInt_def Let_def split: if_splits)

lemma letter_byte:
  assumes "Parser_isNameChar c False = Some True" "0 < c"
    "(c \<le> 127 \<and> d = byte c) \<or> (\<exists>u. Parser_intToUTF8 c = d # u)"
  shows "d \<noteq> CHR ''>'' \<and> d \<noteq> CHR ''/''"
proof (cases "c \<le> 127")
  case True
  then have "d = byte c" using assms by (auto simp: utf8_ascii)
  then show ?thesis using True assms byte_eq[of c d] not_letters by (auto simp: code_def)
next
  case False
  have "c \<le> 0x10FFFF"
    using assms(1) by (auto simp: Parser_isNameChar_def Letter_search split: if_splits)
  then have "128 \<le> code d" using utf8_high[of c] False assms by auto
  then show ?thesis by (auto simp: code_def)
qed


lemma copy_token_prefix:
  "copy_chars err s len buf = Some (rc, out) \<Longrightarrow> \<exists>t. out = buf @ t"
proof (induction "length s" arbitrary: s len buf rule: less_induct)
  case less
  show ?case
    using less.prems
    by (subst (asm) copy_chars.simps)
      (auto split: if_splits option.splits list.splits
        dest!: less.hyps[rotated])
qed

lemma letter_is_xml:
  assumes "Parser_isNameChar c False = Some True"
  shows "Parser_isXmlChar c \<and> 0 < c"
proof -
  have "list_all (\<lambda>(l, h). 58 \<le> l) Letter" by code_simp
  then have "58 \<le> c" "c \<le> 0xD7A3"
    using assms
    by (auto simp: Parser_isNameChar_def Letter_search in_ranges_def list_all_iff split: if_splits)
  then show ?thesis by (simp add: Parser_isXmlChar_def)
qed

lemma copied_name_start:
  assumes tok: "copy_chars err s len [] = Some (rc, d # ds)"
    and letter: "Parser_isNameChar (fst (Parser_UTF8ToInt err s)) False = Some True"
    and s: "cur s \<notin> {CHR ''&'', CHR ''>'', CHR ''/''}" and err: "-128 \<le> err" "err \<le> 127"
  shows "d \<noteq> CHR ''>'' \<and> d \<noteq> CHR ''/''"
proof -
  obtain i n where i: "Parser_UTF8ToInt err s = (i, n)" by force
  obtain c cl where c: "Parser_getChar err s = Some (c, cl)" "0 < c"
     "(cl = 1 \<and> d = byte c) \<or> (cl \<noteq> 1 \<and> (\<exists>u. Parser_intToUTF8 c = d # u))"
    using tok by (subst (asm) copy_chars.simps)
      (auto split: if_splits option.splits list.splits dest!: copy_token_prefix
        simp: Cons_eq_append_conv append_eq_Cons_conv, metis)
  moreover have small: "code (cur s) \<le> 255" using code_less[of "cur s"] by linarith
  ultimately consider "c = schar (cur s)" "cl = 1" "c \<le> 127" | "c = i" "cl = n"
    using s i letter letter_is_xml
    by (auto simp: Parser_getChar_def schar_def Let_def split: if_splits)
  then show ?thesis
  proof cases
    case 1
    then have "byte c = cur s" using c(2) small by (auto simp: schar_def byte_def code_def split: if_splits)
    then show ?thesis using c 1 s by auto
  next
    case 2
    then show ?thesis
      using letter_byte[of c d] letter i c UTF8ToInt_one[OF i _ err] by auto
  qed
qed

text \<open>What the next token leaves of the state, and that it uses up text.\<close>

lemma next_token_cases:
  assumes "next_token err p = Some (k, p1)"
  obtains x where "p1 = p\<lparr>xp_lexer := x\<rparr>" "length (lx_curPtr x) \<le> length (cur_ptr p)"
    "k \<noteq> 0 \<Longrightarrow> length (lx_curPtr x) < length (cur_ptr p)"
    "lx_savePtr x = lx_savePtr (xp_lexer p) \<or> length (lx_savePtr x) \<le> length (cur_ptr p)"
proof -
  obtain x where x: "Parser_getNextToken err (xp_lexer p) = Some (k, x)" "p1 = p\<lparr>xp_lexer := x\<rparr>"
    using assms by (auto simp: next_token_def)
  obtain rc s where s: "Parser_skipMisc (cur_ptr p) = (rc, s)" by force
  then have l: "length s \<le> length (cur_ptr p)"
    using misc_loop_length[of "cur_ptr p"] by (simp add: Parser_skipMisc_def)
  from l have "k \<noteq> 0 \<Longrightarrow> cur_ptr p \<noteq> [] \<Longrightarrow> length s - k < length (cur_ptr p)"
    by (cases "s = []") (auto simp: less_diff_conv2 intro: order.strict_trans2[OF diff_less])
  then show ?thesis
    using x l s that[of x]
    by (auto simp: Parser_getNextToken_def cur_ptr_def Let_def split: if_splits bind_splits)
qed

lemma copy_token_plain:
  assumes "Parser_isXmlChar (int (code c))" "code c < 128" "c \<noteq> CHR ''&''" "0 < len"
  shows "copy_chars err (c # t) len buf = copy_chars err t (len - 1) (buf @ [c])"
proof -
  have "byte (int (code c)) = c" "c \<noteq> NUL" "0 < code c"
    using assms by (auto simp: byte_def code_def Parser_isXmlChar_def)
  then show ?thesis
    using getChar_plain[OF assms(1-3)] assms(4) by (subst copy_chars.simps) simp
qed

lemma partial_token:
  assumes "next_token err p = Some (0, p1)" "cur_token p1 = d # ds" "-128 \<le> err" "err \<le> 127"
  shows "d \<noteq> CHR ''>'' \<and> d \<noteq> CHR ''/''"
proof -
  obtain x where x: "Parser_getNextToken err (xp_lexer p) = Some (0, x)" "lx_tokenBuf x = d # ds"
    using assms by (auto simp: next_token_def cur_token_def)
  obtain rc s where s: "Parser_skipMisc (lx_curPtr (xp_lexer p)) = (rc, s)" by force
  obtain n rc2 where n: "token_length err s = Some n" "Parser_copyToken err s (int n) [] = Some (rc2, d # ds)"
      "rc2 \<noteq> IXML_SUCCESS \<or> n = 0"
    using x s by (auto simp: Parser_getNextToken_def Let_def split: if_splits bind_splits)
  have c: "copy_chars err s (int n) [] = Some (rc2, d # ds)" "n > 0" "rc2 \<noteq> IXML_SUCCESS"
    using n by (auto simp: Parser_copyToken_def split: if_splits)
  show ?thesis
  proof (cases "cur s \<in> {CHR 0x22, CHR 0x27, CHR ''<'', CHR ''='', CHR ''/'', CHR ''>''}")
    case False
    then have "Parser_isNameChar (fst (Parser_UTF8ToInt err s)) False = Some True"
      using n(1) c(2) by (auto simp: token_length_def split: prod.splits bind_splits if_splits)
    moreover have "cur s \<noteq> CHR ''&''"
    proof
      assume "cur s = CHR ''&''"
      then have "Parser_UTF8ToInt err s = (38, 1)" by (simp add: Parser_UTF8ToInt_def octet_def code_def)
      moreover have "Parser_isNameChar 38 False = Some False" by code_simp
      ultimately show False using False n(1) c(2)
        by (simp add: token_length_def)
    qed
    ultimately show ?thesis using copied_name_start[OF c(1)] False assms(3,4) by blast
  next
    case True
    then obtain t where t: "s = cur s # t" by (cases s) auto
    define e where "e = cur s"
    then have e: "Parser_isXmlChar (int (code e))" "code e < 128" "e \<noteq> CHR ''&''"
      using True by (auto simp: Parser_isXmlChar_def code_def)
    have cc: "copy_chars err t (int n - 1) [e] = Some (rc2, d # ds)"
      using c t copy_token_plain[OF e, of "int n" err t "[]"] by (simp add: e_def)
    then have "d = e" using copy_token_prefix by fastforce
    moreover have "\<not> (e = CHR ''>'')" "\<not> (e = CHR ''/'')"
    proof -
      have z: "copy_chars err u 0 b = Some (IXML_SUCCESS, b)" for u b by (subst copy_chars.simps) simp
      show "\<not> (e = CHR ''>'')" using cc c n(1) z by (auto simp: token_length_def simp flip: e_def)
      show "\<not> (e = CHR ''/'')"
      proof
        assume "e = CHR ''/''"
        then have "n = 2" "cur t = CHR ''>''"
          using n(1) c(2) t by (auto simp: token_length_def e_def split: if_splits)
        then show False using cc c(3) z copy_token_plain[of "CHR ''>''" 1 err "tl t" "[e]"]
          by (cases t) (auto simp: Parser_isXmlChar_def code_def)
      qed
    qed
    ultimately show ?thesis by simp
  qed
qed

lemma cur_ptr_lexer [simp]: "cur_ptr (p\<lparr>xp_lexer := x\<rparr>) = lx_curPtr x"
  by (simp add: cur_ptr_def)

lemma STag_progress:
  assumes "Parser_processSTag err n p = Some (IXML_SUCCESS, n', p')"
  shows "length (cur_ptr p') < length (cur_ptr p)"
proof -
  obtain k p1 where 1: "next_token err p = Some (k, p1)" "k \<noteq> 0"
    using assms by (auto simp: Parser_processSTag_def split: bind_splits if_splits)
  define p2 where "p2 = save_cur (p1\<lparr>xp_lastElem := Some (cur_token p1)\<rparr>)"
  obtain k2 p3 where 2: "next_token err p2 = Some (k2, p3)"
     "cur_ptr p' = cur_ptr p3 \<or> cur_ptr p' = lx_savePtr (xp_lexer p3)"
    using assms 1 by (auto simp: Parser_processSTag_def p2_def Let_def split: bind_splits if_splits prod.splits)
  have "length (cur_ptr p1) < length (cur_ptr p)" using 1 by (auto elim: next_token_cases)
  moreover have "length (cur_ptr p') \<le> length (cur_ptr p1)"
    using next_token_cases[OF 2(1)] 2(2) by (fastforce simp: p2_def)
  ultimately show ?thesis by simp
qed

lemma ETag_progress:
  assumes "Parser_processETag err n p = Some (IXML_SUCCESS, n', b, p')"
  shows "length (cur_ptr p') < length (cur_ptr p)"
proof -
  obtain k p1 k2 p3 where 1: "next_token err p = Some (k, p1)" "k \<noteq> 0"
    "next_token err (set_cur (Parser_skipWhiteSpaces (cur_ptr p1)) p1) = Some (k2, p')"
    using assms by (auto simp: Parser_processETag_def Let_def split: bind_splits if_splits)
  then show ?thesis
    using skip_white_length[of "cur_ptr p1"] next_token_cases[OF 1(1)] next_token_cases[OF 1(3)]
    by (metis cur_ptr_lexer cur_ptr_simps(1) dual_order.strict_trans2 order.trans)
qed

lemma namespace_cur:
  "Parser_xmlNamespace n p = Some (rc, n', p') \<Longrightarrow> cur_ptr p' = cur_ptr p \<and> xp_state p' = xp_state p"
  by (auto simp: Parser_xmlNamespace_def Parser_addNamespace_def set_namespace_def Let_def
      split: option.splits if_splits list.splits prod.splits bind_splits)

lemma token_step:
  assumes "next_token err p = Some (k, q)"
  shows "length (cur_ptr q) \<le> length (cur_ptr p)" "k \<noteq> 0 \<Longrightarrow> length (cur_ptr q) < length (cur_ptr p)"
    "length (lx_savePtr (xp_lexer q)) \<le> max (length (lx_savePtr (xp_lexer p))) (length (cur_ptr p))"
    "xp_state q = xp_state p"
  using assms by (auto elim!: next_token_cases)

lemma attribute_end_progress:
  assumes "attribute_end err n p = Some (IXML_SUCCESS, n', p')"
  shows "length (cur_ptr p') \<le> length (cur_ptr p)"
proof -
  obtain n1 p1 k p2 where 1: "Parser_xmlNamespace n p = Some (IXML_SUCCESS, n1, p1)"
    and 2: "next_token err (save_cur p1) = Some (k, p2)"
      "cur_ptr p' = cur_ptr p2 \<or> cur_ptr p' = lx_savePtr (xp_lexer p2)"
    using assms by (auto simp: attribute_end_def split: bind_splits if_splits)
  then show ?thesis using token_step[OF 2(1)] namespace_cur[OF 1] by auto
qed

lemma Attribute_progress:
  assumes "Parser_processAttribute err n p = Some (IXML_SUCCESS, n', p')"
  shows "length (cur_ptr p') < length (cur_ptr p)"
proof -
  obtain k1 p1 k2 p2 q n2 p4 where
    1: "next_token err p = Some (k1, p1)" "k1 \<noteq> 0" "next_token err p1 = Some (k2, p2)" and
    2: "cur_ptr p4 = drop (q + 1) (cur_ptr p2)" "attribute_end err n2 p4 = Some (IXML_SUCCESS, n', p')"
    using assms unfolding Parser_processAttribute_def Let_def
    by (clarsimp split: bind_splits if_splits option.splits) (metis cur_ptr_simps(1) add.commute plus_1_eq_Suc)
  have "length (cur_ptr p') \<le> length (cur_ptr p4)" using attribute_end_progress[OF 2(2)] .
  also have "\<dots> \<le> length (cur_ptr p2)" using 2(1) by simp
  also have "\<dots> \<le> length (cur_ptr p1)" using token_step(1)[OF 1(3)] .
  also have "\<dots> < length (cur_ptr p)" using token_step(2)[OF 1(1,2)] .
  finally show ?thesis .
qed

lemma content_length_pos:
  "u \<noteq> [] \<Longrightarrow> cur u \<noteq> CHR ''<'' \<Longrightarrow> \<not> starts (drop (content_length u) u) '']]>'' \<Longrightarrow> 0 < content_length u"
  by (cases u) auto

lemma skip_white_cur: "Parser_skipWhiteSpaces u = s \<Longrightarrow> cur u = CHR ''<'' \<Longrightarrow> s = u"
  by (cases u) (auto simp: Parser_skipWhiteSpaces_def is_white_def)

lemma CDSect_progress:
  "Parser_processCDSect s n = Some (IXML_SUCCESS, n', t) \<Longrightarrow> length t < length s"
  by (auto simp: Parser_processCDSect_def Let_def split: if_splits)

lemma comment_progress: "Parser_skipComment s = (IXML_SUCCESS, t) \<Longrightarrow> length t < length s"
  by (auto simp: Parser_skipComment_def dest!: strstr_bound split: option.splits if_splits)

lemma strncmp_map_tolower: "strncmp n a b = 0 \<Longrightarrow> strncmp n (map tolower a) (map tolower b) = 0"
proof (induction n a b rule: strncmp.induct)
  case (2 n a b)
  have "cur (map tolower s) = tolower (cur s)" for s by (cases s) (auto simp: tolower_def isupper_def)
  then show ?case using 2 code_eq_iff by (auto simp: map_tl split: if_splits)
qed simp

lemma starts_starts_nocase: "starts s key \<Longrightarrow> starts_nocase s key"
  by (simp add: starts_def starts_nocase_def strncasecmp_def strncmp_map_tolower)

lemma PI_progress: "Parser_skipPI s = (IXML_SUCCESS, t) \<Longrightarrow> starts s BEGIN_PI \<Longrightarrow> length t < length s"
  by (auto simp: Parser_skipPI_def starts_starts_nocase dest!: strstr_bound split: option.splits if_splits)

lemma Content_progress:
  assumes "Parser_processContent err n p = Some (IXML_SUCCESS, n', p')" "cur_ptr p \<noteq> []" "xp_state p = eCONTENT"
  shows "progress p' < progress p"
proof -
  define s where "s = Parser_skipWhiteSpaces (cur_ptr p)"
  have l: "length s \<le> length (cur_ptr p)" by (simp add: s_def skip_white_length)
  have lt: "0 < content_length (cur_ptr p)"
    if "cur s \<noteq> CHR ''<''" "\<not> starts (drop (content_length (cur_ptr p)) (cur_ptr p)) '']]>''"
    using that content_length_pos[OF assms(2)] skip_white_cur[of "cur_ptr p" s] by (metis s_def)
  have "length (cur_ptr p') < length (cur_ptr p) \<or> xp_state p' \<noteq> eCONTENT \<and> length (cur_ptr p') \<le> length (cur_ptr p)"
    using assms(1,2) lt l CDSect_progress[of s n n'] comment_progress[of s] PI_progress[of s]
    by (auto simp: Parser_processContent_def Let_def simp flip: s_def split: if_splits bind_splits prod.splits)
  then show ?thesis using assms(3) by (auto simp: progress_def)
qed

lemma getNextNode_progress:
  assumes "Parser_getNextNode err p = Some (IXML_SUCCESS, n, b, p')" "-128 \<le> err" "err \<le> 127"
  shows "if xp_state p = eCONTENT then progress p' < progress p \<and> \<not> b else length (cur_ptr p') < length (cur_ptr p)"
proof (cases "xp_state p = eCONTENT")
  case True
  then show ?thesis
    using assms Content_progress[of err ixmlNode_init p n p']
    by (auto simp: Parser_getNextNode_def Let_def split: if_splits)
next
  case False
  let ?p0 = "set_cur (Parser_skipWhiteSpaces (cur_ptr p)) p"
  obtain k p1 where 1: "next_token err ?p0 = Some (k, p1)"
    using assms False by (auto simp: Parser_getNextNode_def Let_def split: if_splits bind_splits)
  have l: "length (cur_ptr p1) \<le> length (cur_ptr p)"
    using token_step(1)[OF 1] skip_white_length[of "cur_ptr p"] by simp
  have k: "k \<noteq> 0 \<Longrightarrow> length (cur_ptr p1) < length (cur_ptr p)"
    using token_step(2)[OF 1] skip_white_length[of "cur_ptr p"] by simp
  have k0: "cur (cur_token p1) = CHR ''>'' \<or> cur_token p1 = ''/>'' \<Longrightarrow> k \<noteq> 0"
    using partial_token[of err ?p0 p1] 1 assms(2,3) by (cases "cur_token p1") auto
  have "length (cur_ptr p') < length (cur_ptr p)"
    using assms(1) 1 False l k k0 STag_progress[of err ixmlNode_init p1 n p'] ETag_progress[of err ixmlNode_init p1 n b p']
      Attribute_progress[of err ixmlNode_init p1 n p']
    by (auto simp: Parser_getNextNode_def Let_def split: if_splits bind_splits option.splits)
  then show ?thesis using False by simp
qed

lemma element_namespace_keeps:
  "element_namespace n k p = Some p' \<Longrightarrow> cur_ptr p' = cur_ptr p \<and> xp_state p' = xp_state p"
  by (auto simp: element_namespace_def Parser_setElementNamespace_def set_namespace_def
      split: option.splits if_splits)

lemma enter_element_keeps:
  "enter_element k p = (rc, p') \<Longrightarrow> cur_ptr p' = cur_ptr p \<and> xp_state p' = xp_state p"
  by (auto simp: enter_element_def append_child_def Parser_pushElement_def Let_def split: if_splits)

lemma state_save [simp]: "xp_state (save_cur p) = xp_state p"
  by (simp add: save_cur_def)

lemma element_keeps:
  "Parser_processElementName n p = Some (rc, p') \<Longrightarrow> progress p' = progress p"
  by (auto simp: Parser_processElementName_def create_node_def progress_def
      dest!: element_namespace_keeps enter_element_keeps split: if_splits option.splits)

lemma attribute_keeps:
  "Parser_processAttributeName n p = Some (rc, p') \<Longrightarrow> progress p' = progress p"
  by (auto simp: Parser_processAttributeName_def progress_def Let_def split: if_splits option.splits)

lemma text_keeps: "add_text t name val p = (rc, p') \<Longrightarrow> progress p' = progress p"
  by (auto simp: add_text_def create_node_def append_child_def progress_def Let_def split: if_splits)

lemma eTag_cur: "Parser_eTagVerification n p = Some (rc, p') \<Longrightarrow> cur_ptr p' = cur_ptr p"
  by (auto simp: Parser_eTagVerification_def Parser_popElement_def Let_def split: if_splits bind_splits option.splits)

lemma round_progress:
  assumes "parse_round err p = Some (Go p')" "-128 \<le> err" "err \<le> 127"
  shows "progress p' < progress p"
proof -
  obtain n b p1 where 1: "Parser_getNextNode err p = Some (IXML_SUCCESS, n, b, p1)"
    using assms(1) by (auto simp: parse_round_def split: bind_splits if_splits)
  note g = getNextNode_progress[OF 1 assms(2,3)]
  show ?thesis
  proof (cases b)
    case True
    then have l: "length (cur_ptr p1) < length (cur_ptr p)" using g by (auto split: if_splits)
    obtain p2 where "Parser_eTagVerification n p1 = Some (IXML_SUCCESS, p2)" "p' = p2\<lparr>xp_state := eCONTENT\<rparr>"
      using assms(1) 1 True by (auto simp: parse_round_def split: bind_splits if_splits)
    then show ?thesis using l eTag_cur[of n p1 _ p2] by (auto simp: progress_def)
  next
    case False
    then have l: "progress p1 < progress p" using g by (auto simp: progress_def split: if_splits)
    have "progress p' = progress p1"
      using assms(1) 1 False
      by (auto simp: parse_round_def dest: element_keeps attribute_keeps text_keeps
          split: bind_splits if_splits node_type.splits)
    then show ?thesis using l by simp
  qed
qed

lemma parse_loop_ends:
  assumes "-128 \<le> err" "err \<le> 127"
  shows "progress p < fuel \<Longrightarrow> parse_loop fuel err p \<noteq> Timeout"
proof (induction fuel arbitrary: p)
  case (Suc fuel)
  then show ?case
    using round_progress[OF _ assms, of p] by (auto split: option.split round.split)
qed simp

lemma doctype_loop_length: "doctype_loop s num = Some (m, t) \<Longrightarrow> length t \<le> length s"
proof (induction s num rule: doctype_loop.induct)
  case (2 c s num)
  then show ?case
    using strchr_from_length[of "CHR 0x22" s] by (fastforce split: if_splits option.splits)
qed simp

lemma skip_doctype_length: "length (snd (Parser_skipDocType s)) \<le> length s"
  using doctype_loop_length[of s 1] by (auto simp: Parser_skipDocType_def split: option.split)

lemma skip_prolog_length: "length (snd (Parser_skipProlog s)) \<le> length s"
proof -
  define s1 where "s1 = Parser_skipWhiteSpaces s"
  define r1 where "r1 = (if starts s1 XMLDECL then Parser_skipXMLDecl s1 else (IXML_SUCCESS, s1))"
  define r2 where "r2 = Parser_skipMisc (snd r1)"
  define r3 where "r3 = (if fst r2 = IXML_SUCCESS \<and> starts (snd r2) BEGIN_DOCTYPE
                          then Parser_skipDocType (tl (snd r2)) else r2)"
  have "length (snd r1) \<le> length s1"
    using skip_string_length[of s1 END_PI] skip_white_length[of "snd (Parser_skipString s1 END_PI)"]
    by (simp add: r1_def Parser_skipXMLDecl_def case_prod_beta)
  moreover have "length (snd r2) \<le> length (snd r1)" "length (snd (Parser_skipMisc (snd r3))) \<le> length (snd r3)"
    using misc_loop_length by (simp_all add: r2_def Parser_skipMisc_def)
  moreover have "length (snd r3) \<le> length (snd r2)"
    using skip_doctype_length[of "tl (snd r2)"] by (auto simp: r3_def)
  moreover have "length s1 \<le> length s" by (simp add: s1_def skip_white_length)
  moreover have "Parser_skipProlog s = (if fst r1 \<noteq> IXML_SUCCESS then r1
      else if fst r3 = IXML_SUCCESS then Parser_skipMisc (snd r3) else r3)"
    by (auto simp: Parser_skipProlog_def r1_def r2_def r3_def s1_def Let_def split: prod.splits)
  ultimately show ?thesis by simp
qed



end
