(* ===== verification/XmlPrinter.thy ===== *)
theory XmlPrinter
  imports XmlParser
begin

section \<open>Printing documents (ixml/src/ixml.c) and reading them back\<close>

text \<open>
  A node with everything below it is a tree; a pointer to a node stands for the node and the
  siblings that follow it, so the functions take a list of trees. A tree has its type, name and
  value (a string; the printer treats a null value like an empty one), its attributes, which are
  attribute nodes, and its children.
\<close>

datatype dom_tree =
  DomNode (dt_type: node_type) (dt_name: c_string) (dt_value: c_string)
    (dt_attrs: "dom_tree list") (dt_children: "dom_tree list")

abbreviation (input) NEWLINE :: c_string where "NEWLINE \<equiv> [CHR 0x0D, CHR 0x0A]"

definition has_type :: "dom_tree list \<Rightarrow> node_type \<Rightarrow> bool" where
  "has_type ts t = (case ts of [] \<Rightarrow> False | n # _ \<Rightarrow> dt_type n = t)"

fun ixmlPrintDomTreeRecursive :: "dom_tree list \<Rightarrow> c_string" where
  "ixmlPrintDomTreeRecursive [] = []"
| "ixmlPrintDomTreeRecursive (DomNode t name val atts children # siblings) =
     (case t of
        eTEXT_NODE \<Rightarrow> copy_with_escape [] val
      | eCDATA_SECTION_NODE \<Rightarrow> ''<![CDATA['' @ val @ '']]>''
      | ePROCESSING_INSTRUCTION_NODE \<Rightarrow>
          ''<?'' @ name @ '' '' @ copy_with_escape [] val @ ''?>'' @ [CHR 0x0A]
      | eDOCUMENT_NODE \<Rightarrow> ixmlPrintDomTreeRecursive children
      | eATTRIBUTE_NODE \<Rightarrow>
          name @ [CHR ''='', CHR 0x22] @ copy_with_escape [] val @ [CHR 0x22] @
          (if siblings \<noteq> [] then '' '' @ ixmlPrintDomTreeRecursive siblings else [])
      | eELEMENT_NODE \<Rightarrow>
          ''<'' @ name @ (if atts \<noteq> [] then '' '' @ ixmlPrintDomTreeRecursive atts else []) @
          (if has_type children eELEMENT_NODE then ''>'' @ NEWLINE else ''>'') @
          ixmlPrintDomTreeRecursive children @
          ''</'' @ name @ (if has_type siblings eTEXT_NODE then ''>'' else ''>'' @ NEWLINE) @
          ixmlPrintDomTreeRecursive siblings
      | _ \<Rightarrow> [])"

text \<open>The two printers of a single node differ in the line ends of elements.\<close>

definition print_node :: "c_string \<Rightarrow> c_string \<Rightarrow> dom_tree \<Rightarrow> c_string" where
  "print_node nl1 nl2 node =
     (if dt_type node \<in> {eTEXT_NODE, eCDATA_SECTION_NODE, ePROCESSING_INSTRUCTION_NODE, eDOCUMENT_NODE}
      then ixmlPrintDomTreeRecursive [node]
      else if dt_type node = eATTRIBUTE_NODE
      then dt_name node @ [CHR ''='', CHR 0x22] @ copy_with_escape [] (dt_value node) @ [CHR 0x22]
      else if dt_type node = eELEMENT_NODE
      then ''<'' @ dt_name node @
           (if dt_attrs node \<noteq> [] then '' '' @ ixmlPrintDomTreeRecursive (dt_attrs node) else []) @
           (if has_type (dt_children node) eELEMENT_NODE then ''>'' @ nl1 else ''>'') @
           ixmlPrintDomTreeRecursive (dt_children node) @ ''</'' @ dt_name node @ ''>'' @ nl2
      else [])"

definition ixmlPrintDomTree :: "dom_tree \<Rightarrow> c_string" where
  "ixmlPrintDomTree node = print_node NEWLINE NEWLINE node"

definition ixmlDomTreetoString :: "dom_tree \<Rightarrow> c_string" where
  "ixmlDomTreetoString node = print_node [] [] node"

definition XML_PROLOG :: c_string where
  "XML_PROLOG = ''<?xml version='' @ [CHR 0x22] @ ''1.0'' @ [CHR 0x22] @ ''?>'' @ NEWLINE"

definition ixmlPrintDocument :: "dom_tree \<Rightarrow> c_string" where
  "ixmlPrintDocument doc = XML_PROLOG @ ixmlPrintDomTree doc"

definition ixmlDocumenttoString :: "dom_tree \<Rightarrow> c_string" where
  "ixmlDocumenttoString doc = XML_PROLOG @ ixmlDomTreetoString doc"

definition ixmlPrintNode :: "dom_tree \<Rightarrow> c_string" where
  "ixmlPrintNode node = ixmlPrintDomTree node"

definition ixmlNodetoString :: "dom_tree \<Rightarrow> c_string" where
  "ixmlNodetoString node = ixmlDomTreetoString node"

text \<open>Parsing from a buffer: an empty one is refused.\<close>

definition ixmlParseBufferEx :: "nat \<Rightarrow> int \<Rightarrow> c_string \<Rightarrow> parse_result" where
  "ixmlParseBufferEx fuel err buffer =
     (if buffer = [] then Parsed 105 [] else Parser_parseDocument fuel err buffer)"

text \<open>When a node of the store is a given tree.\<close>

definition attr_pairs :: "dom_tree list \<Rightarrow> (c_string \<times> c_string option) list" where
  "attr_pairs as = map (\<lambda>a. (dt_name a, Some (dt_value a))) as"

fun is_tree :: "node list \<Rightarrow> nat \<Rightarrow> dom_tree \<Rightarrow> bool"
  and is_forest :: "node list \<Rightarrow> nat list \<Rightarrow> dom_tree list \<Rightarrow> bool" where
  "is_tree ns k (DomNode t name val atts children) \<longleftrightarrow>
     k < length ns \<and> n_type (ns ! k) = t \<and> n_name (ns ! k) = name \<and>
     n_value (ns ! k) = (if t = eTEXT_NODE \<or> t = eCDATA_SECTION_NODE then Some val else None) \<and>
     map (\<lambda>a. (an_name a, an_value a)) (n_attrs (ns ! k)) = attr_pairs atts \<and>
     is_forest ns (n_children (ns ! k)) children"
| "is_forest ns [] [] \<longleftrightarrow> True"
| "is_forest ns (k # ks) (t # ts) \<longleftrightarrow> is_tree ns k t \<and> is_forest ns ks ts"
| "is_forest ns [] (t # ts) \<longleftrightarrow> False"
| "is_forest ns (k # ks) [] \<longleftrightarrow> False"

subsection \<open>Tokens of printed documents\<close>

definition name_start :: "char \<Rightarrow> bool" where
  "name_start c \<longleftrightarrow> isalpha c \<or> c = CHR ''_''"

definition name_part :: "char \<Rightarrow> bool" where
  "name_part c \<longleftrightarrow> name_start c \<or> isdigit c \<or> c = CHR ''-'' \<or> c = CHR ''.''"

definition plain_name :: "c_string \<Rightarrow> bool" where
  "plain_name s = (case s of [] \<Rightarrow> False | c # t \<Rightarrow> name_start c \<and> list_all name_part t)"

lemma plain_nameE:
  assumes "plain_name s"
  obtains c t where "s = c # t" "name_start c" "list_all name_part s"
  using assms by (cases s) (auto simp: plain_name_def name_part_def)

text \<open>A character that ends a name here.\<close>

definition name_stop :: "char \<Rightarrow> bool" where
  "name_stop c \<longleftrightarrow> c \<in> {CHR ''>'', CHR '' '', CHR ''=''}"

lemma UTF8_ascii: "code c < 128 \<Longrightarrow> Parser_UTF8ToInt err (c # s) = (int (code c), 1)"
  by (simp add: Parser_UTF8ToInt_def octet_def)

lemma name_code: "name_part c \<Longrightarrow> code c < 128" "name_start c \<Longrightarrow> code c < 128"
  by (auto simp: name_part_def name_start_def ctype_defs code_def)

lemma name_part_char: "name_part c \<Longrightarrow> Parser_isNameChar (int (code c)) True = Some True"
  by (auto simp: isNameChar_ascii name_part_def name_start_def ctype_defs code_def)

lemma name_start_char: "name_start c \<Longrightarrow> Parser_isNameChar (int (code c)) b = Some True"
  by (auto simp: isNameChar_ascii name_start_def ctype_defs code_def)

lemma name_stop_char: "name_stop c \<Longrightarrow> Parser_isNameChar (int (code c)) True = Some False \<and> code c < 128"
  by (auto simp: isNameChar_ascii name_stop_def code_def)

lemma name_length_plain:
  assumes "list_all name_part w" "name_stop d" "i \<le> length w"
  shows "name_length err (w @ d # t) i = Some (length w)"
  using assms(3)
proof (induction "length w - i" arbitrary: i)
  case 0
  then have "i = length w" by simp
  then show ?case
    using name_stop_char[OF assms(2)] by (subst name_length.simps) (simp add: UTF8_ascii)
next
  case (Suc n)
  then have i: "i < length w" by simp
  then obtain c where c: "drop i (w @ d # t) = c # drop (Suc i) (w @ d # t)" "c = w ! i"
    by (simp add: Cons_nth_drop_Suc flip: Cons_nth_drop_Suc)
  have "name_part c" using i c(2) assms(1) by (simp add: list_all_length)
  then show ?case
    using Suc i name_part_char[of c] name_code(1)[of c]
    by (subst name_length.simps) (simp add: c(1) UTF8_ascii del: drop_append)
qed

definition plain_text :: "char \<Rightarrow> bool" where
  "plain_text c \<longleftrightarrow> 32 \<le> code c \<and> code c < 128 \<and> c \<noteq> CHR ''&''"

lemma copy_plain:
  "list_all plain_text w \<Longrightarrow> copy_chars err (w @ t) (int (length w)) buf = Some (IXML_SUCCESS, buf @ w)"
proof (induction w arbitrary: buf)
  case Nil
  then show ?case by (subst copy_chars.simps) simp
next
  case (Cons c w)
  then have "Parser_isXmlChar (int (code c))" "code c < 128" "c \<noteq> CHR ''&''"
    by (auto simp: plain_text_def Parser_isXmlChar_def)
  then show ?case
    using copy_token_plain[of c "int (length (c # w))" err "w @ t" buf] Cons by simp
qed

lemma name_plain_text: "name_part c \<Longrightarrow> plain_text c"
  by (auto simp: plain_text_def name_part_def name_start_def ctype_defs code_def)

text \<open>White space in front of a token is skipped.\<close>

definition token_start :: "c_string \<Rightarrow> bool" where
  "token_start s \<longleftrightarrow>
     s \<noteq> [] \<and> \<not> is_white (hd s) \<and> (hd s = CHR ''<'' \<longrightarrow> cur (tl s) \<noteq> CHR ''!'' \<and> cur (tl s) \<noteq> CHR ''?'')"

lemma tolower_mark:
  assumes "d \<in> {CHR ''<'', CHR ''!'', CHR ''?''}"
  shows "tolower c = d \<longleftrightarrow> c = d"
proof -
  have "code (tolower c) \<noteq> code d" if "isupper c"
    using that assms by (auto simp: tolower_def isupper_def code_def)
  moreover have "\<not> isupper d" using assms by (auto simp: isupper_def code_def)
  ultimately show ?thesis by (cases "isupper c") (auto simp: tolower_def)
qed

lemma starts_mark:
  assumes "starts_nocase s (CHR ''<'' # d # key)" "d \<in> {CHR ''!'', CHR ''?''}"
  shows "cur s = CHR ''<'' \<and> cur (tl s) = d"
proof -
  have low: "cur (map tolower u) = tolower (cur u)" for u by (cases u) (auto simp: tolower_def isupper_def)
  have m: "tolower (CHR ''<'') = CHR ''<''" "tolower d = d" using assms(2) by (auto simp: tolower_mark)
  have "tolower (cur s) = CHR ''<''" "tolower (cur (tl s)) = d"
    using assms low[of s] low[of "tl s"] m
    by (auto simp: starts_nocase_def strncasecmp_def map_tl code_eq_iff split: if_splits)
  then show ?thesis using assms(2) tolower_mark by auto
qed

lemma skip_misc_tokens:
  assumes ws: "list_all is_white ws" and s: "token_start s"
  shows "Parser_skipMisc (ws @ s) = (IXML_SUCCESS, s)"
proof -
  have no: "\<not> starts_nocase (ws @ s) (CHR ''<'' # d # key)" if "d = CHR ''!'' \<or> d = CHR ''?''" for d key
    using starts_mark[of "ws @ s" d key] that ws s
    by (cases ws) (auto simp: token_start_def is_white_def neq_Nil_conv)
  have "misc_round (ws @ s) = (True, IXML_SUCCESS, ws @ s)"
    using no by (simp add: misc_round_def)
  moreover have "Parser_skipWhiteSpaces (ws @ s) = s"
    using ws s by (cases s) (auto simp: Parser_skipWhiteSpaces_def token_start_def list_all_iff dropWhile_append2)
  ultimately show ?thesis
    by (simp add: Parser_skipMisc_def misc_loop.simps[of "ws @ s"])
qed

lemma get_token:
  assumes "Parser_skipMisc (lx_curPtr x) = (IXML_SUCCESS, w @ t)" "w \<noteq> []" "lx_curPtr x \<noteq> []"
    "token_length err (w @ t) = Some (length w)" "list_all plain_text w" "hd w \<noteq> CHR ''/''"
  shows "Parser_getNextToken err x = Some (length w, x\<lparr>lx_curPtr := t, lx_tokenBuf := w\<rparr>)"
proof -
  have "Parser_copyToken err (w @ t) (int (length w)) [] = Some (IXML_SUCCESS, w)"
    using copy_plain[OF assms(5), of err t "[]"] assms(2) by (simp add: Parser_copyToken_def)
  moreover have "cur (w @ t) \<noteq> CHR ''/''" using assms(2,6) by (cases w) auto
  ultimately show ?thesis using assms by (simp add: Parser_getNextToken_def)
qed

lemma next_token_plain:
  assumes "cur_ptr p = ws @ w @ t" "list_all is_white ws" "token_start (w @ t)"
    "token_length err (w @ t) = Some (length w)" "list_all plain_text w" "hd w \<noteq> CHR ''/''" "w \<noteq> []"
  shows "next_token err p = Some (length w, p\<lparr>xp_lexer := (xp_lexer p)\<lparr>lx_curPtr := t, lx_tokenBuf := w\<rparr>\<rparr>)"
proof -
  have "Parser_skipMisc (lx_curPtr (xp_lexer p)) = (IXML_SUCCESS, w @ t)"
    using skip_misc_tokens[OF assms(2,3)] assms(1) by (simp add: cur_ptr_def)
  then show ?thesis
    using get_token[of "xp_lexer p" w t err] assms by (simp add: next_token_def cur_ptr_def)
qed

definition with_token :: "c_string \<Rightarrow> c_string \<Rightarrow> xml_parser \<Rightarrow> xml_parser" where
  "with_token w t p = p\<lparr>xp_lexer := (xp_lexer p)\<lparr>lx_curPtr := t, lx_tokenBuf := w\<rparr>\<rparr>"

lemma token_open:
  assumes "cur_ptr p = ws @ CHR ''<'' # c # t" "list_all is_white ws" "name_start c"
  shows "next_token err p = Some (1, with_token ''<'' (c # t) p)"
proof -
  have "c \<noteq> CHR ''!''" "c \<noteq> CHR ''?''" "code c \<noteq> 47"
    using assms(3) by (auto simp: name_start_def ctype_defs code_def)
  moreover have "plain_text (CHR ''<'')" by code_simp
  ultimately show ?thesis
    using next_token_plain[of p ws "''<''" "c # t" err] assms name_start_char[of c False] name_code(2)[of c]
    by (auto simp: with_token_def token_start_def token_length_def UTF8_ascii is_white_def)
qed

lemma token_close:
  assumes "cur_ptr p = ws @ CHR ''<'' # CHR ''/'' # t" "list_all is_white ws"
  shows "next_token err p = Some (2, with_token ''</'' t p)"
  using next_token_plain[of p ws "''</''" t err] assms
  by (simp add: with_token_def token_start_def token_length_def UTF8_ascii is_white_def plain_text_def code_def)

lemma token_mark:
  assumes "cur_ptr p = ws @ c # t" "list_all is_white ws" "c \<in> {CHR ''>'', CHR ''='', CHR 0x22}"
  shows "next_token err p = Some (1, with_token [c] t p)"
  using next_token_plain[of p ws "[c]" t err] assms
  by (auto simp: with_token_def token_start_def token_length_def is_white_def plain_text_def code_def)

lemma token_name:
  assumes "cur_ptr p = ws @ w @ d # t" "list_all is_white ws" "plain_name w" "name_stop d"
  shows "next_token err p = Some (length w, with_token w (d # t) p)"
proof -
  obtain c u where w: "w = c # u" "name_start c" "list_all name_part w" using assms(3) by (rule plain_nameE)
  have c: "\<not> is_white c" "c \<noteq> CHR ''<''" "c \<noteq> CHR ''/''" "c \<noteq> CHR 0x22" "c \<noteq> CHR 0x27" "c \<noteq> CHR ''=''" "c \<noteq> CHR ''>''"
    using w(2) by (auto simp: name_start_def ctype_defs code_def is_white_def)
  have "name_length err (w @ d # t) 1 = Some (length w)"
    using name_length_plain[OF w(3) assms(4), of 1 err t] w(1) by simp
  then have "token_length err (w @ d # t) = Some (length w)"
    using c w name_start_char[OF w(2), of False] name_code(2)[OF w(2)]
    by (simp add: token_length_def UTF8_ascii)
  moreover have "list_all plain_text w" using w(3) name_plain_text by (auto simp: list_all_iff)
  ultimately show ?thesis
    using next_token_plain[of p ws w "d # t" err] assms c w(1) by (simp add: with_token_def token_start_def)
qed


lemma with_token_simps [simp]:
  "cur_ptr (with_token w t p) = t" "cur_token (with_token w t p) = w"
  "xp_state (with_token w t p) = xp_state p" "xp_stack (with_token w t p) = xp_stack p"
  "xp_nodes (with_token w t p) = xp_nodes p" "xp_current (with_token w t p) = xp_current p"
  "xp_needPrefix (with_token w t p) = xp_needPrefix p" "xp_hasTopLevel (with_token w t p) = xp_hasTopLevel p"
  "xp_lastElem (with_token w t p) = xp_lastElem p"
  "lx_savePtr (xp_lexer (with_token w t p)) = lx_savePtr (xp_lexer p)"
  by (simp_all add: with_token_def cur_token_def)

lemma position_simps [simp]:
  "xp_state (set_cur t p) = xp_state p" "xp_stack (set_cur t p) = xp_stack p"
  "xp_nodes (set_cur t p) = xp_nodes p" "xp_current (set_cur t p) = xp_current p"
  "xp_needPrefix (set_cur t p) = xp_needPrefix p" "xp_hasTopLevel (set_cur t p) = xp_hasTopLevel p"
  "xp_stack (save_cur p) = xp_stack p"
  "xp_nodes (save_cur p) = xp_nodes p" "xp_current (save_cur p) = xp_current p"
  "xp_needPrefix (save_cur p) = xp_needPrefix p" "xp_hasTopLevel (save_cur p) = xp_hasTopLevel p"
  "xp_state (restore_cur p) = xp_state p" "xp_stack (restore_cur p) = xp_stack p"
  "xp_nodes (restore_cur p) = xp_nodes p" "xp_current (restore_cur p) = xp_current p"
  "xp_needPrefix (restore_cur p) = xp_needPrefix p" "xp_hasTopLevel (restore_cur p) = xp_hasTopLevel p"
  by (simp_all add: set_cur_def save_cur_def restore_cur_def)

subsection \<open>Rounds over printed documents\<close>

text \<open>
  Where the parser stands: the rest of the text, its state, the nodes, the current one, the names
  of the open elements, and the element that waits for a namespace. Printed documents have no
  namespaces here.
\<close>

definition plain_item :: "c_string \<Rightarrow> stack_item" where
  "plain_item nm = \<lparr>si_element = nm, si_prefix = None, si_namespaceUri = None, si_nsURIs = []\<rparr>"

definition at ::
  "xml_parser \<Rightarrow> c_string \<Rightarrow> PARSER_STATE \<Rightarrow> node list \<Rightarrow> nat \<Rightarrow> c_string list \<Rightarrow> nat option \<Rightarrow> bool" where
  "at p s st ns c path np \<longleftrightarrow>
     cur_ptr p = s \<and> xp_state p = st \<and> xp_nodes p = ns \<and> xp_current p = c \<and>
     xp_stack p = map plain_item path \<and> xp_needPrefix p = np \<and> (xp_hasTopLevel p \<or> path = [])"

definition add_child :: "nat \<Rightarrow> node \<Rightarrow> node list \<Rightarrow> node list" where
  "add_child c nd ns =
     ns[c := (ns ! c)\<lparr>n_children := n_children (ns ! c) @ [length ns]\<rparr>] @ [nd\<lparr>n_parent := Some c\<rparr>]"

definition elem_node :: "c_string \<Rightarrow> node" where
  "elem_node nm = (blank_node eELEMENT_NODE nm)\<lparr>n_localName := Some nm\<rparr>"

abbreviation rounds :: "int \<Rightarrow> xml_parser \<Rightarrow> xml_parser \<Rightarrow> bool" where
  "rounds err \<equiv> (\<lambda>p q. parse_round err p = Some (Go q))\<^sup>*\<^sup>*"

lemma round_step: "parse_round err p = Some (Go q) \<Longrightarrow> rounds err p q"
  by (rule r_into_rtranclp)

lemma round_markup:
  assumes p: "at p (ws @ CHR ''<'' # c # t) eCONTENT ns k path np" and ws: "list_all is_white ws"
    and c: "c \<noteq> CHR ''!''" "c \<noteq> CHR ''?''"
  shows "\<exists>q. rounds err p q \<and> at q (CHR ''<'' # c # t) eELEMENT ns k path np \<and> xp_hasTopLevel q = xp_hasTopLevel p"
proof -
  have s: "Parser_skipWhiteSpaces (ws @ CHR ''<'' # c # t) = CHR ''<'' # c # t"
    using ws by (simp add: Parser_skipWhiteSpaces_def list_all_iff is_white_def dropWhile_append2)
  let ?q = "(set_cur (CHR ''<'' # c # t) (save_cur p))\<lparr>xp_state := eELEMENT\<rparr>"
  have "parse_round err p = Some (Go ?q)"
    using p c s
    by (simp add: at_def parse_round_def Parser_getNextNode_def Parser_processContent_def Let_def starts_def
        code_eq_iff ixmlNode_init_def)
  then show ?thesis using p by (intro exI[of _ ?q]) (auto simp: at_def intro: round_step)
qed

lemma plain_name_prefix: "plain_name nm \<Longrightarrow> Parser_setNodePrefixAndLocalName nm = (None, nm)"
proof -
  assume "plain_name nm"
  moreover have colon: "\<not> name_part (CHR '':'')" by code_simp
  ultimately have "CHR '':'' \<notin> set nm"
    using colon by (auto elim!: plain_nameE simp: list_all_iff)
  moreover have "CHR '':'' \<notin> set s \<Longrightarrow> strchr_from (CHR '':'') s = None" for s by (induction s) auto
  ultimately show ?thesis by (simp add: Parser_setNodePrefixAndLocalName_def)
qed

lemma plain_stack: "Parser_hasDefaultNamespace (map plain_item path) = None"
  by (induction path) (auto simp: plain_item_def)

lemma getNextNode_STag:
  assumes p: "at p (CHR ''<'' # nm @ d # t) eELEMENT ns k path None" and nm: "plain_name nm" "name_stop d"
  shows "Parser_getNextNode err p =
    map_option (\<lambda>(rc, n1, p2). (rc, n1, False, p2))
      (Parser_processSTag err ixmlNode_init (with_token ''<'' (nm @ d # t) (set_cur (CHR ''<'' # nm @ d # t) p)))"
proof -
  obtain c u where w: "nm = c # u" "name_start c" using nm(1) by (rule plain_nameE)
  have s: "Parser_skipWhiteSpaces (CHR ''<'' # nm @ d # t) = CHR ''<'' # nm @ d # t"
    by (simp add: Parser_skipWhiteSpaces_def is_white_def)
  have "next_token err (set_cur (CHR ''<'' # nm @ d # t) p) =
      Some (1, with_token ''<'' (nm @ d # t) (set_cur (CHR ''<'' # nm @ d # t) p))"
    using token_open[of "set_cur (CHR ''<'' # nm @ d # t) p" "[]" c "u @ d # t" err] w by simp
  then show ?thesis using p s by (simp add: Parser_getNextNode_def at_def)
qed

definition tag_state :: "char \<Rightarrow> PARSER_STATE" where
  "tag_state d = (if d = CHR ''>'' then eCONTENT else eATTRIBUTE)"

definition after_tag :: "char \<Rightarrow> c_string \<Rightarrow> c_string" where
  "after_tag d t = (if d = CHR ''>'' then t else d # t)"

text \<open>Behind the name of an element comes its end or, after a blank, an attribute.\<close>

definition attr_follows :: "c_string \<Rightarrow> bool" where
  "attr_follows t \<longleftrightarrow> (\<exists>w e u. t = w @ e # u \<and> plain_name w \<and> name_stop e)"

lemma look_ahead:
  assumes "cur_ptr p = d # t" "d = CHR ''>'' \<or> (d = CHR '' '' \<and> attr_follows t)"
  shows "\<exists>n w u. next_token err p = Some (Suc n, with_token w u p) \<and>
    (d = CHR ''>'' \<longrightarrow> w = ''>'' \<and> u = t) \<and> (d \<noteq> CHR ''>'' \<longrightarrow> w \<noteq> ''>'' \<and> w \<noteq> ''/>'' \<and> w \<noteq> ''<'')"
proof (cases "d = CHR ''>''")
  case True
  then show ?thesis using token_mark[of p "[]" "CHR ''>''" t err] assms(1) by simp
next
  case False
  then obtain w e u where t: "d = CHR '' ''" "t = w @ e # u" "plain_name w" "name_stop e"
    using assms(2) by (auto simp: attr_follows_def)
  obtain c v where w: "w = c # v" "name_start c" using t(3) by (rule plain_nameE)
  have "next_token err p = Some (Suc (length v), with_token w (e # u) p)"
    using token_name[of p "[CHR '' '']" w e u err] assms(1) t w(1) by (simp add: is_white_def)
  moreover have "w \<noteq> ''>''" "w \<noteq> ''/>''" "w \<noteq> ''<''"
    using w by (auto simp: name_start_def ctype_defs code_def)
  ultimately show ?thesis using False by blast
qed

lemma process_STag:
  assumes p: "cur_ptr p = nm @ d # t" and nm: "plain_name nm"
    and d: "d = CHR ''>'' \<or> (d = CHR '' '' \<and> attr_follows t)"
  shows "\<exists>q. Parser_processSTag err n p = Some (IXML_SUCCESS,
      n\<lparr>nn_name := Some nm, nn_prefix := None, nn_localName := Some nm, nn_value := None,
        nn_type := eELEMENT_NODE\<rparr>, q) \<and>
    cur_ptr q = after_tag d t \<and> xp_state q = tag_state d \<and> xp_nodes q = xp_nodes p \<and> xp_stack q = xp_stack p \<and>
    xp_current q = xp_current p \<and> xp_needPrefix q = xp_needPrefix p \<and> xp_hasTopLevel q = xp_hasTopLevel p"
proof -
  obtain c u where w: "nm = c # u" using nm by (rule plain_nameE)
  let ?p1 = "with_token nm (d # t) p"
  let ?p2 = "save_cur (?p1\<lparr>xp_lastElem := Some nm\<rparr>)"
  have 1: "next_token err p = Some (length nm, ?p1)"
    using token_name[of p "[]" nm d t err] p nm d by (auto simp: name_stop_def)
  obtain m w2 u2 where 2: "next_token err ?p2 = Some (Suc m, with_token w2 u2 ?p2)"
    "d = CHR ''>'' \<longrightarrow> w2 = ''>'' \<and> u2 = t" "d \<noteq> CHR ''>'' \<longrightarrow> w2 \<noteq> ''>'' \<and> w2 \<noteq> ''/>'' \<and> w2 \<noteq> ''<''"
    using look_ahead[of ?p2 d t err] d by auto
  show ?thesis
    using 1 2 w plain_name_prefix[OF nm]
    by (cases "d = CHR ''>''") (auto simp: Parser_processSTag_def Let_def tag_state_def after_tag_def)
qed


lemma append_created:
  assumes "c < length ns" "xp_nodes p = ns @ [nd]" "xp_current p = c"
    "ixmlNode_allowChildren (n_type (ns ! c)) (n_type nd)"
  shows "append_child (length ns) p = (IXML_SUCCESS, p\<lparr>xp_nodes := add_child c nd ns\<rparr>)"
proof -
  have "(ns @ [nd])[length ns := nd\<lparr>n_parent := Some c\<rparr>,
      c := (ns ! c)\<lparr>n_children := n_children (ns ! c) @ [length ns]\<rparr>] = add_child c nd ns"
    using assms(1) by (simp add: add_child_def list_update_append)
  then show ?thesis using assms by (simp add: append_child_def Let_def nth_append)
qed

lemma round_start:
  assumes p: "at p (CHR ''<'' # nm @ d # t) eELEMENT ns c path None" and nm: "plain_name nm"
    and d: "d = CHR ''>'' \<or> (d = CHR '' '' \<and> attr_follows t)"
    and c: "c < length ns" "n_type (ns ! c) = eELEMENT_NODE \<or> n_type (ns ! c) = eDOCUMENT_NODE"
    and top: "xp_hasTopLevel p \<longrightarrow> path \<noteq> []"
  shows "\<exists>q. rounds err p q \<and> at q (after_tag d t) (tag_state d) (add_child c (elem_node nm) ns) (length ns)
     (nm # path) (if d = CHR ''>'' then None else Some (length ns))"
proof -
  have stop: "name_stop d" using d by (auto simp: name_stop_def)
  let ?p1 = "with_token ''<'' (nm @ d # t) (set_cur (CHR ''<'' # nm @ d # t) p)"
  obtain q where q: "Parser_processSTag err ixmlNode_init ?p1 = Some (IXML_SUCCESS,
      ixmlNode_init\<lparr>nn_name := Some nm, nn_prefix := None, nn_localName := Some nm, nn_value := None,
        nn_type := eELEMENT_NODE\<rparr>, q)"
    "cur_ptr q = after_tag d t" "xp_state q = tag_state d" "xp_nodes q = ns" "xp_stack q = map plain_item path"
    "xp_current q = c" "xp_needPrefix q = None" "xp_hasTopLevel q = xp_hasTopLevel p"
    using process_STag[of ?p1 nm d t err ixmlNode_init] nm d p by (auto simp: at_def)
  let ?k = "length ns"
  let ?np = "if d = CHR ''>'' then None else Some ?k"
  define q1 where "q1 = (save_cur (q\<lparr>xp_hasTopLevel := True\<rparr>))\<lparr>xp_nodes := ns @ [elem_node nm]\<rparr>"
  have el: "(blank_node eELEMENT_NODE nm)\<lparr>n_value := None, n_localName := Some nm, n_prefix := None\<rparr> = elem_node nm"
    by (simp add: elem_node_def blank_node_def)
  have ns: "element_namespace (ixmlNode_init\<lparr>nn_name := Some nm, nn_prefix := None, nn_localName := Some nm,
      nn_value := None, nn_type := eELEMENT_NODE\<rparr>) ?k q1 = Some (q1\<lparr>xp_needPrefix := ?np\<rparr>)"
    using q plain_stack[of path] by (auto simp: element_namespace_def q1_def tag_state_def)
  have app: "append_child ?k (q1\<lparr>xp_needPrefix := ?np\<rparr>) =
      (IXML_SUCCESS, q1\<lparr>xp_needPrefix := ?np, xp_nodes := add_child c (elem_node nm) ns\<rparr>)"
    using append_created[of c ns "q1\<lparr>xp_needPrefix := ?np\<rparr>" "elem_node nm"] c q
    by (auto simp: q1_def ixmlNode_allowChildren_def elem_node_def blank_node_def)
  have nth: "add_child c (elem_node nm) ns ! ?k = (elem_node nm)\<lparr>n_parent := Some c\<rparr>"
    by (simp add: add_child_def nth_append)
  let ?r = "Parser_pushElement ((elem_node nm)\<lparr>n_parent := Some c\<rparr>)
      (q1\<lparr>xp_needPrefix := ?np, xp_nodes := add_child c (elem_node nm) ns, xp_current := ?k\<rparr>)"
  have "parse_round err p = Some (Go ?r)"
    using getNextNode_STag[OF p nm stop, of err] q(1) q(4-) ns app nth top el
    by (simp add: parse_round_def Parser_processElementName_def create_node_def enter_element_def
        isTopLevelElement_def ixmlNode_init_def flip: q1_def)
  moreover have "at ?r (after_tag d t) (tag_state d) (add_child c (elem_node nm) ns) ?k (nm # path) ?np"
    using q by (auto simp: at_def Parser_pushElement_def q1_def elem_node_def blank_node_def plain_item_def)
  ultimately show ?thesis using round_step by blast
qed


text \<open>A text in UTF-8 of XML characters.\<close>

definition xml_text :: "c_string \<Rightarrow> bool" where
  "xml_text v \<longleftrightarrow> (\<exists>cs. v = xml_bytes cs \<and> (\<forall>c\<in>set cs. Parser_isXmlChar c))"

abbreviation escaped :: "c_string \<Rightarrow> c_string" where
  "escaped v \<equiv> copy_with_escape [] v"

lemma escaped_marks: "c \<in> set (escaped v) \<Longrightarrow> c \<noteq> CHR ''<'' \<and> c \<noteq> CHR ''>'' \<and> c \<noteq> CHR 0x22"
  by (auto simp: copy_with_escape_def escape_char_def split: if_splits)

lemma copy_escaped:
  assumes "xml_text v" "v \<noteq> []"
  shows "Parser_copyToken err (escaped v @ t) (int (length (escaped v))) [] = Some (IXML_SUCCESS, v)"
proof -
  obtain cs where "v = xml_bytes cs" "\<forall>c\<in>set cs. Parser_isXmlChar c" using assms(1) by (auto simp: xml_text_def)
  moreover then have "cs \<noteq> []" using assms(2) by (auto simp: xml_bytes_def)
  ultimately show ?thesis using text_escape_roundtrip by blast
qed

lemma escaped_Nil_iff [simp]: "escaped v = [] \<longleftrightarrow> v = []"
  by (cases v) (auto simp: copy_with_escape_def escape_char_def)

lemma strstr_char: "q \<notin> set s \<Longrightarrow> strstr (s @ q # t) [q] = Some (length s)"
  by (induction s) auto

lemma attr_legal_plain: "CHR ''<'' \<notin> set s \<Longrightarrow> attr_legal s"
proof (induction s rule: attr_legal.induct)
  case (2 c s)
  then show ?case by (cases s) auto
qed simp

lemma strncmp_take: "strncmp (length key) s key = 0 \<Longrightarrow> NUL \<notin> set key \<Longrightarrow> take (length key) s = key"
proof (induction key arbitrary: s)
  case (Cons c key)
  then show ?case by (cases s) (auto simp: code_eq_iff split: if_splits)
qed simp

lemma plain_not_xmlns: "plain_name nm \<Longrightarrow> \<not> starts nm ''xmlns:''"
proof
  assume nm: "plain_name nm" and s: "starts nm ''xmlns:''"
  have "take 6 nm = ''xmlns:''" using strncmp_take[of "''xmlns:''" nm] s by (simp add: starts_def numeral_eq_Suc)
  then have "CHR '':'' \<in> set nm" by (metis in_set_takeD list.set_intros)
  moreover have "\<not> name_part (CHR '':'')" by code_simp
  ultimately show False using nm by (auto elim!: plain_nameE simp: list_all_iff)
qed

lemma plain_namespace:
  assumes "plain_name an" "an \<noteq> ''xmlns''" "nn_name n = Some an" "nn_value n = Some v"
    "xp_stack p = map plain_item (nm # path)" "xp_needPrefix p = None \<or> xp_needPrefix p = Some k"
    "n_name (xp_nodes p ! k) = nm" "n_prefix (xp_nodes p ! k) = None"
  shows "Parser_xmlNamespace n p = Some (IXML_SUCCESS, n, p\<lparr>xp_needPrefix := None\<rparr>)"
  using assms plain_not_xmlns[OF assms(1)]
  by (auto simp: Parser_xmlNamespace_def Parser_addNamespace_def plain_item_def)

lemma process_attribute:
  assumes p: "cur_token p = an" "cur_ptr p = [CHR ''='', CHR 0x22] @ escaped v @ [CHR 0x22] @ d # t"
    and an: "plain_name an" "an \<noteq> ''xmlns''" and v: "xml_text v"
    and d: "d = CHR ''>'' \<or> (d = CHR '' '' \<and> attr_follows t)"
    and st: "xp_state p = eATTRIBUTE" "xp_stack p = map plain_item (nm # path)"
      "xp_needPrefix p = None \<or> xp_needPrefix p = Some k"
      "n_name (xp_nodes p ! k) = nm" "n_prefix (xp_nodes p ! k) = None"
  shows "\<exists>q. Parser_processAttribute err n p =
      Some (IXML_SUCCESS, n\<lparr>nn_name := Some an, nn_value := Some v, nn_type := eATTRIBUTE_NODE\<rparr>, q) \<and>
    cur_ptr q = after_tag d t \<and> xp_state q = tag_state d \<and> xp_nodes q = xp_nodes p \<and> xp_stack q = xp_stack p \<and>
    xp_current q = xp_current p \<and> xp_needPrefix q = None \<and> xp_hasTopLevel q = xp_hasTopLevel p"
proof -
  obtain c u where w: "an = c # u" "name_start c" using an(1) by (rule plain_nameE)
  let ?rest = "escaped v @ CHR 0x22 # d # t"
  let ?p1 = "with_token ''='' (CHR 0x22 # ?rest) p"
  let ?p2 = "with_token [CHR 0x22] ?rest ?p1"
  have 1: "next_token err p = Some (1, ?p1)"
    using token_mark[of p "[]" "CHR ''=''" "CHR 0x22 # ?rest" err] p(2) by simp
  have 2: "next_token err ?p1 = Some (1, ?p2)"
    using token_mark[of ?p1 "[]" "CHR 0x22" ?rest err] by simp
  have q: "strstr ?rest [CHR 0x22] = Some (length (escaped v))"
    using escaped_marks[of _ v] by (intro strstr_char) blast
  have legal: "attr_legal (take (length (escaped v)) ?rest)"
    using escaped_marks[of _ v] by (simp, intro attr_legal_plain) blast
  have val: "attribute_value err ?rest (length (escaped v)) = Some (IXML_SUCCESS, v)"
    using copy_escaped[OF v, of err "CHR 0x22 # d # t"] by (cases "v = []") (auto simp: attribute_value_def)
  define n2 where "n2 = n\<lparr>nn_name := Some an, nn_value := Some v, nn_type := eATTRIBUTE_NODE\<rparr>"
  define p4 where "p4 = set_cur (drop (length (escaped v) + 1) ?rest)
     (?p2\<lparr>xp_lexer := (xp_lexer ?p2)\<lparr>lx_tokenBuf := v\<rparr>\<rparr>)"
  have main: "Parser_processAttribute err n p = attribute_end err n2 p4"
    using w p(1) 1 2 q legal val name_start_char[OF w(2), of False] name_code(2)[OF w(2)]
    by (simp add: Parser_processAttribute_def UTF8_ascii n2_def p4_def Let_def)
  let ?p5 = "p4\<lparr>xp_needPrefix := None\<rparr>"
  have f4: "cur_ptr p4 = d # t" "xp_stack p4 = map plain_item (nm # path)" "xp_needPrefix p4 = xp_needPrefix p"
    "xp_nodes p4 = xp_nodes p" "xp_state p4 = eATTRIBUTE" "xp_current p4 = xp_current p" "xp_hasTopLevel p4 = xp_hasTopLevel p"
    using st by (simp_all add: p4_def)
  have nsp: "Parser_xmlNamespace n2 p4 = Some (IXML_SUCCESS, n2, ?p5)"
    using plain_namespace[OF an, of n2 v p4 nm path k] st f4 by (simp add: n2_def)
  obtain m w2 u2 where 3: "next_token err (save_cur ?p5) = Some (Suc m, with_token w2 u2 (save_cur ?p5))"
    "d = CHR ''>'' \<longrightarrow> w2 = ''>'' \<and> u2 = t" "d \<noteq> CHR ''>'' \<longrightarrow> w2 \<noteq> ''>'' \<and> w2 \<noteq> ''/>'' \<and> w2 \<noteq> ''<''"
    using look_ahead[of "save_cur ?p5" d t err] d f4(1) by auto
  show ?thesis
    unfolding main using nsp 3 f4 st
    by (cases "d = CHR ''>''") (auto simp: attribute_end_def tag_state_def after_tag_def n2_def)
qed

definition add_attr :: "nat \<Rightarrow> c_string \<Rightarrow> c_string \<Rightarrow> node list \<Rightarrow> node list" where
  "add_attr k an v ns =
     ns[k := (ns ! k)\<lparr>n_attrs := n_attrs (ns ! k) @
                [\<lparr>an_name = an, an_value = Some v, an_prefix = None, an_localName = None\<rparr>]\<rparr>]"

lemma skip_to_name: "plain_name w \<Longrightarrow> Parser_skipWhiteSpaces (CHR '' '' # w @ t) = w @ t"
  by (erule plain_nameE) (auto simp: Parser_skipWhiteSpaces_def is_white_def name_start_def ctype_defs code_def)

lemma round_attribute:
  assumes p: "at p (CHR '' '' # an @ [CHR ''='', CHR 0x22] @ escaped v @ [CHR 0x22] @ d # t) eATTRIBUTE ns k (nm # path) np"
    and an: "plain_name an" "an \<noteq> ''xmlns''" "an \<notin> an_name ` set (n_attrs (ns ! k))" and v: "xml_text v"
    and d: "d = CHR ''>'' \<or> (d = CHR '' '' \<and> attr_follows t)"
    and np: "np = None \<or> np = Some k" and nm: "n_name (ns ! k) = nm" "n_prefix (ns ! k) = None"
  shows "\<exists>q. rounds err p q \<and> at q (after_tag d t) (tag_state d) (add_attr k an v ns) k (nm # path) None"
proof -
  let ?s = "[CHR ''='', CHR 0x22] @ escaped v @ [CHR 0x22] @ d # t"
  let ?p0 = "set_cur (an @ ?s) p"
  let ?p1 = "with_token an ?s ?p0"
  obtain c u where w: "an = c # u" "name_start c" using an(1) by (rule plain_nameE)
  have c: "c \<noteq> CHR ''>''" "c \<noteq> CHR ''<''" "c \<noteq> CHR ''/''"
    using w(2) by (auto simp: name_start_def ctype_defs code_def)
  have 1: "next_token err ?p0 = Some (length an, ?p1)"
    using token_name[of ?p0 "[]" an "CHR ''=''" _ err] an(1) by (simp add: name_stop_def)
  obtain q where q: "Parser_processAttribute err ixmlNode_init ?p1 =
      Some (IXML_SUCCESS, ixmlNode_init\<lparr>nn_name := Some an, nn_value := Some v, nn_type := eATTRIBUTE_NODE\<rparr>, q)"
    "cur_ptr q = after_tag d t" "xp_state q = tag_state d" "xp_nodes q = ns" "xp_stack q = map plain_item (nm # path)"
    "xp_current q = k" "xp_needPrefix q = None" "xp_hasTopLevel q = xp_hasTopLevel p"
    using process_attribute[of ?p1 an v d t nm path k err ixmlNode_init] p an v d np nm by (auto simp: at_def)
  have g: "Parser_getNextNode err p = Some (IXML_SUCCESS,
      ixmlNode_init\<lparr>nn_name := Some an, nn_value := Some v, nn_type := eATTRIBUTE_NODE\<rparr>, False, q)"
    using p 1 q(1) c w(1) skip_to_name[OF an(1), of ?s] by (simp add: Parser_getNextNode_def at_def plain_item_def)
  have "parse_round err p = Some (Go (q\<lparr>xp_nodes := add_attr k an v ns\<rparr>))"
    using g q an(3)
    by (simp add: parse_round_def Parser_processAttributeName_def isDuplicateAttribute_def add_attr_def Let_def
        ixmlNode_init_def)
  moreover have "at (q\<lparr>xp_nodes := add_attr k an v ns\<rparr>) (after_tag d t) (tag_state d) (add_attr k an v ns) k (nm # path) None"
    using q p by (auto simp: at_def)
  ultimately show ?thesis using round_step by blast
qed

lemma getNextNode_ETag:
  assumes p: "cur_ptr p = ''</'' @ nm @ CHR ''>'' # t" "xp_state p = eELEMENT" and nm: "plain_name nm"
  shows "\<exists>x. Parser_getNextNode err p = Some (IXML_SUCCESS,
      ixmlNode_init\<lparr>nn_name := Some nm, nn_value := None, nn_type := eELEMENT_NODE\<rparr>, True,
      with_token ''>'' t (p\<lparr>xp_lexer := x\<rparr>))"
proof -
  let ?s = "''</'' @ nm @ CHR ''>'' # t"
  let ?p0 = "set_cur ?s p"
  let ?p1 = "with_token ''</'' (nm @ CHR ''>'' # t) ?p0"
  let ?p2 = "set_cur (CHR ''>'' # t) (with_token nm (CHR ''>'' # t) ?p1)"
  have w: "nm \<noteq> []" using nm by (auto simp: plain_name_def)
  have 1: "next_token err ?p0 = Some (2, ?p1)" using token_close[of ?p0 "[]" _ err] by simp
  have 2: "next_token err ?p1 = Some (length nm, with_token nm (CHR ''>'' # t) ?p1)"
    using token_name[of ?p1 "[]" nm "CHR ''>''" t err] nm by (simp add: name_stop_def)
  have 3: "next_token err ?p2 = Some (1, with_token ''>'' t ?p2)"
    using token_mark[of ?p2 "[]" "CHR ''>''" t err] by simp
  have s: "Parser_skipWhiteSpaces ?s = ?s" "Parser_skipWhiteSpaces (CHR ''>'' # t) = CHR ''>'' # t"
    by (simp_all add: Parser_skipWhiteSpaces_def is_white_def)
  have "?p2 = p\<lparr>xp_lexer := xp_lexer ?p2\<rparr>" by (simp add: set_cur_def with_token_def)
  moreover have "Parser_getNextNode err p = Some (IXML_SUCCESS,
      ixmlNode_init\<lparr>nn_name := Some nm, nn_value := None, nn_type := eELEMENT_NODE\<rparr>, True, with_token ''>'' t ?p2)"
    using p 1 2 3 s w by (simp add: Parser_getNextNode_def Parser_processETag_def)
  ultimately show ?thesis by metis
qed

lemma round_end:
  assumes p: "at p (''</'' @ nm @ CHR ''>'' # t) eELEMENT ns k (nm # path) None" and nm: "plain_name nm"
    and k: "n_name (ns ! k) = nm" "n_parent (ns ! k) = Some c"
  shows "\<exists>q. rounds err p q \<and> at q t eCONTENT ns c path None"
proof -
  obtain x where g: "Parser_getNextNode err p = Some (IXML_SUCCESS,
      ixmlNode_init\<lparr>nn_name := Some nm, nn_value := None, nn_type := eELEMENT_NODE\<rparr>, True,
      with_token ''>'' t (p\<lparr>xp_lexer := x\<rparr>))"
    using getNextNode_ETag[of p nm t err] p nm by (auto simp: at_def)
  let ?q = "(with_token ''>'' t (p\<lparr>xp_lexer := x\<rparr>))\<lparr>xp_stack := map plain_item path, xp_current := c, xp_state := eCONTENT\<rparr>"
  have "parse_round err p = Some (Go ?q)"
    using g p k
    by (simp add: parse_round_def Parser_eTagVerification_def Parser_isValidEndElement_def Parser_popElement_def
        at_def plain_item_def ixmlNode_init_def)
  moreover have "at ?q t eCONTENT ns c path None" using p by (auto simp: at_def)
  ultimately show ?thesis using round_step by blast
qed


definition text_node :: "c_string \<Rightarrow> node" where
  "text_node v = (blank_node eTEXT_NODE ''#text'')\<lparr>n_value := Some v\<rparr>"

definition nonblank :: "c_string \<Rightarrow> bool" where
  "nonblank v \<longleftrightarrow> \<not> list_all is_white v"

lemma nonblank_escaped: "nonblank v \<Longrightarrow> \<exists>c\<in>set (escaped v). \<not> is_white c"
proof -
  assume "nonblank v"
  then obtain c where c: "c \<in> set v" "\<not> is_white c" by (auto simp: nonblank_def list_all_iff)
  have "\<exists>e\<in>set (escape_char c). \<not> is_white e" using c(2) by (auto simp: escape_char_def is_white_def)
  then show ?thesis using c(1) by (auto simp: copy_with_escape_def)
qed

lemma skip_white_stop:
  assumes "\<exists>c\<in>set w. \<not> is_white c"
  shows "\<exists>c u. Parser_skipWhiteSpaces (w @ r) = c # u \<and> c \<in> set w"
  using assms by (induction w) (auto simp: Parser_skipWhiteSpaces_def)

lemma content_length_text:
  assumes "CHR ''<'' \<notin> set w" "CHR ''>'' \<notin> set w"
  shows "content_length (w @ CHR ''<'' # t) = length w"
  using assms
proof (induction w)
  case (Cons c w)
  have "\<not> starts ((c # w) @ CHR ''<'' # t) '']]>''"
  proof
    assume "starts ((c # w) @ CHR ''<'' # t) '']]>''"
    then have "take 3 ((c # w) @ CHR ''<'' # t) = '']]>''"
      using strncmp_take[of "'']]>''" "(c # w) @ CHR ''<'' # t"] by (simp add: starts_def numeral_eq_Suc)
    then show False using Cons.prems by (cases w; cases "tl w") (auto simp: numeral_eq_Suc)
  qed
  then show ?case using Cons by auto
qed simp

lemma round_text:
  assumes p: "at p (escaped v @ CHR ''<'' # t) eCONTENT ns c path None"
    and v: "xml_text v" "nonblank v" and c: "c < length ns" "n_type (ns ! c) = eELEMENT_NODE"
  shows "\<exists>q. rounds err p q \<and> at q (CHR ''<'' # t) eCONTENT (add_child c (text_node v) ns) c path None"
proof -
  let ?u = "escaped v @ CHR ''<'' # t"
  have ne: "v \<noteq> []" using v(2) by (auto simp: nonblank_def)
  obtain e u where e: "Parser_skipWhiteSpaces ?u = e # u" "e \<in> set (escaped v)"
    using skip_white_stop[OF nonblank_escaped[OF v(2)], of "CHR ''<'' # t"] by blast
  have e2: "e \<noteq> CHR ''<''" using escaped_marks[OF e(2)] by simp
  have len: "content_length ?u = length (escaped v)"
    using escaped_marks[of _ v] by (intro content_length_text) blast+
  have st: "\<not> starts (CHR ''<'' # t) '']]>''" by (simp add: starts_def)
  let ?p1 = "save_cur p"
  let ?q = "set_cur (CHR ''<'' # t) (?p1\<lparr>xp_lexer := (xp_lexer ?p1)\<lparr>lx_tokenBuf := v\<rparr>\<rparr>)"
  have g: "Parser_getNextNode err p = Some (IXML_SUCCESS,
      ixmlNode_init\<lparr>nn_value := Some v, nn_name := Some ''#text'', nn_type := eTEXT_NODE\<rparr>, False, ?q)"
    using p e e2 len st ne copy_escaped[OF v(1) ne, of err "CHR ''<'' # t"]
    by (simp add: Parser_getNextNode_def Parser_processContent_def at_def Let_def)
  let ?r = "?q\<lparr>xp_nodes := add_child c (text_node v) ns\<rparr>"
  have app: "append_child (length ns) (?q\<lparr>xp_nodes := ns @ [text_node v]\<rparr>) = (IXML_SUCCESS, ?r)"
    using append_created[of c ns "?q\<lparr>xp_nodes := ns @ [text_node v]\<rparr>" "text_node v"] c p
    by (simp add: at_def ixmlNode_allowChildren_def text_node_def blank_node_def)
  have "parse_round err p = Some (Go ?r)"
    using g app p
    by (simp add: parse_round_def add_text_def create_node_def at_def ixmlNode_init_def flip: text_node_def)
  moreover have "at ?r (CHR ''<'' # t) eCONTENT (add_child c (text_node v) ns) c path None"
    using p by (auto simp: at_def)
  ultimately show ?thesis using round_step by blast
qed

lemma loop_end:
  assumes "at p ws eCONTENT ns c [] None" "list_all is_white ws"
  shows "parse_loop (Suc (Suc fuel)) err p = Parsed IXML_SUCCESS ns"
proof (cases "ws = []")
  case True
  then show ?thesis using assms(1) by (simp add: at_def parse_round_def Parser_getNextNode_def)
next
  case False
  have "Parser_skipWhiteSpaces ws = []" using assms(2) by (simp add: Parser_skipWhiteSpaces_def list_all_iff)
  then have "parse_round err p = Some (Go (set_cur [] (save_cur p)))"
    using assms(1) False
    by (simp add: at_def parse_round_def Parser_getNextNode_def Parser_processContent_def ixmlNode_init_def)
  moreover have "parse_round err (set_cur [] (save_cur p)) = Some (Finished IXML_SUCCESS)"
    using assms(1) by (simp add: at_def parse_round_def Parser_getNextNode_def)
  ultimately show ?thesis using assms(1) by (simp add: at_def)
qed


subsection \<open>Printed documents parse to the same tree\<close>

text \<open>
  The nodes the parser makes for a list of siblings below a node, and the trees that can be
  printed: elements with plain names (ASCII, no colon), attributes with distinct plain names, text
  that is not blank and is the last child.
\<close>

definition add_attrs :: "nat \<Rightarrow> dom_tree list \<Rightarrow> node list \<Rightarrow> node list" where
  "add_attrs k as ns = fold (\<lambda>a. add_attr k (dt_name a) (dt_value a)) as ns"

fun build :: "nat \<Rightarrow> dom_tree list \<Rightarrow> node list \<Rightarrow> node list" where
  "build c [] ns = ns"
| "build c (DomNode t name val atts children # siblings) ns =
     (if t = eTEXT_NODE then build c siblings (add_child c (text_node val) ns)
      else build c siblings
             (build (length ns) children (add_attrs (length ns) atts (add_child c (elem_node name) ns))))"

definition plain_attr :: "dom_tree \<Rightarrow> bool" where
  "plain_attr a \<longleftrightarrow>
     dt_type a = eATTRIBUTE_NODE \<and> dt_attrs a = [] \<and> dt_children a = [] \<and> plain_name (dt_name a) \<and>
     dt_name a \<noteq> ''xmlns'' \<and> xml_text (dt_value a)"

fun printable :: "dom_tree list \<Rightarrow> bool" where
  "printable [] \<longleftrightarrow> True"
| "printable (DomNode t name val atts children # siblings) \<longleftrightarrow>
     (if t = eTEXT_NODE
      then name = ''#text'' \<and> xml_text val \<and> nonblank val \<and> atts = [] \<and> children = [] \<and> siblings = []
      else t = eELEMENT_NODE \<and> val = [] \<and> plain_name name \<and> list_all plain_attr atts \<and>
           distinct (map dt_name atts) \<and> printable children \<and> printable siblings)"

definition same_node :: "node \<Rightarrow> node \<Rightarrow> bool" where
  "same_node a b \<longleftrightarrow>
     n_type a = n_type b \<and> n_name a = n_name b \<and> n_prefix a = n_prefix b \<and> n_parent a = n_parent b"

lemma same_node_refl [simp]: "same_node a a"
  by (simp add: same_node_def)

lemma same_node_trans: "same_node a b \<Longrightarrow> same_node b c \<Longrightarrow> same_node a c"
  by (simp add: same_node_def)

definition extends :: "node list \<Rightarrow> node list \<Rightarrow> bool" where
  "extends ns ms \<longleftrightarrow> length ns \<le> length ms \<and> (\<forall>i < length ns. same_node (ms ! i) (ns ! i))"

lemma extends_trans: "extends a b \<Longrightarrow> extends b c \<Longrightarrow> extends a c"
  unfolding extends_def by (meson le_trans less_le_trans same_node_trans)

lemma nth_update_if: "xs[i := x] ! j = (if i = j \<and> j < length xs then x else xs ! j)"
  by (cases "i < length xs") (auto simp: nth_list_update list_update_beyond)

lemma extends_add_child: "extends ns (add_child c nd ns)"
  by (auto simp: extends_def add_child_def nth_append nth_update_if same_node_def)

lemma extends_add_attrs: "extends ns (add_attrs k as ns)"
proof (induction as arbitrary: ns)
  case (Cons a as)
  have "extends ns (add_attr k (dt_name a) (dt_value a) ns)"
    by (auto simp: extends_def add_attr_def nth_update_if same_node_def)
  then show ?case using Cons extends_trans by (auto simp: add_attrs_def)
qed (simp add: extends_def add_attrs_def)

lemma length_add_attrs [simp]: "length (add_attrs k as ns) = length ns"
  by (induction as arbitrary: ns) (auto simp: add_attrs_def add_attr_def)

lemma extends_build: "extends ns (build c ts ns)"
proof (induction c ts ns rule: build.induct)
  case (2 c t name val atts children siblings ns)
  show ?case
  proof (cases "t = eTEXT_NODE")
    case True
    then show ?thesis using 2 extends_add_child extends_trans by fastforce
  next
    case False
    have "extends ns (add_attrs (length ns) atts (add_child c (elem_node name) ns))"
      using extends_add_child extends_add_attrs by (rule extends_trans)
    then have "extends ns (build (length ns) children (add_attrs (length ns) atts (add_child c (elem_node name) ns)))"
      using 2(2)[OF False] by (rule extends_trans)
    then have "extends ns (build c siblings
        (build (length ns) children (add_attrs (length ns) atts (add_child c (elem_node name) ns))))"
      using 2(3)[OF False] by (rule extends_trans)
    then show ?thesis using False by simp
  qed
qed (simp add: extends_def)

lemma print_attr_follows:
  assumes "list_all plain_attr (a # as)"
  shows "attr_follows (ixmlPrintDomTreeRecursive (a # as) @ t)"
proof -
  obtain y nm v x z where "a = DomNode y nm v x z" by (cases a)
  then have "plain_name nm" and "\<exists>u. ixmlPrintDomTreeRecursive (a # as) @ t = nm @ CHR ''='' # u"
    using assms by (auto simp: plain_attr_def)
  moreover have "name_stop (CHR ''='')" by (simp add: name_stop_def)
  ultimately show ?thesis unfolding attr_follows_def by blast
qed

lemma rounds_attrs:
  assumes "at p (CHR '' '' # ixmlPrintDomTreeRecursive atts @ CHR ''>'' # t) eATTRIBUTE ns k (nm # path) np"
    "atts \<noteq> []" "list_all plain_attr atts" "distinct (map dt_name atts)"
    "\<forall>a\<in>set atts. dt_name a \<notin> an_name ` set (n_attrs (ns ! k))"
    "np = None \<or> np = Some k" "n_name (ns ! k) = nm" "n_prefix (ns ! k) = None" "k < length ns"
  shows "\<exists>q. rounds err p q \<and> at q t eCONTENT (add_attrs k atts ns) k (nm # path) None"
  using assms
proof (induction atts arbitrary: p ns np)
  case (Cons a as)
  obtain an v where a: "a = DomNode eATTRIBUTE_NODE an v [] []" "plain_name an" "an \<noteq> ''xmlns''" "xml_text v"
    using Cons.prems(3) by (cases a) (auto simp: plain_attr_def)
  define d where "d = (if as = [] then CHR ''>'' else CHR '' '')"
  define u where "u = (if as = [] then t else ixmlPrintDomTreeRecursive as @ CHR ''>'' # t)"
  have d: "d = CHR ''>'' \<or> (d = CHR '' '' \<and> attr_follows u)"
    using Cons.prems(3) print_attr_follows by (cases as) (auto simp: d_def u_def)
  have p: "at p (CHR '' '' # an @ [CHR ''='', CHR 0x22] @ escaped v @ [CHR 0x22] @ d # u) eATTRIBUTE ns k (nm # path) np"
    using Cons.prems(1) a by (auto simp: d_def u_def split: if_splits)
  let ?ns = "add_attr k an v ns"
  obtain q where q: "rounds err p q" "at q (after_tag d u) (tag_state d) ?ns k (nm # path) None"
    using round_attribute[OF p a(2,3) _ a(4) d Cons.prems(6-8), of err] Cons.prems(5) a(1) by auto
  show ?case
  proof (cases "as = []")
    case True
    then show ?thesis using q a by (auto simp: d_def u_def after_tag_def tag_state_def add_attrs_def)
  next
    case False
    have "\<exists>r. rounds err q r \<and> at r t eCONTENT (add_attrs k as ?ns) k (nm # path) None"
      using q(2) False Cons.prems a
      by (intro Cons.IH[of q ?ns None]) (auto simp: d_def u_def after_tag_def tag_state_def add_attr_def)
    then show ?thesis using q(1) a by (auto simp: add_attrs_def intro: rtranclp_trans)
  qed
qed simp


definition parses_back :: "int \<Rightarrow> dom_tree list \<Rightarrow> bool" where
  "parses_back err ts \<longleftrightarrow>
     (\<forall>p ws r ns c path. c < length ns \<longrightarrow> n_type (ns ! c) = eELEMENT_NODE \<longrightarrow> path \<noteq> [] \<longrightarrow> list_all is_white ws \<longrightarrow>
        (has_type ts eTEXT_NODE \<longrightarrow> ws = []) \<longrightarrow>
        at p (ws @ ixmlPrintDomTreeRecursive ts @ ''</'' @ r) eCONTENT ns c path None \<longrightarrow>
        (\<exists>q ws'. rounds err p q \<and> list_all is_white ws' \<and>
           at q (ws' @ ''</'' @ r) eCONTENT (build c ts ns) c path None))"

lemma white_CRLF: "list_all is_white NEWLINE"
  by (simp add: is_white_def)

lemma element_back:
  assumes p: "at p (''<'' @ name @ (if atts \<noteq> [] then '' '' @ ixmlPrintDomTreeRecursive atts else []) @
      ''>'' @ nl @ ixmlPrintDomTreeRecursive children @ ''</'' @ name @ ''>'' @ r) eELEMENT ns c path None"
    and el: "plain_name name" "list_all plain_attr atts" "distinct (map dt_name atts)" "parses_back err children"
    and nl: "list_all is_white nl" "has_type children eTEXT_NODE \<longrightarrow> nl = []"
    and c: "c < length ns" "n_type (ns ! c) = eELEMENT_NODE \<or> n_type (ns ! c) = eDOCUMENT_NODE"
    and top: "xp_hasTopLevel p \<longrightarrow> path \<noteq> []"
  shows "\<exists>q. rounds err p q \<and> at q r eCONTENT (build c [DomNode eELEMENT_NODE name val atts children] ns) c path None"
proof -
  let ?t = "nl @ ixmlPrintDomTreeRecursive children @ ''</'' @ name @ ''>'' @ r"
  let ?k = "length ns"
  define ns1 where "ns1 = add_child c (elem_node name) ns"
  define ns2 where "ns2 = add_attrs ?k atts ns1"
  define ns3 where "ns3 = build ?k children ns2"
  have ns1: "?k < length ns1" "n_type (ns1 ! ?k) = eELEMENT_NODE" "n_name (ns1 ! ?k) = name"
    "n_prefix (ns1 ! ?k) = None" "n_parent (ns1 ! ?k) = Some c" "n_attrs (ns1 ! ?k) = []"
    by (simp_all add: ns1_def add_child_def nth_append elem_node_def blank_node_def)
  have "\<exists>q. rounds err p q \<and> at q ?t eCONTENT ns2 ?k (name # path) None"
  proof (cases "atts = []")
    case True
    then show ?thesis
      using round_start[of p name "CHR ''>''" ?t ns c path err] p el(1) c top
      by (simp add: after_tag_def tag_state_def ns1_def ns2_def add_attrs_def)
  next
    case False
    let ?u = "ixmlPrintDomTreeRecursive atts @ CHR ''>'' # ?t"
    have "attr_follows ?u" using False el(2) print_attr_follows by (cases atts) auto
    then obtain q where q: "rounds err p q" "at q (CHR '' '' # ?u) eATTRIBUTE ns1 ?k (name # path) (Some ?k)"
      using round_start[of p name "CHR '' ''" ?u ns c path err] p el(1) c top False
      by (auto simp: after_tag_def tag_state_def ns1_def)
    then show ?thesis
      using rounds_attrs[OF q(2) False el(2,3), of err] ns1 by (auto simp: ns2_def intro: rtranclp_trans)
  qed
  then obtain q1 where q1: "rounds err p q1" "at q1 ?t eCONTENT ns2 ?k (name # path) None" by blast
  have e2: "extends ns1 ns2" unfolding ns2_def by (rule extends_add_attrs)
  then have e3: "extends ns1 ns3" unfolding ns3_def using extends_build extends_trans by blast
  have k2: "?k < length ns2" "n_type (ns2 ! ?k) = eELEMENT_NODE"
    using e2 ns1 by (auto simp: extends_def same_node_def)
  have k3: "n_name (ns3 ! ?k) = name" "n_parent (ns3 ! ?k) = Some c"
    using e3 ns1 by (auto simp: extends_def same_node_def)
  obtain q2 ws where q2: "rounds err q1 q2" "list_all is_white ws"
      "at q2 (ws @ ''</'' @ name @ ''>'' @ r) eCONTENT ns3 ?k (name # path) None"
    using el(4) k2 nl q1(2) unfolding parses_back_def ns3_def by blast
  obtain q3 where q3: "rounds err q2 q3" "at q3 (''</'' @ name @ ''>'' @ r) eELEMENT ns3 ?k (name # path) None"
    using round_markup[of q2 ws "CHR ''/''" _ ns3 ?k "name # path" None err] q2 by auto
  obtain q4 where q4: "rounds err q3 q4" "at q4 r eCONTENT ns3 c path None"
    using round_end[of q3 name r ns3 ?k path c err] q3 k3 el(1) by auto
  have "rounds err p q4" using q1(1) q2(1) q3(1) q4(1) by (meson rtranclp_trans)
  moreover have "build c [DomNode eELEMENT_NODE name val atts children] ns = ns3"
    by (simp add: ns3_def ns2_def ns1_def)
  ultimately show ?thesis using q4(2) by metis
qed

lemma text_back:
  assumes "xml_text val" "nonblank val"
  shows "parses_back err [DomNode eTEXT_NODE name val atts children]"
  unfolding parses_back_def
proof (intro allI impI)
  fix p ws r ns c path
  assume "c < length ns" "n_type (ns ! c) = eELEMENT_NODE" "path \<noteq> []" "list_all is_white ws"
    "has_type [DomNode eTEXT_NODE name val atts children] eTEXT_NODE \<longrightarrow> ws = []"
    "at p (ws @ ixmlPrintDomTreeRecursive [DomNode eTEXT_NODE name val atts children] @ ''</'' @ r) eCONTENT ns c path None"
  then show "\<exists>q ws'. rounds err p q \<and> list_all is_white ws' \<and>
      at q (ws' @ ''</'' @ r) eCONTENT (build c [DomNode eTEXT_NODE name val atts children] ns) c path None"
    using round_text[of p val "CHR ''/'' # r" ns c path err] assms
    by (auto simp: has_type_def intro!: exI[of _ "[]"])
qed

lemma element_siblings_back:
  assumes el: "plain_name name" "list_all plain_attr atts" "distinct (map dt_name atts)"
    "parses_back err children" "parses_back err siblings"
  shows "parses_back err (DomNode eELEMENT_NODE name val atts children # siblings)"
  unfolding parses_back_def
proof (intro allI impI)
  fix p ws r ns c path
  let ?e = "DomNode eELEMENT_NODE name val atts children"
  assume h: "c < length ns" "n_type (ns ! c) = eELEMENT_NODE" "path \<noteq> []" "list_all is_white ws"
    "has_type (?e # siblings) eTEXT_NODE \<longrightarrow> ws = []"
    "at p (ws @ ixmlPrintDomTreeRecursive (?e # siblings) @ ''</'' @ r) eCONTENT ns c path None"
  define nl1 where "nl1 = (if has_type children eELEMENT_NODE then NEWLINE else [])"
  define nl2 where "nl2 = (if has_type siblings eTEXT_NODE then [] else NEWLINE)"
  let ?r = "nl2 @ ixmlPrintDomTreeRecursive siblings @ ''</'' @ r"
  let ?s = "name @ (if atts \<noteq> [] then '' '' @ ixmlPrintDomTreeRecursive atts else []) @
      ''>'' @ nl1 @ ixmlPrintDomTreeRecursive children @ ''</'' @ name @ ''>'' @ ?r"
  obtain d u where n: "name = d # u" "name_start d" using el(1) by (rule plain_nameE)
  have d: "d \<noteq> CHR ''!''" "d \<noteq> CHR ''?''" using n(2) by (auto simp: name_start_def ctype_defs code_def)
  have s: "at p (ws @ CHR ''<'' # ?s) eCONTENT ns c path None"
    using h(6) by (auto simp: nl1_def nl2_def)
  then obtain q1 where q1: "rounds err p q1" "at q1 (CHR ''<'' # ?s) eELEMENT ns c path None"
    using round_markup[of p ws d _ ns c path None err] h(4) d n(1) by auto
  have "list_all is_white nl1" "has_type children eTEXT_NODE \<longrightarrow> nl1 = []"
    by (auto simp: nl1_def is_white_def has_type_def split: list.splits)
  then obtain q2 where q2: "rounds err q1 q2" "at q2 ?r eCONTENT (build c [?e] ns) c path None"
    using element_back[of q1 name atts nl1 children ?r ns c path err val] q1(2) el h(1-3) by auto
  have "list_all is_white nl2" "has_type siblings eTEXT_NODE \<longrightarrow> nl2 = []"
    by (auto simp: nl2_def is_white_def)
  moreover have "c < length (build c [?e] ns)" "n_type (build c [?e] ns ! c) = eELEMENT_NODE"
    using extends_build[of ns c "[?e]"] h(1,2) by (auto simp: extends_def same_node_def)
  ultimately obtain q3 ws' where q3: "rounds err q2 q3" "list_all is_white ws'"
      "at q3 (ws' @ ''</'' @ r) eCONTENT (build c siblings (build c [?e] ns)) c path None"
    using el(5) q2(2) h(3) unfolding parses_back_def by blast
  have "rounds err p q3" using q1(1) q2(1) q3(1) by (meson rtranclp_trans)
  then show "\<exists>q ws'. rounds err p q \<and> list_all is_white ws' \<and>
      at q (ws' @ ''</'' @ r) eCONTENT (build c (?e # siblings) ns) c path None"
    using q3(2,3) by auto
qed

lemma printable_back: "printable ts \<Longrightarrow> parses_back err ts"
proof (induction ts rule: printable.induct)
  case 1
  then show ?case unfolding parses_back_def by (auto intro!: exI)
next
  case (2 t name val atts children siblings)
  then show ?case
    by (cases "t = eTEXT_NODE") (auto intro: text_back element_siblings_back)
qed


text \<open>What is built is the tree: children come after their parents, so earlier trees stay as they are.\<close>

definition ordered :: "node list \<Rightarrow> bool" where
  "ordered ns \<longleftrightarrow> (\<forall>i < length ns. \<forall>j \<in> set (n_children (ns ! i)). i < j)"

lemma tree_cong:
  shows "is_tree ns k t \<Longrightarrow> ordered ns \<Longrightarrow> length ns \<le> length ms \<Longrightarrow> \<forall>i < length ns. a \<le> i \<longrightarrow> ms ! i = ns ! i \<Longrightarrow>
      a \<le> k \<Longrightarrow> is_tree ms k t"
    and "is_forest ns js ts \<Longrightarrow> ordered ns \<Longrightarrow> length ns \<le> length ms \<Longrightarrow> \<forall>i < length ns. a \<le> i \<longrightarrow> ms ! i = ns ! i \<Longrightarrow>
      \<forall>j\<in>set js. a \<le> j \<Longrightarrow> is_forest ms js ts"
proof (induction ns k t and ns js ts rule: is_tree_is_forest.induct)
  case (1 ns k t name val atts children)
  have k: "k < length ns" "ms ! k = ns ! k" using 1(2,5,6) by auto
  have "\<forall>j\<in>set (n_children (ns ! k)). a \<le> j" using 1(3,6) k(1) by (fastforce simp: ordered_def)
  then show ?case using 1 k by auto
qed auto

definition built :: "node list \<Rightarrow> nat \<Rightarrow> dom_tree list \<Rightarrow> node list \<Rightarrow> bool" where
  "built ns c ts ms \<longleftrightarrow>
     length ns \<le> length ms \<and> ordered ms \<and> (\<forall>i < length ns. i \<noteq> c \<longrightarrow> ms ! i = ns ! i) \<and>
     (\<exists>js. ms ! c = (ns ! c)\<lparr>n_children := n_children (ns ! c) @ js\<rparr> \<and> is_forest ms js ts \<and>
           (\<forall>j\<in>set js. length ns \<le> j))"

lemma add_child_nth:
  assumes "c < length ns"
  shows "length (add_child c nd ns) = Suc (length ns)"
    "add_child c nd ns ! c = (ns ! c)\<lparr>n_children := n_children (ns ! c) @ [length ns]\<rparr>"
    "i < length ns \<Longrightarrow> i \<noteq> c \<Longrightarrow> add_child c nd ns ! i = ns ! i"
    "add_child c nd ns ! length ns = nd\<lparr>n_parent := Some c\<rparr>"
  using assms by (simp_all add: add_child_def nth_append)

lemma ordered_add_child: "ordered ns \<Longrightarrow> c < length ns \<Longrightarrow> n_children nd = [] \<Longrightarrow> ordered (add_child c nd ns)"
  by (auto simp: ordered_def add_child_def nth_append nth_update_if)

lemma add_attrs_nth:
  "k < length ns \<Longrightarrow> add_attrs k as ns ! k = (ns ! k)\<lparr>n_attrs := n_attrs (ns ! k) @
     map (\<lambda>a. \<lparr>an_name = dt_name a, an_value = Some (dt_value a), an_prefix = None, an_localName = None\<rparr>) as\<rparr>"
  "i \<noteq> k \<Longrightarrow> add_attrs k as ns ! i = ns ! i"
  by (induction as arbitrary: ns) (auto simp: add_attrs_def add_attr_def)

lemma ordered_add_attrs: "ordered ns \<Longrightarrow> k < length ns \<Longrightarrow> ordered (add_attrs k as ns)"
proof -
  assume o: "ordered ns" and k: "k < length ns"
  have "n_children (add_attrs k as ns ! i) = n_children (ns ! i)" for i
    using add_attrs_nth(1)[OF k] add_attrs_nth(2)[of i k as ns] by (cases "i = k") auto
  then show ?thesis using o by (simp add: ordered_def)
qed

lemma built_text:
  assumes "ordered ns" "c < length ns"
  shows "built ns c [DomNode eTEXT_NODE ''#text'' val [] []] (add_child c (text_node val) ns)"
proof -
  have "is_forest (add_child c (text_node val) ns) [length ns] [DomNode eTEXT_NODE ''#text'' val [] []]"
    using add_child_nth[OF assms(2), where nd = "text_node val"]
    by (simp add: text_node_def blank_node_def attr_pairs_def)
  moreover have "ordered (add_child c (text_node val) ns)"
    using assms by (intro ordered_add_child) (simp_all add: text_node_def blank_node_def)
  ultimately show ?thesis
    using assms add_child_nth[OF assms(2), where nd = "text_node val"] by (auto simp: built_def intro!: exI[of _ "[length ns]"])
qed

lemma built_element:
  assumes "ordered ns" "c < length ns"
    and ch: "\<And>ms k. ordered ms \<Longrightarrow> k < length ms \<Longrightarrow> built ms k children (build k children ms)"
  shows "built ns c [DomNode eELEMENT_NODE name [] atts children] (build c [DomNode eELEMENT_NODE name [] atts children] ns)"
proof -
  let ?k = "length ns"
  let ?e = "DomNode eELEMENT_NODE name [] atts children"
  define ns1 where "ns1 = add_child c (elem_node name) ns"
  define ns2 where "ns2 = add_attrs ?k atts ns1"
  define ns3 where "ns3 = build ?k children ns2"
  note n1 = add_child_nth[OF assms(2), where nd = "elem_node name", folded ns1_def]
  have k: "?k < length ns1" using n1(1) by simp
  note n2 = add_attrs_nth(1)[OF k, of atts, folded ns2_def] add_attrs_nth(2)[of _ ?k atts ns1, folded ns2_def]
  have "ordered ns1" unfolding ns1_def using assms(1,2) by (intro ordered_add_child) (simp_all add: elem_node_def blank_node_def)
  then have "ordered ns2" unfolding ns2_def using k by (rule ordered_add_attrs)
  then have b: "built ns2 ?k children ns3" unfolding ns3_def using k by (intro ch) (simp_all add: ns2_def)
  have l2: "length ns2 = Suc ?k" using n1(1) by (simp add: ns2_def)
  obtain js where js: "ns3 ! ?k = (ns2 ! ?k)\<lparr>n_children := n_children (ns2 ! ?k) @ js\<rparr>" "is_forest ns3 js children"
    using b by (auto simp: built_def)
  have l3: "Suc ?k \<le> length ns3" using b l2 by (simp add: built_def)
  have "is_tree ns3 ?k ?e"
    using js l3 n1(4) n2(1) by (simp add: elem_node_def blank_node_def attr_pairs_def comp_def)
  moreover have "ns3 ! i = ns1 ! i" if "i < ?k" for i
    using b that l2 n2(2)[of i] by (simp add: built_def)
  ultimately have "built ns c [?e] ns3"
    using b l3 n1 assms(2) by (auto simp: built_def intro!: exI[of _ "[?k]"])
  moreover have "build c [?e] ns = ns3" by (simp add: ns3_def ns2_def ns1_def)
  ultimately show ?thesis by simp
qed

lemma built_append:
  assumes a: "built ns c [t] ms" and b: "built ms c ts ls" and c: "c < length ns"
  shows "built ns c (t # ts) ls"
proof -
  obtain k where k: "ms ! c = (ns ! c)\<lparr>n_children := n_children (ns ! c) @ [k]\<rparr>" "is_tree ms k t" "length ns \<le> k"
    using a unfolding built_def by (auto simp: neq_Nil_conv elim!: is_forest.elims)
  obtain js where js: "ls ! c = (ms ! c)\<lparr>n_children := n_children (ms ! c) @ js\<rparr>" "is_forest ls js ts"
      "\<forall>j\<in>set js. length ms \<le> j"
    using b by (auto simp: built_def)
  have "\<forall>i < length ms. length ns \<le> i \<longrightarrow> ls ! i = ms ! i" using b c by (auto simp: built_def)
  then have "is_tree ls k t"
    using tree_cong(1)[OF k(2), of ls "length ns"] a b k(3) by (auto simp: built_def)
  then show ?thesis
    using a b k js c unfolding built_def by (auto intro!: exI[of _ "k # js"]) (use order_trans in blast)+
qed

lemma build_built: "printable ts \<Longrightarrow> ordered ns \<Longrightarrow> c < length ns \<Longrightarrow> built ns c ts (build c ts ns)"
proof (induction ts arbitrary: c ns rule: printable.induct)
  case 1
  then show ?case by (auto simp: built_def intro!: exI[of _ "[]"])
next
  case (2 t name val atts children siblings)
  show ?case
  proof (cases "t = eTEXT_NODE")
    case True
    then show ?thesis using 2(3-5) built_text by simp
  next
    case False
    let ?e = "DomNode eELEMENT_NODE name [] atts children"
    have e: "t = eELEMENT_NODE" "val = []" "printable children" "printable siblings" using 2(3) False by auto
    have b: "built ns c [?e] (build c [?e] ns)"
      using 2(1)[OF False e(3)] 2(4,5) by (intro built_element) auto
    then have "built (build c [?e] ns) c siblings (build c siblings (build c [?e] ns))"
      using 2(5) by (intro 2(2)[OF False e(4)]) (auto simp: built_def)
    then show ?thesis using built_append[OF b _ 2(5)] e(1,2) by simp
  qed
qed


text \<open>More fuel does not change a result, and rounds can be taken off the front.\<close>

lemma loop_more_fuel: "parse_loop f err p \<noteq> Timeout \<Longrightarrow> parse_loop (f + g) err p = parse_loop f err p"
  by (induction f arbitrary: p) (auto split: option.splits round.splits)

lemma loop_rounds:
  assumes "rounds err p q" "parse_loop f err p \<noteq> Timeout"
  shows "\<exists>g. parse_loop f err p = parse_loop g err q"
  using assms
proof (induction arbitrary: f rule: converse_rtranclp_induct)
  case (step p p1)
  then show ?case by (cases f) auto
qed auto

definition xml_document :: "dom_tree \<Rightarrow> dom_tree" where
  "xml_document root = DomNode eDOCUMENT_NODE ''#document'' [] [] [root]"

lemma prolog_skipped:
  assumes "name_start c"
  shows "Parser_skipProlog (XML_PROLOG @ CHR ''<'' # c # t) = (IXML_SUCCESS, CHR ''<'' # c # t)"
proof -
  let ?s = "CHR ''<'' # c # t"
  have c: "c \<noteq> CHR ''!''" "c \<noteq> CHR ''?''"
    using assms by (auto simp: name_start_def ctype_defs code_def)
  have a: "Parser_skipWhiteSpaces (XML_PROLOG @ ?s) = XML_PROLOG @ ?s" "starts (XML_PROLOG @ ?s) XMLDECL"
    by (simp_all add: Parser_skipWhiteSpaces_def is_white_def XML_PROLOG_def starts_def)
  have "skip_until (XML_PROLOG @ ?s) END_PI = ''?>'' @ NEWLINE @ ?s"
    by (simp add: XML_PROLOG_def starts_def)
  then have b: "Parser_skipXMLDecl (XML_PROLOG @ ?s) = (IXML_SUCCESS, ?s)"
    by (simp add: Parser_skipXMLDecl_def Parser_skipString_def Parser_skipWhiteSpaces_def is_white_def)
  have m: "Parser_skipMisc ?s = (IXML_SUCCESS, ?s)"
    using skip_misc_tokens[of "[]" ?s] c by (simp add: token_start_def is_white_def)
  have "\<not> starts ?s BEGIN_DOCTYPE" using c by (simp add: starts_def code_eq_iff)
  then show ?thesis using a b m by (simp add: Parser_skipProlog_def)
qed


definition sample_document :: dom_tree where
  "sample_document = DomNode eELEMENT_NODE ''root'' [] [DomNode eATTRIBUTE_NODE ''id'' ''1&2'' [] []]
     [DomNode eELEMENT_NODE ''item'' [] [] [DomNode eTEXT_NODE ''#text'' '' a < b '' [] []],
      DomNode eELEMENT_NODE ''empty'' [] [] []]"

lemma ascii_text:
  assumes "list_all (\<lambda>c. 32 \<le> code c \<and> code c < 128) v"
  shows "xml_text v"
proof -
  have "xml_bytes (map (\<lambda>c. int (code c)) v) = v"
    using assms by (induction v) (auto simp: xml_bytes_def utf8_ascii byte_def code_def)
  moreover have "\<forall>c\<in>set (map (\<lambda>c. int (code c)) v). Parser_isXmlChar c"
    using assms by (auto simp: Parser_isXmlChar_def list_all_iff)
  ultimately show ?thesis unfolding xml_text_def by metis
qed


text \<open>
  The printer loses nodes: of the children of an element, those that follow the first text are
  not printed, whatever precedes it.
\<close>

theorem mixed_content_lost:
  "ixmlPrintDomTreeRecursive (before @ DomNode eTEXT_NODE name val atts children # behind) =
   ixmlPrintDomTreeRecursive (before @ [DomNode eTEXT_NODE name val atts children])"
proof (induction before)
  case (Cons n before)
  have "has_type (before @ DomNode eTEXT_NODE name val atts children # behind) x =
      has_type (before @ [DomNode eTEXT_NODE name val atts children]) x" for x
    by (cases before) (auto simp: has_type_def)
  then show ?case using Cons by (cases n) (simp split: node_type.split)
qed simp



text \<open>
  A CDATA section is closed at its first byte outside ASCII: its text is cut there, and the parser
  steps three bytes on, behind the end of the document when there are fewer.
\<close>

theorem cdata_cut:
  assumes "list_all (\<lambda>c. 32 \<le> code c \<and> code c < 128 \<and> c \<noteq> CHR '']'') w" "w \<noteq> []" "128 \<le> code b"
  shows "Parser_processCDSect (''<![CDATA['' @ w @ b # r) n =
    (if length r < 2 then None
     else Some (IXML_SUCCESS, n\<lparr>nn_value := Some w, nn_name := Some ''#cdata-section'',
             nn_type := eCDATA_SECTION_NODE\<rparr>, drop 2 r))"
proof -
  have "\<not> starts (c # s) '']]>''" if "c \<noteq> CHR '']''" for c s
    using that by (auto simp: starts_def code_eq_iff)
  moreover have "Parser_isXmlChar (schar c)" if "32 \<le> code c" "code c < 128" for c
    using that by (simp add: schar_def Parser_isXmlChar_def)
  moreover have "\<not> Parser_isXmlChar (schar b)"
  proof -
    have "schar b < 0" using assms(3) by (simp add: schar_def)
    then show ?thesis by (simp add: Parser_isXmlChar_def)
  qed
  ultimately have "cdata_end (w @ b # r) = length w"
    using assms(1) by (induction w) auto
  then show ?thesis using assms(2) by (simp add: Parser_processCDSect_def numeral_eq_Suc)
qed

theorem cdata_cut_witness:
  "Parser_processCDSect (''<![CDATA['' @ ''x'' @ [CHR 0xE9]) ixmlNode_init = None"
proof -
  have "list_all (\<lambda>c. 32 \<le> code c \<and> code c < 128 \<and> c \<noteq> CHR '']'') ''x''" "128 \<le> code (CHR 0xE9)" by code_simp+
  from cdata_cut[OF this(1) _ this(2), of "[]" ixmlNode_init] show ?thesis by simp
qed

end
