(* ===== verification/XmlDom.thy ===== *)
theory XmlDom
  imports XmlParser
begin

section \<open>The node tree of the DOM (ixml/src/node.c, element.c)\<close>

text \<open>
  The nodes of documents live in a heap and point to each other: to the parent, the first child,
  the siblings on both sides, the first attribute and the document. A pointer is an address or
  null (\<^term>\<open>None\<close>); following a pointer to no node is a fault, \<^term>\<open>None\<close> as the result of the
  operation. Memory for copies of strings is granted.
\<close>

record dom_node =
  dn_type :: node_type
  dn_name :: "c_string option"
  dn_value :: "c_string option"
  dn_namespaceURI :: "c_string option"
  dn_prefix :: "c_string option"
  dn_localName :: "c_string option"
  dn_parent :: "nat option"
  dn_first :: "nat option"
  dn_prev :: "nat option"
  dn_next :: "nat option"
  dn_attr :: "nat option"
  dn_owner :: "nat option"
  dn_element :: "nat option"

type_synonym dom_heap = "nat \<rightharpoonup> dom_node"

definition set_node :: "dom_heap \<Rightarrow> nat \<Rightarrow> (dom_node \<Rightarrow> dom_node) \<Rightarrow> dom_heap option" where
  "set_node h a f = map_option (\<lambda>n. h(a \<mapsto> f n)) (h a)"

text \<open>An update through a pointer that may be null.\<close>

definition set_at :: "dom_heap \<Rightarrow> nat option \<Rightarrow> (dom_node \<Rightarrow> dom_node) \<Rightarrow> dom_heap option" where
  "set_at h a f = (case a of None \<Rightarrow> Some h | Some p \<Rightarrow> set_node h p f)"

abbreviation (input) IXML_HIERARCHY_REQUEST_ERR :: int where "IXML_HIERARCHY_REQUEST_ERR \<equiv> 3"
abbreviation (input) IXML_WRONG_DOCUMENT_ERR :: int where "IXML_WRONG_DOCUMENT_ERR \<equiv> 4"
abbreviation (input) IXML_INVALID_CHARACTER_ERR :: int where "IXML_INVALID_CHARACTER_ERR \<equiv> 5"
abbreviation (input) IXML_NOT_FOUND_ERR :: int where "IXML_NOT_FOUND_ERR \<equiv> 8"
abbreviation (input) IXML_INUSE_ATTRIBUTE_ERR :: int where "IXML_INUSE_ATTRIBUTE_ERR \<equiv> 10"
abbreviation (input) IXML_INVALID_PARAMETER :: int where "IXML_INVALID_PARAMETER \<equiv> 105"

subsection \<open>Reading the tree\<close>

definition ixmlNode_getFirstChild :: "dom_heap \<Rightarrow> nat option \<Rightarrow> nat option option" where
  "ixmlNode_getFirstChild h p = (case p of None \<Rightarrow> Some None | Some a \<Rightarrow> map_option dn_first (h a))"

definition ixmlNode_getNextSibling :: "dom_heap \<Rightarrow> nat option \<Rightarrow> nat option option" where
  "ixmlNode_getNextSibling h p = (case p of None \<Rightarrow> Some None | Some a \<Rightarrow> map_option dn_next (h a))"

text \<open>The loop over siblings; on a cycle it does not return.\<close>

partial_function (option) last_sibling :: "dom_heap \<Rightarrow> nat \<Rightarrow> nat option \<Rightarrow> nat option" where
  "last_sibling h prev succ =
     (case succ of
        None \<Rightarrow> Some prev
      | Some a \<Rightarrow> do { n \<leftarrow> h a; last_sibling h a (dn_next n) })"

definition ixmlNode_getLastChild :: "dom_heap \<Rightarrow> nat option \<Rightarrow> nat option option" where
  "ixmlNode_getLastChild h p =
     (case p of
        None \<Rightarrow> Some None
      | Some a \<Rightarrow> do { n \<leftarrow> h a; map_option Some (last_sibling h a (dn_first n)) })"

partial_function (option) ixmlNode_isAncestor :: "dom_heap \<Rightarrow> nat option \<Rightarrow> nat option \<Rightarrow> bool option" where
  "ixmlNode_isAncestor h ancestorNode toFind =
     (case (ancestorNode, toFind) of
        (Some a, Some x) \<Rightarrow>
          do { n \<leftarrow> h x;
               if dn_parent n = Some a then Some True
               else
                 do { m \<leftarrow> h a;
                      found \<leftarrow> ixmlNode_isAncestor h (dn_first m) toFind;
                      if found then Some True else ixmlNode_isAncestor h (dn_next m) toFind } }
      | _ \<Rightarrow> Some False)"

definition ixmlNode_isParent :: "dom_heap \<Rightarrow> nat option \<Rightarrow> nat option \<Rightarrow> bool option" where
  "ixmlNode_isParent h nodeptr toFind =
     (case (nodeptr, toFind) of
        (Some p, Some x) \<Rightarrow> map_option (\<lambda>n. dn_parent n = Some p) (h x)
      | _ \<Rightarrow> None)"

definition allow_children :: "dom_heap \<Rightarrow> nat \<Rightarrow> nat \<Rightarrow> bool option" where
  "allow_children h p x =
     do { m \<leftarrow> h p; n \<leftarrow> h x; Some (ixmlNode_allowChildren (dn_type m) (dn_type n)) }"

subsection \<open>Changing the tree\<close>

definition ixmlNode_removeChild :: "dom_heap \<Rightarrow> nat option \<Rightarrow> nat option \<Rightarrow> (int \<times> dom_heap) option" where
  "ixmlNode_removeChild h nodeptr oldChild =
     (case (nodeptr, oldChild) of
        (Some p, Some x) \<Rightarrow>
          do { yes \<leftarrow> ixmlNode_isParent h nodeptr oldChild;
               if \<not> yes then Some (IXML_NOT_FOUND_ERR, h)
               else
                 do { n \<leftarrow> h x;
                      h1 \<leftarrow> set_at h (dn_prev n) (dn_next_update (\<lambda>_. dn_next n));
                      m \<leftarrow> h1 p;
                      n1 \<leftarrow> h1 x;
                      h2 \<leftarrow> (if dn_first m = Some x then set_node h1 p (dn_first_update (\<lambda>_. dn_next n1))
                             else Some h1);
                      n2 \<leftarrow> h2 x;
                      h3 \<leftarrow> set_at h2 (dn_next n2) (dn_prev_update (\<lambda>_. dn_prev n2));
                      h4 \<leftarrow> set_node h3 x (\<lambda>n. n\<lparr>dn_next := None, dn_prev := None, dn_parent := None\<rparr>);
                      Some (IXML_SUCCESS, h4) } }
      | _ \<Rightarrow> Some (IXML_INVALID_PARAMETER, h))"

definition ixmlNode_appendChild :: "dom_heap \<Rightarrow> nat option \<Rightarrow> nat option \<Rightarrow> (int \<times> dom_heap) option" where
  "ixmlNode_appendChild h nodeptr newChild =
     (case (nodeptr, newChild) of
        (Some p, Some x) \<Rightarrow>
          do { m \<leftarrow> h p;
               n \<leftarrow> h x;
               if dn_owner n \<noteq> None \<and> dn_owner m \<noteq> dn_owner n then Some (IXML_WRONG_DOCUMENT_ERR, h)
               else
                 do { anc \<leftarrow> ixmlNode_isAncestor h newChild nodeptr;
                      if anc then Some (IXML_HIERARCHY_REQUEST_ERR, h)
                      else
                        do { ok \<leftarrow> allow_children h p x;
                             if \<not> ok then Some (IXML_HIERARCHY_REQUEST_ERR, h)
                             else
                               do { yes \<leftarrow> ixmlNode_isParent h nodeptr newChild;
                                    h1 \<leftarrow> (if yes then map_option snd (ixmlNode_removeChild h nodeptr newChild)
                                           else Some h);
                                    m1 \<leftarrow> h1 p;
                                    h2 \<leftarrow> set_node h1 x (\<lambda>n. n\<lparr>dn_parent := Some p, dn_owner := dn_owner m1\<rparr>);
                                    m2 \<leftarrow> h2 p;
                                    (case dn_first m2 of
                                       None \<Rightarrow>
                                         do { h3 \<leftarrow> set_node h2 p (dn_first_update (\<lambda>_. Some x));
                                              Some (IXML_SUCCESS, h3) }
                                     | Some c \<Rightarrow>
                                         do { k \<leftarrow> h2 c;
                                              prev \<leftarrow> last_sibling h2 c (dn_next k);
                                              h3 \<leftarrow> set_node h2 prev (dn_next_update (\<lambda>_. Some x));
                                              h4 \<leftarrow> set_node h3 x (dn_prev_update (\<lambda>_. Some prev));
                                              Some (IXML_SUCCESS, h4) }) } } } }
      | _ \<Rightarrow> Some (IXML_INVALID_PARAMETER, h))"

text \<open>The part of \<open>ixmlNode_insertBefore\<close> that links the node in front of a child.\<close>

definition link_before :: "dom_heap \<Rightarrow> nat \<Rightarrow> nat \<Rightarrow> nat \<Rightarrow> dom_heap option" where
  "link_before h p x r =
     do { h1 \<leftarrow> set_node h x (dn_next_update (\<lambda>_. Some r));
          k \<leftarrow> h1 r;
          h2 \<leftarrow> (case dn_prev k of
                   None \<Rightarrow> Some h1
                 | Some q \<Rightarrow>
                     do { h' \<leftarrow> set_node h1 q (dn_next_update (\<lambda>_. Some x));
                          k' \<leftarrow> h' r;
                          set_node h' x (dn_prev_update (\<lambda>_. dn_prev k')) });
          h3 \<leftarrow> set_node h2 r (dn_prev_update (\<lambda>_. Some x));
          n \<leftarrow> h3 x;
          h4 \<leftarrow> (if dn_prev n = None then set_node h3 p (dn_first_update (\<lambda>_. Some x)) else Some h3);
          set_node h4 x (dn_parent_update (\<lambda>_. Some p)) }"

definition ixmlNode_insertBefore ::
  "dom_heap \<Rightarrow> nat option \<Rightarrow> nat option \<Rightarrow> nat option \<Rightarrow> (int \<times> dom_heap) option" where
  "ixmlNode_insertBefore h nodeptr newChild refChild =
     (case (nodeptr, newChild) of
        (Some p, Some x) \<Rightarrow>
          do { ok \<leftarrow> allow_children h p x;
               if \<not> ok then Some (IXML_HIERARCHY_REQUEST_ERR, h)
               else
                 do { anc \<leftarrow> ixmlNode_isAncestor h newChild nodeptr;
                      if anc then Some (IXML_HIERARCHY_REQUEST_ERR, h)
                      else
                        do { m \<leftarrow> h p;
                             n \<leftarrow> h x;
                             if dn_owner m \<noteq> dn_owner n then Some (IXML_WRONG_DOCUMENT_ERR, h)
                             else
                               do { isref \<leftarrow> ixmlNode_isParent h nodeptr refChild;
                                    if \<not> isref then Some (IXML_NOT_FOUND_ERR, h)
                                    else
                                      (case refChild of
                                         Some r \<Rightarrow>
                                           do { yes \<leftarrow> ixmlNode_isParent h nodeptr newChild;
                                                h1 \<leftarrow> (if yes
                                                       then do { (_, h') \<leftarrow> ixmlNode_removeChild h nodeptr newChild;
                                                                 set_node h' x (\<lambda>n. n\<lparr>dn_next := None, dn_prev := None\<rparr>) }
                                                       else Some h);
                                                h2 \<leftarrow> link_before h1 p x r;
                                                Some (IXML_SUCCESS, h2) }
                                       | None \<Rightarrow> ixmlNode_appendChild h nodeptr newChild) } } } }
      | _ \<Rightarrow> Some (IXML_INVALID_PARAMETER, h))"

definition ixmlNode_replaceChild ::
  "dom_heap \<Rightarrow> nat option \<Rightarrow> nat option \<Rightarrow> nat option \<Rightarrow> (int \<times> dom_heap) option" where
  "ixmlNode_replaceChild h nodeptr newChild oldChild =
     (case (nodeptr, newChild, oldChild) of
        (Some p, Some x, Some old) \<Rightarrow>
          do { anc \<leftarrow> ixmlNode_isAncestor h newChild nodeptr;
               if anc then Some (IXML_HIERARCHY_REQUEST_ERR, h)
               else
                 do { ok \<leftarrow> allow_children h p x;
                      if \<not> ok then Some (IXML_HIERARCHY_REQUEST_ERR, h)
                      else
                        do { m \<leftarrow> h p;
                             n \<leftarrow> h x;
                             if dn_owner m \<noteq> dn_owner n then Some (IXML_WRONG_DOCUMENT_ERR, h)
                             else
                               do { yes \<leftarrow> ixmlNode_isParent h nodeptr oldChild;
                                    if \<not> yes then Some (IXML_NOT_FOUND_ERR, h)
                                    else
                                      do { (ret, h1) \<leftarrow> ixmlNode_insertBefore h nodeptr newChild oldChild;
                                           if ret \<noteq> IXML_SUCCESS then Some (ret, h1)
                                           else ixmlNode_removeChild h1 nodeptr oldChild } } } } }
      | _ \<Rightarrow> Some (IXML_INVALID_PARAMETER, h))"

subsection \<open>Node lists (nodeList.c) and searches\<close>

text \<open>
  A node list is the list of its cells; null is the empty list, and a list that has just been made is
  one cell that holds no node.
\<close>

type_synonym node_list = "nat option list"

definition ixmlNodeList_init :: node_list where
  "ixmlNodeList_init = [None]"

definition ixmlNodeList_length :: "node_list \<Rightarrow> nat" where
  "ixmlNodeList_length nList = length nList"

text \<open>The index and the length are unsigned: \<open>length - 1\<close> of a list that is not null.\<close>

definition ixmlNodeList_item :: "node_list \<Rightarrow> nat \<Rightarrow> nat option" where
  "ixmlNodeList_item nList index =
     (if nList = [] then None
      else if index > ixmlNodeList_length nList - 1 then None
      else nList ! index)"

definition ixmlNodeList_addToNodeList :: "node_list \<Rightarrow> nat \<Rightarrow> node_list" where
  "ixmlNodeList_addToNodeList nList add =
     (let l = (if nList = [] then ixmlNodeList_init else nList)
      in if hd l = None then Some add # tl l else l @ [Some add])"

partial_function (option) child_items :: "dom_heap \<Rightarrow> nat option \<Rightarrow> node_list \<Rightarrow> node_list option" where
  "child_items h tempNode l =
     (case tempNode of
        None \<Rightarrow> Some l
      | Some a \<Rightarrow> do { n \<leftarrow> h a; child_items h (dn_next n) (ixmlNodeList_addToNodeList l a) })"

definition ixmlNode_getChildNodes :: "dom_heap \<Rightarrow> nat option \<Rightarrow> node_list option" where
  "ixmlNode_getChildNodes h nodeptr =
     (case nodeptr of
        None \<Rightarrow> Some []
      | Some p \<Rightarrow> do { n \<leftarrow> h p; child_items h (dn_first n) ixmlNodeList_init })"

definition ixmlNode_hasChildNodes :: "dom_heap \<Rightarrow> nat option \<Rightarrow> bool option" where
  "ixmlNode_hasChildNodes h nodeptr =
     (case nodeptr of None \<Rightarrow> Some False | Some p \<Rightarrow> map_option (\<lambda>n. dn_first n \<noteq> None) (h p))"

definition ixmlNode_hasAttributes :: "dom_heap \<Rightarrow> nat option \<Rightarrow> bool option" where
  "ixmlNode_hasAttributes h nodeptr =
     (case nodeptr of
        None \<Rightarrow> Some False
      | Some p \<Rightarrow> map_option (\<lambda>n. dn_type n = eELEMENT_NODE \<and> dn_attr n \<noteq> None) (h p))"

text \<open>
  The test on a node, by tag name and by namespace and local name. Only the first compares a name
  that may be null.
\<close>

definition tag_matches :: "c_string \<Rightarrow> dom_node \<Rightarrow> bool option" where
  "tag_matches tagname n =
     (if dn_type n \<noteq> eELEMENT_NODE then Some False
      else map_option (\<lambda>name. tagname = name \<or> tagname = ''*'') (dn_name n))"

definition tag_matches_ns :: "c_string \<Rightarrow> c_string \<Rightarrow> dom_node \<Rightarrow> bool option" where
  "tag_matches_ns namespaceURI localName n =
     Some (dn_type n = eELEMENT_NODE \<and>
       (case (dn_localName n, dn_namespaceURI n) of
          (Some name, Some nsURI) \<Rightarrow>
            (namespaceURI = nsURI \<or> namespaceURI = ''*'') \<and> (name = localName \<or> localName = ''*'')
        | _ \<Rightarrow> False))"

text \<open>The two recursive searches differ in the test only.\<close>

partial_function (option) collect ::
  "dom_heap \<Rightarrow> (dom_node \<Rightarrow> bool option) \<Rightarrow> nat option \<Rightarrow> node_list \<Rightarrow> node_list option" where
  "collect h match a l =
     (case a of
        None \<Rightarrow> Some l
      | Some p \<Rightarrow>
          do { n \<leftarrow> h p;
               yes \<leftarrow> match n;
               l1 \<leftarrow> collect h match (dn_first n) (if yes then ixmlNodeList_addToNodeList l p else l);
               collect h match (dn_next n) l1 })"

definition ixmlNode_getElementsByTagNameRecursive ::
  "dom_heap \<Rightarrow> nat option \<Rightarrow> c_string \<Rightarrow> node_list \<Rightarrow> node_list option" where
  "ixmlNode_getElementsByTagNameRecursive h n tagname l = collect h (tag_matches tagname) n l"

definition ixmlNode_getElementsByTagNameNSRecursive ::
  "dom_heap \<Rightarrow> nat option \<Rightarrow> c_string \<Rightarrow> c_string \<Rightarrow> node_list \<Rightarrow> node_list option" where
  "ixmlNode_getElementsByTagNameNSRecursive h n namespaceURI localName l =
     collect h (tag_matches_ns namespaceURI localName) n l"

definition ixmlNode_getElementsByTagName :: "dom_heap \<Rightarrow> nat \<Rightarrow> c_string \<Rightarrow> node_list \<Rightarrow> node_list option" where
  "ixmlNode_getElementsByTagName h n tagname l =
     do { nd \<leftarrow> h n;
          yes \<leftarrow> tag_matches tagname nd;
          ixmlNode_getElementsByTagNameRecursive h (dn_first nd) tagname
            (if yes then ixmlNodeList_addToNodeList l n else l) }"

definition ixmlNode_getElementsByTagNameNS ::
  "dom_heap \<Rightarrow> nat \<Rightarrow> c_string \<Rightarrow> c_string \<Rightarrow> node_list \<Rightarrow> node_list option" where
  "ixmlNode_getElementsByTagNameNS h n namespaceURI localName l =
     do { nd \<leftarrow> h n;
          yes \<leftarrow> tag_matches_ns namespaceURI localName nd;
          ixmlNode_getElementsByTagNameNSRecursive h (dn_first nd) namespaceURI localName
            (if yes then ixmlNodeList_addToNodeList l n else l) }"

subsection \<open>Neighbours in a list\<close>

definition hd_opt :: "'a list \<Rightarrow> 'a option" where
  "hd_opt xs = (case xs of [] \<Rightarrow> None | x # _ \<Rightarrow> Some x)"

fun next_of :: "'a list \<Rightarrow> 'a \<Rightarrow> 'a option" where
  "next_of [] y = None"
| "next_of (x # xs) y = (if y = x then hd_opt xs else next_of xs y)"

fun prev_from :: "'a option \<Rightarrow> 'a list \<Rightarrow> 'a \<Rightarrow> 'a option" where
  "prev_from q [] y = None"
| "prev_from q (x # xs) y = (if y = x then q else prev_from (Some x) xs y)"

abbreviation prev_of :: "'a list \<Rightarrow> 'a \<Rightarrow> 'a option" where
  "prev_of xs y \<equiv> prev_from None xs y"

fun ins_before :: "'a \<Rightarrow> 'a \<Rightarrow> 'a list \<Rightarrow> 'a list" where
  "ins_before x r [] = []"
| "ins_before x r (y # ys) = (if y = r then x # y # ys else y # ins_before x r ys)"

lemma hd_opt_simps [simp]: "hd_opt [] = None" "hd_opt (x # xs) = Some x"
  by (simp_all add: hd_opt_def)

lemma hd_opt_in: "hd_opt xs = Some x \<Longrightarrow> x \<in> set xs"
  by (cases xs) auto

lemma nxt_in: "next_of xs y = Some x \<Longrightarrow> x \<in> set xs \<and> y \<in> set xs"
  by (induction xs) (auto simp: hd_opt_in split: if_splits)

lemma nxt_notin [simp]: "y \<notin> set xs \<Longrightarrow> next_of xs y = None"
  by (induction xs) auto

lemma prv_from_notin [simp]: "y \<notin> set xs \<Longrightarrow> prev_from q xs y = None"
  by (induction xs arbitrary: q) auto

lemma prv_from_in: "prev_from q xs y = Some x \<Longrightarrow> (x \<in> set xs \<or> q = Some x) \<and> y \<in> set xs"
  by (induction xs arbitrary: q) (auto split: if_splits)

lemma prv_in: "prev_of xs y = Some x \<Longrightarrow> x \<in> set xs \<and> y \<in> set xs"
  using prv_from_in[of None xs y x] by simp

lemma nxt_prv_from:
  "distinct xs \<Longrightarrow> q \<notin> Some ` set xs \<Longrightarrow> prev_from q xs x = Some y \<longleftrightarrow>
     (q = Some y \<and> hd_opt xs = Some x) \<or> next_of xs y = Some x"
proof (induction xs arbitrary: q)
  case (Cons z zs)
  show ?case
  proof (cases "x = z")
    case True
    then show ?thesis using Cons.prems nxt_in[of zs y x] by (auto dest: hd_opt_in)
  next
    case False
    then show ?thesis using Cons.IH[of "Some z"] Cons.prems by (auto dest: nxt_in hd_opt_in)
  qed
qed simp

lemma nxt_prv: "distinct xs \<Longrightarrow> next_of xs y = Some x \<longleftrightarrow> prev_of xs x = Some y"
  using nxt_prv_from[of xs None x y] by auto

lemma hd_prv: "distinct xs \<Longrightarrow> x \<in> set xs \<Longrightarrow> hd_opt xs = Some x \<longleftrightarrow> prev_of xs x = None"
proof (induction xs)
  case (Cons z zs)
  have "prev_from (Some q) ys x \<noteq> None" if "x \<in> set ys" for q and ys :: "'a list"
    using that by (induction ys arbitrary: q) auto
  then show ?case using Cons.prems by auto
qed simp

lemma nxt_self: "distinct xs \<Longrightarrow> next_of xs x \<noteq> Some x"
  by (induction xs) (auto dest: hd_opt_in)

lemma nxt_remove:
  "distinct xs \<Longrightarrow> y \<noteq> x \<Longrightarrow> next_of (remove1 x xs) y = (if next_of xs y = Some x then next_of xs x else next_of xs y)"
proof (induction xs)
  case (Cons z zs)
  then show ?case by (cases zs) (auto dest: nxt_in hd_opt_in)
qed simp

lemma prv_from_remove:
  "distinct xs \<Longrightarrow> y \<noteq> x \<Longrightarrow> q \<noteq> Some x \<Longrightarrow>
   prev_from q (remove1 x xs) y = (if prev_from q xs y = Some x then prev_from q xs x else prev_from q xs y)"
proof (induction xs arbitrary: q)
  case (Cons z zs)
  show ?case
  proof (cases "z = x")
    case True
    then show ?thesis using Cons.prems by (cases zs) (auto dest: prv_from_in)
  next
    case False
    then show ?thesis using Cons by auto
  qed
qed simp

lemma hd_remove: "distinct xs \<Longrightarrow> hd_opt (remove1 x xs) = (if hd_opt xs = Some x then next_of xs x else hd_opt xs)"
  by (cases xs) auto

lemma set_ins_before [simp]: "r \<in> set xs \<Longrightarrow> set (ins_before x r xs) = insert x (set xs)"
  by (induction xs) auto

lemma distinct_ins_before: "distinct xs \<Longrightarrow> x \<notin> set xs \<Longrightarrow> r \<in> set xs \<Longrightarrow> distinct (ins_before x r xs)"
  by (induction xs) auto

lemma hd_ins_before: "hd_opt (ins_before x r xs) = (if hd_opt xs = Some r then Some x else hd_opt xs)"
  by (cases xs) auto

lemma nxt_ins_before:
  "distinct xs \<Longrightarrow> x \<notin> set xs \<Longrightarrow> r \<in> set xs \<Longrightarrow>
   next_of (ins_before x r xs) y = (if y = x then Some r else if next_of xs y = Some r then Some x else next_of xs y)"
proof (induction xs)
  case (Cons z zs)
  then show ?case by (auto simp: hd_ins_before dest: nxt_in hd_opt_in)
qed simp

lemma prv_from_ins_before:
  "distinct xs \<Longrightarrow> x \<notin> set xs \<Longrightarrow> r \<in> set xs \<Longrightarrow> prev_from q (ins_before x r xs) y =
     (if y = r then Some x else if y = x then prev_from q xs r else prev_from q xs y)"
  by (induction xs arbitrary: q) auto

lemma nxt_snoc:
  "distinct xs \<Longrightarrow> x \<notin> set xs \<Longrightarrow>
   next_of (xs @ [x]) y = (if xs \<noteq> [] \<and> y = last xs then Some x else next_of xs y)"
proof (induction xs)
  case (Cons z zs)
  then show ?case by (cases zs) auto
qed simp

lemma prv_from_snoc:
  "x \<notin> set xs \<Longrightarrow> prev_from q (xs @ [x]) y = (if y = x then (if xs = [] then q else Some (last xs)) else prev_from q xs y)"
  by (induction xs arbitrary: q) auto


subsection \<open>Heaps that hold trees\<close>

text \<open>
  \<open>K p\<close> are the children of \<open>p\<close> in order. The pointers of the heap are those of the lists: the first
  child, the neighbours, the parent. A node without a parent has no siblings (attributes, which
  form lists of their own, apart).
\<close>

definition dom_ok :: "dom_heap \<Rightarrow> (nat \<Rightarrow> nat list) \<Rightarrow> bool" where
  "dom_ok h K \<longleftrightarrow>
     (\<forall>p. distinct (K p)) \<and> (\<forall>p n. h p = Some n \<longrightarrow> dn_first n = hd_opt (K p)) \<and>
     (\<forall>p x. x \<in> set (K p) \<longrightarrow> p \<in> dom h \<and> (\<exists>n. h x = Some n \<and> dn_parent n = Some p \<and>
            dn_prev n = prev_of (K p) x \<and> dn_next n = next_of (K p) x)) \<and>
     (\<forall>x n p. h x = Some n \<longrightarrow> dn_parent n = Some p \<longrightarrow> x \<in> set (K p)) \<and>
     (\<forall>x n. h x = Some n \<longrightarrow> dn_parent n = None \<longrightarrow> dn_type n \<noteq> eATTRIBUTE_NODE \<longrightarrow>
            dn_prev n = None \<and> dn_next n = None)"

lemma dom_okI:
  assumes "\<And>p. distinct (K p)" "\<And>p n. h p = Some n \<Longrightarrow> dn_first n = hd_opt (K p)"
    "\<And>p x. x \<in> set (K p) \<Longrightarrow> p \<in> dom h \<and> (\<exists>n. h x = Some n \<and> dn_parent n = Some p \<and>
       dn_prev n = prev_of (K p) x \<and> dn_next n = next_of (K p) x)"
    "\<And>x n p. h x = Some n \<Longrightarrow> dn_parent n = Some p \<Longrightarrow> x \<in> set (K p)"
    "\<And>x n. h x = Some n \<Longrightarrow> dn_parent n = None \<Longrightarrow> dn_type n \<noteq> eATTRIBUTE_NODE \<Longrightarrow> dn_prev n = None \<and> dn_next n = None"
  shows "dom_ok h K"
  using assms unfolding dom_ok_def by blast

lemma dom_ok_child:
  assumes "dom_ok h K" "x \<in> set (K p)"
  obtains n m where "h x = Some n" "dn_parent n = Some p" "dn_prev n = prev_of (K p) x" "dn_next n = next_of (K p) x"
    "h p = Some m" "dn_first m = hd_opt (K p)"
  using assms unfolding dom_ok_def by (metis domD)

lemma dom_ok_first: "dom_ok h K \<Longrightarrow> h p = Some n \<Longrightarrow> dn_first n = hd_opt (K p)"
  by (simp add: dom_ok_def)

lemma dom_ok_distinct: "dom_ok h K \<Longrightarrow> distinct (K p)"
  by (simp add: dom_ok_def)

lemma dom_ok_parent: "dom_ok h K \<Longrightarrow> h x = Some n \<Longrightarrow> dn_parent n = Some p \<longleftrightarrow> x \<in> set (K p)"
  unfolding dom_ok_def by fastforce

lemma dom_ok_detached:
  "dom_ok h K \<Longrightarrow> h x = Some n \<Longrightarrow> dn_parent n = None \<Longrightarrow> dn_type n \<noteq> eATTRIBUTE_NODE \<Longrightarrow> dn_prev n = None \<and> dn_next n = None"
  unfolding dom_ok_def by blast

lemma dom_ok_one_parent: "dom_ok h K \<Longrightarrow> x \<in> set (K p) \<Longrightarrow> x \<in> set (K q) \<Longrightarrow> p = q"
  by (metis dom_ok_child option.inject)

text \<open>
  An update through a pointer that leads to a node, as a function of the address.
\<close>

definition upd :: "nat option \<Rightarrow> (dom_node \<Rightarrow> dom_node) \<Rightarrow> dom_heap \<Rightarrow> dom_heap" where
  "upd a f h = (\<lambda>b. if a = Some b then map_option f (h b) else h b)"

lemma set_node_upd: "h a = Some n \<Longrightarrow> set_node h a f = Some (upd (Some a) f h)"
  by (auto simp: set_node_def upd_def fun_eq_iff)

lemma set_at_upd: "(\<And>b. a = Some b \<Longrightarrow> \<exists>n. h b = Some n) \<Longrightarrow> set_at h a f = Some (upd a f h)"
  by (cases a) (auto simp: set_at_def set_node_upd, auto simp: upd_def)

text \<open>The heap in which the child \<open>x\<close> of \<open>p\<close> is taken out of its list.\<close>

definition taken_out :: "(nat \<Rightarrow> nat list) \<Rightarrow> nat \<Rightarrow> nat \<Rightarrow> dom_heap \<Rightarrow> dom_heap" where
  "taken_out K p x h = (\<lambda>a. map_option (\<lambda>n. n\<lparr>
     dn_first := (if a = p \<and> hd_opt (K p) = Some x then next_of (K p) x else dn_first n),
     dn_next := (if a = x then None else if prev_of (K p) x = Some a then next_of (K p) x else dn_next n),
     dn_prev := (if a = x then None else if next_of (K p) x = Some a then prev_of (K p) x else dn_prev n),
     dn_parent := (if a = x then None else dn_parent n)\<rparr>) (h a))"

lemma unlinked_upd:
  "upd (Some x) (\<lambda>n. n\<lparr>dn_next := None, dn_prev := None, dn_parent := None\<rparr>)
      (upd (next_of (K p) x) (dn_prev_update (\<lambda>_. prev_of (K p) x))
       (upd (if hd_opt (K p) = Some x then Some p else None) (dn_first_update (\<lambda>_. next_of (K p) x))
        (upd (prev_of (K p) x) (dn_next_update (\<lambda>_. next_of (K p) x)) h))) = taken_out K p x h" (is "?l = ?r")
proof
  fix a show "?l a = ?r a" unfolding upd_def taken_out_def by (cases "h a") auto
qed

lemma remove_heap:
  assumes ok: "dom_ok h K" and x: "x \<in> set (K p)"
  shows "ixmlNode_removeChild h (Some p) (Some x) = Some (IXML_SUCCESS,
     taken_out K p x h)"
proof -
  obtain n m where n: "h x = Some n" "dn_parent n = Some p" "dn_prev n = prev_of (K p) x" "dn_next n = next_of (K p) x"
    and m: "h p = Some m" "dn_first m = hd_opt (K p)"
    using dom_ok_child[OF ok x] .
  have d: "distinct (K p)" using ok by (rule dom_ok_distinct)
  have px: "prev_of (K p) x \<noteq> Some x" "next_of (K p) x \<noteq> Some x" using nxt_self[OF d] nxt_prv[OF d] by auto
  have q: "\<exists>k. h a = Some k" if "prev_of (K p) x = Some a \<or> next_of (K p) x = Some a" for a
    using that prv_in nxt_in dom_ok_child[OF ok] by (metis (no_types))
  have s1: "set_at h (prev_of (K p) x) f = Some (upd (prev_of (K p) x) f h)" for f
    by (rule set_at_upd) (use q in blast)
  define h1 where "h1 = upd (prev_of (K p) x) (dn_next_update (\<lambda>_. next_of (K p) x)) h"
  have x1: "h1 x = Some n" using n px by (simp add: h1_def upd_def)
  obtain m1 where m1: "h1 p = Some m1" "dn_first m1 = hd_opt (K p)" using m
    by (cases "prev_of (K p) x = Some p") (auto simp: h1_def upd_def)
  define h2 where "h2 = upd (if hd_opt (K p) = Some x then Some p else None) (dn_first_update (\<lambda>_. next_of (K p) x)) h1"
  have s2: "(if hd_opt (K p) = Some x then set_node h1 p (dn_first_update (\<lambda>_. dn_next n)) else Some h1) = Some h2"
    using m1 n by (auto simp: h2_def set_node_upd) (simp add: upd_def)
  obtain n2 where x2: "h2 x = Some n2" "dn_next n2 = next_of (K p) x" "dn_prev n2 = prev_of (K p) x"
    using x1 n
    by (cases "x = p"; cases "hd_opt (K p) = Some x") (auto simp: h2_def upd_def)
  have s3: "set_at h2 (next_of (K p) x) f = Some (upd (next_of (K p) x) f h2)" for f
    by (rule set_at_upd) (use q in \<open>fastforce simp: h2_def h1_def upd_def\<close>)
  have s4: "set_node (upd (next_of (K p) x) f h2) x g = Some (upd (Some x) g (upd (next_of (K p) x) f h2))" for f g
    by (rule set_node_upd[where n=n2]) (use x2 px in \<open>simp add: upd_def\<close>)
  show ?thesis
    by (simp add: ixmlNode_removeChild_def ixmlNode_isParent_def n s1 h1_def[symmetric] x1 m1 s2 x2 s3 s4 unlinked_upd[symmetric] h2_def[symmetric]
        split del: if_split)
qed

text \<open>
  What an operation leaves alone: the set of nodes and everything of a node but its links and its
  document.
\<close>

definition node_data :: "dom_node \<Rightarrow> node_type \<times> c_string option list \<times> nat option \<times> nat option" where
  "node_data n = (dn_type n, [dn_name n, dn_value n, dn_namespaceURI n, dn_prefix n, dn_localName n],
                  dn_attr n, dn_element n)"

definition same_data :: "dom_heap \<Rightarrow> dom_heap \<Rightarrow> bool" where
  "same_data h h' \<longleftrightarrow> map_option node_data \<circ> h' = map_option node_data \<circ> h"

lemma node_data_links [simp]:
  "node_data (n\<lparr>dn_next := a\<rparr>) = node_data n" "node_data (n\<lparr>dn_prev := a\<rparr>) = node_data n"
  "node_data (n\<lparr>dn_first := a\<rparr>) = node_data n" "node_data (n\<lparr>dn_parent := a\<rparr>) = node_data n"
  "node_data (n\<lparr>dn_owner := a\<rparr>) = node_data n"
  by (simp_all add: node_data_def)

lemma same_data_refl [simp]: "same_data h h"
  by (simp add: same_data_def)

lemma same_data_trans: "same_data h h' \<Longrightarrow> same_data h' h'' \<Longrightarrow> same_data h h''"
  by (simp add: same_data_def)

lemma same_data_upd: "(\<And>n. node_data (f n) = node_data n) \<Longrightarrow> same_data h (upd a f h)"
  by (auto simp: same_data_def upd_def fun_eq_iff option.map_comp comp_def)

lemma remove_links:
  assumes ok: "dom_ok h K" and x: "x \<in> set (K p)"
  shows "dom_ok (taken_out K p x h) (K(p := remove1 x (K p)))"
proof -
  let ?K = "K(p := remove1 x (K p))"
  have d: "distinct (K q)" for q using ok by (rule dom_ok_distinct)
  have no: "next_of (K p) x \<noteq> Some y \<and> prev_of (K p) x \<noteq> Some y" if "h y = Some n" "dn_parent n = None" for y n
  proof -
    have "y \<notin> set (K p)" using that dom_ok_parent[OF ok that(1), of p] by simp
    then show ?thesis by (blast dest: nxt_in prv_in)
  qed
  have nq: "next_of (K p) x \<noteq> Some y" "prev_of (K p) x \<noteq> Some y" if "y \<in> set (K q)" "q \<noteq> p" for y q
    using dom_ok_one_parent[OF ok that(1), of p] that(2) by (blast dest: nxt_in prv_in)+
  show ?thesis
  proof (rule dom_okI)
    fix q y assume y: "y \<in> set (?K q)"
    then have yq: "y \<in> set (K q)" using d[of p] by (auto split: if_splits)
    have yx: "y \<noteq> x"
    proof
      assume "y = x"
      then have "q = p" using dom_ok_one_parent[OF ok yq, of p] x by simp
      then show False using y d[of p] \<open>y = x\<close> by simp
    qed
    obtain n m where n: "h y = Some n" "dn_parent n = Some q" "dn_prev n = prev_of (K q) y" "dn_next n = next_of (K q) y"
      "h q = Some m" using dom_ok_child[OF ok yq] .
    show "q \<in> dom (taken_out K p x h) \<and> (\<exists>n. (taken_out K p x h) y = Some n \<and> dn_parent n = Some q \<and> dn_prev n = prev_of (?K q) y \<and> dn_next n = next_of (?K q) y)"
      using n yx nq[OF yq] nxt_prv[OF d[of p]] nxt_remove[OF d[of p] yx] prv_from_remove[OF d[of p] yx, of None]
      by (auto simp: taken_out_def)
  next
    fix y n q assume "(taken_out K p x h) y = Some n" "dn_parent n = Some q"
    then show "y \<in> set (?K q)" using d[of p] dom_ok_parent[OF ok] by (auto simp: taken_out_def split: if_splits)
  next
    fix y n assume n: "(taken_out K p x h) y = Some n" "dn_parent n = None" "dn_type n \<noteq> eATTRIBUTE_NODE"
    show "dn_prev n = None \<and> dn_next n = None"
    proof (cases "y = x")
      case False
      then obtain k where k: "h y = Some k" "dn_parent k = None" "dn_type k \<noteq> eATTRIBUTE_NODE"
        using n by (auto simp: taken_out_def)
      then show ?thesis using n no[OF k(1,2)] False dom_ok_detached[OF ok k] by (auto simp: taken_out_def)
    qed (use n in \<open>auto simp: taken_out_def\<close>)
  next
    fix q n assume "(taken_out K p x h) q = Some n"
    then show "dn_first n = hd_opt (?K q)"
      using dom_ok_first[OF ok] hd_remove[OF d[of p], of x] by (auto simp: taken_out_def)
  qed (use d in auto)
qed

lemma same_data_unlinked: "same_data h (taken_out K p x h)"
  by (auto simp: same_data_def taken_out_def fun_eq_iff option.map_comp comp_def)

text \<open>A node that hangs nowhere.\<close>

definition detached :: "dom_heap \<Rightarrow> nat \<Rightarrow> bool" where
  "detached h x \<longleftrightarrow> (\<exists>n. h x = Some n \<and> dn_parent n = None \<and> dn_prev n = None \<and> dn_next n = None)"

lemma remove_child:
  assumes ok: "dom_ok h K" and x: "x \<in> set (K p)"
  obtains h' where "ixmlNode_removeChild h (Some p) (Some x) = Some (IXML_SUCCESS, h')"
    "dom_ok h' (K(p := remove1 x (K p)))" "same_data h h'" "map_option dn_owner \<circ> h' = map_option dn_owner \<circ> h"
    "detached h' x"
proof (rule that)
  obtain n where "h x = Some n" using dom_ok_child[OF ok x] by metis
  then show "detached (taken_out K p x h) x" by (auto simp: detached_def taken_out_def)
  show "map_option dn_owner \<circ> taken_out K p x h = map_option dn_owner \<circ> h"
    by (auto simp: taken_out_def fun_eq_iff option.map_comp comp_def)
qed (rule remove_heap[OF ok x] remove_links[OF ok x] same_data_unlinked)+

text \<open>The heap in which \<open>x\<close> is put between \<open>q\<close> and \<open>r\<close> among the children of \<open>p\<close>.\<close>

definition linked_in :: "nat \<Rightarrow> nat \<Rightarrow> nat option \<Rightarrow> nat option \<Rightarrow> dom_heap \<Rightarrow> dom_heap" where
  "linked_in p x q r h = (\<lambda>a. map_option (\<lambda>n. n\<lparr>
     dn_first := (if a = p \<and> q = None then Some x else dn_first n),
     dn_next := (if a = x then r else if q = Some a then Some x else dn_next n),
     dn_prev := (if a = x then q else if r = Some a then Some x else dn_prev n),
     dn_parent := (if a = x then Some p else dn_parent n)\<rparr>) (h a))"

lemma same_data_linked: "same_data h (linked_in p x q r h)"
  by (auto simp: same_data_def linked_in_def fun_eq_iff option.map_comp comp_def)

lemma owner_linked: "map_option dn_owner \<circ> linked_in p x q r h = map_option dn_owner \<circ> h"
  by (auto simp: linked_in_def fun_eq_iff option.map_comp comp_def)

lemma linked_ok:
  assumes ok: "dom_ok h K" and x: "x \<notin> set (K p)" "h x = Some nx" "dn_parent nx = None" and p: "p \<in> dom h"
    and L: "distinct L" "set L = insert x (set (K p))" "hd_opt L = (if q = None then Some x else hd_opt (K p))"
      "\<And>y. next_of L y = (if y = x then r else if q = Some y then Some x else next_of (K p) y)"
      "\<And>y. prev_of L y = (if y = x then q else if r = Some y then Some x else prev_of (K p) y)"
    and q: "\<And>a. q = Some a \<or> r = Some a \<Longrightarrow> a \<in> set (K p)"
  shows "dom_ok (linked_in p x q r h) (K(p := L))"
proof -
  let ?K = "K(p := L)"
  have d: "distinct (K c)" for c using ok by (rule dom_ok_distinct)
  have xc: "x \<notin> set (K c)" for c using dom_ok_parent[OF ok x(2), of c] x(3) by simp
  have out: "q \<noteq> Some y \<and> r \<noteq> Some y" if "y \<notin> set (K p)" for y using q that by blast
  show ?thesis
  proof (rule dom_okI)
    fix c y assume y: "y \<in> set (?K c)"
    show "c \<in> dom (linked_in p x q r h) \<and> (\<exists>n. (linked_in p x q r h) y = Some n \<and> dn_parent n = Some c \<and>
        dn_prev n = prev_of (?K c) y \<and> dn_next n = next_of (?K c) y)"
    proof (cases "y = x")
      case True
      then have "c = p" using y xc by (auto split: if_splits)
      then show ?thesis using True x p by (auto simp: linked_in_def L(4,5))
    next
      case False
      then have yc: "y \<in> set (K c)" using y L(2) by (auto split: if_splits)
      obtain n m where n: "h y = Some n" "dn_parent n = Some c" "dn_prev n = prev_of (K c) y" "dn_next n = next_of (K c) y"
        "h c = Some m" using dom_ok_child[OF ok yc] .
      have "q \<noteq> Some y \<and> r \<noteq> Some y" if "c \<noteq> p"
        by (rule out) (use dom_ok_one_parent[OF ok yc, of p] that in blast)
      then show ?thesis using n False by (cases "c = p") (auto simp: linked_in_def L(4,5))
    qed
  next
    fix y n c assume n: "(linked_in p x q r h) y = Some n" "dn_parent n = Some c"
    show "y \<in> set (?K c)"
    proof (cases "y = x")
      case False
      then obtain k where "h y = Some k" "dn_parent k = Some c" using n by (auto simp: linked_in_def)
      then show ?thesis using dom_ok_parent[OF ok, of y k c] L(2) by auto
    qed (use n L(2) in \<open>auto simp: linked_in_def\<close>)
  next
    fix y n assume n: "(linked_in p x q r h) y = Some n" "dn_parent n = None" "dn_type n \<noteq> eATTRIBUTE_NODE"
    then obtain k where k: "h y = Some k" "dn_parent k = None" "dn_type k \<noteq> eATTRIBUTE_NODE" and yx: "y \<noteq> x"
      by (cases "y = x") (auto simp: linked_in_def)
    have "y \<notin> set (K p)" using dom_ok_parent[OF ok k(1), of p] k(2) by simp
    then show "dn_prev n = None \<and> dn_next n = None"
      using n(1) k(1) yx out[of y] dom_ok_detached[OF ok k] by (auto simp: linked_in_def)
  next
    fix c n assume "(linked_in p x q r h) c = Some n"
    then show "dn_first n = hd_opt (?K c)" using dom_ok_first[OF ok, of c] L(3) by (auto simp: linked_in_def)
  qed (use d L(1) in auto)
qed

lemma link_before_heap:
  assumes ok: "dom_ok h K" and x: "h x = Some nx" "dn_parent nx = None" "dn_prev nx = None" and r: "r \<in> set (K p)"
  shows "link_before h p x r = Some (linked_in p x (prev_of (K p) r) (Some r) h)"
proof -
  obtain n m where n: "h r = Some n" "dn_parent n = Some p" "dn_prev n = prev_of (K p) r"
    and m: "h p = Some m" "dn_first m = hd_opt (K p)"
    using dom_ok_child[OF ok r] by metis
  have d: "distinct (K p)" using ok by (rule dom_ok_distinct)
  have xr: "x \<noteq> r" using x n by auto
  have qx: "q \<noteq> x \<and> q \<noteq> r \<and> (\<exists>k. h q = Some k)" if q: "prev_of (K p) r = Some q" for q
  proof -
    have "q \<in> set (K p)" using prv_in[OF q] by simp
    then obtain k where "h q = Some k" "dn_parent k = Some p" using dom_ok_child[OF ok] by metis
    moreover have "q \<noteq> r" using nxt_prv[OF d, of q r] nxt_self[OF d, of r] q by auto
    ultimately show ?thesis using x by auto
  qed
  show ?thesis
  proof (cases "prev_of (K p) r")
    case None
    then show ?thesis using n m x xr
      by (auto simp: link_before_def set_node_def linked_in_def fun_eq_iff option.map_ident)
  next
    case (Some q)
    then obtain k where "h q = Some k" "q \<noteq> x" "q \<noteq> r" using qx by blast
    then show ?thesis using n m x xr Some
      by (auto simp: link_before_def set_node_def linked_in_def fun_eq_iff option.map_ident)
  qed
qed

lemma insert_links:
  assumes ok: "dom_ok h K" and x: "h x = Some nx" "dn_parent nx = None" "dn_prev nx = None" and r: "r \<in> set (K p)"
  obtains h' where "link_before h p x r = Some h'" "dom_ok h' (K(p := ins_before x r (K p)))" "same_data h h'"
    "map_option dn_owner \<circ> h' = map_option dn_owner \<circ> h"
proof (rule that)
  show "link_before h p x r = Some (linked_in p x (prev_of (K p) r) (Some r) h)" by (rule link_before_heap[OF ok x r])
  have d: "distinct (K p)" using ok by (rule dom_ok_distinct)
  have xp: "x \<notin> set (K p)" using dom_ok_parent[OF ok x(1), of p] x(2) by simp
  have p: "p \<in> dom h" using dom_ok_child[OF ok r] by blast
  have n: "next_of (ins_before x r (K p)) y = (if y = x then Some r else if prev_of (K p) r = Some y then Some x else next_of (K p) y)" for y
    by (simp only: nxt_ins_before[OF d xp r] nxt_prv[OF d])
  have h: "hd_opt (ins_before x r (K p)) = (if prev_of (K p) r = None then Some x else hd_opt (K p))"
    by (simp only: hd_ins_before hd_prv[OF d r])
  have v: "prev_of (ins_before x r (K p)) y = (if y = x then prev_of (K p) r else if Some r = Some y then Some x else prev_of (K p) y)" for y
    using prv_from_ins_before[OF d xp r, of None y] xp r by auto
  show "dom_ok (linked_in p x (prev_of (K p) r) (Some r) h) (K(p := ins_before x r (K p)))"
    by (rule linked_ok[OF ok xp x(1,2) p distinct_ins_before[OF d xp r] set_ins_before[OF r] h n v])
      (use r prv_in[of "K p" r] in blast)
qed (rule same_data_linked owner_linked)+

text \<open>The links of a list of nodes to the right.\<close>

fun sib_chain :: "dom_heap \<Rightarrow> nat list \<Rightarrow> bool" where
  "sib_chain h [] = True"
| "sib_chain h (y # ys) = ((\<exists>n. h y = Some n \<and> dn_next n = hd_opt ys) \<and> sib_chain h ys)"

lemma chain_nxt: "distinct L \<Longrightarrow> (\<And>y. y \<in> set L \<Longrightarrow> \<exists>n. h y = Some n \<and> dn_next n = next_of L y) \<Longrightarrow> sib_chain h L"
proof (induction L)
  case (Cons y ys)
  have "\<exists>n. h z = Some n \<and> dn_next n = next_of ys z" if "z \<in> set ys" for z
    using Cons.prems(1) Cons.prems(2)[of z] that by (cases "z = y") auto
  then show ?case using Cons.IH Cons.prems(1) Cons.prems(2)[of y] by simp
qed simp

lemma chain_children: "dom_ok h K \<Longrightarrow> sib_chain h (K p)"
  by (rule chain_nxt) (auto intro: dom_ok_distinct elim: dom_ok_child)

lemma chain_cong: "(\<And>y. y \<in> set ys \<Longrightarrow> h' y = h y) \<Longrightarrow> sib_chain h' ys = sib_chain h ys"
  by (induction ys) auto

lemma last_sibling_chain: "sib_chain h ys \<Longrightarrow> last_sibling h c (hd_opt ys) = Some (last (c # ys))"
proof (induction ys arbitrary: c)
  case Nil
  then show ?case by (subst last_sibling.simps) simp
next
  case (Cons y ys)
  then show ?case by (subst last_sibling.simps) auto
qed

text \<open>The end of \<open>ixmlNode_appendChild\<close>: the links behind the last child.\<close>

lemma append_links:
  assumes ok: "dom_ok h K" and x: "h x = Some nx" "dn_parent nx = None" "dn_prev nx = None" "dn_next nx = None"
    and p: "p \<in> dom h"
  shows "dom_ok (linked_in p x (if K p = [] then None else Some (last (K p))) None h) (K(p := K p @ [x]))"
proof -
  have d: "distinct (K p)" using ok by (rule dom_ok_distinct)
  have xp: "x \<notin> set (K p)" using dom_ok_parent[OF ok x(1), of p] x(2) by simp
  let ?q = "if K p = [] then None else Some (last (K p))"
  have n: "next_of (K p @ [x]) y = (if y = x then None else if ?q = Some y then Some x else next_of (K p) y)" for y
    using nxt_snoc[OF d xp, of y] xp by auto
  have v: "prev_of (K p @ [x]) y = (if y = x then ?q else if None = Some y then Some x else prev_of (K p) y)" for y
    using prv_from_snoc[OF xp, of None y] by auto
  have s: "hd_opt (K p @ [x]) = (if ?q = None then Some x else hd_opt (K p))" by (cases "K p") auto
  show ?thesis
    by (rule linked_ok[OF ok xp x(1,2) p _ _ s n v]) (use d xp in \<open>auto split: if_splits\<close>)
qed

subsection \<open>The search for an ancestor\<close>

definition child_rel :: "(nat \<Rightarrow> nat list) \<Rightarrow> (nat \<times> nat) set" where
  "child_rel K = {(p, c). c \<in> set (K p)}"

lemma child_rel_iff [simp]: "(p, c) \<in> child_rel K \<longleftrightarrow> c \<in> set (K p)"
  by (simp add: child_rel_def)

lemma below_step:
  "(y, x) \<in> (child_rel K)\<^sup>+ \<longleftrightarrow> x \<in> set (K y) \<or> (\<exists>z\<in>set (K y). (z, x) \<in> (child_rel K)\<^sup>+)"
  by (metis child_rel_iff converse_tranclE r_into_trancl' trancl_into_trancl2)

text \<open>No node is below itself, and every way down ends.\<close>

definition tree_ok :: "(nat \<Rightarrow> nat list) \<Rightarrow> bool" where
  "tree_ok K \<longleftrightarrow> wf ((child_rel K)\<inverse>)"

lemma tree_ok_acyclic: "tree_ok K \<Longrightarrow> (a, a) \<notin> (child_rel K)\<^sup>+"
  unfolding tree_ok_def using wf_acyclic acyclic_converse[of "child_rel K"] by (auto simp: acyclic_def)

lemma isAncestor_null [simp]: "ixmlNode_isAncestor h None x = Some False"
  by (subst ixmlNode_isAncestor.simps) simp

lemma isAncestor_forest:
  assumes x: "h x = Some nx" and ok: "dom_ok h K" and ys: "sib_chain h ys"
    and sub: "\<And>y. y \<in> set ys \<Longrightarrow> ixmlNode_isAncestor h (hd_opt (K y)) (Some x)
                = Some (\<exists>z\<in>set (K y). (z, x) \<in> (child_rel K)\<^sup>+)"
  shows "ixmlNode_isAncestor h (hd_opt ys) (Some x) = Some (\<exists>y\<in>set ys. (y, x) \<in> (child_rel K)\<^sup>+)"
  using ys sub
proof (induction ys)
  case (Cons y ys)
  obtain n where n: "h y = Some n" "dn_next n = hd_opt ys" using Cons.prems(1) by auto
  have first: "dn_first n = hd_opt (K y)" using dom_ok_first[OF ok n(1)] .
  have par: "dn_parent nx = Some y \<longleftrightarrow> x \<in> set (K y)" using dom_ok_parent[OF ok x] .
  have rest: "ixmlNode_isAncestor h (hd_opt ys) (Some x) = Some (\<exists>y\<in>set ys. (y, x) \<in> (child_rel K)\<^sup>+)"
    using Cons by simp
  show ?case
    using Cons.prems(2)[of y] by (subst ixmlNode_isAncestor.simps) (auto simp: x n first par below_step[of y] rest)
qed simp

lemma isAncestor_children:
  assumes ok: "dom_ok h K" and t: "tree_ok K" and x: "h x = Some nx"
  shows "ixmlNode_isAncestor h (hd_opt (K y)) (Some x) = Some (\<exists>z\<in>set (K y). (z, x) \<in> (child_rel K)\<^sup>+)"
  using t[unfolded tree_ok_def]
proof (induction y rule: wf_induct_rule)
  case (less y)
  show ?case
    by (rule isAncestor_forest[OF x ok chain_children[OF ok]]) (use less in \<open>auto simp: child_rel_def\<close>)
qed

lemma isAncestor_chain:
  assumes "dom_ok h K" "tree_ok K" "h x = Some nx" "sib_chain h ys"
  shows "ixmlNode_isAncestor h (hd_opt ys) (Some x) = Some (\<exists>y\<in>set ys. (y, x) \<in> (child_rel K)\<^sup>+)"
  by (rule isAncestor_forest[OF assms(3,1,4)]) (rule isAncestor_children[OF assms(1-3)])


lemma chain_append: "sib_chain h (us @ vs) \<Longrightarrow> sib_chain h vs"
  by (induction us) auto

text \<open>The nodes that \<open>ixmlNode_appendChild\<close> and \<open>ixmlNode_insertBefore\<close> move in order.\<close>

definition movable :: "dom_heap \<Rightarrow> (nat \<Rightarrow> nat list) \<Rightarrow> nat \<Rightarrow> nat \<Rightarrow> bool" where
  "movable h K p x \<longleftrightarrow> detached h x \<or> x \<in> set (K p)"

lemma isAncestor_movable:
  assumes ok: "dom_ok h K" and t: "tree_ok K" and x: "movable h K p x" and p: "h p = Some m"
  shows "ixmlNode_isAncestor h (Some x) (Some p) = Some ((x, p) \<in> (child_rel K)\<^sup>+)"
proof (cases "detached h x")
  case True
  then have "sib_chain h [x]" by (auto simp: detached_def)
  from isAncestor_chain[OF ok t p this] show ?thesis by simp
next
  case False
  then have xp: "x \<in> set (K p)" using x by (simp add: movable_def)
  then obtain us vs where K: "K p = us @ x # vs" by (meson split_list)
  have "sib_chain h (x # vs)" using chain_append[of h us "x # vs"] chain_children[OF ok, of p] K by simp
  from isAncestor_chain[OF ok t p this]
  have "ixmlNode_isAncestor h (Some x) (Some p) = Some (\<exists>y\<in>set (x # vs). (y, p) \<in> (child_rel K)\<^sup>+)" by simp
  moreover have "(y, p) \<notin> (child_rel K)\<^sup>+" if "y \<in> set (K p)" for y
    using tree_ok_acyclic[OF t, of p] that by (meson child_rel_iff trancl_into_trancl2)
  ultimately show ?thesis using K xp by simp
qed

lemma tree_ok_insert:
  assumes t: "tree_ok K" and x: "(x, p) \<notin> (child_rel K)\<^sup>*" and L: "set L \<subseteq> insert x (set (K p))"
  shows "tree_ok (K(p := L))"
proof -
  have "wf (insert (x, p) ((child_rel K)\<inverse>))"
    using t x by (simp add: wf_insert tree_ok_def rtrancl_converse)
  moreover have "(child_rel (K(p := L)))\<inverse> \<subseteq> insert (x, p) ((child_rel K)\<inverse>)"
    using L by (auto split: if_splits)
  ultimately show ?thesis unfolding tree_ok_def by (rule wf_subset)
qed

text \<open>Both operations first take the node out of the list it is moved in.\<close>

lemma unlink_first:
  assumes ok: "dom_ok h K" and x: "movable h K p x" and n: "h x = Some n"
  obtains h' where "(if dn_parent n = Some p then map_option snd (ixmlNode_removeChild h (Some p) (Some x)) else Some h) = Some h'"
    "dn_parent n = Some p \<Longrightarrow> ixmlNode_removeChild h (Some p) (Some x) = Some (IXML_SUCCESS, h')"
    "dom_ok h' (K(p := remove1 x (K p)))" "same_data h h'" "map_option dn_owner \<circ> h' = map_option dn_owner \<circ> h" "detached h' x"
proof (cases "x \<in> set (K p)")
  case True
  obtain h' where h': "ixmlNode_removeChild h (Some p) (Some x) = Some (IXML_SUCCESS, h')" and
    rest: "dom_ok h' (K(p := remove1 x (K p)))" "same_data h h'" "map_option dn_owner \<circ> h' = map_option dn_owner \<circ> h"
      "detached h' x"
    using remove_child[OF ok True] by metis
  show ?thesis by (rule that[OF _ _ rest]) (use h' True dom_ok_parent[OF ok n, of p] in simp_all)
next
  case False
  moreover have "K(p := K p) = K" by simp
  ultimately show ?thesis using that[of h] x ok dom_ok_parent[OF ok n, of p] by (simp add: movable_def remove1_idem)
qed

lemma dom_ok_owner:
  assumes ok: "dom_ok h K" and x: "h x = Some n"
  shows "dom_ok (h(x \<mapsto> n\<lparr>dn_owner := w\<rparr>)) K"
proof (rule dom_okI)
  let ?h = "h(x \<mapsto> n\<lparr>dn_owner := w\<rparr>)"
  fix p y assume y: "y \<in> set (K p)"
  obtain k m where k: "h y = Some k" "dn_parent k = Some p" "dn_prev k = prev_of (K p) y" "dn_next k = next_of (K p) y" "h p = Some m"
    using dom_ok_child[OF ok y] .
  then show "p \<in> dom ?h \<and> (\<exists>n. ?h y = Some n \<and> dn_parent n = Some p \<and> dn_prev n = prev_of (K p) y \<and> dn_next n = next_of (K p) y)"
    using x by (cases "y = x") auto
next
  fix y k p assume "(h(x \<mapsto> n\<lparr>dn_owner := w\<rparr>)) y = Some k" "dn_parent k = Some p"
  then show "y \<in> set (K p)" using dom_ok_parent[OF ok, of y] x by (cases "y = x") auto
next
  fix y k assume "(h(x \<mapsto> n\<lparr>dn_owner := w\<rparr>)) y = Some k" "dn_parent k = None" "dn_type k \<noteq> eATTRIBUTE_NODE"
  then show "dn_prev k = None \<and> dn_next k = None" using dom_ok_detached[OF ok, of y] x by (cases "y = x") auto
next
  fix p k assume "(h(x \<mapsto> n\<lparr>dn_owner := w\<rparr>)) p = Some k"
  then show "dn_first k = hd_opt (K p)" using dom_ok_first[OF ok, of p] x by (cases "p = x") auto
qed (rule dom_ok_distinct[OF ok])

lemma isParent_some: "h x = Some n \<Longrightarrow> ixmlNode_isParent h (Some p) (Some x) = Some (dn_parent n = Some p)"
  by (simp add: ixmlNode_isParent_def)

lemma append_tail:
  assumes ok: "dom_ok h K" and x: "h x = Some n" "dn_parent n = None" "dn_prev n = None" "dn_next n = None"
    and p: "h p = Some m" and xp: "x \<noteq> p"
  shows "do { h2 \<leftarrow> set_node h x (\<lambda>n. n\<lparr>dn_parent := Some p, dn_owner := w\<rparr>);
              m2 \<leftarrow> h2 p;
              (case dn_first m2 of
                 None \<Rightarrow> do { h3 \<leftarrow> set_node h2 p (dn_first_update (\<lambda>_. Some x)); Some (r, h3) }
               | Some c \<Rightarrow>
                   do { k \<leftarrow> h2 c;
                        prev \<leftarrow> last_sibling h2 c (dn_next k);
                        h3 \<leftarrow> set_node h2 prev (dn_next_update (\<lambda>_. Some x));
                        h4 \<leftarrow> set_node h3 x (dn_prev_update (\<lambda>_. Some prev));
                        Some (r, h4) }) }
    = Some (r, linked_in p x (if K p = [] then None else Some (last (K p))) None (h(x \<mapsto> n\<lparr>dn_owner := w\<rparr>)))"
proof -
  have first: "dn_first m = hd_opt (K p)" using dom_ok_first[OF ok p] .
  let ?h2 = "h(x \<mapsto> n\<lparr>dn_parent := Some p, dn_owner := w\<rparr>)"
  have xK: "x \<notin> set (K p)" using dom_ok_parent[OF ok x(1), of p] x(2) by simp
  have s: "set_node h x (\<lambda>n. n\<lparr>dn_parent := Some p, dn_owner := w\<rparr>) = Some ?h2" using x by (simp add: set_node_def)
  show ?thesis
  proof (cases "K p")
    case Nil
    then show ?thesis using x p xp first
      by (simp add: s) (auto simp: set_node_def linked_in_def fun_eq_iff option.map_ident)
  next
    case (Cons c cs)
    have ch: "sib_chain ?h2 (c # cs)"
    proof -
      have "sib_chain ?h2 (K p) = sib_chain h (K p)" by (rule chain_cong) (use xK in auto)
      then show ?thesis using chain_children[OF ok, of p] Cons by simp
    qed
    let ?q = "last (c # cs)"
    have q: "?q \<in> set (K p)" using Cons by (metis last_in_set list.simps(3))
    then obtain k where k: "h ?q = Some k" "dn_next k = next_of (K p) ?q" using dom_ok_child[OF ok q] by metis
    have qx: "?q \<noteq> x" using q xK by blast
    obtain k1 where k1: "?h2 c = Some k1" "dn_next k1 = hd_opt cs" using ch by auto
    have l: "last_sibling ?h2 c (hd_opt cs) = Some ?q" using last_sibling_chain[of ?h2 cs c] ch by simp
    have p2: "?h2 p = Some m" using p xp by simp
    have e: "set_node ?h2 ?q (dn_next_update (\<lambda>_. Some x)) = Some (?h2(?q \<mapsto> k\<lparr>dn_next := Some x\<rparr>))"
      using k qx by (simp add: set_node_def)
    have "do { h4 \<leftarrow> set_node (?h2(?q \<mapsto> k\<lparr>dn_next := Some x\<rparr>)) x (dn_prev_update (\<lambda>_. Some ?q)); Some (r, h4) }
      = Some (r, linked_in p x (Some ?q) None (h(x \<mapsto> n\<lparr>dn_owner := w\<rparr>)))"
      using k qx x by (auto simp: set_node_def linked_in_def fun_eq_iff option.map_ident)
    then show ?thesis using Cons first by (simp only: s p2 bind.bind_lunit hd_opt_simps option.case list.simps if_False k1 l e)
  qed
qed

text \<open>A field that the heap operations keep, read in the new heap.\<close>

lemma same_field: "map_option f \<circ> h' = map_option f \<circ> h \<Longrightarrow> h a = Some n \<Longrightarrow> \<exists>n'. h' a = Some n' \<and> f n' = f n"
  by (metis comp_apply map_option_eq_Some)

theorem appendChild_refines:
  assumes ok: "dom_ok h K" and t: "tree_ok K" and p: "h p = Some m" and x: "h x = Some n" "movable h K p x"
    and anc: "(x, p) \<notin> (child_rel K)\<^sup>*" and own: "dn_owner n = None \<or> dn_owner m = dn_owner n"
    and al: "ixmlNode_allowChildren (dn_type m) (dn_type n)"
  shows "\<exists>h'. ixmlNode_appendChild h (Some p) (Some x) = Some (IXML_SUCCESS, h') \<and>
           dom_ok h' (K(p := remove1 x (K p) @ [x])) \<and> tree_ok (K(p := remove1 x (K p) @ [x])) \<and> same_data h h' \<and>
           map_option dn_owner \<circ> h' = (map_option dn_owner \<circ> h)(x \<mapsto> dn_owner m)"
proof -
  have na: "ixmlNode_isAncestor h (Some x) (Some p) = Some False"
    using isAncestor_movable[OF ok t x(2) p] anc by (auto dest: trancl_into_rtrancl)
  obtain h1 where h1: "(if dn_parent n = Some p then map_option snd (ixmlNode_removeChild h (Some p) (Some x)) else Some h) = Some h1"
    and ok1: "dom_ok h1 (K(p := remove1 x (K p)))" and sd: "same_data h h1"
    and ow: "map_option dn_owner \<circ> h1 = map_option dn_owner \<circ> h" and dt: "detached h1 x"
    using unlink_first[OF ok x(2,1)] by metis
  obtain n1 where n1: "h1 x = Some n1" "dn_parent n1 = None" "dn_prev n1 = None" "dn_next n1 = None"
    using dt by (auto simp: detached_def)
  obtain m1 where m1: "h1 p = Some m1" "dn_owner m1 = dn_owner m" using same_field[OF ow p] by blast
  have xp: "x \<noteq> p" using anc by auto
  let ?K = "K(p := remove1 x (K p))"
  let ?h2 = "h1(x \<mapsto> n1\<lparr>dn_owner := dn_owner m\<rparr>)"
  let ?h' = "linked_in p x (if ?K p = [] then None else Some (last (?K p))) None ?h2"
  have "ixmlNode_appendChild h (Some p) (Some x) = Some (IXML_SUCCESS, ?h')"
    unfolding ixmlNode_appendChild_def allow_children_def
    using own al append_tail[OF ok1 n1 m1(1) xp, of "dn_owner m" IXML_SUCCESS]
    by (auto simp add: p x(1) na isParent_some[of h x n] h1 m1 simp del: fun_upd_apply)
  moreover have "dom_ok ?h' (?K(p := ?K p @ [x]))"
    by (rule append_links[OF dom_ok_owner[OF ok1 n1(1)], where nx="n1\<lparr>dn_owner := dn_owner m\<rparr>"]) (use n1 m1 xp in auto)
  moreover have "tree_ok (K(p := remove1 x (K p) @ [x]))"
    by (rule tree_ok_insert[OF t anc]) (auto dest: notin_set_remove1)
  moreover have "same_data h ?h'"
  proof (rule same_data_trans[OF _ same_data_linked])
    show "same_data h ?h2" using sd n1(1) by (auto simp: same_data_def fun_eq_iff) (metis node_data_links(5) option.simps(9))
  qed
  moreover have "map_option dn_owner \<circ> ?h' = (map_option dn_owner \<circ> h)(x \<mapsto> dn_owner m)"
    using ow by (auto simp: owner_linked fun_eq_iff)
  ultimately show ?thesis by auto
qed


theorem insertBefore_refines:
  assumes ok: "dom_ok h K" and t: "tree_ok K" and p: "h p = Some m" and x: "h x = Some n" "movable h K p x"
    and r: "r \<in> set (K p)" "r \<noteq> x"
    and anc: "(x, p) \<notin> (child_rel K)\<^sup>*" and own: "dn_owner m = dn_owner n"
    and al: "ixmlNode_allowChildren (dn_type m) (dn_type n)"
  shows "\<exists>h'. ixmlNode_insertBefore h (Some p) (Some x) (Some r) = Some (IXML_SUCCESS, h') \<and>
           dom_ok h' (K(p := ins_before x r (remove1 x (K p)))) \<and>
           tree_ok (K(p := ins_before x r (remove1 x (K p)))) \<and> same_data h h' \<and>
           map_option dn_owner \<circ> h' = map_option dn_owner \<circ> h"
proof -
  have na: "ixmlNode_isAncestor h (Some x) (Some p) = Some False"
    using isAncestor_movable[OF ok t x(2) p] anc by (auto dest: trancl_into_rtrancl)
  obtain h1 where h1: "dn_parent n \<noteq> Some p \<Longrightarrow> h1 = h"
      "dn_parent n = Some p \<Longrightarrow> ixmlNode_removeChild h (Some p) (Some x) = Some (IXML_SUCCESS, h1)"
    and ok1: "dom_ok h1 (K(p := remove1 x (K p)))" and sd: "same_data h h1"
    and ow: "map_option dn_owner \<circ> h1 = map_option dn_owner \<circ> h" and dt: "detached h1 x"
    using unlink_first[OF ok x(2,1)] by (metis option.inject)
  obtain n1 where n1: "h1 x = Some n1" "dn_parent n1 = None" "dn_prev n1 = None" "dn_next n1 = None"
    using dt by (auto simp: detached_def)
  have clear: "set_node h1 x (\<lambda>n. n\<lparr>dn_next := None, dn_prev := None\<rparr>) = Some h1"
    using n1 by (auto simp: set_node_def fun_eq_iff)
  have r1: "r \<in> set ((K(p := remove1 x (K p))) p)" using r by simp
  obtain h2 where h2: "link_before h1 p x r = Some h2"
    "dom_ok h2 (K(p := ins_before x r (remove1 x (K p))))" "same_data h1 h2"
    "map_option dn_owner \<circ> h2 = map_option dn_owner \<circ> h1"
    using insert_links[OF ok1 n1(1-3) r1] by (metis fun_upd_same fun_upd_upd)
  obtain nr where nr: "h r = Some nr" "dn_parent nr = Some p" using dom_ok_child[OF ok r(1)] by metis
  have "ixmlNode_insertBefore h (Some p) (Some x) (Some r) = Some (IXML_SUCCESS, h2)"
    unfolding ixmlNode_insertBefore_def allow_children_def
    using own al h1 h2(1) by (cases "dn_parent n = Some p")
      (simp_all add: p x(1) na isParent_some[of h x n] isParent_some[of h r nr] nr clear)
  moreover have "tree_ok (K(p := ins_before x r (remove1 x (K p))))"
    by (rule tree_ok_insert[OF t anc]) (use r1 in \<open>auto dest: notin_set_remove1\<close>)
  ultimately show ?thesis using h2 ow same_data_trans[OF sd h2(3)] by auto
qed

text \<open>Taking a child out keeps the order of the others and the rest of the tree.\<close>

theorem removeChild_refines:
  assumes "dom_ok h K" "tree_ok K" "x \<in> set (K p)"
  shows "\<exists>h'. ixmlNode_removeChild h (Some p) (Some x) = Some (IXML_SUCCESS, h') \<and>
           dom_ok h' (K(p := remove1 x (K p))) \<and> tree_ok (K(p := remove1 x (K p))) \<and> same_data h h' \<and>
           map_option dn_owner \<circ> h' = map_option dn_owner \<circ> h \<and> detached h' x"
proof -
  have "tree_ok (K(p := remove1 x (K p)))"
    unfolding tree_ok_def
    by (rule wf_subset[OF assms(2)[unfolded tree_ok_def]]) (use set_remove1_subset[of x "K p"] in \<open>auto split: if_splits\<close>)
  then show ?thesis using remove_child[OF assms(1,3)] by metis
qed

lemma replaceChild_new:
  assumes ok: "dom_ok h K" and t: "tree_ok K" and p: "h p = Some m" and x: "h x = Some n" "movable h K p x"
    and r: "r \<in> set (K p)" "r \<noteq> x"
    and anc: "(x, p) \<notin> (child_rel K)\<^sup>*" and own: "dn_owner m = dn_owner n"
    and al: "ixmlNode_allowChildren (dn_type m) (dn_type n)"
  shows "ixmlNode_replaceChild h (Some p) (Some x) (Some r) =
     do { (_, h1) \<leftarrow> ixmlNode_insertBefore h (Some p) (Some x) (Some r); ixmlNode_removeChild h1 (Some p) (Some r) }"
proof -
  have na: "ixmlNode_isAncestor h (Some x) (Some p) = Some False"
    using isAncestor_movable[OF ok t x(2) p] anc by (auto dest: trancl_into_rtrancl)
  obtain nr where nr: "h r = Some nr" "dn_parent nr = Some p" using dom_ok_child[OF ok r(1)] by metis
  obtain h1 where "ixmlNode_insertBefore h (Some p) (Some x) (Some r) = Some (IXML_SUCCESS, h1)"
    using insertBefore_refines[OF assms] by blast
  then show ?thesis
    unfolding ixmlNode_replaceChild_def allow_children_def
    using own al by (simp add: p x(1) na isParent_some[of h r nr] nr)
qed

text \<open>An operation that refuses leaves the heap as it is.\<close>

lemma removeChild_errors: "ixmlNode_removeChild h p x = Some (e, h') \<Longrightarrow> e \<noteq> IXML_SUCCESS \<Longrightarrow> h' = h"
  by (auto simp: ixmlNode_removeChild_def bind_eq_Some_conv split: option.splits if_splits)

lemma appendChild_errors: "ixmlNode_appendChild h p x = Some (e, h') \<Longrightarrow> e \<noteq> IXML_SUCCESS \<Longrightarrow> h' = h"
  by (auto simp: ixmlNode_appendChild_def bind_eq_Some_conv split: option.splits if_splits)

lemma insertBefore_errors: "ixmlNode_insertBefore h p x r = Some (e, h') \<Longrightarrow> e \<noteq> IXML_SUCCESS \<Longrightarrow> h' = h"
  by (auto simp: ixmlNode_insertBefore_def bind_eq_Some_conv appendChild_errors split: option.splits if_splits)

subsection \<open>The contract of a tree of child lists\<close>

lemma remove_ins_before: "x \<noteq> r \<Longrightarrow> x \<notin> set L \<Longrightarrow> remove1 x (ins_before x r L) = L"
  by (induction L) auto

lemma replace_list:
  "distinct L \<Longrightarrow> x \<noteq> r \<Longrightarrow> x \<notin> set L \<Longrightarrow> r \<in> set L \<Longrightarrow> remove1 r (ins_before x r L) = map (\<lambda>c. if c = r then x else c) L"
proof (induction L)
  case (Cons y ys)
  have "map (\<lambda>c. if c = r then x else c) ys = ys" if "r \<notin> set ys" using that by (auto intro: map_idI)
  then show ?case using Cons by auto
qed simp

text \<open>
  What a client of the tree relies on: a heap \<open>h\<close> represents the lists \<open>K\<close>; a child is taken out, and
  a node that fits is put in front of a child or at the end, moved when it is in the list already.
\<close>

locale child_lists =
  fixes rep :: "'h \<Rightarrow> (nat \<Rightarrow> nat list) \<Rightarrow> bool"
    and fits :: "'h \<Rightarrow> (nat \<Rightarrow> nat list) \<Rightarrow> nat \<Rightarrow> nat \<Rightarrow> bool"
    and take_out :: "'h \<Rightarrow> nat \<Rightarrow> nat \<Rightarrow> 'h option"
    and put_before :: "'h \<Rightarrow> nat \<Rightarrow> nat \<Rightarrow> nat \<Rightarrow> 'h option"
    and put_last :: "'h \<Rightarrow> nat \<Rightarrow> nat \<Rightarrow> 'h option"
  assumes rep_distinct: "rep h K \<Longrightarrow> distinct (K p)"
    and take_out_law: "rep h K \<Longrightarrow> x \<in> set (K p) \<Longrightarrow>
      \<exists>h'. take_out h p x = Some h' \<and> rep h' (K(p := remove1 x (K p)))"
    and put_before_law: "rep h K \<Longrightarrow> fits h K p x \<Longrightarrow> r \<in> set (K p) \<Longrightarrow> r \<noteq> x \<Longrightarrow>
      \<exists>h'. put_before h p x r = Some h' \<and> rep h' (K(p := ins_before x r (remove1 x (K p))))"
    and put_last_law: "rep h K \<Longrightarrow> fits h K p x \<Longrightarrow>
      \<exists>h'. put_last h p x = Some h' \<and> rep h' (K(p := remove1 x (K p) @ [x]))"
begin

lemma replace_law:
  assumes "rep h K" "fits h K p x" "r \<in> set (K p)" "r \<noteq> x"
  shows "\<exists>h'. do { h1 \<leftarrow> put_before h p x r; take_out h1 p r } = Some h' \<and>
              rep h' (K(p := map (\<lambda>c. if c = r then x else c) (remove1 x (K p))))"
proof -
  let ?L = "remove1 x (K p)"
  have L: "distinct ?L" "x \<notin> set ?L" "r \<in> set ?L" using rep_distinct[OF assms(1), of p] assms(3,4) by auto
  obtain h1 where h1: "put_before h p x r = Some h1" "rep h1 (K(p := ins_before x r ?L))"
    using put_before_law[OF assms] by blast
  then show ?thesis
    using take_out_law[OF h1(2), of r p] L replace_list[of ?L x r] assms(4) by simp
qed

lemma put_take_roundtrip:
  assumes "rep h K" "fits h K p x" "r \<in> set (K p)" "x \<notin> set (K p)"
  shows "\<exists>h1 h2. put_before h p x r = Some h1 \<and> take_out h1 p x = Some h2 \<and> rep h2 K"
proof -
  have r: "r \<noteq> x" using assms by blast
  obtain h1 where h1: "put_before h p x r = Some h1" "rep h1 (K(p := ins_before x r (remove1 x (K p))))"
    using put_before_law[OF assms(1-3) r] by blast
  then show ?thesis
    using take_out_law[OF h1(2), of x p] assms r remove_ins_before[of x r "K p"] by (simp add: remove1_idem)
qed

lemma last_take_roundtrip:
  assumes "rep h K" "fits h K p x" "x \<notin> set (K p)"
  shows "\<exists>h1 h2. put_last h p x = Some h1 \<and> take_out h1 p x = Some h2 \<and> rep h2 K"
proof -
  obtain h1 where h1: "put_last h p x = Some h1" "rep h1 (K(p := remove1 x (K p) @ [x]))"
    using put_last_law[OF assms(1,2)] by blast
  then show ?thesis
    using take_out_law[OF h1(2), of x p] assms(3) by (simp add: remove1_idem remove1_append)
qed

end

text \<open>The operations of \<open>node.c\<close> keep that contract.\<close>

definition heap_rep :: "dom_heap \<Rightarrow> (nat \<Rightarrow> nat list) \<Rightarrow> bool" where
  "heap_rep h K \<longleftrightarrow> dom_ok h K \<and> tree_ok K"

definition heap_fits :: "dom_heap \<Rightarrow> (nat \<Rightarrow> nat list) \<Rightarrow> nat \<Rightarrow> nat \<Rightarrow> bool" where
  "heap_fits h K p x \<longleftrightarrow> movable h K p x \<and> (x, p) \<notin> (child_rel K)\<^sup>* \<and>
     (\<exists>m n. h p = Some m \<and> h x = Some n \<and> dn_owner m = dn_owner n \<and> ixmlNode_allowChildren (dn_type m) (dn_type n))"

definition success :: "(int \<times> dom_heap) option \<Rightarrow> dom_heap option" where
  "success r = (case r of Some (e, h) \<Rightarrow> if e = IXML_SUCCESS then Some h else None | None \<Rightarrow> None)"

lemma success_iff [simp]: "success r = Some h \<longleftrightarrow> r = Some (IXML_SUCCESS, h)"
  by (auto simp: success_def split: option.splits)

interpretation dom: child_lists heap_rep heap_fits
  "\<lambda>h p x. success (ixmlNode_removeChild h (Some p) (Some x))"
  "\<lambda>h p x r. success (ixmlNode_insertBefore h (Some p) (Some x) (Some r))"
  "\<lambda>h p x. success (ixmlNode_appendChild h (Some p) (Some x))"
proof
  fix h K p x assume "heap_rep h K" "x \<in> set (K p)"
  then show "\<exists>h'. success (ixmlNode_removeChild h (Some p) (Some x)) = Some h' \<and> heap_rep h' (K(p := remove1 x (K p)))"
    using removeChild_refines[of h K x p] by (auto simp: heap_rep_def)
next
  fix h K p x r assume "heap_rep h K" "heap_fits h K p x" "r \<in> set (K p)" "r \<noteq> x"
  then show "\<exists>h'. success (ixmlNode_insertBefore h (Some p) (Some x) (Some r)) = Some h' \<and>
      heap_rep h' (K(p := ins_before x r (remove1 x (K p))))"
    using insertBefore_refines[of h K p _ x _ r] by (fastforce simp: heap_rep_def heap_fits_def)
next
  fix h K p x assume "heap_rep h K" "heap_fits h K p x"
  then show "\<exists>h'. success (ixmlNode_appendChild h (Some p) (Some x)) = Some h' \<and> heap_rep h' (K(p := remove1 x (K p) @ [x]))"
    using appendChild_refines[of h K p _ x] by (fastforce simp: heap_rep_def heap_fits_def)
qed (auto simp: heap_rep_def intro: dom_ok_distinct)

text \<open>
  C16: Replacing a child by another node (one that hangs nowhere, or another child of the same
  parent) succeeds on every heap that holds trees and refines the replacement in the list of
  children: the new child stands where the old one stood, all other lists are as they were, and the
  heap still holds trees: all the pointers of the nodes agree with the lists. Names, values and
  attributes of all nodes are as they were.
\<close>

theorem replaceChild_refines:
  assumes "heap_rep h K" "heap_fits h K p x" "old \<in> set (K p)" "old \<noteq> x"
  shows "\<exists>h'. ixmlNode_replaceChild h (Some p) (Some x) (Some old) = Some (IXML_SUCCESS, h') \<and>
           heap_rep h' (K(p := map (\<lambda>c. if c = old then x else c) (remove1 x (K p)))) \<and> same_data h h'"
proof -
  obtain m n where h: "h p = Some m" "h x = Some n" and mn: "movable h K p x" "(x, p) \<notin> (child_rel K)\<^sup>*" "dn_owner m = dn_owner n"
    "ixmlNode_allowChildren (dn_type m) (dn_type n)" using assms(2) by (auto simp: heap_fits_def)
  have ok: "dom_ok h K" "tree_ok K" using assms(1) by (auto simp: heap_rep_def)
  have "ixmlNode_replaceChild h (Some p) (Some x) (Some old) =
      do { (_, h1) \<leftarrow> ixmlNode_insertBefore h (Some p) (Some x) (Some old); ixmlNode_removeChild h1 (Some p) (Some old) }"
    by (rule replaceChild_new[OF ok h mn(1) assms(3,4) mn(2-4)])
  moreover obtain h' where h': "do { h1 \<leftarrow> success (ixmlNode_insertBefore h (Some p) (Some x) (Some old));
       success (ixmlNode_removeChild h1 (Some p) (Some old)) } = Some h'"
      "heap_rep h' (K(p := map (\<lambda>c. if c = old then x else c) (remove1 x (K p))))"
    using dom.replace_law[OF assms] by blast
  moreover obtain h1 where h1: "ixmlNode_insertBefore h (Some p) (Some x) (Some old) = Some (IXML_SUCCESS, h1)"
      "dom_ok h1 (K(p := ins_before x old (remove1 x (K p))))" "tree_ok (K(p := ins_before x old (remove1 x (K p))))" "same_data h h1"
    using insertBefore_refines[OF ok h mn(1) assms(3,4) mn(2-4)] by blast
  moreover have "same_data h1 h'"
    using removeChild_refines[OF h1(2,3), of old p] h'(1) h1(1) assms(3,4) by (auto simp: bind_eq_Some_conv set_ins_before)
  ultimately show ?thesis using same_data_trans by (fastforce simp: bind_eq_Some_conv)
qed

subsection \<open>Searching the tree\<close>

lemma getLastChild_ok:
  assumes "dom_ok h K" "h p = Some m"
  shows "ixmlNode_getLastChild h (Some p) = Some (Some (last (p # K p)))"
  using last_sibling_chain[OF chain_children[OF assms(1)], of p p] dom_ok_first[OF assms]
  by (simp add: ixmlNode_getLastChild_def assms(2))

lemma addToNodeList_full: "None \<notin> set l \<Longrightarrow> ixmlNodeList_addToNodeList l a = l @ [Some a]"
  by (cases l) (auto simp: ixmlNodeList_addToNodeList_def ixmlNodeList_init_def)

lemma child_items_chain:
  "sib_chain h ys \<Longrightarrow> None \<notin> set l \<Longrightarrow> child_items h (hd_opt ys) l = Some (l @ map Some ys)"
proof (induction ys arbitrary: l)
  case Nil
  then show ?case by (subst child_items.simps) simp
next
  case (Cons y ys)
  then show ?case by (subst child_items.simps) (auto simp: addToNodeList_full)
qed

lemma getChildNodes_ok:
  assumes "dom_ok h K" "h p = Some m"
  shows "ixmlNode_getChildNodes h (Some p) = Some (if K p = [] then [None] else map Some (K p))"
proof (cases "K p")
  case Nil
  then show ?thesis using dom_ok_first[OF assms] assms(2)
    by (simp add: ixmlNode_getChildNodes_def ixmlNodeList_init_def) (subst child_items.simps, simp)
next
  case (Cons y ys)
  then obtain n where n: "h y = Some n" "dn_next n = hd_opt ys" "sib_chain h ys"
    using chain_children[OF assms(1), of p] by auto
  then show ?thesis using dom_ok_first[OF assms] assms(2) Cons child_items_chain[OF n(3), of "[Some y]"]
    by (simp add: ixmlNode_getChildNodes_def ixmlNodeList_init_def)
      (subst child_items.simps, simp add: ixmlNodeList_addToNodeList_def)
qed

text \<open>
  The nodes of a tree in preorder: a node, then the trees of its children from the left. That it is
  defined for every node rests on \<^const>\<open>tree_ok\<close>.
\<close>

inductive preorder :: "(nat \<Rightarrow> nat list) \<Rightarrow> nat \<Rightarrow> nat list \<Rightarrow> bool"
  and preorders :: "(nat \<Rightarrow> nat list) \<Rightarrow> nat list \<Rightarrow> nat list \<Rightarrow> bool" for K where
  pre_node: "preorders K (K p) ps \<Longrightarrow> preorder K p (p # ps)"
| pre_nil: "preorders K [] []"
| pre_cons: "preorder K c ps \<Longrightarrow> preorders K cs qs \<Longrightarrow> preorders K (c # cs) (ps @ qs)"

inductive_cases preorderE: "preorder K p ps"
inductive_simps preorders_simps [simp]: "preorders K [] ps" "preorders K (c # cs) ps"

lemma preorder_total: "tree_ok K \<Longrightarrow> \<exists>ps. preorder K p ps"
  unfolding tree_ok_def
proof (induction p rule: wf_induct_rule)
  case (less p)
  have "\<exists>qs. preorders K cs qs" if "set cs \<subseteq> set (K p)" for cs
    using that
  proof (induction cs)
    case Nil
    show ?case using pre_nil by blast
  next
    case (Cons c cs)
    then show ?case using less[of c] pre_cons by fastforce
  qed
  then show ?case using pre_node by blast
qed

lemma preorder_set:
  "preorder K p ps \<Longrightarrow> set ps = {q. (p, q) \<in> (child_rel K)\<^sup>*}"
  "preorders K cs qs \<Longrightarrow> set qs = {q. \<exists>c\<in>set cs. (c, q) \<in> (child_rel K)\<^sup>*}"
proof (induction p ps and cs qs rule: preorder_preorders.inducts)
  case (pre_node p ps)
  have "(p, q) \<in> (child_rel K)\<^sup>* \<longleftrightarrow> q = p \<or> (\<exists>c\<in>set (K p). (c, q) \<in> (child_rel K)\<^sup>*)" for q
    by (metis child_rel_iff converse_rtranclE converse_rtrancl_into_rtrancl rtrancl.rtrancl_refl)
  then show ?case using pre_node by auto
qed auto

text \<open>The search takes the elements that match from the preorder of the trees it is called on.\<close>

lemma collect_preorder:
  assumes ok: "dom_ok h K"
  shows "preorder K p ps \<Longrightarrow> \<forall>q\<in>set ps. \<forall>n. h q = Some n \<longrightarrow> match n = Some (good q) \<Longrightarrow>
         \<forall>l. None \<notin> set l \<longrightarrow>
           collect h match (hd_opt (K p)) (if good p then l @ [Some p] else l) = Some (l @ map Some (filter good ps))"
    and "preorders K cs qs \<Longrightarrow> \<forall>q\<in>set qs. \<forall>n. h q = Some n \<longrightarrow> match n = Some (good q) \<Longrightarrow> sib_chain h cs \<Longrightarrow>
         \<forall>l. None \<notin> set l \<longrightarrow> collect h match (hd_opt cs) l = Some (l @ map Some (filter good qs))"
proof (induction p ps and cs qs rule: preorder_preorders.inducts)
  case (pre_node p ps)
  then show ?case using chain_children[OF ok, of p] by auto
next
  case pre_nil
  show ?case by (subst collect.simps) simp
next
  case (pre_cons c ps cs qs)
  obtain n where n: "h c = Some n" "dn_next n = hd_opt cs" "sib_chain h cs" using pre_cons.prems(2) by auto
  have m: "match n = Some (good c)"
    using pre_cons.prems(1) preorder_set(1)[OF pre_cons(1)] n by simp
  show ?case
  proof (intro allI impI)
    fix l :: node_list assume l: "None \<notin> set l"
    have "collect h match (hd_opt (K c)) (if good c then l @ [Some c] else l) = Some (l @ map Some (filter good ps))"
      using pre_cons l by simp
    moreover have "collect h match (hd_opt cs) (l @ map Some (filter good ps)) =
        Some ((l @ map Some (filter good ps)) @ map Some (filter good qs))"
      using pre_cons l n by simp
    ultimately show "collect h match (hd_opt (c # cs)) l = Some (l @ map Some (filter good (ps @ qs)))"
      using m n dom_ok_first[OF ok n(1)] l
      by (subst collect.simps) (cases "good c"; simp add: addToNodeList_full)
  qed
qed


definition named :: "dom_heap \<Rightarrow> bool" where
  "named h \<longleftrightarrow> (\<forall>q n. h q = Some n \<longrightarrow> dn_type n = eELEMENT_NODE \<longrightarrow> dn_name n \<noteq> None)"

definition tagged :: "dom_heap \<Rightarrow> c_string \<Rightarrow> nat \<Rightarrow> bool" where
  "tagged h tagname q \<longleftrightarrow> (\<exists>n. h q = Some n \<and> dn_type n = eELEMENT_NODE \<and> (tagname = ''*'' \<or> dn_name n = Some tagname))"

text \<open>
  Searching a subtree by tag name ends and gives exactly its elements of that name (all of them
  for \<^verbatim>\<open>*\<close>), the node itself included, in document order: the matching nodes of the preorder, which
  lists the node and all its descendants.
\<close>

theorem getElementsByTagName_preorder:
  assumes rep: "heap_rep h K" and nm: "named h" and p: "p \<in> dom h"
  shows "\<exists>ps. preorder K p ps \<and> set ps = {q. (p, q) \<in> (child_rel K)\<^sup>*} \<and>
              ixmlNode_getElementsByTagName h p tagname [] = Some (map Some (filter (tagged h tagname) ps))"
proof -
  have ok: "dom_ok h K" and t: "tree_ok K" using rep by (simp_all add: heap_rep_def)
  obtain ps where ps: "preorder K p ps" using preorder_total[OF t] by blast
  have m: "tag_matches tagname n = Some (tagged h tagname q)" if "h q = Some n" for q n
    using nm that by (auto simp: tag_matches_def tagged_def named_def)
  then have "collect h (tag_matches tagname) (hd_opt (K p)) (if tagged h tagname p then [Some p] else [])
      = Some (map Some (filter (tagged h tagname) ps))"
    using collect_preorder(1)[OF ok ps, of "tag_matches tagname" "tagged h tagname"] by (metis append_Nil empty_iff empty_set)
  then have "ixmlNode_getElementsByTagName h p tagname [] = Some (map Some (filter (tagged h tagname) ps))"
    using p m dom_ok_first[OF ok, of p] addToNodeList_full[of "[]" p]
    by (auto simp: ixmlNode_getElementsByTagName_def ixmlNode_getElementsByTagNameRecursive_def)
  then show ?thesis using ps preorder_set(1)[OF ps] by blast
qed

text \<open>An element \<open>1\<close> with an element \<open>2\<close> and a text \<open>3\<close> under it, and an element \<open>4\<close> apart, of document \<open>0\<close>.\<close>

definition sample_node :: "node_type \<Rightarrow> c_string \<Rightarrow> nat option \<Rightarrow> nat option \<Rightarrow> nat option \<Rightarrow> nat option \<Rightarrow> dom_node" where
  "sample_node t name par first prev succ = \<lparr>dn_type = t, dn_name = Some name, dn_value = None, dn_namespaceURI = None,
     dn_prefix = None, dn_localName = None, dn_parent = par, dn_first = first, dn_prev = prev, dn_next = succ,
     dn_attr = None, dn_owner = Some 0, dn_element = None\<rparr>"

definition sample_heap :: dom_heap where
  "sample_heap = [1 \<mapsto> sample_node eELEMENT_NODE ''a'' None (Some 2) None None,
                  2 \<mapsto> sample_node eELEMENT_NODE ''b'' (Some 1) None None (Some 3),
                  3 \<mapsto> sample_node eTEXT_NODE ''#text'' (Some 1) None (Some 2) None,
                  4 \<mapsto> sample_node eELEMENT_NODE ''c'' None None None None]"

definition sample_lists :: "nat \<Rightarrow> nat list" where
  "sample_lists = (\<lambda>_. [])(1 := [2, 3])"

lemma sample_rep: "heap_rep sample_heap sample_lists"
proof -
  have "wf ((child_rel sample_lists)\<inverse>)"
    by (rule wf_subset[OF wf_measure[of "\<lambda>a. if a = 1 then 1 else 0"]]) (auto simp: sample_lists_def split: if_splits)
  moreover have "dom_ok sample_heap sample_lists"
    by (rule dom_okI) (auto simp: sample_heap_def sample_lists_def sample_node_def split: if_splits)
  ultimately show ?thesis by (simp add: heap_rep_def tree_ok_def)
qed

lemma sample_fits: "x \<in> {2, 4} \<Longrightarrow> heap_fits sample_heap sample_lists 1 x"
proof -
  assume x: "x \<in> {2, 4}"
  have "1 \<notin> set (sample_lists y)" for y by (simp add: sample_lists_def)
  then have "(x, 1) \<notin> (child_rel sample_lists)\<^sup>*" using x by (metis child_rel_iff insertE rtranclE
    num.distinct(1) num.distinct(3) numeral_eq_one_iff singletonD)
  then show ?thesis using x
    by (auto simp: heap_fits_def movable_def detached_def sample_heap_def sample_lists_def sample_node_def
        ixmlNode_allowChildren_def)
qed

theorem getElementsByTagName_preorder_witness:
  "\<exists>ps. preorder sample_lists 1 ps \<and> set ps = {q. (1, q) \<in> (child_rel sample_lists)\<^sup>*} \<and>
     ixmlNode_getElementsByTagName sample_heap 1 ''b'' [] = Some (map Some (filter (tagged sample_heap ''b'') ps))"
  by (rule getElementsByTagName_preorder[OF sample_rep])
    (auto simp: named_def sample_heap_def sample_node_def split: if_splits)

text \<open>
  Replacing a child by itself reports success and takes the child out of the tree:
  \<open>ixmlNode_insertBefore\<close> unlinks the node first and then links it in front of itself, so it is its
  own sibling on both sides and no longer in the list when \<open>ixmlNode_removeChild\<close> comes.
\<close>

theorem self_replace_removes:
  assumes "heap_rep h K" "heap_fits h K p x" "x \<in> set (K p)"
  shows "\<exists>h'. ixmlNode_replaceChild h (Some p) (Some x) (Some x) = Some (IXML_SUCCESS, h') \<and>
              heap_rep h' (K(p := remove1 x (K p))) \<and> detached h' x"
proof -
  obtain m n where h: "h p = Some m" "h x = Some n" and mn: "movable h K p x" "(x, p) \<notin> (child_rel K)\<^sup>*" "dn_owner m = dn_owner n"
    "ixmlNode_allowChildren (dn_type m) (dn_type n)" using assms(2) by (auto simp: heap_fits_def)
  have ok: "dom_ok h K" "tree_ok K" using assms(1) by (auto simp: heap_rep_def)
  have na: "ixmlNode_isAncestor h (Some x) (Some p) = Some False"
    using isAncestor_movable[OF ok mn(1) h(1)] mn(2) by (auto dest: trancl_into_rtrancl)
  have par: "dn_parent n = Some p" using dom_ok_parent[OF ok(1) h(2), of p] assms(3) by simp
  obtain h1 where h1: "ixmlNode_removeChild h (Some p) (Some x) = Some (IXML_SUCCESS, h1)"
      "dom_ok h1 (K(p := remove1 x (K p)))" "tree_ok (K(p := remove1 x (K p)))" "detached h1 x"
      "map_option dn_owner \<circ> h1 = map_option dn_owner \<circ> h"
    using removeChild_refines[OF ok assms(3)] by blast
  obtain n1 where n1: "h1 x = Some n1" "dn_parent n1 = None" "dn_prev n1 = None" "dn_next n1 = None"
    using h1(4) by (auto simp: detached_def)
  obtain m1 where m1: "h1 p = Some m1" using same_field[OF h1(5) h(1)] by blast
  have xp: "x \<noteq> p" using mn(2) by auto
  have "dn_first m1 \<noteq> Some x"
  proof
    assume "dn_first m1 = Some x"
    then have "x \<in> set (remove1 x (K p))" using dom_ok_first[OF h1(2) m1] hd_opt_in by fastforce
    then show False using dom_ok_distinct[OF ok(1), of p] by simp
  qed
  let ?h2 = "h1(x \<mapsto> n1\<lparr>dn_next := Some x, dn_prev := Some x, dn_parent := Some p\<rparr>)"
  have "link_before h1 p x x = Some ?h2" using n1 by (simp add: link_before_def set_node_def)
  moreover have "set_node h1 x (\<lambda>n. n\<lparr>dn_next := None, dn_prev := None\<rparr>) = Some h1"
    using n1 by (auto simp: set_node_def fun_eq_iff)
  ultimately have ins: "ixmlNode_insertBefore h (Some p) (Some x) (Some x) = Some (IXML_SUCCESS, ?h2)"
    using mn par h1(1) by (simp add: ixmlNode_insertBefore_def allow_children_def h na isParent_some[of h x n])
  have rem: "ixmlNode_removeChild ?h2 (Some p) (Some x) = Some (IXML_SUCCESS, h1)"
    using n1 m1 xp \<open>dn_first m1 \<noteq> Some x\<close>
    by (auto simp: ixmlNode_removeChild_def ixmlNode_isParent_def set_at_def set_node_def fun_eq_iff)
  have "ixmlNode_replaceChild h (Some p) (Some x) (Some x) = Some (IXML_SUCCESS, h1)"
    using mn par ins rem by (simp add: ixmlNode_replaceChild_def allow_children_def h na isParent_some[of h x n])
  then show ?thesis using h1 by (auto simp: heap_rep_def)
qed

theorem self_replace_removes_witness:
  "\<exists>h'. ixmlNode_replaceChild sample_heap (Some 1) (Some 2) (Some 2) = Some (IXML_SUCCESS, h') \<and>
     heap_rep h' (sample_lists(1 := [3])) \<and> detached h' 2"
proof -
  have "remove1 2 (sample_lists 1) = [3]" "2 \<in> set (sample_lists 1)" by (simp_all add: sample_lists_def)
  then show ?thesis using self_replace_removes[OF sample_rep sample_fits[of 2]] by fastforce
qed

theorem replaceChild_refines_witness:
  "\<exists>h'. ixmlNode_replaceChild sample_heap (Some 1) (Some 4) (Some 2) = Some (IXML_SUCCESS, h') \<and>
     heap_rep h' (sample_lists(1 := [4, 3]))"
proof -
  have "map (\<lambda>c. if c = 2 then 4 else c) (remove1 4 (sample_lists 1)) = [4, 3]" "2 \<in> set (sample_lists 1)"
    by (simp_all add: sample_lists_def)
  then show ?thesis using replaceChild_refines[OF sample_rep sample_fits[of 4], of 2] by fastforce
qed

text \<open>
  Two more calls that the contract does not cover. A node is not its own ancestor for
  \<open>ixmlNode_isAncestor\<close>, so it can be made its own child. Without a reference child, where the
  new child should go to the end, \<open>ixmlNode_insertBefore\<close> never succeeds: \<open>ixmlNode_isParent\<close>
  gets the null pointer.
\<close>

lemma append_to_itself:
  "\<exists>h' n. ixmlNode_appendChild sample_heap (Some 4) (Some 4) = Some (IXML_SUCCESS, h') \<and>
     h' 4 = Some n \<and> dn_parent n = Some 4 \<and> dn_first n = Some 4"
proof -
  have na: "ixmlNode_isAncestor sample_heap (Some 4) (Some 4) = Some False"
    by (subst ixmlNode_isAncestor.simps) (simp add: sample_heap_def sample_node_def)
  have s: "sample_heap 4 = Some (sample_node eELEMENT_NODE ''c'' None None None None)" by (simp add: sample_heap_def)
  show ?thesis
    unfolding ixmlNode_appendChild_def
    by (simp add: na s allow_children_def ixmlNode_allowChildren_def ixmlNode_isParent_def set_node_def sample_node_def)
qed

lemma insertBefore_null: "ixmlNode_insertBefore h p x None = Some (e, h') \<Longrightarrow> e \<noteq> IXML_SUCCESS"
  by (auto simp: ixmlNode_insertBefore_def ixmlNode_isParent_def bind_eq_Some_conv split: option.splits if_splits)

end
