(* ===== verification/XmlElement.thy ===== *)
theory XmlElement
  imports XmlDom "HOL-Library.AList"
begin

section \<open>Attributes of elements (ixml/src/element.c) and new nodes (document.c)\<close>

text \<open>
  The attributes of an element are a chain of nodes that starts at the element's first attribute and
  goes on through the sibling pointers. They are found by name, or by namespace and local name. A
  comparison with a null name is a fault, \<^term>\<open>None\<close>. The address of a node that is allocated is an
  argument of the operation that allocates it.
\<close>

abbreviation (input) IXML_NAMESPACE_ERR :: int where "IXML_NAMESPACE_ERR \<equiv> 14"

partial_function (option) find_attr ::
  "dom_heap \<Rightarrow> (dom_node \<Rightarrow> bool option) \<Rightarrow> nat option \<Rightarrow> nat option option" where
  "find_attr h test attrNode =
     (case attrNode of
        None \<Rightarrow> Some None
      | Some a \<Rightarrow>
          do { n \<leftarrow> h a;
               yes \<leftarrow> test n;
               if yes then Some (Some a) else find_attr h test (dn_next n) })"

definition name_is :: "c_string \<Rightarrow> dom_node \<Rightarrow> bool option" where
  "name_is name n = map_option (\<lambda>nm. nm = name) (dn_name n)"

definition ns_name_is :: "c_string \<Rightarrow> c_string \<Rightarrow> dom_node \<Rightarrow> bool option" where
  "ns_name_is namespaceURI localName n =
     do { loc \<leftarrow> dn_localName n;
          if loc \<noteq> localName then Some False
          else map_option (\<lambda>uri. uri = namespaceURI) (dn_namespaceURI n) }"

definition attr_value :: "dom_heap \<Rightarrow> nat option \<Rightarrow> c_string option option" where
  "attr_value h a = (case a of None \<Rightarrow> Some None | Some p \<Rightarrow> map_option dn_value (h p))"

subsection \<open>Reading attributes\<close>

definition ixmlElement_getAttributeNode :: "dom_heap \<Rightarrow> nat option \<Rightarrow> c_string option \<Rightarrow> nat option option" where
  "ixmlElement_getAttributeNode h element name =
     (case (element, name) of
        (Some e, Some nm) \<Rightarrow> do { m \<leftarrow> h e; find_attr h (name_is nm) (dn_attr m) }
      | _ \<Rightarrow> Some None)"

definition ixmlElement_getAttribute :: "dom_heap \<Rightarrow> nat option \<Rightarrow> c_string option \<Rightarrow> c_string option option" where
  "ixmlElement_getAttribute h element name =
     (case (element, name) of
        (Some e, Some nm) \<Rightarrow> do { m \<leftarrow> h e; a \<leftarrow> find_attr h (name_is nm) (dn_attr m); attr_value h a }
      | _ \<Rightarrow> Some None)"

definition ixmlElement_hasAttribute :: "dom_heap \<Rightarrow> nat option \<Rightarrow> c_string option \<Rightarrow> bool option" where
  "ixmlElement_hasAttribute h element name =
     (case (element, name) of
        (Some e, Some nm) \<Rightarrow> do { m \<leftarrow> h e; a \<leftarrow> find_attr h (name_is nm) (dn_attr m); Some (a \<noteq> None) }
      | _ \<Rightarrow> Some False)"

definition ixmlElement_getAttributeNodeNS ::
  "dom_heap \<Rightarrow> nat option \<Rightarrow> c_string option \<Rightarrow> c_string option \<Rightarrow> nat option option" where
  "ixmlElement_getAttributeNodeNS h element namespaceURI localName =
     (case (element, namespaceURI, localName) of
        (Some e, Some uri, Some loc) \<Rightarrow> do { m \<leftarrow> h e; find_attr h (ns_name_is uri loc) (dn_attr m) }
      | _ \<Rightarrow> Some None)"

definition ixmlElement_getAttributeNS ::
  "dom_heap \<Rightarrow> nat option \<Rightarrow> c_string option \<Rightarrow> c_string option \<Rightarrow> c_string option option" where
  "ixmlElement_getAttributeNS h element namespaceURI localName =
     (case (element, namespaceURI, localName) of
        (Some e, Some uri, Some loc) \<Rightarrow>
          do { m \<leftarrow> h e; a \<leftarrow> find_attr h (ns_name_is uri loc) (dn_attr m); attr_value h a }
      | _ \<Rightarrow> Some None)"

definition ixmlElement_hasAttributeNS ::
  "dom_heap \<Rightarrow> nat option \<Rightarrow> c_string option \<Rightarrow> c_string option \<Rightarrow> bool option" where
  "ixmlElement_hasAttributeNS h element namespaceURI localName =
     (case (element, namespaceURI, localName) of
        (Some e, Some uri, Some loc) \<Rightarrow>
          do { m \<leftarrow> h e; a \<leftarrow> find_attr h (ns_name_is uri loc) (dn_attr m); Some (a \<noteq> None) }
      | _ \<Rightarrow> Some False)"

subsection \<open>New nodes\<close>

definition ixmlNode_zero :: dom_node where
  "ixmlNode_zero = \<lparr>dn_type = eINVALID_NODE, dn_name = None, dn_value = None, dn_namespaceURI = None,
     dn_prefix = None, dn_localName = None, dn_parent = None, dn_first = None, dn_prev = None, dn_next = None,
     dn_attr = None, dn_owner = None, dn_element = None\<rparr>"

text \<open>The result of a constructor: the code, the heap and the pointer it hands out.\<close>

type_synonym created = "int \<times> dom_heap \<times> nat option"

definition ixmlDocument_createElementEx ::
  "dom_heap \<Rightarrow> nat \<Rightarrow> nat option \<Rightarrow> c_string option \<Rightarrow> created" where
  "ixmlDocument_createElementEx h new doc tagName =
     (case (doc, tagName) of
        (Some d, Some nm) \<Rightarrow>
          (IXML_SUCCESS,
           h(new \<mapsto> ixmlNode_zero\<lparr>dn_type := eELEMENT_NODE, dn_name := Some nm, dn_owner := Some d\<rparr>), Some new)
      | _ \<Rightarrow> (IXML_INVALID_PARAMETER, h, None))"

definition ixmlDocument_createDocumentEx :: "dom_heap \<Rightarrow> nat \<Rightarrow> created" where
  "ixmlDocument_createDocumentEx h new =
     (IXML_SUCCESS,
      h(new \<mapsto> ixmlNode_zero\<lparr>dn_name := Some ''#document'', dn_type := eDOCUMENT_NODE, dn_owner := Some new\<rparr>), Some new)"

definition ixmlDocument_createTextNodeEx ::
  "dom_heap \<Rightarrow> nat \<Rightarrow> nat option \<Rightarrow> c_string option \<Rightarrow> created" where
  "ixmlDocument_createTextNodeEx h new doc data =
     (case (doc, data) of
        (Some d, Some s) \<Rightarrow>
          (IXML_SUCCESS,
           h(new \<mapsto> ixmlNode_zero\<lparr>dn_name := Some ''#text'', dn_value := Some s, dn_type := eTEXT_NODE, dn_owner := Some d\<rparr>),
           Some new)
      | _ \<Rightarrow> (IXML_INVALID_PARAMETER, h, None))"

definition ixmlDocument_createCDATASectionEx ::
  "dom_heap \<Rightarrow> nat \<Rightarrow> nat option \<Rightarrow> c_string option \<Rightarrow> created" where
  "ixmlDocument_createCDATASectionEx h new doc data =
     (case (doc, data) of
        (Some d, Some s) \<Rightarrow>
          (IXML_SUCCESS,
           h(new \<mapsto> ixmlNode_zero\<lparr>dn_type := eCDATA_SECTION_NODE, dn_name := Some ''#cdata-section'', dn_value := Some s,
                                   dn_owner := Some d\<rparr>), Some new)
      | _ \<Rightarrow> (IXML_INVALID_PARAMETER, h, None))"

text \<open>
  The constructor of attributes allocates first and, on a null argument, frees the node that has not
  been initialised: the pointers it frees are garbage, a fault.
\<close>

definition ixmlDocument_createAttributeEx ::
  "dom_heap \<Rightarrow> nat \<Rightarrow> nat option \<Rightarrow> c_string option \<Rightarrow> created option" where
  "ixmlDocument_createAttributeEx h new doc name =
     (case (doc, name) of
        (Some d, Some nm) \<Rightarrow>
          Some (IXML_SUCCESS,
                h(new \<mapsto> ixmlNode_zero\<lparr>dn_type := eATTRIBUTE_NODE, dn_name := Some nm, dn_owner := Some d\<rparr>), Some new)
      | _ \<Rightarrow> None)"

definition ixmlNode_setNodeName :: "c_string option \<Rightarrow> dom_node \<Rightarrow> dom_node" where
  "ixmlNode_setNodeName qualifiedName n =
     (case qualifiedName of
        None \<Rightarrow> n\<lparr>dn_name := None\<rparr>
      | Some q \<Rightarrow>
          (let (pre, loc) = Parser_setNodePrefixAndLocalName q
           in n\<lparr>dn_name := Some q, dn_prefix := pre, dn_localName := Some loc\<rparr>))"

definition ixmlDocument_createAttributeNSEx ::
  "dom_heap \<Rightarrow> nat \<Rightarrow> nat option \<Rightarrow> c_string option \<Rightarrow> c_string option \<Rightarrow> created option" where
  "ixmlDocument_createAttributeNSEx h new doc namespaceURI qualifiedName =
     (case (doc, namespaceURI, qualifiedName) of
        (Some d, Some uri, Some q) \<Rightarrow>
          do { (e, h1, r) \<leftarrow> ixmlDocument_createAttributeEx h new doc qualifiedName;
               h2 \<leftarrow> set_node h1 new (\<lambda>n. ixmlNode_setNodeName (Some q) (n\<lparr>dn_namespaceURI := Some uri\<rparr>));
               Some (IXML_SUCCESS, h2, Some new) }
      | _ \<Rightarrow> Some (IXML_INVALID_PARAMETER, h, None))"

definition ixmlDocument_createElementNSEx ::
  "dom_heap \<Rightarrow> nat \<Rightarrow> nat option \<Rightarrow> c_string option \<Rightarrow> c_string option \<Rightarrow> created option" where
  "ixmlDocument_createElementNSEx h new doc namespaceURI qualifiedName =
     (case (doc, namespaceURI, qualifiedName) of
        (Some d, Some uri, Some q) \<Rightarrow>
          (case ixmlDocument_createElementEx h new doc qualifiedName of
             (e, h1, r) \<Rightarrow>
               do { h2 \<leftarrow> set_node h1 new
                      (\<lambda>n. (ixmlNode_setNodeName (Some q) (n\<lparr>dn_namespaceURI := Some uri\<rparr>))\<lparr>dn_value := None\<rparr>);
                    Some (IXML_SUCCESS, h2, Some new) })
      | _ \<Rightarrow> Some (IXML_INVALID_PARAMETER, h, None))"

subsection \<open>Changing attributes\<close>

text \<open>
  The part of \<open>ixmlElement_setAttributeNode\<close> after the checks: the first attribute the test finds is
  replaced, otherwise the new one goes to the end. The result is what is stored through \<open>rtAttr\<close>.
\<close>

definition place_attr ::
  "dom_heap \<Rightarrow> nat \<Rightarrow> nat \<Rightarrow> (dom_node \<Rightarrow> bool option) \<Rightarrow> bool \<Rightarrow> (nat option \<times> dom_heap) option" where
  "place_attr h e node test back_link =
     do { m \<leftarrow> h e;
          found \<leftarrow> find_attr h test (dn_attr m);
          (case found of
             Some a \<Rightarrow>
               do { n \<leftarrow> h a;
                    h1 \<leftarrow> set_at h (dn_prev n) (dn_next_update (\<lambda>_. Some node));
                    h2 \<leftarrow> set_at h1 (dn_next n) (dn_prev_update (\<lambda>_. Some node));
                    m2 \<leftarrow> h2 e;
                    h3 \<leftarrow> (if dn_attr m2 = Some a then set_node h2 e (dn_attr_update (\<lambda>_. Some node)) else Some h2);
                    Some (Some a, h3) }
           | None \<Rightarrow>
               (case dn_attr m of
                  Some c \<Rightarrow>
                    do { k \<leftarrow> h c;
                         prevAttr \<leftarrow> last_sibling h c (dn_next k);
                         h1 \<leftarrow> set_node h prevAttr (dn_next_update (\<lambda>_. Some node));
                         h2 \<leftarrow> (if back_link then set_node h1 node (dn_prev_update (\<lambda>_. Some prevAttr)) else Some h1);
                         Some (None, h2) }
                | None \<Rightarrow>
                    do { h1 \<leftarrow> set_node h e (dn_attr_update (\<lambda>_. Some node));
                         h2 \<leftarrow> set_node h1 node (\<lambda>n. n\<lparr>dn_prev := None, dn_next := None\<rparr>);
                         Some (None, h2) })) }"

definition ixmlElement_setAttributeNode :: "dom_heap \<Rightarrow> nat option \<Rightarrow> nat option \<Rightarrow> created option" where
  "ixmlElement_setAttributeNode h element newAttr =
     (case (element, newAttr) of
        (Some e, Some node) \<Rightarrow>
          do { n \<leftarrow> h node;
               m \<leftarrow> h e;
               if dn_owner n \<noteq> dn_owner m then Some (IXML_WRONG_DOCUMENT_ERR, h, None)
               else if dn_element n \<noteq> None then Some (IXML_INUSE_ATTRIBUTE_ERR, h, None)
               else
                 do { h1 \<leftarrow> set_node h node (dn_element_update (\<lambda>_. Some e));
                      (rt, h2) \<leftarrow> place_attr h1 e node
                        (\<lambda>k. do { nm \<leftarrow> dn_name n; name_is nm k }) True;
                      Some (IXML_SUCCESS, h2, rt) } }
      | _ \<Rightarrow> Some (IXML_INVALID_PARAMETER, h, None))"

text \<open>
  With namespaces the node may already belong to the element; a replaced attribute is stored through
  \<open>rtAttr\<close> without a check, and a new last attribute is not linked_in back.
\<close>

definition ixmlElement_setAttributeNodeNS :: "dom_heap \<Rightarrow> nat option \<Rightarrow> nat option \<Rightarrow> bool \<Rightarrow> created option" where
  "ixmlElement_setAttributeNodeNS h element newAttr rtAttr_null =
     (case (element, newAttr) of
        (Some e, Some node) \<Rightarrow>
          do { n \<leftarrow> h node;
               m \<leftarrow> h e;
               if dn_owner n \<noteq> dn_owner m then Some (IXML_WRONG_DOCUMENT_ERR, h, None)
               else if dn_element n \<noteq> None \<and> dn_element n \<noteq> Some e then Some (IXML_INUSE_ATTRIBUTE_ERR, h, None)
               else
                 do { h1 \<leftarrow> set_node h node (dn_element_update (\<lambda>_. Some e));
                      (rt, h2) \<leftarrow> place_attr h1 e node
                        (\<lambda>k. do { loc \<leftarrow> dn_localName n; kl \<leftarrow> dn_localName k;
                                  if kl \<noteq> loc then Some False
                                  else do { uri \<leftarrow> dn_namespaceURI n; map_option (\<lambda>u. u = uri) (dn_namespaceURI k) } })
                        False;
                      if rt \<noteq> None \<and> rtAttr_null then None else Some (IXML_SUCCESS, h2, rt) } }
      | _ \<Rightarrow> Some (IXML_INVALID_PARAMETER, h, None))"

definition ixmlElement_setAttribute ::
  "dom_heap \<Rightarrow> nat \<Rightarrow> nat option \<Rightarrow> c_string option \<Rightarrow> c_string option \<Rightarrow> (int \<times> dom_heap) option" where
  "ixmlElement_setAttribute h new element name val =
     (case (element, name, val) of
        (Some e, Some nm, Some v) \<Rightarrow>
          do { valid \<leftarrow> Parser_isValidXmlName nm;
               if \<not> valid then Some (IXML_INVALID_CHARACTER_ERR, h)
               else
                 do { m \<leftarrow> h e;
                      a \<leftarrow> find_attr h (name_is nm) (dn_attr m);
                      (case a of
                         None \<Rightarrow>
                           do { (errCode, h1, _) \<leftarrow> ixmlDocument_createAttributeEx h new (dn_owner m) name;
                                if errCode \<noteq> IXML_SUCCESS then Some (errCode, h1)
                                else
                                  do { h2 \<leftarrow> set_node h1 new (dn_value_update (\<lambda>_. Some v));
                                       (errCode, h3, _) \<leftarrow> ixmlElement_setAttributeNode h2 element (Some new);
                                       if errCode \<noteq> IXML_SUCCESS then Some (errCode, h3(new := None))
                                       else Some (IXML_SUCCESS, h3) } }
                       | Some p \<Rightarrow>
                           do { h1 \<leftarrow> set_node h p (dn_value_update (\<lambda>_. Some v));
                                Some (IXML_SUCCESS, h1) }) } }
      | _ \<Rightarrow> Some (IXML_INVALID_PARAMETER, h))"

text \<open>
  With namespaces the prefix of the name is compared without a check: for a name without a prefix
  that is a fault. An attribute found gets the new prefix and the new value.
\<close>

definition ixmlElement_setAttributeNS ::
  "dom_heap \<Rightarrow> nat \<Rightarrow> nat option \<Rightarrow> c_string option \<Rightarrow> c_string option \<Rightarrow> c_string option \<Rightarrow> (int \<times> dom_heap) option" where
  "ixmlElement_setAttributeNS h new element namespaceURI qualifiedName val =
     (case (element, namespaceURI, qualifiedName, val) of
        (Some e, Some uri, Some q, Some v) \<Rightarrow>
          do { valid \<leftarrow> Parser_isValidXmlName q;
               if \<not> valid then Some (IXML_INVALID_CHARACTER_ERR, h)
               else
                 (let (pre, loc) = Parser_setNodePrefixAndLocalName q in
                  do { pr \<leftarrow> pre;
                       if pr = ''xml'' \<and> uri \<noteq> ''http://www.w3.org/XML/1998/namespace'' \<or>
                          q = ''xmlns'' \<and> uri \<noteq> ''http://www.w3.org/2000/xmlns/''
                       then Some (IXML_NAMESPACE_ERR, h)
                       else
                         do { m \<leftarrow> h e;
                              a \<leftarrow> find_attr h (ns_name_is uri loc) (dn_attr m);
                              (case a of
                                 Some p \<Rightarrow>
                                   do { h1 \<leftarrow> set_node h p (\<lambda>n. n\<lparr>dn_prefix := pre, dn_value := Some v\<rparr>);
                                        Some (IXML_SUCCESS, h1) }
                               | None \<Rightarrow>
                                   do { (rc, h1, _) \<leftarrow> ixmlDocument_createAttributeNSEx h new (dn_owner m) namespaceURI qualifiedName;
                                        if rc \<noteq> IXML_SUCCESS then Some (rc, h1)
                                        else
                                          do { h2 \<leftarrow> set_node h1 new (dn_value_update (\<lambda>_. Some v));
                                               (rc, h3, _) \<leftarrow> ixmlElement_setAttributeNodeNS h2 element (Some new) True;
                                               if rc \<noteq> IXML_SUCCESS then Some (IXML_FAILED, h3(new := None))
                                               else Some (IXML_SUCCESS, h3) } }) } }) }
      | _ \<Rightarrow> Some (IXML_INVALID_PARAMETER, h))"

definition ixmlElement_removeAttributeNS ::
  "dom_heap \<Rightarrow> nat option \<Rightarrow> c_string option \<Rightarrow> c_string option \<Rightarrow> (int \<times> dom_heap) option" where
  "ixmlElement_removeAttributeNS h element namespaceURI localName =
     (case (element, namespaceURI, localName) of
        (Some e, Some uri, Some loc) \<Rightarrow>
          do { m \<leftarrow> h e;
               a \<leftarrow> find_attr h (ns_name_is uri loc) (dn_attr m);
               h1 \<leftarrow> set_at h a (dn_value_update (\<lambda>_. None));
               Some (IXML_SUCCESS, h1) }
      | _ \<Rightarrow> Some (IXML_INVALID_PARAMETER, h))"

definition ixmlElement_removeAttribute ::
  "dom_heap \<Rightarrow> nat option \<Rightarrow> c_string option \<Rightarrow> (int \<times> dom_heap) option" where
  "ixmlElement_removeAttribute h element name =
     (case (element, name) of
        (Some e, Some nm) \<Rightarrow>
          do { m \<leftarrow> h e;
               a \<leftarrow> find_attr h (name_is nm) (dn_attr m);
               h1 \<leftarrow> set_at h a (dn_value_update (\<lambda>_. None));
               Some (IXML_SUCCESS, h1) }
      | _ \<Rightarrow> Some (IXML_INVALID_PARAMETER, h))"

text \<open>
  Two nodes are the same for \<open>ixmlNode_compare\<close> when they are one node or all their strings are equal,
  in the order of the code; a null string met on the way is a fault.
\<close>

definition strcmp0 :: "c_string option \<Rightarrow> c_string option \<Rightarrow> bool option" where
  "strcmp0 s t = do { a \<leftarrow> s; b \<leftarrow> t; Some (a = b) }"

definition and_then :: "bool option \<Rightarrow> bool option \<Rightarrow> bool option" where
  "and_then a b = do { x \<leftarrow> a; if x then b else Some False }"

definition ixmlNode_compare :: "dom_heap \<Rightarrow> nat \<Rightarrow> nat \<Rightarrow> bool option" where
  "ixmlNode_compare h src dest =
     do { s \<leftarrow> h src;
          d \<leftarrow> h dest;
          if src = dest then Some True
          else and_then (strcmp0 (dn_name s) (dn_name d))
              (and_then (strcmp0 (dn_value s) (dn_value d))
              (and_then (Some (dn_type s = dn_type d))
              (and_then (strcmp0 (dn_namespaceURI s) (dn_namespaceURI d))
              (and_then (strcmp0 (dn_prefix s) (dn_prefix d))
                        (strcmp0 (dn_localName s) (dn_localName d)))))) }"

partial_function (option) ixmlElement_findAttributeNode :: "dom_heap \<Rightarrow> nat option \<Rightarrow> nat \<Rightarrow> nat option option" where
  "ixmlElement_findAttributeNode h attrNode oldAttr =
     (case attrNode of
        None \<Rightarrow> Some None
      | Some a \<Rightarrow>
          do { yes \<leftarrow> ixmlNode_compare h a oldAttr;
               n \<leftarrow> h a;
               if yes then Some (Some a) else ixmlElement_findAttributeNode h (dn_next n) oldAttr })"

text \<open>The removed attribute is stored through \<open>rtAttr\<close> without a check.\<close>

definition ixmlElement_removeAttributeNode :: "dom_heap \<Rightarrow> nat option \<Rightarrow> nat option \<Rightarrow> bool \<Rightarrow> created option" where
  "ixmlElement_removeAttributeNode h element oldAttr rtAttr_null =
     (case (element, oldAttr) of
        (Some e, Some old) \<Rightarrow>
          do { m \<leftarrow> h e;
               found \<leftarrow> ixmlElement_findAttributeNode h (dn_attr m) old;
               (case found of
                  None \<Rightarrow> Some (IXML_NOT_FOUND_ERR, h, None)
                | Some a \<Rightarrow>
                    do { n \<leftarrow> h a;
                         h1 \<leftarrow> set_at h (dn_prev n) (dn_next_update (\<lambda>_. dn_next n));
                         h2 \<leftarrow> set_at h1 (dn_next n) (dn_prev_update (\<lambda>_. dn_prev n));
                         m2 \<leftarrow> h2 e;
                         h3 \<leftarrow> (if dn_attr m2 = Some a then set_node h2 e (dn_attr_update (\<lambda>_. dn_next n)) else Some h2);
                         h4 \<leftarrow> set_node h3 a (\<lambda>n. n\<lparr>dn_parent := None, dn_prev := None, dn_next := None\<rparr>);
                         if rtAttr_null then None else Some (IXML_SUCCESS, h4, Some a) }) }
      | _ \<Rightarrow> Some (IXML_INVALID_PARAMETER, h, None))"

subsection \<open>The attributes as a list\<close>

text \<open>
  \<open>A\<close> are the attributes of element \<open>e\<close> in order: the element points to the first, the sibling
  pointers go through the list in both directions, and every attribute has a name.
\<close>

definition attrs_ok :: "dom_heap \<Rightarrow> nat \<Rightarrow> nat list \<Rightarrow> bool" where
  "attrs_ok h e A \<longleftrightarrow>
     distinct A \<and> e \<notin> set A \<and> (\<exists>m. h e = Some m \<and> dn_attr m = hd_opt A) \<and>
     (\<forall>a\<in>set A. \<exists>n. h a = Some n \<and> dn_prev n = prev_of A a \<and> dn_next n = next_of A a \<and> dn_name n \<noteq> None)"

definition attr_pair :: "dom_heap \<Rightarrow> nat \<Rightarrow> c_string \<times> c_string option" where
  "attr_pair h a = (case h a of Some n \<Rightarrow> (case dn_name n of Some nm \<Rightarrow> nm | None \<Rightarrow> [], dn_value n) | None \<Rightarrow> ([], None))"

definition attr_list :: "dom_heap \<Rightarrow> nat list \<Rightarrow> (c_string \<times> c_string option) list" where
  "attr_list h A = map (attr_pair h) A"

lemma attrs_chain: "attrs_ok h e A \<Longrightarrow> sib_chain h A"
  by (rule chain_nxt) (auto simp: attrs_ok_def)

lemma find_attr_null [simp]: "find_attr h t None = Some None"
  by (subst find_attr.simps) simp

lemma find_attr_chain:
  "sib_chain h A \<Longrightarrow> (\<And>a n. a \<in> set A \<Longrightarrow> h a = Some n \<Longrightarrow> test n = Some (good a)) \<Longrightarrow>
   find_attr h test (hd_opt A) = Some (List.find good A)"
proof (induction A)
  case (Cons a A)
  obtain n where n: "h a = Some n" "dn_next n = hd_opt A" "sib_chain h A" using Cons.prems(1) by auto
  have t: "test n = Some (good a)" using Cons.prems(2)[of a n] n(1) by simp
  have "find_attr h test (hd_opt A) = Some (List.find good A)" using Cons.IH[OF n(3)] Cons.prems(2) by simp
  then show ?case using n t by (subst find_attr.simps) simp
qed simp

lemma name_is_pair: "h a = Some n \<Longrightarrow> dn_name n \<noteq> None \<Longrightarrow> name_is nm n = Some (fst (attr_pair h a) = nm)"
  by (auto simp: name_is_def attr_pair_def)

text \<open>What a search needs: the way through the list, and names.\<close>

definition attrs_seen :: "dom_heap \<Rightarrow> nat \<Rightarrow> nat list \<Rightarrow> bool" where
  "attrs_seen h e A \<longleftrightarrow> sib_chain h A \<and> (\<exists>m. h e = Some m \<and> dn_attr m = hd_opt A) \<and>
     (\<forall>a\<in>set A. \<exists>n. h a = Some n \<and> dn_name n \<noteq> None)"

lemma attrs_seenI: "attrs_ok h e A \<Longrightarrow> attrs_seen h e A"
  using attrs_chain[of h e A] by (auto simp: attrs_seen_def attrs_ok_def)

lemma find_named:
  assumes "attrs_seen h e A"
  shows "find_attr h (name_is nm) (hd_opt A) = Some (List.find (\<lambda>a. fst (attr_pair h a) = nm) A)"
proof (rule find_attr_chain)
  show "sib_chain h A" using assms by (simp add: attrs_seen_def)
  fix a n assume "a \<in> set A" "h a = Some n"
  then show "name_is nm n = Some (fst (attr_pair h a) = nm)"
    using assms name_is_pair[of h a n nm] by (fastforce simp: attrs_seen_def)
qed

lemma find_map_of: "map_of (attr_list h A) nm = map_option (\<lambda>a. snd (attr_pair h a)) (List.find (\<lambda>a. fst (attr_pair h a) = nm) A)"
  by (induction A) (auto simp: attr_list_def)

lemma find_in: "List.find P A = Some a \<Longrightarrow> a \<in> set A \<and> P a"
  by (auto simp: find_Some_iff)

text \<open>Looking an attribute up is looking its name up in the list of the attributes.\<close>

lemma getAttribute_ok:
  assumes "attrs_seen h e A"
  shows "ixmlElement_getAttribute h (Some e) (Some nm) = Some (case map_of (attr_list h A) nm of None \<Rightarrow> None | Some v \<Rightarrow> v)"
proof -
  obtain m where m: "h e = Some m" "dn_attr m = hd_opt A" using assms by (auto simp: attrs_seen_def)
  show ?thesis
  proof (cases "List.find (\<lambda>a. fst (attr_pair h a) = nm) A")
    case None
    then show ?thesis by (simp add: ixmlElement_getAttribute_def m find_named[OF assms] find_map_of attr_value_def)
  next
    case (Some a)
    then obtain n where "h a = Some n" using find_in[OF Some] assms by (auto simp: attrs_seen_def)
    then show ?thesis using Some
      by (simp add: ixmlElement_getAttribute_def m find_named[OF assms] find_map_of attr_value_def attr_pair_def)
  qed
qed

lemma hasAttribute_ok:
  assumes "attrs_seen h e A"
  shows "ixmlElement_hasAttribute h (Some e) (Some nm) = Some (nm \<in> fst ` set (attr_list h A))"
proof -
  obtain m where m: "h e = Some m" "dn_attr m = hd_opt A" using assms by (auto simp: attrs_seen_def)
  have "List.find (\<lambda>a. fst (attr_pair h a) = nm) A \<noteq> None \<longleftrightarrow> nm \<in> fst ` set (attr_list h A)"
    by (force simp: attr_list_def find_None_iff)
  then show ?thesis by (simp add: ixmlElement_hasAttribute_def m find_named[OF assms])
qed

text \<open>A new value for an attribute that is there.\<close>

lemma attrs_ok_value: "attrs_ok h e A \<Longrightarrow> h a = Some n \<Longrightarrow> attrs_ok (h(a \<mapsto> n\<lparr>dn_value := v\<rparr>)) e A"
  by (auto simp: attrs_ok_def)

lemma attr_list_value:
  assumes "distinct A" "List.find (\<lambda>a. fst (attr_pair h a) = nm) A = Some a" "h a = Some n" "dn_name n \<noteq> None"
  shows "attr_list (h(a \<mapsto> n\<lparr>dn_value := Some v\<rparr>)) A = AList.update nm (Some v) (attr_list h A)"
  using assms(1,2)
proof (induction A)
  case (Cons b A)
  let ?h = "h(a \<mapsto> n\<lparr>dn_value := Some v\<rparr>)"
  have same: "attr_pair ?h c = attr_pair h c" if "c \<noteq> a" for c using that by (simp add: attr_pair_def)
  show ?case
  proof (cases "fst (attr_pair h b) = nm")
    case True
    then have "a = b" using Cons.prems(2) by simp
    moreover have "map (attr_pair ?h) A = map (attr_pair h) A" using Cons.prems(1) same \<open>a = b\<close>
      by (metis distinct.simps(2) map_cong)
    ultimately show ?thesis using True assms(3,4) by (auto simp: attr_list_def attr_pair_def)
  next
    case False
    then have f: "List.find (\<lambda>a. fst (attr_pair h a) = nm) A = Some a" using Cons.prems(2) by simp
    then have "b \<noteq> a" using find_in[OF f] Cons.prems(1) by auto
    then have "attr_pair ?h b = attr_pair h b" by (rule same)
    then show ?thesis using Cons.IH[OF _ f] Cons.prems(1) False
      by (cases "attr_pair h b") (simp add: attr_list_def del: fun_upd_apply)
  qed
qed simp


text \<open>A new attribute at the end.\<close>

lemma place_new:
  assumes ok: "attrs_ok h e A" and x: "h x = Some n" "dn_prev n = None" "dn_next n = None" "dn_name n \<noteq> None"
    and fresh: "x \<notin> set A" "x \<noteq> e"
    and none: "find_attr h test (hd_opt A) = Some None"
  obtains h' where "place_attr h e x test True = Some (None, h')" "attrs_ok h' e (A @ [x])"
    "\<And>a. map_option (\<lambda>n. (dn_name n, dn_value n)) (h' a) = map_option (\<lambda>n. (dn_name n, dn_value n)) (h a)"
proof (cases "A = []")
  case True
  obtain m where m: "h e = Some m" "dn_attr m = None" using ok True by (auto simp: attrs_ok_def)
  let ?h = "h(e \<mapsto> m\<lparr>dn_attr := Some x\<rparr>, x \<mapsto> n\<lparr>dn_prev := None, dn_next := None\<rparr>)"
  have "place_attr h e x test True = Some (None, ?h)"
    using m x(1) none True fresh by (auto simp: place_attr_def set_node_def fun_eq_iff)
  moreover have "attrs_ok ?h e (A @ [x])" using True fresh m x by (auto simp: attrs_ok_def)
  ultimately show ?thesis by (rule that) (use m x in auto)
next
  case False
  then obtain c cs where A: "A = c # cs" by (cases A) auto
  obtain m where m: "h e = Some m" "dn_attr m = Some c" using ok A by (auto simp: attrs_ok_def)
  have ch: "sib_chain h A" by (rule attrs_chain[OF ok])
  then obtain k where k: "h c = Some k" "dn_next k = hd_opt cs" "sib_chain h cs" by (auto simp: A)
  let ?q = "last A"
  have q: "?q \<in> set A" using False by simp
  then obtain l where l: "h ?q = Some l" "dn_prev l = prev_of A ?q" "dn_next l = next_of A ?q" "dn_name l \<noteq> None"
    using ok by (auto simp: attrs_ok_def)
  have last: "last_sibling h c (hd_opt cs) = Some ?q" using last_sibling_chain[OF k(3), of c] A by simp
  have qx: "?q \<noteq> x" "?q \<noteq> e" using q fresh ok by (auto simp: attrs_ok_def)
  let ?h = "h(?q \<mapsto> l\<lparr>dn_next := Some x\<rparr>, x \<mapsto> n\<lparr>dn_prev := Some ?q\<rparr>)"
  have "place_attr h e x test True = Some (None, ?h)"
    using m x(1) none A k l last qx by (simp add: place_attr_def set_node_def)
  moreover have "attrs_ok ?h e (A @ [x])"
  proof -
    have d: "distinct A" using ok by (simp add: attrs_ok_def)
    have p: "prev_of (A @ [x]) a = (if a = x then Some ?q else prev_of A a)" for a
      using prv_from_snoc[OF fresh(1), of None a] False by simp
    have nx: "next_of (A @ [x]) a = (if a = ?q then Some x else next_of A a)" for a
      using nxt_snoc[OF d fresh(1), of a] False by simp
    have "\<exists>n'. ?h a = Some n' \<and> dn_prev n' = prev_of (A @ [x]) a \<and> dn_next n' = next_of (A @ [x]) a \<and> dn_name n' \<noteq> None"
      if "a \<in> set (A @ [x])" for a
    proof (cases "a = x")
      case False
      then have "a \<in> set A" using that by simp
      then obtain n' where "h a = Some n'" "dn_prev n' = prev_of A a" "dn_next n' = next_of A a" "dn_name n' \<noteq> None"
        using ok by (auto simp: attrs_ok_def)
      then show ?thesis using False l by (auto simp: p nx)
    qed (use x fresh qx in \<open>auto simp: p nx\<close>)
    moreover have "\<exists>m. ?h e = Some m \<and> dn_attr m = hd_opt (A @ [x])" using m fresh qx A by auto
    ultimately show ?thesis using d fresh ok by (simp add: attrs_ok_def)
  qed
  ultimately show ?thesis by (rule that) (use l x qx in auto)
qed


lemma update_new: "map_of xs k = None \<Longrightarrow> AList.update k v xs = xs @ [(k, v)]"
  by (induction xs) (auto split: if_splits)

lemma attr_pair_cong:
  "map_option (\<lambda>n. (dn_name n, dn_value n)) (h' a) = map_option (\<lambda>n. (dn_name n, dn_value n)) (h a) \<Longrightarrow>
   attr_pair h' a = attr_pair h a"
  by (cases "h a"; cases "h' a") (auto simp: attr_pair_def)

text \<open>
  Setting an attribute with a legal name on an element of a document refines the update of an
  association list: the value of the first attribute of that name is changed, and otherwise a new
  attribute is added at the end. The links of the attribute nodes stay consistent.
\<close>

lemma setAttribute_refines:
  assumes ok: "attrs_ok h e A" and m: "h e = Some m" "dn_owner m = Some d"
    and nm: "Parser_isValidXmlName nm = Some True" and fresh: "h new = None"
  shows "\<exists>h' A'. ixmlElement_setAttribute h new (Some e) (Some nm) (Some v) = Some (IXML_SUCCESS, h') \<and>
           attrs_ok h' e A' \<and> attr_list h' A' = AList.update nm (Some v) (attr_list h A)"
proof (cases "List.find (\<lambda>a. fst (attr_pair h a) = nm) A")
  case (Some a)
  have f: "find_attr h (name_is nm) (dn_attr m) = Some (Some a)"
    using find_named[OF attrs_seenI[OF ok], of nm] ok m Some by (auto simp: attrs_ok_def)
  obtain n where n: "h a = Some n" "dn_name n \<noteq> None" using find_in[OF Some] ok by (auto simp: attrs_ok_def)
  have "ixmlElement_setAttribute h new (Some e) (Some nm) (Some v) = Some (IXML_SUCCESS, h(a \<mapsto> n\<lparr>dn_value := Some v\<rparr>))"
    by (simp add: ixmlElement_setAttribute_def nm m f n(1) set_node_def)
  moreover have "distinct A" using ok by (simp add: attrs_ok_def)
  ultimately show ?thesis using attrs_ok_value[OF ok n(1)] attr_list_value[OF _ Some n] by blast
next
  case None
  have A: "a \<noteq> new" if "a \<in> set A" for a using ok fresh that by (auto simp: attrs_ok_def)
  have en: "e \<noteq> new" using m fresh by auto
  let ?n = "ixmlNode_zero\<lparr>dn_type := eATTRIBUTE_NODE, dn_name := Some nm, dn_value := Some v, dn_owner := Some d, dn_element := Some e\<rparr>"
  let ?h = "h(new \<mapsto> ?n)"
  have ok1: "attrs_ok ?h e A" using ok A en fresh by (auto simp: attrs_ok_def)
  have same: "attr_pair ?h a = attr_pair h a" if "a \<noteq> new" for a using that by (simp add: attr_pair_def)
  have first: "dn_attr m = hd_opt A" using ok m by (simp add: attrs_ok_def)
  have f: "find_attr h (name_is nm) (dn_attr m) = Some None" using find_named[OF attrs_seenI[OF ok], of nm] None first by simp
  have f1: "find_attr ?h (name_is nm) (hd_opt A) = Some None"
    using find_named[OF attrs_seenI[OF ok1], of nm] None A same by (auto simp: find_None_iff)
  obtain h' where h': "place_attr ?h e new (name_is nm) True = Some (None, h')" "attrs_ok h' e (A @ [new])"
    "\<And>a. map_option (\<lambda>n. (dn_name n, dn_value n)) (h' a) = map_option (\<lambda>n. (dn_name n, dn_value n)) (?h a)"
    by (rule place_new[OF ok1, of new ?n "name_is nm"]) (use A en f1 in \<open>auto simp: ixmlNode_zero_def\<close>)
  have p: "attr_pair h' a = attr_pair ?h a" for a by (rule attr_pair_cong) (rule h'(3))
  have "ixmlElement_setAttribute h new (Some e) (Some nm) (Some v) = Some (IXML_SUCCESS, h')"
    using h'(1) en
    by (simp add: ixmlElement_setAttribute_def nm m f ixmlDocument_createAttributeEx_def ixmlElement_setAttributeNode_def
        set_node_def ixmlNode_zero_def)
  moreover have "attr_list h' (A @ [new]) = AList.update nm (Some v) (attr_list h A)"
  proof -
    have "map_of (attr_list h A) nm = None" using None by (simp add: find_map_of)
    moreover have "map (attr_pair h') A = map (attr_pair h) A" using A same by (simp add: p)
    moreover have "attr_pair h' new = (nm, Some v)" by (simp only: p) (simp add: attr_pair_def)
    ultimately show ?thesis by (simp add: update_new attr_list_def)
  qed
  ultimately show ?thesis using h'(2) by blast
qed

text \<open>
  C20: Setting an attribute with a legal name on an element of a document always succeeds; reading it
  back gives the value set, and every other attribute reads as before.
\<close>

theorem set_get_attribute:
  assumes "attrs_ok h e A" "h e = Some m" "dn_owner m = Some d" "Parser_isValidXmlName nm = Some True" "h new = None"
  shows "\<exists>h'. ixmlElement_setAttribute h new (Some e) (Some nm) (Some v) = Some (IXML_SUCCESS, h') \<and>
           (\<exists>A'. attrs_ok h' e A') \<and>
           (\<forall>name. ixmlElement_getAttribute h' (Some e) (Some name) =
                    (if name = nm then Some (Some v) else ixmlElement_getAttribute h (Some e) (Some name)))"
proof -
  obtain h' A' where h': "ixmlElement_setAttribute h new (Some e) (Some nm) (Some v) = Some (IXML_SUCCESS, h')"
    "attrs_ok h' e A'" "attr_list h' A' = AList.update nm (Some v) (attr_list h A)"
    using setAttribute_refines[OF assms] by blast
  show ?thesis using h' by (auto simp: getAttribute_ok[OF attrs_seenI[OF h'(2)]] getAttribute_ok[OF attrs_seenI[OF assms(1)]] update_conv)
qed

lemma nxt_append: "distinct (us @ zs) \<Longrightarrow> y \<in> set us \<Longrightarrow> next_of (us @ zs) y = (if y = last us then hd_opt zs else next_of us y)"
proof (induction us)
  case (Cons u us)
  then show ?case by (cases us) auto
qed simp

lemma prv_append: "distinct (us @ a # vs) \<Longrightarrow> prev_from q (us @ a # vs) a = (if us = [] then q else Some (last us))"
  by (induction us arbitrary: q) auto

lemma nxt_middle: "distinct (us @ a # vs) \<Longrightarrow> next_of (us @ a # vs) a = hd_opt vs"
  by (induction us) auto

lemma find_first: "\<forall>u\<in>set us. \<not> P u \<Longrightarrow> P a \<Longrightarrow> List.find P (us @ a # vs) = Some a"
  by (induction us) auto

text \<open>The heap after the replacement, and the attributes it still shows.\<close>

lemma replaced_seen:
  assumes ok: "attrs_ok h e (us @ a # vs)" and x: "h x = Some n" "dn_next n = None" "dn_name n \<noteq> None"
      "x \<notin> set (us @ a # vs)" "x \<noteq> e"
    and f: "find_attr h test (hd_opt (us @ a # vs)) = Some (Some a)"
  obtains h' where "place_attr h e x test b = Some (Some a, h')" "attrs_seen h' e (us @ [x])"
    "\<And>c. map_option (\<lambda>n. (dn_name n, dn_value n)) (h' c) = map_option (\<lambda>n. (dn_name n, dn_value n)) (h c)"
proof -
  let ?A = "us @ a # vs"
  have d: "distinct ?A" "e \<notin> set ?A" using ok by (auto simp: attrs_ok_def)
  have node: "\<exists>n. h c = Some n \<and> dn_prev n = prev_of ?A c \<and> dn_next n = next_of ?A c \<and> dn_name n \<noteq> None" if "c \<in> set ?A" for c
    using ok that by (auto simp: attrs_ok_def)
  obtain m where m: "h e = Some m" "dn_attr m = hd_opt ?A" using ok by (auto simp: attrs_ok_def)
  let ?q = "if us = [] then None else Some (last us)"
  obtain na where na: "h a = Some na" "dn_prev na = ?q" "dn_next na = hd_opt vs"
    using node[of a] prv_append[OF d(1)] nxt_middle[OF d(1)] by auto
  define h1 where "h1 = upd ?q (dn_next_update (\<lambda>_. Some x)) h"
  have s1: "set_at h ?q (dn_next_update (\<lambda>_. Some x)) = Some h1"
    unfolding h1_def by (rule set_at_upd) (use node[of "last us"] in \<open>auto split: if_splits\<close>)
  define h2 where "h2 = upd (hd_opt vs) (dn_prev_update (\<lambda>_. Some x)) h1"
  have s2: "set_at h1 (hd_opt vs) (dn_prev_update (\<lambda>_. Some x)) = Some h2"
    unfolding h2_def
  proof (rule set_at_upd)
    fix c assume c: "hd_opt vs = Some c"
    then obtain nc where "h c = Some nc" using node[of c] hd_opt_in[OF c] by auto
    then show "\<exists>n. h1 c = Some n" by (auto simp: h1_def upd_def)
  qed
  have out: "h2 c = h c" if "c \<notin> set ?A" for c
    using that hd_opt_in[of vs c] by (cases "us = []") (auto simp: h2_def h1_def upd_def)
  have he: "h2 e = Some m" using out d(2) m by simp
  define h3 where "h3 = (if us = [] then h2(e \<mapsto> m\<lparr>dn_attr := Some x\<rparr>) else h2)"
  have first: "dn_attr m = Some a \<longleftrightarrow> us = []" using m(2) d(1) by (cases us) auto
  have p: "place_attr h e x test b = Some (Some a, h3)"
    using f m s1 s2 na he first
    by (simp add: place_attr_def h3_def set_node_def split del: if_split) (simp add: set_node_def split: if_split)
  have links: "\<exists>n'. h3 c = Some n' \<and> dn_next n' = next_of (us @ [x]) c \<and> dn_name n' \<noteq> None" if "c \<in> set (us @ [x])" for c
  proof (cases "c = x")
    case True
    then have "h3 c = Some n" using out[of x] x by (simp add: h3_def)
    moreover have "next_of (us @ [x]) x = None" using nxt_snoc[of us x x] x d by auto
    ultimately show ?thesis using True x by auto
  next
    case False
    then have c: "c \<in> set us" using that by simp
    then obtain nc where nc: "h c = Some nc" "dn_next nc = next_of ?A c" "dn_name nc \<noteq> None" using node[of c] by auto
    have "next_of (us @ [x]) c = (if c = last us then Some x else next_of us c)"
      using nxt_append[of us "[x]" c] c x d by auto
    moreover have "next_of ?A c = (if c = last us then Some a else next_of us c)" using nxt_append[OF d(1) c] by simp
    moreover have "us \<noteq> []" "hd_opt vs \<noteq> Some c" using c d hd_opt_in[of vs c] by auto
    ultimately show ?thesis using nc by (auto simp: h3_def h2_def h1_def upd_def)
  qed
  have "attrs_seen h3 e (us @ [x])"
    unfolding attrs_seen_def
  proof (intro conjI ballI)
    show "sib_chain h3 (us @ [x])" by (rule chain_nxt) (use d x links in auto)
    show "\<exists>m. h3 e = Some m \<and> dn_attr m = hd_opt (us @ [x])" using he m by (cases us) (auto simp: h3_def)
    show "\<exists>n. h3 c = Some n \<and> dn_name n \<noteq> None" if "c \<in> set (us @ [x])" for c using links[OF that] by blast
  qed
  moreover have "map_option (\<lambda>n. (dn_name n, dn_value n)) (h3 c) = map_option (\<lambda>n. (dn_name n, dn_value n)) (h c)" for c
    using m he by (auto simp: h3_def h2_def h1_def upd_def option.map_comp comp_def)
  ultimately show ?thesis using that p by blast
qed

text \<open>
  C39: Replacing an attribute by an attribute node of the same name reports success and hands out the
  old node, but the new node is not linked to what follows: of the attributes, only those in front
  of the old one and the new one can still be found; all attributes behind it are lost.
\<close>

theorem replaced_attribute_loses_rest:
  assumes ok: "attrs_ok h e (us @ a # vs)" and x: "h x = Some n" "dn_next n = None" "dn_element n = None"
      "dn_name n = Some nm" "x \<notin> set (us @ a # vs)" "x \<noteq> e"
    and m: "h e = Some m" "dn_owner n = dn_owner m"
    and a: "fst (attr_pair h a) = nm" "\<forall>u\<in>set us. fst (attr_pair h u) \<noteq> nm"
  shows "\<exists>h'. ixmlElement_setAttributeNode h (Some e) (Some x) = Some (IXML_SUCCESS, h', Some a) \<and>
           (\<forall>name. ixmlElement_getAttribute h' (Some e) (Some name) =
              Some (case map_of (attr_list h (us @ [x])) name of None \<Rightarrow> None | Some v \<Rightarrow> v))"
proof -
  let ?h = "h(x \<mapsto> n\<lparr>dn_element := Some e\<rparr>)"
  have ok1: "attrs_ok ?h e (us @ a # vs)" using ok x m by (auto simp: attrs_ok_def)
  have same: "attr_pair ?h c = attr_pair h c" for c using x(1) by (simp add: attr_pair_def)
  have f: "find_attr ?h (name_is nm) (hd_opt (us @ a # vs)) = Some (Some a)"
    using find_named[OF attrs_seenI[OF ok1], of nm] find_first[of us "\<lambda>c. fst (attr_pair h c) = nm" a vs] a
    by (simp only: same)
  have x1: "?h x = Some (n\<lparr>dn_element := Some e\<rparr>)" by simp
  obtain h' where h': "place_attr ?h e x (name_is nm) True = Some (Some a, h')" "attrs_seen h' e (us @ [x])"
    "\<And>c. map_option (\<lambda>n. (dn_name n, dn_value n)) (h' c) = map_option (\<lambda>n. (dn_name n, dn_value n)) (?h c)"
    by (rule replaced_seen[OF ok1 x1 _ _ x(5,6) f]) (use x in auto)
  have "attr_pair h' c = attr_pair h c" for c using attr_pair_cong[of h' c ?h] h'(3)[of c] same by simp
  then have "attr_list h' (us @ [x]) = attr_list h (us @ [x])" by (simp add: attr_list_def)
  moreover have "ixmlElement_setAttributeNode h (Some e) (Some x) = Some (IXML_SUCCESS, h', Some a)"
    using h'(1) x m by (simp add: ixmlElement_setAttributeNode_def set_node_def)
  ultimately show ?thesis using getAttribute_ok[OF h'(2)] by simp
qed

text \<open>An element \<open>1\<close> with the attributes \<open>a\<close> and \<open>b\<close>, and an attribute node \<open>4\<close> with the name \<open>a\<close>.\<close>

definition sample_attr :: "c_string \<Rightarrow> c_string \<Rightarrow> nat option \<Rightarrow> nat option \<Rightarrow> nat option \<Rightarrow> dom_node" where
  "sample_attr name val prev succ elem = ixmlNode_zero\<lparr>dn_type := eATTRIBUTE_NODE, dn_name := Some name, dn_value := Some val,
     dn_prev := prev, dn_next := succ, dn_owner := Some 0, dn_element := elem\<rparr>"

definition sample_element :: dom_heap where
  "sample_element = [1 \<mapsto> ixmlNode_zero\<lparr>dn_type := eELEMENT_NODE, dn_name := Some ''x'', dn_owner := Some 0, dn_attr := Some 2\<rparr>,
     2 \<mapsto> sample_attr ''a'' ''1'' None (Some 3) (Some 1), 3 \<mapsto> sample_attr ''b'' ''2'' (Some 2) None (Some 1),
     4 \<mapsto> sample_attr ''a'' ''3'' None None None]"

lemma sample_element_ok: "attrs_ok sample_element 1 [2, 3]"
  by (simp add: attrs_ok_def sample_element_def sample_attr_def ixmlNode_zero_def)

theorem set_get_attribute_witness:
  "\<exists>h'. ixmlElement_setAttribute sample_element 5 (Some 1) (Some ''b'') (Some ''9'') = Some (IXML_SUCCESS, h') \<and>
     ixmlElement_getAttribute h' (Some 1) (Some ''b'') = Some (Some ''9'')"
proof -
  have "Parser_isValidXmlName ''b'' = Some True"
    by code_simp
  moreover obtain m where "sample_element 1 = Some m" "dn_owner m = Some 0" by (simp add: sample_element_def ixmlNode_zero_def)
  moreover have "sample_element 5 = None" by (simp add: sample_element_def)
  ultimately show ?thesis using set_get_attribute[OF sample_element_ok] by metis
qed

theorem replaced_attribute_loses_rest_witness:
  "\<exists>h'. ixmlElement_setAttributeNode sample_element (Some 1) (Some 4) = Some (IXML_SUCCESS, h', Some 2) \<and>
     ixmlElement_getAttribute sample_element (Some 1) (Some ''b'') = Some (Some ''2'') \<and>
     ixmlElement_getAttribute h' (Some 1) (Some ''b'') = Some None"
proof -
  have ok: "attrs_ok sample_element 1 ([] @ 2 # [3])" using sample_element_ok by simp
  have l: "attr_list sample_element [4] = [(''a'', Some ''3'')]" "attr_list sample_element [2, 3] = [(''a'', Some ''1''), (''b'', Some ''2'')]"
    by (simp_all add: attr_list_def attr_pair_def sample_element_def sample_attr_def ixmlNode_zero_def)
  have "\<exists>h'. ixmlElement_setAttributeNode sample_element (Some 1) (Some 4) = Some (IXML_SUCCESS, h', Some 2) \<and>
      (\<forall>name. ixmlElement_getAttribute h' (Some 1) (Some name) =
         Some (case map_of (attr_list sample_element ([] @ [4])) name of None \<Rightarrow> None | Some v \<Rightarrow> v))"
    by (rule replaced_attribute_loses_rest[OF ok, where nm="''a''" and n="the (sample_element 4)" and m="the (sample_element 1)"])
      (auto simp: sample_element_def sample_attr_def ixmlNode_zero_def attr_pair_def)
  then show ?thesis using getAttribute_ok[OF attrs_seenI[OF sample_element_ok]] by (auto simp: l)
qed

text \<open>
  A name without a prefix makes \<open>ixmlElement_setAttributeNS\<close> compare a null pointer.
\<close>

lemma unprefixed_setAttributeNS_faults:
  assumes "Parser_isValidXmlName q = Some True" "CHR '':'' \<notin> set q"
  shows "ixmlElement_setAttributeNS h new (Some e) (Some uri) (Some q) (Some v) = None"
proof -
  have "strchr_from (CHR '':'') q = None" using assms(2) by (induction q) auto
  then show ?thesis by (simp add: ixmlElement_setAttributeNS_def assms(1) Parser_setNodePrefixAndLocalName_def)
qed

end
