(* ===== verification/XmlClone.thy ===== *)
theory XmlClone
  imports XmlPrinter
begin

section \<open>Copies of nodes (ixml/src/node.c)\<close>

text \<open>
  The functions that copy a node, on trees: a pointer is the node with the siblings that follow it
  (as in the printer). A shallow copy of an element keeps its attributes.
\<close>

fun ixmlNode_cloneNodeTreeRecursive :: "bool \<Rightarrow> dom_tree list \<Rightarrow> dom_tree list" where
  "ixmlNode_cloneNodeTreeRecursive deep [] = []"
| "ixmlNode_cloneNodeTreeRecursive deep (DomNode t name val atts children # siblings) =
     (case t of
        eELEMENT_NODE \<Rightarrow>
          DomNode eELEMENT_NODE name val (ixmlNode_cloneNodeTreeRecursive deep atts)
            (if deep then ixmlNode_cloneNodeTreeRecursive deep children else []) #
          (if deep then ixmlNode_cloneNodeTreeRecursive deep siblings else [])
      | eATTRIBUTE_NODE \<Rightarrow>
          DomNode eATTRIBUTE_NODE name val [] [] # ixmlNode_cloneNodeTreeRecursive deep siblings
      | eTEXT_NODE \<Rightarrow> [DomNode eTEXT_NODE name val [] []]
      | eCDATA_SECTION_NODE \<Rightarrow> [DomNode eCDATA_SECTION_NODE name val [] []]
      | eDOCUMENT_NODE \<Rightarrow>
          [DomNode eDOCUMENT_NODE ''#document'' [] []
             (if deep then ixmlNode_cloneNodeTreeRecursive deep children else [])]
      | _ \<Rightarrow> [])"

text \<open>A node of a type that is not copied gives no copy, and a null pointer is followed then.\<close>

definition ixmlNode_cloneNodeTree :: "bool \<Rightarrow> dom_tree \<Rightarrow> dom_tree option" where
  "ixmlNode_cloneNodeTree deep node =
     (case dt_type node of
        eELEMENT_NODE \<Rightarrow>
          Some (DomNode eELEMENT_NODE (dt_name node) (dt_value node)
                  (ixmlNode_cloneNodeTreeRecursive deep (dt_attrs node))
                  (if deep then ixmlNode_cloneNodeTreeRecursive deep (dt_children node) else []))
      | t \<Rightarrow> (case ixmlNode_cloneNodeTreeRecursive deep [node] of [] \<Rightarrow> None | c # _ \<Rightarrow> Some c))"

definition ixmlNode_cloneNode :: "bool \<Rightarrow> dom_tree \<Rightarrow> dom_tree option" where
  "ixmlNode_cloneNode deep node =
     (case dt_type node of
        eATTRIBUTE_NODE \<Rightarrow> Some (DomNode eATTRIBUTE_NODE (dt_name node) (dt_value node) [] [])
      | _ \<Rightarrow> ixmlNode_cloneNodeTree deep node)"

text \<open>The nodes that documents have: the content of elements, and their attributes.\<close>

definition attribute_nodes :: "dom_tree list \<Rightarrow> bool" where
  "attribute_nodes ts = list_all (\<lambda>a. dt_type a = eATTRIBUTE_NODE \<and> dt_attrs a = [] \<and> dt_children a = []) ts"

fun content_nodes :: "dom_tree list \<Rightarrow> bool" where
  "content_nodes [] = True"
| "content_nodes (DomNode t name val atts children # siblings) =
     ((if t = eELEMENT_NODE then attribute_nodes atts \<and> content_nodes children
       else (t = eTEXT_NODE \<or> t = eCDATA_SECTION_NODE) \<and> atts = [] \<and> children = []) \<and>
      content_nodes siblings)"

text \<open>Nothing follows a text or a CDATA section, here and further down.\<close>

fun text_last :: "dom_tree list \<Rightarrow> bool" where
  "text_last [] = True"
| "text_last (DomNode t name val atts children # siblings) =
     (text_last children \<and> text_last siblings \<and> (t \<noteq> eELEMENT_NODE \<longrightarrow> siblings = []))"

lemma clone_attributes: "attribute_nodes ts \<Longrightarrow> ixmlNode_cloneNodeTreeRecursive deep ts = ts"
proof (induction ts)
  case (Cons a ts)
  then show ?case by (cases a) (simp add: attribute_nodes_def)
qed (simp add: attribute_nodes_def)

lemma clone_content:
  "content_nodes ts \<Longrightarrow> ixmlNode_cloneNodeTreeRecursive True ts = ts \<longleftrightarrow> text_last ts"
proof (induction ts rule: text_last.induct)
  case (2 t name val atts children siblings)
  then show ?case by (auto simp: clone_attributes split: if_splits)
qed simp

text \<open>
  C22: A deep copy of an element equals the element exactly when no text and no CDATA section in it
  is followed by a sibling: the recursion does not go on behind such a node, so everything that
  follows it in the same parent is missing from the copy.
\<close>

theorem deep_copy_exact:
  assumes "attribute_nodes atts" "content_nodes children"
  shows "ixmlNode_cloneNode True (DomNode eELEMENT_NODE name val atts children) =
           Some (DomNode eELEMENT_NODE name val atts children) \<longleftrightarrow> text_last children"
  using clone_content[OF assms(2)] clone_attributes[OF assms(1)]
  by (simp add: ixmlNode_cloneNode_def ixmlNode_cloneNodeTree_def)

theorem deep_copy_exact_witness:
  "ixmlNode_cloneNode True (DomNode eELEMENT_NODE ''p'' [] [] [DomNode eTEXT_NODE ''#text'' ''see'' [] [], DomNode eELEMENT_NODE ''b'' [] [] []])
     \<noteq> Some (DomNode eELEMENT_NODE ''p'' [] [] [DomNode eTEXT_NODE ''#text'' ''see'' [] [], DomNode eELEMENT_NODE ''b'' [] [] []])"
  using deep_copy_exact[of "[]" "[DomNode eTEXT_NODE ''#text'' ''see'' [] [], DomNode eELEMENT_NODE ''b'' [] [] []]" "''p''" "[]"]
  by (simp add: attribute_nodes_def)

text \<open>What is lost is only what follows: the copy is the tree cut behind the first text of every parent.\<close>

fun cut_after_text :: "dom_tree list \<Rightarrow> dom_tree list" where
  "cut_after_text [] = []"
| "cut_after_text (DomNode t name val atts children # siblings) =
     DomNode t name val atts (cut_after_text children) # (if t = eELEMENT_NODE then cut_after_text siblings else [])"

lemma deep_copy_cut: "content_nodes ts \<Longrightarrow> ixmlNode_cloneNodeTreeRecursive True ts = cut_after_text ts"
proof (induction ts rule: cut_after_text.induct)
  case (2 t name val atts children siblings)
  then show ?case by (auto simp: clone_attributes split: if_splits)
qed simp

end
