(* ===== verification/Md5.thy ===== *)
theory Md5
  imports Prelude "HOL-Library.Word"
begin

section \<open>The two MD5 implementations (upnp/src/uuid/upnp\_md5.c and src/md5/md5.c)\<close>

text \<open>
  The program has two implementations of the message digest MD5: one makes the UUIDs of the UPnP
  stack, the other is used by the media server. Words are 32 bits wide and wrap around, bytes have
  8 bits, and the bytes of a block become words with the lowest byte first on every machine. A
  message is a list of bytes; the caller passes it in pieces.
\<close>

unbundle bit_operations_syntax

type_synonym w32 = "32 word"
type_synonym md5byte = "8 word"
type_synonym md5_abcd = "w32 \<times> w32 \<times> w32 \<times> w32"
type_synonym md5_fun = "w32 \<Rightarrow> w32 \<Rightarrow> w32 \<Rightarrow> w32"

subsection \<open>Words and bytes\<close>

fun le_words :: "md5byte list \<Rightarrow> w32 list" where
  "le_words (b0 # b1 # b2 # b3 # bs) =
     (ucast b0 + push_bit 8 (ucast b1) + push_bit 16 (ucast b2) + push_bit 24 (ucast b3)) # le_words bs"
| "le_words _ = []"

definition le_bytes :: "w32 \<Rightarrow> md5byte list" where
  "le_bytes w = [ucast w, ucast (drop_bit 8 w), ucast (drop_bit 16 w), ucast (drop_bit 24 w)]"

text \<open>\<^verbatim>\<open>memcpy\<close> into a buffer at an offset.\<close>

definition memcpy_at :: "'a list \<Rightarrow> nat \<Rightarrow> 'a list \<Rightarrow> 'a list" where
  "memcpy_at dst i src = take i dst @ src @ drop (i + length src) dst"

definition digest_bytes :: "md5_abcd \<Rightarrow> md5byte list" where
  "digest_bytes s = (case s of (a, b, c, d) \<Rightarrow> le_bytes a @ le_bytes b @ le_bytes c @ le_bytes d)"

definition add4 :: "md5_abcd \<Rightarrow> md5_abcd \<Rightarrow> md5_abcd" where
  "add4 s t = (case (s, t) of ((a, b, c, d), (a', b', c', d')) \<Rightarrow> (a + a', b + b', c + c', d + d'))"

subsection \<open>upnp\_md5.c\<close>

record MD5Context =
  md_buf :: md5_abcd
  md_bytes :: "w32 \<times> w32"
  md_in :: "md5byte list"

definition F1 :: md5_fun where "F1 x y z = z XOR (x AND (y XOR z))"
definition F2 :: md5_fun where "F2 x y z = F1 z x y"
definition F3 :: md5_fun where "F3 x y z = x XOR y XOR z"
definition F4 :: md5_fun where "F4 x y z = y XOR (x OR NOT z)"

text \<open>
  A step works on the registers in the order of the macro's arguments \<open>w, x, y, z\<close>; the next step
  takes them rotated by one, which is how the code passes them.
\<close>

definition MD5STEP :: "md5_fun \<Rightarrow> md5_abcd \<Rightarrow> w32 \<Rightarrow> nat \<Rightarrow> md5_abcd" where
  "MD5STEP f regs inp s =
     (case regs of (w, x, y, z) \<Rightarrow>
        let w1 = w + (f x y z + inp);
            w2 = (push_bit s w1 OR drop_bit (32 - s) w1) + x
        in (z, w2, x, y))"

definition transform_steps :: "(md5_fun \<times> nat \<times> w32 \<times> nat) list" where
  "transform_steps = [
     (F1, 0, 0xd76aa478, 7), (F1, 1, 0xe8c7b756, 12), (F1, 2, 0x242070db, 17), (F1, 3, 0xc1bdceee, 22),
     (F1, 4, 0xf57c0faf, 7), (F1, 5, 0x4787c62a, 12), (F1, 6, 0xa8304613, 17), (F1, 7, 0xfd469501, 22),
     (F1, 8, 0x698098d8, 7), (F1, 9, 0x8b44f7af, 12), (F1, 10, 0xffff5bb1, 17), (F1, 11, 0x895cd7be, 22),
     (F1, 12, 0x6b901122, 7), (F1, 13, 0xfd987193, 12), (F1, 14, 0xa679438e, 17), (F1, 15, 0x49b40821, 22),
     (F2, 1, 0xf61e2562, 5), (F2, 6, 0xc040b340, 9), (F2, 11, 0x265e5a51, 14), (F2, 0, 0xe9b6c7aa, 20),
     (F2, 5, 0xd62f105d, 5), (F2, 10, 0x02441453, 9), (F2, 15, 0xd8a1e681, 14), (F2, 4, 0xe7d3fbc8, 20),
     (F2, 9, 0x21e1cde6, 5), (F2, 14, 0xc33707d6, 9), (F2, 3, 0xf4d50d87, 14), (F2, 8, 0x455a14ed, 20),
     (F2, 13, 0xa9e3e905, 5), (F2, 2, 0xfcefa3f8, 9), (F2, 7, 0x676f02d9, 14), (F2, 12, 0x8d2a4c8a, 20),
     (F3, 5, 0xfffa3942, 4), (F3, 8, 0x8771f681, 11), (F3, 11, 0x6d9d6122, 16), (F3, 14, 0xfde5380c, 23),
     (F3, 1, 0xa4beea44, 4), (F3, 4, 0x4bdecfa9, 11), (F3, 7, 0xf6bb4b60, 16), (F3, 10, 0xbebfbc70, 23),
     (F3, 13, 0x289b7ec6, 4), (F3, 0, 0xeaa127fa, 11), (F3, 3, 0xd4ef3085, 16), (F3, 6, 0x04881d05, 23),
     (F3, 9, 0xd9d4d039, 4), (F3, 12, 0xe6db99e5, 11), (F3, 15, 0x1fa27cf8, 16), (F3, 2, 0xc4ac5665, 23),
     (F4, 0, 0xf4292244, 6), (F4, 7, 0x432aff97, 10), (F4, 14, 0xab9423a7, 15), (F4, 5, 0xfc93a039, 21),
     (F4, 12, 0x655b59c3, 6), (F4, 3, 0x8f0ccc92, 10), (F4, 10, 0xffeff47d, 15), (F4, 1, 0x85845dd1, 21),
     (F4, 8, 0x6fa87e4f, 6), (F4, 15, 0xfe2ce6e0, 10), (F4, 6, 0xa3014314, 15), (F4, 13, 0x4e0811a1, 21),
     (F4, 4, 0xf7537e82, 6), (F4, 11, 0xbd3af235, 10), (F4, 2, 0x2ad7d2bb, 15), (F4, 9, 0xeb86d391, 21)]"

definition MD5Transform :: "md5_abcd \<Rightarrow> w32 list \<Rightarrow> md5_abcd" where
  "MD5Transform buf inp =
     add4 buf (fold (\<lambda>(f, k, t, s) regs. MD5STEP f regs (inp ! k + t) s) transform_steps buf)"

definition MD5Init :: "md5byte list \<Rightarrow> MD5Context" where
  "MD5Init garbage =
     \<lparr>md_buf = (0x67452301, 0xefcdab89, 0x98badcfe, 0x10325476), md_bytes = (0, 0), md_in = garbage\<rparr>"

text \<open>The blocks of 64 bytes; the rest stays.\<close>

fun update_blocks :: "md5_abcd \<Rightarrow> md5byte list \<Rightarrow> md5byte list \<Rightarrow> md5_abcd \<times> md5byte list \<times> md5byte list" where
  "update_blocks buf inb data =
     (if length data \<ge> 64
      then update_blocks (MD5Transform buf (le_words (memcpy_at inb 0 (take 64 data))))
             (memcpy_at inb 0 (take 64 data)) (drop 64 data)
      else (buf, inb, data))"

declare update_blocks.simps [simp del]

definition MD5Update :: "MD5Context \<Rightarrow> md5byte list \<Rightarrow> w32 \<Rightarrow> MD5Context" where
  "MD5Update ctx buf len =
     (let (b0, b1) = md_bytes ctx;
          b0' = b0 + len;
          b1' = (if b0' < b0 then b1 + 1 else b1);
          t = 64 - (b0 AND 0x3f)
      in if t > len
         then ctx\<lparr>md_bytes := (b0', b1'), md_in := memcpy_at (md_in ctx) (unat (64 - t)) (take (unat len) buf)\<rparr>
         else
           (let in1 = memcpy_at (md_in ctx) (unat (64 - t)) (take (unat t) buf);
                buf1 = MD5Transform (md_buf ctx) (le_words in1);
                (buf2, in2, rest) = update_blocks buf1 in1 (drop (unat t) (take (unat len) buf))
            in \<lparr>md_buf = buf2, md_bytes = (b0', b1'), md_in = memcpy_at in2 0 rest\<rparr>))"

text \<open>The digest. The context is not used after it, so its contents are not part of the result.\<close>

definition MD5Final :: "MD5Context \<Rightarrow> md5byte list" where
  "MD5Final ctx =
     (let (b0, b1) = md_bytes ctx;
          n = unat (b0 AND 0x3f);
          in1 = memcpy_at (md_in ctx) n [0x80];
          count = 56 - 1 - int n;
          (buf2, in2, p, count2) =
            (if count < 0
             then (let in' = memcpy_at in1 (n + 1) (replicate (nat (count + 8)) 0)
                   in (MD5Transform (md_buf ctx) (le_words in'), in', 0, 56))
             else (md_buf ctx, in1, n + 1, nat count));
          in3 = memcpy_at in2 p (replicate count2 0);
          w = le_words in3;
          w' = w[14 := push_bit 3 b0, 15 := push_bit 3 b1 OR drop_bit 29 b0]
      in digest_bytes (MD5Transform buf2 w'))"

subsection \<open>md5.c\<close>

record md5_state_t =
  ms_count :: "w32 \<times> w32"
  ms_abcd :: md5_abcd
  ms_buf :: "md5byte list"

definition md5_F :: md5_fun where "md5_F x y z = (x AND y) OR (NOT x AND z)"
definition md5_G :: md5_fun where "md5_G x y z = (x AND z) OR (y AND NOT z)"
definition md5_H :: md5_fun where "md5_H x y z = x XOR y XOR z"
definition md5_I :: md5_fun where "md5_I x y z = y XOR (x OR NOT z)"

definition ROTATE_LEFT :: "w32 \<Rightarrow> nat \<Rightarrow> w32" where
  "ROTATE_LEFT x n = push_bit n x OR drop_bit (32 - n) x"

definition SET :: "md5_fun \<Rightarrow> md5_abcd \<Rightarrow> w32 list \<Rightarrow> nat \<Rightarrow> nat \<Rightarrow> w32 \<Rightarrow> md5_abcd" where
  "SET f regs X k s T =
     (case regs of (a, b, c, d) \<Rightarrow>
        let t = a + f b c d + X ! k + T
        in (d, ROTATE_LEFT t s + b, b, c))"

definition process_sets :: "(md5_fun \<times> nat \<times> nat \<times> w32) list" where
  "process_sets = [
     (md5_F, 0, 7, 0xd76aa478), (md5_F, 1, 12, 0xe8c7b756), (md5_F, 2, 17, 0x242070db), (md5_F, 3, 22, 0xc1bdceee),
     (md5_F, 4, 7, 0xf57c0faf), (md5_F, 5, 12, 0x4787c62a), (md5_F, 6, 17, 0xa8304613), (md5_F, 7, 22, 0xfd469501),
     (md5_F, 8, 7, 0x698098d8), (md5_F, 9, 12, 0x8b44f7af), (md5_F, 10, 17, 0xffff5bb1), (md5_F, 11, 22, 0x895cd7be),
     (md5_F, 12, 7, 0x6b901122), (md5_F, 13, 12, 0xfd987193), (md5_F, 14, 17, 0xa679438e), (md5_F, 15, 22, 0x49b40821),
     (md5_G, 1, 5, 0xf61e2562), (md5_G, 6, 9, 0xc040b340), (md5_G, 11, 14, 0x265e5a51), (md5_G, 0, 20, 0xe9b6c7aa),
     (md5_G, 5, 5, 0xd62f105d), (md5_G, 10, 9, 0x02441453), (md5_G, 15, 14, 0xd8a1e681), (md5_G, 4, 20, 0xe7d3fbc8),
     (md5_G, 9, 5, 0x21e1cde6), (md5_G, 14, 9, 0xc33707d6), (md5_G, 3, 14, 0xf4d50d87), (md5_G, 8, 20, 0x455a14ed),
     (md5_G, 13, 5, 0xa9e3e905), (md5_G, 2, 9, 0xfcefa3f8), (md5_G, 7, 14, 0x676f02d9), (md5_G, 12, 20, 0x8d2a4c8a),
     (md5_H, 5, 4, 0xfffa3942), (md5_H, 8, 11, 0x8771f681), (md5_H, 11, 16, 0x6d9d6122), (md5_H, 14, 23, 0xfde5380c),
     (md5_H, 1, 4, 0xa4beea44), (md5_H, 4, 11, 0x4bdecfa9), (md5_H, 7, 16, 0xf6bb4b60), (md5_H, 10, 23, 0xbebfbc70),
     (md5_H, 13, 4, 0x289b7ec6), (md5_H, 0, 11, 0xeaa127fa), (md5_H, 3, 16, 0xd4ef3085), (md5_H, 6, 23, 0x04881d05),
     (md5_H, 9, 4, 0xd9d4d039), (md5_H, 12, 11, 0xe6db99e5), (md5_H, 15, 16, 0x1fa27cf8), (md5_H, 2, 23, 0xc4ac5665),
     (md5_I, 0, 6, 0xf4292244), (md5_I, 7, 10, 0x432aff97), (md5_I, 14, 15, 0xab9423a7), (md5_I, 5, 21, 0xfc93a039),
     (md5_I, 12, 6, 0x655b59c3), (md5_I, 3, 10, 0x8f0ccc92), (md5_I, 10, 15, 0xffeff47d), (md5_I, 1, 21, 0x85845dd1),
     (md5_I, 8, 6, 0x6fa87e4f), (md5_I, 15, 10, 0xfe2ce6e0), (md5_I, 6, 15, 0xa3014314), (md5_I, 13, 21, 0x4e0811a1),
     (md5_I, 4, 6, 0xf7537e82), (md5_I, 11, 10, 0xbd3af235), (md5_I, 2, 15, 0x2ad7d2bb), (md5_I, 9, 21, 0xeb86d391)]"

definition md5_process :: "md5_abcd \<Rightarrow> md5byte list \<Rightarrow> md5_abcd" where
  "md5_process abcd data =
     add4 abcd (fold (\<lambda>(f, k, s, T) regs. SET f regs (le_words data) k s T) process_sets abcd)"

definition md5_init :: "md5byte list \<Rightarrow> md5_state_t" where
  "md5_init garbage =
     \<lparr>ms_count = (0, 0), ms_abcd = (0x67452301, 0xefcdab89, 0x98badcfe, 0x10325476), ms_buf = garbage\<rparr>"

fun append_blocks :: "md5_abcd \<Rightarrow> md5byte list \<Rightarrow> md5_abcd \<times> md5byte list" where
  "append_blocks abcd p = (if length p \<ge> 64 then append_blocks (md5_process abcd (take 64 p)) (drop 64 p) else (abcd, p))"

declare append_blocks.simps [simp del]

text \<open>
  The number of bytes is a signed 32-bit number; shifting it to bits wraps around, and the bits
  shifted out go to the high word.
\<close>

definition md5_append :: "md5_state_t \<Rightarrow> md5byte list \<Rightarrow> int \<Rightarrow> md5_state_t" where
  "md5_append pms data nbytes =
     (let (c0, c1) = ms_count pms;
          offset = unat (drop_bit 3 c0 AND 63);
          nbits = word_of_int (nbytes * 8) :: w32
      in if nbytes \<le> 0 then pms
         else
           (let c0' = c0 + nbits;
                c1' = c1 + word_of_int (nbytes div 2 ^ 29) + (if c0' < nbits then 1 else 0);
                pms1 = pms\<lparr>ms_count := (c0', c1')\<rparr>;
                p = take (nat nbytes) data
            in if offset \<noteq> 0
               then
                 (let copy = (if offset + nat nbytes > 64 then 64 - offset else nat nbytes);
                      b = memcpy_at (ms_buf pms) offset (take copy p)
                  in if offset + copy < 64 then pms1\<lparr>ms_buf := b\<rparr>
                     else
                       (let (abcd, rest) = append_blocks (md5_process (ms_abcd pms) b) (drop copy p)
                        in pms1\<lparr>ms_abcd := abcd, ms_buf := memcpy_at b 0 rest\<rparr>))
               else
                 (let (abcd, rest) = append_blocks (ms_abcd pms) p
                  in pms1\<lparr>ms_abcd := abcd, ms_buf := memcpy_at (ms_buf pms) 0 rest\<rparr>)))"

definition md5_finish :: "md5_state_t \<Rightarrow> md5byte list" where
  "md5_finish pms =
     (let (c0, c1) = ms_count pms;
          data = le_bytes c0 @ le_bytes c1;
          pad = 0x80 # replicate 63 0;
          pms1 = md5_append pms pad (uint ((55 - drop_bit 3 c0) AND 63) + 1);
          pms2 = md5_append pms1 data 8
      in digest_bytes (ms_abcd pms2))"

subsection \<open>The digest of RFC 1321\<close>

text \<open>
  The standard as a reference: one function of a block for all 64 operations, with the word, the
  rotation and the constant of every operation given by its number, and the whole message padded
  before it is cut into blocks.
\<close>

definition rfc_T :: "w32 list" where
  "rfc_T = [
     0xd76aa478, 0xe8c7b756, 0x242070db, 0xc1bdceee, 0xf57c0faf, 0x4787c62a,
     0xa8304613, 0xfd469501, 0x698098d8, 0x8b44f7af, 0xffff5bb1, 0x895cd7be,
     0x6b901122, 0xfd987193, 0xa679438e, 0x49b40821, 0xf61e2562, 0xc040b340,
     0x265e5a51, 0xe9b6c7aa, 0xd62f105d, 0x02441453, 0xd8a1e681, 0xe7d3fbc8,
     0x21e1cde6, 0xc33707d6, 0xf4d50d87, 0x455a14ed, 0xa9e3e905, 0xfcefa3f8,
     0x676f02d9, 0x8d2a4c8a, 0xfffa3942, 0x8771f681, 0x6d9d6122, 0xfde5380c,
     0xa4beea44, 0x4bdecfa9, 0xf6bb4b60, 0xbebfbc70, 0x289b7ec6, 0xeaa127fa,
     0xd4ef3085, 0x04881d05, 0xd9d4d039, 0xe6db99e5, 0x1fa27cf8, 0xc4ac5665,
     0xf4292244, 0x432aff97, 0xab9423a7, 0xfc93a039, 0x655b59c3, 0x8f0ccc92,
     0xffeff47d, 0x85845dd1, 0x6fa87e4f, 0xfe2ce6e0, 0xa3014314, 0x4e0811a1,
     0xf7537e82, 0xbd3af235, 0x2ad7d2bb, 0xeb86d391]"

definition rfc_fun :: "nat \<Rightarrow> md5_fun" where
  "rfc_fun r x y z =
     (if r = 0 then (x AND y) OR (NOT x AND z)
      else if r = 1 then (x AND z) OR (y AND NOT z)
      else if r = 2 then x XOR y XOR z
      else y XOR (x OR NOT z))"

definition rfc_word :: "nat \<Rightarrow> nat" where
  "rfc_word i =
     (if i < 16 then i else if i < 32 then (5 * i + 1) mod 16 else if i < 48 then (3 * i + 5) mod 16 else (7 * i) mod 16)"

definition rfc_rotate :: "nat \<Rightarrow> nat" where
  "rfc_rotate i = [[7, 12, 17, 22], [5, 9, 14, 20], [4, 11, 16, 23], [6, 10, 15, 21]] ! (i div 16) ! (i mod 4)"

definition rfc_step :: "w32 list \<Rightarrow> nat \<Rightarrow> md5_abcd \<Rightarrow> md5_abcd" where
  "rfc_step X i regs =
     (case regs of (a, b, c, d) \<Rightarrow>
        (d, b + word_rotl (rfc_rotate i) (a + rfc_fun (i div 16) b c d + X ! rfc_word i + rfc_T ! i), b, c))"

definition rfc_block :: "md5_abcd \<Rightarrow> md5byte list \<Rightarrow> md5_abcd" where
  "rfc_block s block = add4 s (fold (rfc_step (le_words block)) [0..<64] s)"

fun rfc_blocks :: "md5_abcd \<Rightarrow> md5byte list \<Rightarrow> md5_abcd" where
  "rfc_blocks s m = (if length m \<ge> 64 then rfc_blocks (rfc_block s (take 64 m)) (drop 64 m) else s)"

declare rfc_blocks.simps [simp del]

definition rfc_length :: "nat \<Rightarrow> md5byte list" where
  "rfc_length n = map (\<lambda>i. word_of_int (8 * int n div 256 ^ i)) [0..<8]"

definition rfc_pad :: "md5byte list \<Rightarrow> md5byte list" where
  "rfc_pad m = m @ 0x80 # replicate ((119 - length m mod 64) mod 64) 0 @ rfc_length (length m)"

definition rfc_md5 :: "md5byte list \<Rightarrow> md5byte list" where
  "rfc_md5 m = digest_bytes (rfc_blocks (0x67452301, 0xefcdab89, 0x98badcfe, 0x10325476) (rfc_pad m))"

subsection \<open>The operations on a block\<close>

lemma rotl_shifts: "0 < n \<Longrightarrow> n < 32 \<Longrightarrow> push_bit n w OR drop_bit (32 - n) w = word_rotl n (w :: w32)"
proof (rule bit_word_eqI)
  fix i assume n: "0 < n" "n < 32" and i: "i < LENGTH(32)"
  show "bit (push_bit n w OR drop_bit (32 - n) w) i = bit (word_rotl n w) i"
  proof (cases "i < n")
    case True
    then have "32 - n + i = (i + (32 - n)) mod 32" using n i by simp
    then show ?thesis using True n i by (simp add: bit_simps)
  next
    case False
    then have "(i + 32 - n) mod 32 = i - n" using n i by (simp add: mod_if)
    moreover have "\<not> bit w (32 - n + i)" using False n by (auto dest: bit_imp_le_length)
    ultimately show ?thesis using False n i by (simp add: bit_simps)
  qed
qed

lemma F_rfc:
  "F1 = rfc_fun 0" "F2 = rfc_fun 1" "F3 = rfc_fun 2" "F4 = rfc_fun 3"
  "md5_F = rfc_fun 0" "md5_G = rfc_fun 1" "md5_H = rfc_fun 2" "md5_I = rfc_fun 3"
  by (intro ext bit_word_eqI; auto simp: F1_def F2_def F3_def F4_def md5_F_def md5_G_def md5_H_def md5_I_def rfc_fun_def bit_simps)+

lemma rotate_range: "i < 64 \<Longrightarrow> 0 < rfc_rotate i \<and> rfc_rotate i < 32"
proof -
  assume "i < 64"
  then have "i div 16 \<in> {0, 1, 2, 3}" "i mod 4 \<in> {0, 1, 2, 3}" by auto
  then show ?thesis by (auto simp: rfc_rotate_def numeral_2_eq_2 numeral_3_eq_3)
qed

lemma upt64: "[0..<64] = [0, 1, 2, 3, 4, 5, 6, 7, 8, 9, 10, 11, 12, 13, 14, 15, 16, 17, 18, 19, 20, 21, 22, 23, 24, 25, 26, 27, 28, 29, 30, 31, 32,
   33, 34, 35, 36, 37, 38, 39, 40, 41, 42, 43, 44, 45, 46, 47, 48, 49, 50, 51, 52, 53, 54, 55, 56, 57, 58, 59, 60, 61, 62, 63]"
  by code_simp

lemma zip_maps: "zip (map f xs) (map g xs) = map (\<lambda>x. (f x, g x)) xs"
  by (induction xs) auto

lemma transform_table: "transform_steps = map (\<lambda>i. (rfc_fun (i div 16), rfc_word i, rfc_T ! i, rfc_rotate i)) [0..<64]"
proof -
  have s: "map snd transform_steps = map (\<lambda>i. (rfc_word i, rfc_T ! i, rfc_rotate i)) [0..<64]" by code_simp
  have f: "map fst transform_steps = map (\<lambda>i. rfc_fun (i div 16)) [0..<64]"
    by (simp add: transform_steps_def upt64 F_rfc)
  have "transform_steps = zip (map fst transform_steps) (map snd transform_steps)" by (rule zip_map_fst_snd[symmetric])
  then show ?thesis by (simp only: s f zip_maps)
qed

lemma sets_table: "process_sets = map (\<lambda>i. (rfc_fun (i div 16), rfc_word i, rfc_rotate i, rfc_T ! i)) [0..<64]"
proof -
  have s: "map snd process_sets = map (\<lambda>i. (rfc_word i, rfc_rotate i, rfc_T ! i)) [0..<64]" by code_simp
  have f: "map fst process_sets = map (\<lambda>i. rfc_fun (i div 16)) [0..<64]"
    by (simp add: process_sets_def upt64 F_rfc)
  have "process_sets = zip (map fst process_sets) (map snd process_sets)" by (rule zip_map_fst_snd[symmetric])
  then show ?thesis by (simp only: s f zip_maps)
qed

lemma fold_map_cong: "(\<And>i s. i \<in> set xs \<Longrightarrow> g (f i) s = h i s) \<Longrightarrow> fold g (map f xs) s = fold h xs s"
  by (induction xs arbitrary: s) auto

lemma transform_rfc: "MD5Transform s (le_words b) = rfc_block s b"
  unfolding MD5Transform_def rfc_block_def transform_table
  by (rule arg_cong[where f="add4 s"], rule fold_map_cong)
    (auto simp: MD5STEP_def rfc_step_def rotl_shifts[OF conjunct1[OF rotate_range] conjunct2[OF rotate_range]] algebra_simps
      split: prod.splits)

lemma process_rfc: "md5_process s b = rfc_block s b"
  unfolding md5_process_def rfc_block_def sets_table
  by (rule arg_cong[where f="add4 s"], rule fold_map_cong)
    (auto simp: SET_def ROTATE_LEFT_def rfc_step_def rotl_shifts[OF conjunct1[OF rotate_range] conjunct2[OF rotate_range]] algebra_simps
      split: prod.splits)

subsection \<open>Messages in pieces\<close>

text \<open>The bytes behind the last full block.\<close>

definition pending :: "'a list \<Rightarrow> 'a list" where
  "pending m = drop (64 * (length m div 64)) m"

lemma length_pending [simp]: "length (pending m) = length m mod 64"
  by (simp add: pending_def minus_mult_div_eq_mod)

lemma pending_short: "length m < 64 \<Longrightarrow> pending m = m"
  by (simp add: pending_def)

lemma pending_long: "length m \<ge> 64 \<Longrightarrow> pending m = pending (drop 64 m)"
  by (simp add: pending_def le_div_geq add.commute)

lemma rfc_blocks_short: "length m < 64 \<Longrightarrow> rfc_blocks s m = s"
  by (subst rfc_blocks.simps) simp

lemma rfc_blocks_long: "length m \<ge> 64 \<Longrightarrow> rfc_blocks s m = rfc_blocks (rfc_block s (take 64 m)) (drop 64 m)"
  by (subst rfc_blocks.simps) simp

lemma rfc_blocks_append:
  "rfc_blocks s (m @ d) = rfc_blocks (rfc_blocks s m) (pending m @ d) \<and> pending (m @ d) = pending (pending m @ d)"
proof (induction s m rule: rfc_blocks.induct)
  case (1 s m)
  show ?case
  proof (cases "length m \<ge> 64")
    case True
    have "rfc_blocks s (m @ d) = rfc_blocks (rfc_block s (take 64 m)) (drop 64 m @ d)"
      using rfc_blocks_long[of "m @ d" s] True by simp
    moreover have "pending (m @ d) = pending (drop 64 m @ d)" using pending_long[of "m @ d"] True by simp
    ultimately show ?thesis using 1[OF True] rfc_blocks_long[OF True, of s] pending_long[OF True] by simp
  qed (simp add: rfc_blocks_short pending_short)
qed

text \<open>A piece that does not fill the block, and one that does.\<close>

lemma absorb_short:
  assumes "length m mod 64 + length d < 64"
  shows "rfc_blocks s (m @ d) = rfc_blocks s m" "pending (m @ d) = pending m @ d"
  using assms rfc_blocks_append[of s m d] by (simp_all add: rfc_blocks_short pending_short)

lemma absorb_long:
  assumes "length m mod 64 + length d \<ge> 64" and k: "k = 64 - length m mod 64"
  shows "rfc_blocks s (m @ d) = rfc_blocks (rfc_block (rfc_blocks s m) (pending m @ take k d)) (drop k d)"
    "pending (m @ d) = pending (drop k d)"
proof -
  have l: "length (pending m @ d) \<ge> 64" using assms by simp
  have t: "take 64 (pending m @ d) = pending m @ take k d" "drop 64 (pending m @ d) = drop k d"
    using k by (simp_all add: take_append drop_append)
  show "rfc_blocks s (m @ d) = rfc_blocks (rfc_block (rfc_blocks s m) (pending m @ take k d)) (drop k d)"
    using rfc_blocks_append[of s m d] rfc_blocks_long[OF l] by (simp only: t)
  show "pending (m @ d) = pending (drop k d)"
    using rfc_blocks_append[of s m d] pending_long[OF l] by (simp only: t)
qed

lemma update_blocks_rfc:
  "length inb = 64 \<Longrightarrow> \<exists>in'. update_blocks s inb d = (rfc_blocks s d, in', pending d) \<and> length in' = 64"
proof (induction s inb d rule: update_blocks.induct)
  case (1 s inb d)
  show ?case
  proof (cases "length d \<ge> 64")
    case True
    have m: "memcpy_at inb 0 (take 64 d) = take 64 d" using 1(2) True by (simp add: memcpy_at_def)
    show ?thesis using 1(1)[OF True] True rfc_blocks_long[OF True, of s] pending_long[OF True]
      by (subst update_blocks.simps) (simp add: m transform_rfc)
  next
    case False
    then show ?thesis using 1(2) by (subst update_blocks.simps) (simp add: rfc_blocks_short pending_short)
  qed
qed

lemma append_blocks_rfc: "append_blocks s d = (rfc_blocks s d, pending d)"
proof (induction s d rule: append_blocks.induct)
  case (1 s d)
  show ?case
  proof (cases "length d \<ge> 64")
    case True
    then show ?thesis using 1[OF True] rfc_blocks_long[OF True, of s] pending_long[OF True]
      by (subst append_blocks.simps) (simp add: process_rfc)
  qed (subst append_blocks.simps, simp add: rfc_blocks_short pending_short)
qed

subsection \<open>Counting\<close>

lemma count_word: "unat (word_of_nat n AND 63 :: w32) = n mod 64"
proof -
  have "word_of_nat n AND 63 = (take_bit 6 (word_of_nat n) :: w32)" by (simp add: take_bit_eq_mask mask_eq_exp_minus_1)
  then have "unat (word_of_nat n AND 63 :: w32) = take_bit 6 (unat (word_of_nat n :: w32))" by (simp add: unsigned_take_bit_eq)
  also have "\<dots> = n mod 64" by (simp add: take_bit_eq_mod unat_of_nat mod_mod_cancel)
  finally show ?thesis .
qed

lemma carry_nat:
  assumes "(n :: nat) < M"
  shows "(L + n) mod M = (if M \<le> L mod M + n then L mod M + n - M else L mod M + n)"
    "(L + n) div M = L div M + (if M \<le> L mod M + n then 1 else 0)"
proof -
  have r: "L mod M < M" using assms by simp
  have d: "L + n = L div M * M + (L mod M + n)" by simp
  show "(L + n) mod M = (if M \<le> L mod M + n then L mod M + n - M else L mod M + n)"
  proof (cases "M \<le> L mod M + n")
    case True
    have "(L + n) mod M = (L mod M + n - M) mod M" using le_mod_geq[OF True] by (simp add: mod_add_left_eq)
    then show ?thesis using True assms r by simp
  next
    case False
    then have "(L mod M + n) mod M = L mod M + n" by simp
    then show ?thesis using False by (simp add: mod_add_left_eq)
  qed
  have "(L + n) div M = L div M + (L mod M + n) div M"
    using assms by (subst d) (simp only: div_mult_self3)
  moreover have "(L mod M + n) div M = (if M \<le> L mod M + n then 1 else 0)"
  proof (cases "M \<le> L mod M + n")
    case True
    then have "(L mod M + n - M) div M = 0" using assms r by (intro div_less) linarith
    then show ?thesis using True le_div_geq[OF _ True] assms by simp
  qed simp
  ultimately show "(L + n) div M = L div M + (if M \<le> L mod M + n then 1 else 0)" by simp
qed

lemma carry:
  assumes n: "n < 4294967296"
  shows "(word_of_nat L + word_of_nat n :: w32) < word_of_nat L \<longleftrightarrow> 4294967296 \<le> L mod 4294967296 + n"
proof -
  have "(word_of_nat (L + n) :: w32) < word_of_nat L \<longleftrightarrow> (L + n) mod 4294967296 < L mod 4294967296"
    by (simp add: word_less_nat_alt unat_of_nat del: of_nat_add)
  then show ?thesis using carry_nat(1)[OF n, of L] n
    by (cases "4294967296 \<le> L mod 4294967296 + n") simp_all
qed

text \<open>What a context holds when the message so far is \<open>m\<close>.\<close>

definition md5_start :: md5_abcd where
  "md5_start = (0x67452301, 0xefcdab89, 0x98badcfe, 0x10325476)"

definition ctx_holds :: "MD5Context \<Rightarrow> md5byte list \<Rightarrow> bool" where
  "ctx_holds ctx m \<longleftrightarrow> md_buf ctx = rfc_blocks md5_start m \<and>
     md_bytes ctx = (word_of_nat (length m), word_of_nat (length m div 4294967296)) \<and>
     length (md_in ctx) = 64 \<and> take (length m mod 64) (md_in ctx) = pending m"

lemma init_holds: "length garbage = 64 \<Longrightarrow> ctx_holds (MD5Init garbage) []"
  by (simp add: ctx_holds_def MD5Init_def md5_start_def rfc_blocks_short pending_def)

lemma length_memcpy: "i + length src \<le> length dst \<Longrightarrow> length (memcpy_at dst i src) = length dst"
  by (simp add: memcpy_at_def)

lemma take_memcpy: "i \<le> length dst \<Longrightarrow> take (i + length src) (memcpy_at dst i src) = take i dst @ src"
  by (simp add: memcpy_at_def)

lemma update_holds:
  assumes ok: "ctx_holds ctx m" and d: "length d < 4294967296"
  shows "ctx_holds (MD5Update ctx d (word_of_nat (length d))) (m @ d)"
proof -
  let ?L = "length m" and ?n = "length d" and ?P = "length m mod 64"
  let ?b0 = "word_of_nat ?L :: w32" and ?len = "word_of_nat ?n :: w32"
  have c: "md_buf ctx = rfc_blocks md5_start m" "md_bytes ctx = (?b0, word_of_nat (?L div 4294967296))"
    "length (md_in ctx) = 64" "take ?P (md_in ctx) = pending m" using ok by (simp_all add: ctx_holds_def)
  let ?t = "64 - (?b0 AND 63)"
  have P: "?P < 64" by simp
  have ul: "unat ?len = ?n" using d by (simp add: unat_of_nat)
  have p64: "unat (64 - ?t) = ?P" by (simp add: count_word)
  have ut: "unat ?t = 64 - ?P"
  proof -
    have "?b0 AND 63 \<le> 64" using count_word[of ?L] by (simp add: word_le_nat_alt)
    then show ?thesis by (simp add: unat_sub count_word)
  qed
  have cnt: "(if ?b0 + ?len < ?b0 then word_of_nat (?L div 4294967296) + 1 else word_of_nat (?L div 4294967296)) =
      (word_of_nat (length (m @ d) div 4294967296) :: w32)"
    using carry[OF d, of ?L] carry_nat(2)[OF d, of ?L]
    by (cases "4294967296 \<le> ?L mod 4294967296 + ?n") (simp_all add: add.commute)
  have less: "?t > ?len \<longleftrightarrow> ?P + ?n < 64" using P by (auto simp: word_less_nat_alt ut ul)
  show ?thesis
  proof (cases "?P + ?n < 64")
    case True
    have "MD5Update ctx d ?len = ctx\<lparr>md_bytes := (word_of_nat (length (m @ d)), word_of_nat (length (m @ d) div 4294967296)),
        md_in := memcpy_at (md_in ctx) ?P d\<rparr>"
      using True less c(2) cnt by (simp add: MD5Update_def Let_def ul count_word split del: if_split)
    moreover have "length (m @ d) mod 64 = ?P + ?n" using True mod_add_left_eq[of ?L 64 ?n] by simp
    ultimately show ?thesis
      using True c absorb_short[OF True] take_memcpy[of ?P "md_in ctx" d] by (simp add: ctx_holds_def length_memcpy)
  next
    case False
    let ?k = "64 - ?P"
    let ?in1 = "memcpy_at (md_in ctx) ?P (take ?k d)"
    have kn: "?k \<le> ?n" using False by simp
    have in1: "?in1 = pending m @ take ?k d" using kn c P by (simp add: memcpy_at_def)
    have "length ?in1 = 64" using kn c P by (simp add: length_memcpy)
    then obtain in2 where in2: "update_blocks (rfc_block (rfc_blocks md5_start m) ?in1) ?in1 (drop ?k d) =
        (rfc_blocks (rfc_block (rfc_blocks md5_start m) ?in1) (drop ?k d), in2, pending (drop ?k d))" "length in2 = 64"
      using update_blocks_rfc by blast
    have "MD5Update ctx d ?len = \<lparr>md_buf = rfc_blocks md5_start (m @ d),
        md_bytes = (word_of_nat (length (m @ d)), word_of_nat (length (m @ d) div 4294967296)),
        md_in = memcpy_at in2 0 (pending (m @ d))\<rparr>"
      using False less c(1,2) cnt in2 absorb_long[of m d ?k] in1
      by (simp add: MD5Update_def Let_def ul ut count_word transform_rfc split del: if_split)
    moreover have "length (pending (m @ d)) \<le> 64" by (simp add: less_imp_le)
    ultimately show ?thesis using in2(2) take_memcpy[of 0 in2 "pending (m @ d)"]
      by (simp add: ctx_holds_def length_memcpy)
  qed
qed

subsection \<open>The length at the end\<close>

lemma le_bytes_of_int: "le_bytes (word_of_int x) = map (\<lambda>i. word_of_int (x div 256 ^ i)) [0..<4]"
proof -
  have "ucast (drop_bit (8 * k) (word_of_int x :: w32)) = (word_of_int (x div 256 ^ k) :: md5byte)" if "k < 4" for k
  proof -
    have "x div 256 ^ k = drop_bit (8 * k) x" by (simp add: drop_bit_eq_div power_mult)
    then show ?thesis using that by (intro bit_word_eqI) (auto simp: bit_simps)
  qed
  from this[of 0] this[of 1] this[of 2] this[of 3] show ?thesis by (simp add: le_bytes_def upt_rec numeral_nat)
qed

lemma le_word_bytes: "ucast (ucast w :: md5byte) + push_bit 8 (ucast (ucast (drop_bit 8 w) :: md5byte)) +
    push_bit 16 (ucast (ucast (drop_bit 16 w) :: md5byte)) + push_bit 24 (ucast (ucast (drop_bit 24 w) :: md5byte)) = (w :: w32)"
    (is "?a + ?b + ?c + ?d = w")
proof -
  have 1: "?a + ?b = ?a OR ?b" by (rule disjunctive_add) (auto simp: bit_simps)
  have 2: "(?a OR ?b) + ?c = ?a OR ?b OR ?c" by (subst disjunctive_add) (auto simp: bit_simps ac_simps)
  have 3: "(?a OR ?b OR ?c) + ?d = ?a OR ?b OR ?c OR ?d" by (subst disjunctive_add) (auto simp: bit_simps ac_simps)
  have "?a OR ?b OR ?c OR ?d = w"
  proof (rule bit_word_eqI)
    fix n assume "n < LENGTH(32)"
    then consider "n < 8" | "8 \<le> n" "n < 16" | "16 \<le> n" "n < 24" | "24 \<le> n" "n < 32" by fastforce
    then show "bit (?a OR ?b OR ?c OR ?d) n = bit w n" by cases (auto simp: bit_simps)
  qed
  then show ?thesis by (simp only: 1 2 3)
qed

lemma le_words_le_bytes: "le_words (le_bytes w @ bs) = w # le_words bs"
  using le_word_bytes[of w] by (simp add: le_bytes_def)

text \<open>The low and the high word of the number of bits.\<close>

definition len_lo :: "nat \<Rightarrow> w32" where "len_lo n = word_of_int (8 * int n)"
definition len_hi :: "nat \<Rightarrow> w32" where "len_hi n = word_of_int (8 * int n div 4294967296)"

lemma rfc_length_bytes: "rfc_length n = le_bytes (len_lo n) @ le_bytes (len_hi n)"
proof -
  have "8 * int n div 4294967296 div 256 ^ i = 8 * int n div 256 ^ (i + 4)" for i
  proof -
    have "(256 :: int) ^ (i + 4) = 4294967296 * 256 ^ i" by (simp add: power_add)
    then show ?thesis by (simp add: zdiv_zmult2_eq)
  qed
  moreover have "[0..<8] = [0..<4] @ map (\<lambda>i. i + 4) [0..<4::nat]" by code_simp
  ultimately show ?thesis
    unfolding rfc_length_def len_lo_def len_hi_def le_bytes_of_int by (simp only: map_append map_map comp_def)
qed

lemma count_bits:
  "push_bit 3 (word_of_nat n) = len_lo n"
  "push_bit 3 (word_of_nat (n div 4294967296)) OR drop_bit 29 (word_of_nat n) = len_hi n"
proof -
  have p: "8 * int n = push_bit 3 (int n)" by (simp add: push_bit_eq_mult)
  show "push_bit 3 (word_of_nat n) = len_lo n"
    unfolding p len_lo_def by (intro bit_word_eqI) (auto simp: bit_simps)
  have d: "8 * int n div 4294967296 = drop_bit 32 (push_bit 3 (int n))" "int (n div 4294967296) = drop_bit 32 (int n)"
    by (simp_all add: p drop_bit_eq_div zdiv_int)
  show "push_bit 3 (word_of_nat (n div 4294967296)) OR drop_bit 29 (word_of_nat n) = len_hi n"
  proof (rule bit_word_eqI)
    fix k assume k: "k < LENGTH(32)"
    have n: "word_of_nat j = (word_of_int (int j) :: w32)" for j by simp
    have "bit (len_hi n) k \<longleftrightarrow> bit (int n) (k + 29)"
      unfolding d(1) len_hi_def using k by (simp add: bit_simps add.commute)
    moreover have "bit (push_bit 3 (word_of_nat (n div 4294967296)) :: w32) k \<longleftrightarrow> 3 \<le> k \<and> bit (int n) (k + 29)"
      unfolding n d(2) using k by (auto simp: bit_simps add.commute)
    moreover have "bit (drop_bit 29 (word_of_nat n) :: w32) k \<longleftrightarrow> k < 3 \<and> bit (int n) (k + 29)"
      unfolding n using k by (auto simp: bit_simps add.commute)
    ultimately show "bit (push_bit 3 (word_of_nat (n div 4294967296)) OR drop_bit 29 (word_of_nat n) :: w32) k = bit (len_hi n) k"
      unfolding bit_or_iff by (cases "k < 3") simp_all
  qed
qed

lemma le_words_append: "length xs mod 4 = 0 \<Longrightarrow> le_words (xs @ ys) = le_words xs @ le_words ys"
  by (induction xs rule: le_words.induct) auto

lemma length_le_words: "length (le_words xs) = length xs div 4"
  by (induction xs rule: le_words.induct) auto

text \<open>The last block gets its last two words from the counters.\<close>

lemma last_block:
  assumes "length xs = 56" "length ys = 8"
  shows "(le_words (xs @ ys))[14 := push_bit 3 (word_of_nat n), 15 := push_bit 3 (word_of_nat (n div 4294967296)) OR drop_bit 29 (word_of_nat n)]
      = le_words (xs @ rfc_length n)"
proof -
  have l: "length (le_words xs) = 14" "length (le_words ys) = 2" by (simp_all add: length_le_words assms)
  then obtain y0 y1 where y: "le_words ys = [y0, y1]" by (auto simp: numeral_2_eq_2 length_Suc_conv)
  have "le_words (rfc_length n) = [len_lo n, len_hi n]"
    by (simp add: rfc_length_bytes le_words_le_bytes le_words_le_bytes[where bs="[]", simplified])
  then show ?thesis unfolding count_bits(2) unfolding count_bits(1) using l y by (simp add: le_words_append assms list_update_append)
qed

lemma length_rfc_length [simp]: "length (rfc_length n) = 8"
  by (simp add: rfc_length_def)

lemma split_at: "take (Suc (length a)) (y # a @ b) = y # a" "drop (Suc (length a)) (y # a @ b) = b"
  by simp_all

lemma memcpy_tail:
  "length xs = p \<Longrightarrow> memcpy_at (xs @ y # drop (Suc p) b) (Suc p) zs = (xs @ y # zs) @ drop (Suc p + length zs) b"
  by (simp add: memcpy_at_def drop_Cons' add.commute)

lemma pad_length: "(p :: nat) < 64 \<Longrightarrow> (119 - p) mod 64 = (if p < 56 then 55 - p else 119 - p)"
proof -
  assume "p < 64"
  moreover have "(119 - p) mod 64 = (55 - p) mod 64" if "p < 56" using that le_mod_geq[of 64 "119 - p"] by simp
  ultimately show ?thesis by auto
qed

lemma final_rfc:
  assumes ok: "ctx_holds ctx m"
  shows "MD5Final ctx = rfc_md5 m"
proof -
  let ?L = "length m" and ?P = "length m mod 64" and ?S = "rfc_blocks md5_start m"
  have c: "md_buf ctx = ?S" "md_bytes ctx = (word_of_nat ?L, word_of_nat (?L div 4294967296))"
    "length (md_in ctx) = 64" "take ?P (md_in ctx) = pending m" using ok by (simp_all add: ctx_holds_def)
  have P: "?P < 64" by simp
  let ?z = "(119 - ?P) mod 64"
  let ?tail = "0x80 # replicate ?z 0 @ rfc_length ?L :: md5byte list"
  have spec: "rfc_md5 m = digest_bytes (rfc_blocks (rfc_block ?S (pending m @ take (64 - ?P) ?tail)) (drop (64 - ?P) ?tail))"
  proof -
    have z: "?P + Suc ?z \<ge> 56" using P pad_length[OF P] by (simp split: if_splits)
    then show ?thesis using absorb_long(1)[of m ?tail "64 - ?P" md5_start]
      by (simp add: rfc_md5_def rfc_pad_def md5_start_def)
  qed
  have in1: "memcpy_at (md_in ctx) ?P [0x80] = pending m @ 0x80 # drop (Suc ?P) (md_in ctx)"
    using c by (simp add: memcpy_at_def)
  show ?thesis
  proof (cases "?P < 56")
    case True
    then have z: "?z = 55 - ?P" using pad_length[OF P] by simp
    let ?xs = "pending m @ 0x80 # replicate (55 - ?P) 0"
    have in3: "memcpy_at (pending m @ 0x80 # drop (Suc ?P) (md_in ctx)) (Suc ?P) (replicate (55 - ?P) 0) = ?xs @ drop 56 (md_in ctx)"
      using True memcpy_tail[of "pending m" ?P "0x80" "md_in ctx" "replicate (55 - ?P) 0"] by simp
    have w: "(le_words (?xs @ drop 56 (md_in ctx)))[14 := push_bit 3 (word_of_nat ?L),
        15 := push_bit 3 (word_of_nat (?L div 4294967296)) OR drop_bit 29 (word_of_nat ?L)] = le_words (?xs @ rfc_length ?L)"
      by (rule last_block) (use True c in simp_all)
    have n: "nat (56 - 1 - int ?P) = 55 - ?P" "\<not> 56 - 1 - int ?P < 0" using True by simp_all
    have "MD5Final ctx = digest_bytes (rfc_block ?S (?xs @ rfc_length ?L))"
      unfolding MD5Final_def Let_def c(2) prod.case count_word in1 c(1) if_not_P[OF n(2)] n(1) Suc_eq_plus1[symmetric] in3 w transform_rfc ..
    moreover have "take (64 - ?P) ?tail = ?tail" "drop (64 - ?P) ?tail = []"
    proof -
      have "Suc (63 - ?P) = 64 - ?P" using P by simp
      then show "take (64 - ?P) ?tail = ?tail" "drop (64 - ?P) ?tail = []" using z True by simp_all
    qed
    ultimately show ?thesis using spec z by (simp add: rfc_blocks_short)
  next
    case False
    then have z: "?z = 119 - ?P" using pad_length[OF P] by simp
    let ?xs = "pending m @ 0x80 # replicate (63 - ?P) 0"
    have in2: "memcpy_at (pending m @ 0x80 # drop (Suc ?P) (md_in ctx)) (Suc ?P) (replicate (63 - ?P) 0) = ?xs"
      using memcpy_tail[of "pending m" ?P "0x80" "md_in ctx" "replicate (63 - ?P) 0"] P c(3) by simp
    have in3: "memcpy_at ?xs 0 (replicate 56 0) = replicate 56 0 @ drop 56 ?xs" by (simp add: memcpy_at_def)
    have w: "(le_words (replicate 56 0 @ drop 56 ?xs))[14 := push_bit 3 (word_of_nat ?L),
        15 := push_bit 3 (word_of_nat (?L div 4294967296)) OR drop_bit 29 (word_of_nat ?L)] = le_words (replicate 56 0 @ rfc_length ?L)"
      by (rule last_block) (use P in simp_all)
    have n: "nat (56 - 1 - int ?P + 8) = 63 - ?P" "56 - 1 - int ?P < 0" using False P by simp_all
    have "MD5Final ctx = digest_bytes (rfc_block (rfc_block ?S ?xs) (replicate 56 0 @ rfc_length ?L))"
      unfolding MD5Final_def Let_def c(2) prod.case count_word in1 c(1) if_P[OF n(2)] n(1) Suc_eq_plus1[symmetric] in2 in3 w transform_rfc ..
    moreover have "take (64 - ?P) ?tail = 0x80 # replicate (63 - ?P) 0" "drop (64 - ?P) ?tail = replicate 56 0 @ rfc_length ?L"
    proof -
      have "119 - ?P = (63 - ?P) + 56" and k: "64 - ?P = Suc (63 - ?P)" using P by simp_all
      then have "replicate ?z 0 = (replicate (63 - ?P) 0 @ replicate 56 0 :: md5byte list)" unfolding z by (metis replicate_add)
      then have "?tail = 0x80 # replicate (63 - ?P) 0 @ replicate 56 0 @ rfc_length ?L" by simp
      then show "take (64 - ?P) ?tail = 0x80 # replicate (63 - ?P) 0" "drop (64 - ?P) ?tail = replicate 56 0 @ rfc_length ?L"
        using split_at[of "replicate (63 - ?P) 0" "0x80" "replicate 56 0 @ rfc_length ?L"] unfolding k by simp_all
    qed
    moreover have "rfc_blocks s (replicate 56 0 @ rfc_length ?L) = rfc_block s (replicate 56 0 @ rfc_length ?L)" for s
      using rfc_blocks_long[of "replicate 56 0 @ rfc_length ?L" s] by (simp add: rfc_blocks_short)
    ultimately show ?thesis using spec by simp
  qed
qed


subsection \<open>The other implementation\<close>

definition state_holds :: "md5_state_t \<Rightarrow> md5byte list \<Rightarrow> bool" where
  "state_holds pms m \<longleftrightarrow> ms_abcd pms = rfc_blocks md5_start m \<and>
     ms_count pms = (len_lo (length m), len_hi (length m)) \<and>
     length (ms_buf pms) = 64 \<and> take (length m mod 64) (ms_buf pms) = pending m"

lemma md5_init_holds: "length garbage = 64 \<Longrightarrow> state_holds (md5_init garbage) []"
  by (simp add: state_holds_def md5_init_def md5_start_def rfc_blocks_short pending_def len_lo_def len_hi_def)

lemma offset_word: "unat (drop_bit 3 (len_lo n) AND 63) = n mod 64"
proof -
  have "drop_bit 3 (len_lo n) AND 63 = (word_of_nat n AND 63 :: w32)"
  proof (rule bit_word_eqI)
    fix k assume "k < LENGTH(32)"
    have m: "(63 :: w32) = mask 6" by (simp add: mask_eq_exp_minus_1)
    show "bit (drop_bit 3 (len_lo n) AND 63) k = bit (word_of_nat n AND 63 :: w32) k"
      unfolding count_bits(1)[symmetric] m by (auto simp: bit_simps)
  qed
  then show ?thesis by (simp add: count_word)
qed

lemma div_carry:
  assumes M: "(M :: int) > 0"
  shows "(x + y) div M = x div M + y div M + (if (x + y) mod M < y mod M then 1 else 0)"
proof -
  have r: "0 \<le> x mod M" "x mod M < M" "0 \<le> y mod M" "y mod M < M" using M by simp_all
  have e: "x + y = (x mod M + y mod M) + (x div M + y div M) * M" by (simp add: algebra_simps)
  have d1: "(x + y) div M = (x div M + y div M) + (x mod M + y mod M) div M"
    using M by (subst e) (rule div_mult_self1, simp)
  have d: "(x + y) mod M = (x mod M + y mod M) mod M" by (rule mod_add_eq[symmetric])
  show ?thesis
  proof (cases "M \<le> x mod M + y mod M")
    case True
    have "0 \<le> x mod M + y mod M - M" "x mod M + y mod M - M < M" using True r by linarith+
    then have z: "(x mod M + y mod M - M) div M = 0" "(x mod M + y mod M - M) mod M = x mod M + y mod M - M"
      by (rule div_pos_pos_trivial, rule mod_pos_pos_trivial)
    have "(x mod M + y mod M) div M = 1" "(x mod M + y mod M) mod M = x mod M + y mod M - M"
      using div_pos_geq[OF M True] mod_pos_geq[OF M True] unfolding z by simp_all
    then show ?thesis unfolding d d1 using r by simp
  next
    case False
    then have "(x mod M + y mod M) div M = 0" "(x mod M + y mod M) mod M = x mod M + y mod M"
      using r by (simp_all add: div_pos_pos_trivial mod_pos_pos_trivial)
    moreover have "\<not> x mod M + y mod M < y mod M" using r by linarith
    ultimately show ?thesis unfolding d d1 by simp
  qed
qed

lemma count_append:
  "len_lo L + word_of_int (int n * 8) = len_lo (L + n)"
  "len_hi L + word_of_int (int n div 2 ^ 29) + (if len_lo (L + n) < word_of_int (int n * 8) then 1 else 0) = len_hi (L + n)"
proof -
  show "len_lo L + word_of_int (int n * 8) = len_lo (L + n)"
    unfolding len_lo_def wi_hom_add by (simp add: algebra_simps)
  have "len_lo (L + n) < word_of_int (int n * 8) \<longleftrightarrow> (8 * int L + 8 * int n) mod 4294967296 < (8 * int n) mod 4294967296"
    unfolding len_lo_def word_less_def uint_word_of_int by (simp add: algebra_simps)
  moreover have "int n div 2 ^ 29 = 8 * int n div 4294967296" by simp
  ultimately show "len_hi L + word_of_int (int n div 2 ^ 29) + (if len_lo (L + n) < word_of_int (int n * 8) then 1 else 0) = len_hi (L + n)"
    unfolding len_hi_def using div_carry[of 4294967296 "8 * int L" "8 * int n"]
    by (simp only: of_nat_add distrib_left wi_hom_add[symmetric] if_distrib[of word_of_int] word_of_int_0 word_of_int_1)
qed

lemma append_holds:
  assumes ok: "state_holds pms m" and n: "nbytes = int (length d)"
  shows "state_holds (md5_append pms d nbytes) (m @ d)"
proof (cases "d = []")
  case True
  then show ?thesis using ok n by (simp add: md5_append_def Let_def split: prod.splits)
next
  case False
  let ?L = "length m" and ?n = "length d" and ?P = "length m mod 64"
  have c: "ms_abcd pms = rfc_blocks md5_start m" "ms_count pms = (len_lo ?L, len_hi ?L)"
    "length (ms_buf pms) = 64" "take ?P (ms_buf pms) = pending m" using ok by (simp_all add: state_holds_def)
  have P: "?P < 64" by simp
  let ?pms = "pms\<lparr>ms_count := (len_lo (length (m @ d)), len_hi (length (m @ d)))\<rparr>"
  have pos: "\<not> int ?n \<le> 0" "nat (int ?n) = ?n" using False by simp_all
  have start: "md5_append pms d nbytes =
     (if ?P \<noteq> 0
      then (let copy = (if ?P + ?n > 64 then 64 - ?P else ?n); b = memcpy_at (ms_buf pms) ?P (take copy d)
            in if ?P + copy < 64 then ?pms\<lparr>ms_buf := b\<rparr>
               else (let (abcd, rest) = append_blocks (md5_process (ms_abcd pms) b) (drop copy d)
                     in ?pms\<lparr>ms_abcd := abcd, ms_buf := memcpy_at b 0 rest\<rparr>))
      else (let (abcd, rest) = append_blocks (ms_abcd pms) d in ?pms\<lparr>ms_abcd := abcd, ms_buf := memcpy_at (ms_buf pms) 0 rest\<rparr>))"
    unfolding md5_append_def n c(2) Let_def prod.case offset_word count_append if_not_P[OF pos(1)] pos(2)
    by (simp only: take_all length_append order_refl)
  have pl: "length (pending (m @ d)) \<le> 64" by (simp add: less_imp_le)
  show ?thesis
  proof (cases "?P = 0")
    case True
    then have "pending m = []" by (metis length_0_conv length_pending)
    then have "rfc_blocks md5_start (m @ d) = rfc_blocks (ms_abcd pms) d" "pending (m @ d) = pending d"
      using rfc_blocks_append[of md5_start m d] c(1) by simp_all
    moreover have "length (m @ d) mod 64 = ?n mod 64" using True mod_add_left_eq[of ?L 64 ?n] by simp
    ultimately show ?thesis using True start c pl take_memcpy[of 0 "ms_buf pms" "pending d"]
      by (simp add: state_holds_def append_blocks_rfc length_memcpy)
  next
    case P0: False
    show ?thesis
    proof (cases "?P + ?n < 64")
      case True
      have "length (m @ d) mod 64 = ?P + ?n" using True mod_add_left_eq[of ?L 64 ?n] by simp
      moreover have "md5_append pms d nbytes = ?pms\<lparr>ms_buf := memcpy_at (ms_buf pms) ?P d\<rparr>"
        using P0 True start by (simp add: Let_def)
      ultimately show ?thesis using True c absorb_short[OF True] take_memcpy[of ?P "ms_buf pms" d]
        by (simp add: state_holds_def length_memcpy)
    next
      case F: False
      let ?k = "64 - ?P"
      let ?b = "memcpy_at (ms_buf pms) ?P (take ?k d)"
      have k: "(if ?P + ?n > 64 then 64 - ?P else ?n) = ?k" "\<not> ?P + ?k < 64" "?k \<le> ?n" using F P by auto
      have b: "?b = pending m @ take ?k d" "length ?b = 64" using c k P by (simp_all add: memcpy_at_def)
      have "md5_append pms d nbytes = ?pms\<lparr>ms_abcd := rfc_blocks md5_start (m @ d), ms_buf := memcpy_at ?b 0 (pending (m @ d))\<rparr>"
        using start P0 k absorb_long(1)[of m d ?k md5_start] absorb_long(2)[of m d ?k] F c(1)
        by (simp only: Let_def append_blocks_rfc process_rfc b(1) if_True if_False prod.case not_False_eq_True)
      then show ?thesis using b(2) pl take_memcpy[of 0 ?b "pending (m @ d)"]
        by (simp add: state_holds_def length_memcpy)
    qed
  qed
qed

lemma uint_take_bit6: "uint (take_bit 6 (w :: w32)) = uint w mod 64"
proof -
  have "uint (take_bit 6 w) = take_bit 6 (uint w)" by (rule unsigned_take_bit_eq)
  also have "\<dots> = uint w mod 2 ^ 6" by (rule take_bit_eq_mod)
  finally show ?thesis by simp
qed

lemma pad_count: "uint ((55 - drop_bit 3 (len_lo n)) AND 63) + 1 = int (Suc ((119 - n mod 64) mod 64))"
proof -
  let ?w = "drop_bit 3 (len_lo n)"
  have "uint ((55 - ?w) AND 63) = (55 - uint ?w) mod 64"
  proof -
    have "(55 - ?w) AND 63 = take_bit 6 (55 - ?w)" by (simp add: take_bit_eq_mask mask_eq_exp_minus_1)
    moreover have "uint (take_bit 6 (55 - ?w)) = uint (55 - ?w) mod 64" by (rule uint_take_bit6)
    moreover have "uint (55 - ?w) = (55 - uint ?w) mod 4294967296" by (simp add: uint_word_ariths)
    moreover have "(55 - uint ?w) mod 4294967296 mod 64 = (55 - uint ?w) mod 64" by (rule mod_mod_cancel) simp
    ultimately show ?thesis by (simp only:)
  qed
  moreover have "uint ?w mod 64 = int (n mod 64)"
  proof -
    have "?w AND 63 = take_bit 6 ?w" by (simp add: take_bit_eq_mask mask_eq_exp_minus_1)
    then have "uint (?w AND 63) = uint ?w mod 64" by (simp only: uint_take_bit6)
    then show ?thesis using offset_word[of n] by (metis unat_eq_nat_uint uint_nat)
  qed
  then have "(55 - uint ?w) mod 64 = (55 - int (n mod 64)) mod 64" by (metis mod_diff_right_eq mod_mod_trivial)
  moreover have "(55 - int (n mod 64)) mod 64 = int ((119 - n mod 64) mod 64)"
  proof -
    have "int ((119 - n mod 64) mod 64) = (119 - int (n mod 64)) mod 64" by (simp add: zmod_int of_nat_diff)
    moreover have "(119 - int (n mod 64)) mod 64 = (55 - int (n mod 64) + 64) mod 64" by (simp add: algebra_simps)
    ultimately show ?thesis by (simp only: mod_add_self2)
  qed
  ultimately show ?thesis by simp
qed

lemma finish_rfc:
  assumes ok: "state_holds pms m"
  shows "md5_finish pms = rfc_md5 m"
proof -
  let ?z = "(119 - length m mod 64) mod 64"
  let ?pad = "0x80 # replicate 63 0 :: md5byte list"
  have c: "ms_count pms = (len_lo (length m), len_hi (length m))" using ok by (simp add: state_holds_def)
  have "?z < 64" by simp
  then have t: "take (Suc ?z) ?pad = 0x80 # replicate ?z 0" by simp
  have cut: "md5_append pms ?pad (int (Suc ?z)) = md5_append pms (take (Suc ?z) ?pad) (int (Suc ?z))"
    by (simp add: md5_append_def Let_def del: take_Suc_Cons)
  have 1: "state_holds (md5_append pms ?pad (int (Suc ?z))) (m @ 0x80 # replicate ?z 0)"
    unfolding cut t by (rule append_holds[OF ok]) simp
  have "state_holds (md5_append (md5_append pms ?pad (int (Suc ?z))) (rfc_length (length m)) 8) (rfc_pad m)"
    using append_holds[OF 1, of 8 "rfc_length (length m)"] by (simp add: rfc_pad_def)
  then show ?thesis
    by (simp add: md5_finish_def c Let_def pad_count rfc_length_bytes state_holds_def rfc_md5_def md5_start_def)
qed


subsection \<open>The contract of a digest over pieces\<close>

text \<open>
  A context holds the message given so far; a piece of a length the implementation takes extends it;
  the end gives the digest. That the way a message is cut into pieces does not matter follows.
\<close>

locale digest_stream =
  fixes start :: "md5byte list \<Rightarrow> 'c" and add :: "'c \<Rightarrow> md5byte list \<Rightarrow> 'c" and finish :: "'c \<Rightarrow> md5byte list"
    and holds :: "'c \<Rightarrow> md5byte list \<Rightarrow> bool" and fits_in :: "nat \<Rightarrow> bool" and digest :: "md5byte list \<Rightarrow> md5byte list"
  assumes start_holds: "length garbage = 64 \<Longrightarrow> holds (start garbage) []"
    and add_holds: "holds c m \<Longrightarrow> fits_in (length d) \<Longrightarrow> holds (add c d) (m @ d)"
    and finish_digest: "holds c m \<Longrightarrow> finish c = digest m"
begin

lemma pieces_hold:
  "holds c m \<Longrightarrow> \<forall>d\<in>set ds. fits_in (length d) \<Longrightarrow> holds (fold (\<lambda>d c. add c d) ds c) (m @ concat ds)"
proof (induction ds arbitrary: c m)
  case (Cons d ds)
  then show ?case using Cons.IH[of "add c d" "m @ d"] add_holds[of c m d] by simp
qed simp

lemma pieces_digest:
  "length garbage = 64 \<Longrightarrow> \<forall>d\<in>set ds. fits_in (length d) \<Longrightarrow>
   finish (fold (\<lambda>d c. add c d) ds (start garbage)) = digest (concat ds)"
  using finish_digest[OF pieces_hold[OF start_holds]] by simp

end

text \<open>
  The length of a piece is an unsigned 32-bit number for \<open>MD5Update\<close>, and a signed one for
  \<open>md5_append\<close>, where the offset is added to it.
\<close>

interpretation upnp: digest_stream MD5Init "\<lambda>c d. MD5Update c d (word_of_nat (length d))" MD5Final ctx_holds
  "\<lambda>n. n < 4294967296" rfc_md5
  by unfold_locales (simp_all add: init_holds update_holds final_rfc)

interpretation serv: digest_stream md5_init "\<lambda>c d. md5_append c d (int (length d))" md5_finish state_holds
  "\<lambda>n. n < 2147483584" rfc_md5
  by unfold_locales (simp_all add: md5_init_holds append_holds finish_rfc)

text \<open>
  C17: \<open>MD5Init\<close>, \<open>MD5Update\<close> for the pieces of a message and \<open>MD5Final\<close> give the MD5 digest of RFC
  1321 of the whole message, for every way of cutting it into pieces (each shorter than 4 GiB),
  whatever the block buffer held before.
\<close>

theorem upnp_md5_correct:
  assumes "length garbage = 64" "\<forall>d\<in>set ds. length d < 4294967296"
  shows "MD5Final (fold (\<lambda>d c. MD5Update c d (word_of_nat (length d))) ds (MD5Init garbage)) = rfc_md5 (concat ds)"
  by (rule upnp.pieces_digest[OF assms])

theorem upnp_md5_correct_witness:
  "MD5Final (MD5Update (MD5Update (MD5Init (replicate 64 7)) [0x61] 1) [0x62, 0x63] 2) = rfc_md5 [0x61, 0x62, 0x63]"
  using upnp_md5_correct[of "replicate 64 7" "[[0x61], [0x62, 0x63]]"] by simp

text \<open>
  C18: The two MD5 implementations of the program agree: the digest of the server's
  \<^verbatim>\<open>md5.c\<close> equals that of the UPnP library's \<^verbatim>\<open>upnp_md5.c\<close> on every message, however either is given
  the message in pieces (each below 2 GiB less a block).
\<close>

theorem md5_implementations_agree:
  assumes "length g = 64" "length g' = 64" "concat ds = concat es"
    "\<forall>d\<in>set ds. length d < 2147483584" "\<forall>e\<in>set es. length e < 2147483584"
  shows "md5_finish (fold (\<lambda>d c. md5_append c d (int (length d))) ds (md5_init g)) =
         MD5Final (fold (\<lambda>d c. MD5Update c d (word_of_nat (length d))) es (MD5Init g'))"
proof -
  have "\<forall>e\<in>set es. length e < 4294967296" using assms(5) by (auto dest: bspec)
  then show ?thesis using serv.pieces_digest[OF assms(1,4)] upnp.pieces_digest[OF assms(2)] assms(3) by simp
qed

theorem md5_implementations_agree_witness:
  "md5_finish (md5_append (md5_append (md5_init (replicate 64 1)) [0x61] 1) [0x62] 1) =
   MD5Final (MD5Update (MD5Init (replicate 64 7)) [0x61, 0x62] 2)"
  using md5_implementations_agree[of "replicate 64 1" "replicate 64 7" "[[0x61], [0x62]]" "[[0x61, 0x62]]"] by simp


text \<open>A test of the standard (appendix A.5), evaluated by the reference.\<close>

lemma rfc_md5_abc:
  "rfc_md5 [0x61, 0x62, 0x63] =
     [0x90, 0x01, 0x50, 0x98, 0x3c, 0xd2, 0x4f, 0xb0, 0xd6, 0x96, 0x3f, 0x7d, 0x28, 0xe1, 0x7f, 0x72]"
  by code_simp

end
