(* ===== verification/Uuid.thy ===== *)
theory Uuid
  imports Cstdlib "HOL-Library.Word"
begin

section \<open>UUIDs (src/uuid and upnp/src/uuid/upnp\_uuid.c)\<close>

text \<open>
  The server takes its UUID from the functions in \<^verbatim>\<open>src/uuid\<close>: packing and unpacking of the fields,
  the text form, random and time-based generation. The UPnP library has a generator of its own for
  time-based UUIDs. The clock is an argument: the list of the readings the system gives.
\<close>

unbundle bit_operations_syntax

type_synonym byte8 = "8 word"

record uuid =
  time_low :: "32 word"
  time_mid :: "16 word"
  time_hi_and_version :: "16 word"
  clock_seq :: "16 word"
  node_id :: "byte8 list"

subsection \<open>Packing (pack.c, unpack.c)\<close>

definition uuid_pack2 :: "uuid \<Rightarrow> byte8 list" where
  "uuid_pack2 uu =
     [ucast (drop_bit 24 (time_low uu)), ucast (drop_bit 16 (time_low uu)), ucast (drop_bit 8 (time_low uu)), ucast (time_low uu),
      ucast (drop_bit 8 (time_mid uu)), ucast (time_mid uu),
      ucast (drop_bit 8 (time_hi_and_version uu)), ucast (time_hi_and_version uu),
      ucast (drop_bit 8 (clock_seq uu)), ucast (clock_seq uu)] @ take 6 (node_id uu)"

definition shift_in :: "32 word \<Rightarrow> byte8 \<Rightarrow> 32 word" where
  "shift_in tmp b = push_bit 8 tmp OR ucast b"

definition uuid_unpack2 :: "byte8 list \<Rightarrow> uuid" where
  "uuid_unpack2 p =
     \<lparr>time_low = shift_in (shift_in (shift_in (ucast (p ! 0)) (p ! 1)) (p ! 2)) (p ! 3),
      time_mid = ucast (shift_in (ucast (p ! 4)) (p ! 5)),
      time_hi_and_version = ucast (shift_in (ucast (p ! 6)) (p ! 7)),
      clock_seq = ucast (shift_in (ucast (p ! 8)) (p ! 9)),
      node_id = take 6 (drop 10 p)\<rparr>"

subsection \<open>The text form (unparse.c, parse.c)\<close>

text \<open>The directives \<^verbatim>\<open>%08x\<close>, \<^verbatim>\<open>%04x\<close> and \<^verbatim>\<open>%02x\<close> on values of that many digits.\<close>

definition hex_char :: "nat \<Rightarrow> char" where
  "hex_char d = ''0123456789abcdef'' ! d"

fun hexpad :: "nat \<Rightarrow> nat \<Rightarrow> c_string" where
  "hexpad 0 v = []"
| "hexpad (Suc n) v = hexpad n (v div 16) @ [hex_char (v mod 16)]"

definition uuid_unparse :: "byte8 list \<Rightarrow> c_string" where
  "uuid_unparse uu =
     (let u = uuid_unpack2 uu in
      hexpad 8 (unat (time_low u)) @ ''-'' @ hexpad 4 (unat (time_mid u)) @ ''-'' @
      hexpad 4 (unat (time_hi_and_version u)) @ ''-'' @
      hexpad 2 (unat (drop_bit 8 (clock_seq u))) @ hexpad 2 (unat (clock_seq u AND 0xFF)) @ ''-'' @
      concat (map (\<lambda>b. hexpad 2 (unat b)) (node_id u)))"

text \<open>The value \<^verbatim>\<open>strtoul\<close> reads; on at most eight hexadecimal digits it is that of \<^verbatim>\<open>strtol\<close>.\<close>

definition strtoul16 :: "c_string \<Rightarrow> int" where
  "strtoul16 s = fst (strtol s 16)"

definition uuid_text_ok :: "c_string \<Rightarrow> bool" where
  "uuid_text_ok s \<longleftrightarrow> length s = 36 \<and>
     list_all (\<lambda>i. if i \<in> {8, 13, 18, 23} then s ! i = CHR ''-'' else isxdigit (s ! i)) [0..<36]"

definition uuid_parse :: "c_string \<Rightarrow> byte8 list option" where
  "uuid_parse s =
     (if \<not> uuid_text_ok s then None
      else Some (uuid_pack2
        \<lparr>time_low = word_of_int (strtoul16 s),
         time_mid = word_of_int (strtoul16 (drop 9 s)),
         time_hi_and_version = word_of_int (strtoul16 (drop 14 s)),
         clock_seq = word_of_int (strtoul16 (drop 19 s)),
         node_id = map (\<lambda>i. word_of_int (strtoul16 (take 2 (drop (24 + 2 * i) s)))) [0..<6]\<rparr>))"

subsection \<open>Small operations\<close>

definition uuid_clear :: "byte8 list" where
  "uuid_clear = replicate 16 0"

definition uuid_copy :: "byte8 list \<Rightarrow> byte8 list" where
  "uuid_copy src = take 16 src"

definition uuid_is_null :: "byte8 list \<Rightarrow> bool" where
  "uuid_is_null uu = list_all (\<lambda>b. b = 0) (take 16 uu)"

definition cmp :: "('a :: linorder) \<Rightarrow> 'a \<Rightarrow> int" where
  "cmp a b = (if a = b then 0 else if a < b then - 1 else 1)"

fun first_diff :: "int list \<Rightarrow> int" where
  "first_diff [] = 0"
| "first_diff (c # cs) = (if c \<noteq> 0 then c else first_diff cs)"

text \<open>The sign of the result; \<^verbatim>\<open>memcmp\<close> decides between the node numbers.\<close>

definition uuid_compare2 :: "byte8 list \<Rightarrow> byte8 list \<Rightarrow> int" where
  "uuid_compare2 uu1 uu2 =
     (let u1 = uuid_unpack2 uu1; u2 = uuid_unpack2 uu2 in
      first_diff ([cmp (time_low u1) (time_low u2), cmp (time_mid u1) (time_mid u2),
                   cmp (time_hi_and_version u1) (time_hi_and_version u2), cmp (clock_seq u1) (clock_seq u2)] @
                  map2 cmp (node_id u1) (node_id u2)))"

definition uuid_type :: "byte8 list \<Rightarrow> 16 word" where
  "uuid_type uu = drop_bit 12 (time_hi_and_version (uuid_unpack2 uu)) AND 0xF"

datatype uuid_variant_t = UUID_VARIANT_NCS | UUID_VARIANT_DCE | UUID_VARIANT_MICROSOFT | UUID_VARIANT_OTHER

definition uuid_variant :: "byte8 list \<Rightarrow> uuid_variant_t" where
  "uuid_variant uu =
     (let var = clock_seq (uuid_unpack2 uu) in
      if var AND 0x8000 = 0 then UUID_VARIANT_NCS
      else if var AND 0x4000 = 0 then UUID_VARIANT_DCE
      else if var AND 0x2000 = 0 then UUID_VARIANT_MICROSOFT
      else UUID_VARIANT_OTHER)"

subsection \<open>Generation (gen\_uuid.c)\<close>

definition uuid_generate_random :: "byte8 list \<Rightarrow> byte8 list" where
  "uuid_generate_random buf =
     (let uu = uuid_unpack2 buf in
      uuid_pack2 (uu\<lparr>clock_seq := (clock_seq uu AND 0x3FFF) OR 0x8000,
                     time_hi_and_version := (time_hi_and_version uu AND 0x0FFF) OR 0x4000\<rparr>))"

text \<open>The clock: seconds and microseconds, and the static variables of \<open>get_clock\<close>.\<close>

record clock_state =
  ck_adjustment :: int
  ck_last :: "int \<times> int"
  ck_seq :: "16 word"

fun get_clock :: "16 word \<Rightarrow> clock_state \<Rightarrow> (int \<times> int) list \<Rightarrow> (64 word \<times> 16 word \<times> clock_state \<times> (int \<times> int) list) option" where
  "get_clock random st [] = None"
| "get_clock random st (tv # readings) =
     (let st1 = (if ck_last st = (0, 0)
                 then st\<lparr>ck_seq := random AND 0x1FFF, ck_last := (fst tv - 1, snd tv)\<rparr> else st);
          before = (fst tv < fst (ck_last st1) \<or> fst tv = fst (ck_last st1) \<and> snd tv < snd (ck_last st1));
          same = (tv = ck_last st1)
      in if \<not> before \<and> same \<and> ck_adjustment st1 \<ge> 10 then get_clock random st1 readings
         else
           (let st2 = (if before then st1\<lparr>ck_seq := (ck_seq st1 + 1) AND 0x1FFF, ck_adjustment := 0, ck_last := tv\<rparr>
                       else if same then st1\<lparr>ck_adjustment := ck_adjustment st1 + 1\<rparr>
                       else st1\<lparr>ck_adjustment := 0, ck_last := tv\<rparr>);
                reg = word_of_int (snd tv * 10 + ck_adjustment st2) + word_of_int (fst tv) * 10000000 + 0x01B21DD213814000
            in Some (reg, ck_seq st2, st2, readings)))"

definition uuid_generate_time ::
  "byte8 list \<Rightarrow> 16 word \<Rightarrow> clock_state \<Rightarrow> (int \<times> int) list \<Rightarrow> (byte8 list \<times> clock_state \<times> (int \<times> int) list) option" where
  "uuid_generate_time node random st readings =
     (case get_clock random st readings of
        None \<Rightarrow> None
      | Some (reg, seq, st', rest) \<Rightarrow>
          (let clock_mid = ucast (drop_bit 32 reg) :: 32 word
           in Some (uuid_pack2
                \<lparr>time_low = ucast reg, time_mid = ucast clock_mid,
                 time_hi_and_version = ucast (drop_bit 16 clock_mid) OR 0x1000,
                 clock_seq = seq OR 0x8000, node_id = node\<rparr>, st', rest)))"

subsection \<open>The generator of the UPnP library (upnp\_uuid.c, sysdep.c)\<close>

abbreviation (input) UUIDS_PER_TICK :: "16 word" where "UUIDS_PER_TICK \<equiv> 1024"

record uuid_upnp =
  up_time_low :: "32 word"
  up_time_mid :: "16 word"
  up_time_hi_and_version :: "16 word"
  up_clock_seq_hi :: byte8
  up_clock_seq_low :: byte8
  up_node :: "byte8 list"

text \<open>
  The static variables: those of \<open>get_current_time\<close> and the saved state of the generator. The
  library is used with one node number, which the system is asked for once.
\<close>

record generator =
  ge_inited :: bool
  ge_time_last :: "64 word"
  ge_ticks :: "16 word"
  ge_stateInited :: bool
  ge_cs :: "16 word"
  ge_ts :: "64 word"
  ge_node :: "byte8 list"

fun tick_loop :: "64 word \<Rightarrow> 16 word \<Rightarrow> 64 word list \<Rightarrow> (64 word \<times> 16 word \<times> 64 word list) option" where
  "tick_loop time_last ticks [] = None"
| "tick_loop time_last ticks (time_now # readings) =
     (if time_last \<noteq> time_now then Some (time_now, 0, readings)
      else if ticks < UUIDS_PER_TICK then Some (time_now, ticks + 1, readings)
      else tick_loop time_last ticks readings)"

definition get_current_time :: "generator \<Rightarrow> 64 word list \<Rightarrow> (64 word \<times> generator \<times> 64 word list) option" where
  "get_current_time g readings =
     (let (g1, readings1) = (if ge_inited g then (g, readings) else (g\<lparr>ge_ticks := UUIDS_PER_TICK, ge_inited := True\<rparr>, tl readings))
      in case tick_loop (ge_time_last g1) (ge_ticks g1) readings1 of
           None \<Rightarrow> None
         | Some (time_now, ticks, rest) \<Rightarrow>
             (let timestamp = time_now + ucast ticks
              in Some (timestamp, g1\<lparr>ge_ticks := ticks, ge_time_last := timestamp\<rparr>, rest)))"

definition format_uuid_v1 :: "16 word \<Rightarrow> 64 word \<Rightarrow> byte8 list \<Rightarrow> uuid_upnp" where
  "format_uuid_v1 seq timestamp node =
     \<lparr>up_time_low = ucast (timestamp AND 0xFFFFFFFF),
      up_time_mid = ucast (drop_bit 32 timestamp AND 0xFFFF),
      up_time_hi_and_version = ucast (drop_bit 48 timestamp AND 0x0FFF) OR push_bit 12 1,
      up_clock_seq_hi = ucast (drop_bit 8 (seq AND 0x3F00)) OR 0x80,
      up_clock_seq_low = ucast (seq AND 0xFF),
      up_node = take 6 node\<rparr>"

definition uuid_create ::
  "byte8 list \<Rightarrow> 16 word \<Rightarrow> generator \<Rightarrow> 64 word list \<Rightarrow> (uuid_upnp \<times> generator \<times> 64 word list) option" where
  "uuid_create node random g readings =
     (case get_current_time g readings of
        None \<Rightarrow> None
      | Some (timestamp, g1, rest) \<Rightarrow>
          (let seq = (if \<not> ge_stateInited g1 \<or> ge_node g1 \<noteq> node then random
                      else if timestamp < ge_ts g1 then ge_cs g1 + 1
                      else ge_cs g1)
           in Some (format_uuid_v1 seq timestamp node,
                    g1\<lparr>ge_stateInited := True, ge_cs := seq, ge_ts := timestamp, ge_node := node\<rparr>, rest)))"

definition uuid_unpack :: "uuid_upnp \<Rightarrow> c_string" where
  "uuid_unpack u =
     hexpad 8 (unat (up_time_low u)) @ ''-'' @ hexpad 4 (unat (up_time_mid u)) @ ''-'' @
     hexpad 4 (unat (up_time_hi_and_version u)) @ ''-'' @
     hexpad 2 (unat (up_clock_seq_hi u)) @ hexpad 2 (unat (up_clock_seq_low u)) @ ''-'' @
     concat (map (\<lambda>b. hexpad 2 (unat b)) (up_node u))"

definition uuid_compare :: "uuid_upnp \<Rightarrow> uuid_upnp \<Rightarrow> int" where
  "uuid_compare u1 u2 =
     first_diff ([cmp (up_time_low u1) (up_time_low u2), cmp (up_time_mid u1) (up_time_mid u2),
                  cmp (up_time_hi_and_version u1) (up_time_hi_and_version u2),
                  cmp (up_clock_seq_hi u1) (up_clock_seq_hi u2), cmp (up_clock_seq_low u1) (up_clock_seq_low u2)] @
                 map2 cmp (up_node u1) (up_node u2))"


subsection \<open>Packing and the text form\<close>

lemma shift_in_low: "ucast (shift_in t b) = (b :: byte8)"
  by (rule bit_word_eqI) (auto simp: shift_in_def bit_simps)

lemma shift_in_high: "0 < n \<Longrightarrow> n < 4 \<Longrightarrow> ucast (drop_bit (8 * n) (shift_in t b)) = (ucast (drop_bit (8 * (n - 1)) t) :: byte8)"
proof (rule bit_word_eqI)
  fix i assume n: "0 < n" "n < 4" and i: "i < LENGTH(8)"
  have "8 * n + i = (8 * (n - 1) + i) + 8" "8 * (n - 1) + i < 24" using n i by auto
  then show "bit (ucast (drop_bit (8 * n) (shift_in t b)) :: byte8) i = bit (ucast (drop_bit (8 * (n - 1)) t) :: byte8) i"
    using i by (auto simp: shift_in_def bit_simps dest: bit_imp_le_length)
qed

lemma word16_bytes:
  "ucast (drop_bit 8 (ucast (shift_in (ucast a) b) :: 16 word)) = (a :: byte8)" "ucast (ucast (shift_in (ucast a) b) :: 16 word) = (b :: byte8)"
  by (rule bit_word_eqI, auto simp: shift_in_def bit_simps dest: bit_imp_le_length) (rule bit_word_eqI, auto simp: shift_in_def bit_simps)

lemma word16_of_bytes: "ucast (shift_in (ucast (ucast (drop_bit 8 w) :: byte8)) (ucast w)) = (w :: 16 word)"
proof (rule bit_word_eqI)
  fix n assume "n < LENGTH(16)"
  then show "bit (ucast (shift_in (ucast (ucast (drop_bit 8 w) :: byte8)) (ucast w)) :: 16 word) n = bit w n"
    by (cases "n < 8") (auto simp: shift_in_def bit_simps)
qed

lemma word32_of_bytes:
  "shift_in (shift_in (shift_in (ucast (ucast (drop_bit 24 w) :: byte8)) (ucast (drop_bit 16 w))) (ucast (drop_bit 8 w))) (ucast w) = w"
proof (rule bit_word_eqI)
  fix n assume "n < LENGTH(32)"
  then consider "n < 8" | "8 \<le> n" "n < 16" | "16 \<le> n" "n < 24" | "24 \<le> n" "n < 32" by fastforce
  then show "bit (shift_in (shift_in (shift_in (ucast (ucast (drop_bit 24 w) :: byte8)) (ucast (drop_bit 16 w))) (ucast (drop_bit 8 w))) (ucast w)) n
      = bit w n"
    by cases (auto simp: shift_in_def bit_simps)
qed

lemma ucast_back: "ucast (ucast a :: 32 word) = (a :: byte8)"
  by (rule bit_word_eqI) (auto simp: bit_simps)

lemma list16:
  assumes "length p = 16"
  obtains a0 a1 a2 a3 a4 a5 a6 a7 a8 a9 a10 a11 a12 a13 a14 a15 where "p = [a0, a1, a2, a3, a4, a5, a6, a7, a8, a9, a10, a11, a12, a13, a14, a15]"
  using assms by (auto simp: numeral_eq_Suc length_Suc_conv)

lemma pack_unpack:
  assumes "length p = 16"
  shows "uuid_pack2 (uuid_unpack2 p) = p"
proof -
  have b: "ucast (drop_bit 24 (shift_in (shift_in (shift_in (ucast a) b) c) d)) = a"
    "ucast (drop_bit 16 (shift_in (shift_in (shift_in (ucast a) b) c) d)) = b"
    "ucast (drop_bit 8 (shift_in (shift_in (shift_in (ucast a) b) c) d)) = c"
    for a b c d :: byte8
    using shift_in_high[of 3 "shift_in (shift_in (ucast a) b) c" d] shift_in_high[of 2 "shift_in (ucast a) b" c]
      shift_in_high[of 1 "ucast a" b] shift_in_high[of 2 "shift_in (shift_in (ucast a) b) c" d]
      shift_in_high[of 1 "shift_in (ucast a) b" c] shift_in_high[of 1 "shift_in (shift_in (ucast a) b) c" d]
    by (simp_all add: shift_in_low ucast_back)
  show ?thesis
    by (rule list16[OF assms]) (simp add: uuid_pack2_def uuid_unpack2_def b shift_in_low word16_bytes)
qed

lemma unpack_pack:
  assumes "length (node_id u) = 6"
  shows "uuid_unpack2 (uuid_pack2 u) = u"
  using assms by (cases u) (simp add: uuid_pack2_def uuid_unpack2_def word16_of_bytes word32_of_bytes)


lemma length_hexpad [simp]: "length (hexpad n v) = n"
  by (induction n arbitrary: v) auto

lemma hex_char_digit: "d < 16 \<Longrightarrow> digit_value (hex_char d) = d \<and> isxdigit (hex_char d) \<and> \<not> isspace (hex_char d) \<and> hex_char d \<notin> set ''+-xX''"
proof -
  have "list_all (\<lambda>d. digit_value (hex_char d) = d \<and> isxdigit (hex_char d) \<and> \<not> isspace (hex_char d) \<and> hex_char d \<notin> set ''+-xX'') [0..<16]"
    by code_simp
  then show "d < 16 \<Longrightarrow> ?thesis" by (simp add: list_all_iff)
qed

lemma hexpad_chars: "c \<in> set (hexpad n v) \<Longrightarrow> \<exists>d<16. c = hex_char d"
proof (induction n arbitrary: v)
  case (Suc n)
  then show ?case by (auto intro: exI[of _ "v mod 16"])
qed simp

lemma digits_value_snoc: "digits_value b (xs @ [c]) = digits_value b xs * int b + int (digit_value c)"
  by (simp add: digits_value_def)

lemma hexpad_value: "v < 16 ^ n \<Longrightarrow> digits_value 16 (hexpad n v) = int v"
proof (induction n arbitrary: v)
  case 0
  then show ?case by (simp add: digits_value_def)
next
  case (Suc n)
  have "v div 16 < 16 ^ n" using Suc.prems by (simp add: less_mult_imp_div_less mult.commute)
  then have "digits_value 16 (hexpad (Suc n) v) = int (v div 16) * 16 + int (v mod 16)"
    using Suc.IH hex_char_digit[of "v mod 16"] by (simp add: digits_value_snoc)
  then show ?case by (metis div_mult_mod_eq of_nat_add of_nat_mult of_nat_numeral)
qed

lemma strtol_hexpad:
  assumes "0 < n" "n \<le> 8" "v < 16 ^ n"
  shows "strtol (hexpad n v) 16 = (int v, n, False)"
proof -
  let ?s = "hexpad n v"
  have dig: "is_digit_of 16 c" "\<not> isspace c" "c \<noteq> CHR ''+''" "c \<noteq> CHR ''-''" "tolower c \<noteq> CHR ''x''" if c: "c \<in> set ?s" for c
  proof -
    obtain d where d: "d < 16" "c = hex_char d" using hexpad_chars[OF c] by blast
    show "is_digit_of 16 c" "\<not> isspace c" "c \<noteq> CHR ''+''" "c \<noteq> CHR ''-''"
      using d hex_char_digit[OF d(1)] by (auto simp: is_digit_of_def)
    have "list_all (\<lambda>d. tolower (hex_char d) \<noteq> CHR ''x'') [0..<16]" by code_simp
    then show "tolower c \<noteq> CHR ''x''" using d by (simp add: list_all_iff)
  qed
  obtain c t where s: "?s = c # t" using assms(1) by (cases ?s) (auto dest: arg_cong[where f=length])
  have ws: "takeWhile isspace ?s = []" using s dig(2)[of c] by simp
  have pre: "num_prefix ?s 16 = 0"
  proof (cases t)
    case Nil
    then show ?thesis using s by (simp add: num_prefix_def tolower_def ctype_defs)
  next
    case (Cons x xs)
    then show ?thesis using s dig(5)[of x] by (simp add: num_prefix_def)
  qed
  have all: "takeWhile (is_digit_of 16) ?s = ?s" using dig(1) by (simp add: takeWhile_eq_all_conv)
  have sg: "num_sign ?s = 0" "cur ?s \<noteq> CHR ''-''" using s dig(3,4)[of c] by (auto simp: num_sign_def)
  have "int v < 16 ^ n" using assms(3) by (metis of_nat_less_iff of_nat_numeral of_nat_power)
  also have "\<dots> \<le> 16 ^ 8" using assms(2) by (rule power_increasing) simp
  finally have "int v < 4294967296" by simp
  moreover have "?s \<noteq> []" using s by simp
  ultimately show ?thesis
    by (simp add: strtol_def ws sg pre all hexpad_value[OF assms(3)] Let_def)
qed

lemma strtoul16_hexpad:
  assumes "0 < n" "n \<le> 8" "v < 16 ^ n"
  shows "strtoul16 (hexpad n v) = int v" "strtoul16 (hexpad n v @ CHR ''-'' # r) = int v"
proof -
  show 1: "strtoul16 (hexpad n v) = int v" using strtol_hexpad[OF assms] by (simp add: strtoul16_def)
  have "hexpad n v \<noteq> []" using assms(1) by (auto dest: arg_cong[where f=length])
  moreover have "\<not> isspace (hd (hexpad n v))"
    using hexpad_chars[of "hd (hexpad n v)" n v] hex_char_digit calculation by auto
  moreover have "\<not> isalnum (CHR ''-'')" by code_simp
  ultimately show "strtoul16 (hexpad n v @ CHR ''-'' # r) = int v"
    using strtol_stop[of "hexpad n v" "CHR ''-''" 16 r] 1 by (simp add: strtoul16_def)
qed

lemma hexpad2: "hexpad 2 v = [hex_char (v div 16 mod 16), hex_char (v mod 16)]"
  by (simp only: numeral_2_eq_2 hexpad.simps append.simps)

lemma hexpad4: "hexpad 4 v = hexpad 2 (v div 16 div 16) @ hexpad 2 v"
proof -
  have "(4 :: nat) = Suc (Suc (Suc (Suc 0)))" by simp
  then show ?thesis by (simp only: numeral_2_eq_2 hexpad.simps append.simps)
qed

lemma hexpad_pair: "hexpad 2 (v div 256) @ hexpad 2 (v mod 256) = hexpad 4 v"
proof -
  have "v mod 256 = 16 * (v div 16 mod 16) + v mod 16" using mod_mult2_eq[of v 16 16] by simp
  then have "hexpad 2 (v mod 256) = hexpad 2 v" by (simp add: hexpad2)
  moreover have "v div 256 = v div 16 div 16" using div_mult2_eq[of v 16 16] by simp
  ultimately show ?thesis by (simp add: hexpad4)
qed

lemma take_concat2:
  "\<forall>x\<in>set xs. length (f x) = 2 \<Longrightarrow> i < length xs \<Longrightarrow> take 2 (drop (2 * i) (concat (map f xs))) = f (xs ! i)"
proof (induction xs arbitrary: i)
  case (Cons x xs)
  then show ?case by (cases i) auto
qed simp

lemma text_ok:
  assumes "length A = 8" "length B = 4" "length C = 4" "length D = 4" "length E = 12"
    "list_all isxdigit A" "list_all isxdigit B" "list_all isxdigit C" "list_all isxdigit D" "list_all isxdigit E"
  shows "uuid_text_ok (A @ ''-'' @ B @ ''-'' @ C @ ''-'' @ D @ ''-'' @ E)"
  using assms by (auto simp: uuid_text_ok_def list_all_length nth_append nth_Cons')

lemma hexpad_xdigits: "list_all isxdigit (hexpad n v)"
  using hexpad_chars[of _ n v] hex_char_digit by (auto simp: list_all_iff)

lemma hex_fields:
  "unat (w :: 32 word) < 16 ^ 8" "unat (h :: 16 word) < 16 ^ 4" "unat (b :: byte8) < 16 ^ 2"
  using unsigned_less[of w] unsigned_less[of h] unsigned_less[of b] by simp_all

lemma word16_halves: "unat (drop_bit 8 (w :: 16 word)) = unat w div 256" "unat (w AND 0xFF) = unat w mod 256"
proof -
  have "unat (drop_bit 8 w) = drop_bit 8 (unat w)" by (rule unat_drop_bit_eq)
  then show "unat (drop_bit 8 w) = unat w div 256" by (simp only: drop_bit_eq_div) simp
  have "w AND 0xFF = take_bit 8 w" by (simp add: take_bit_eq_mask mask_eq_exp_minus_1)
  then have "unat (w AND 0xFF) = take_bit 8 (unat w)" by (simp only: unsigned_take_bit_eq)
  then show "unat (w AND 0xFF) = unat w mod 256" by (simp only: take_bit_eq_mod) simp
qed

text \<open>
  C21: The text of a UUID reads back: \<open>uuid_parse\<close> accepts what \<open>uuid_unparse\<close> prints and gives the same
  sixteen bytes.
\<close>

theorem uuid_text_roundtrip:
  assumes "length uu = 16"
  shows "uuid_parse (uuid_unparse uu) = Some uu"
proof -
  let ?u = "uuid_unpack2 uu"
  let ?A = "hexpad 8 (unat (time_low ?u))" and ?B = "hexpad 4 (unat (time_mid ?u))"
    and ?C = "hexpad 4 (unat (time_hi_and_version ?u))" and ?D = "hexpad 4 (unat (clock_seq ?u))"
    and ?E = "concat (map (\<lambda>b. hexpad 2 (unat b)) (node_id ?u))"
  have n6: "length (node_id ?u) = 6" using assms by (simp add: uuid_unpack2_def)
  have s: "uuid_unparse uu = ?A @ ''-'' @ ?B @ ''-'' @ ?C @ ''-'' @ ?D @ ''-'' @ ?E"
    unfolding uuid_unparse_def Let_def word16_halves using hexpad_pair[of "unat (clock_seq ?u)"] by simp
  have E12: "length ?E = 12" using n6 by (simp add: length_concat comp_def sum_list_triv)
  have "list_all isxdigit ?E" using hexpad_xdigits by (auto simp: list_all_iff)
  then have ok: "uuid_text_ok (uuid_unparse uu)"
    unfolding s by (intro text_ok) (simp_all add: hexpad_xdigits E12[simplified])
  have f: "strtoul16 (uuid_unparse uu) = int (unat (time_low ?u))" "strtoul16 (drop 9 (uuid_unparse uu)) = int (unat (time_mid ?u))"
    "strtoul16 (drop 14 (uuid_unparse uu)) = int (unat (time_hi_and_version ?u))" "strtoul16 (drop 19 (uuid_unparse uu)) = int (unat (clock_seq ?u))"
    unfolding s using strtoul16_hexpad(2)[OF _ _ hex_fields(1)] strtoul16_hexpad(2)[OF _ _ hex_fields(2)] by simp_all
  have g: "strtoul16 (take 2 (drop (24 + 2 * i) (uuid_unparse uu))) = int (unat (node_id ?u ! i))" if "i < 6" for i
  proof -
    have "drop 24 (uuid_unparse uu) = ?E" unfolding s by simp
    then have "take 2 (drop (24 + 2 * i) (uuid_unparse uu)) = take 2 (drop (2 * i) ?E)" by (metis add.commute drop_drop)
    also have "\<dots> = hexpad 2 (unat (node_id ?u ! i))" by (rule take_concat2) (use that n6 in auto)
    finally show ?thesis using strtoul16_hexpad(1)[OF _ _ hex_fields(3)] by simp
  qed
  have "map (\<lambda>i. word_of_int (strtoul16 (take 2 (drop (24 + 2 * i) (uuid_unparse uu))))) [0..<6] = node_id ?u"
    by (rule nth_equalityI) (use n6 g in auto)
  then have "uuid_parse (uuid_unparse uu) = Some (uuid_pack2 ?u)"
    using ok by (cases ?u) (simp add: uuid_parse_def f)
  then show ?thesis by (simp add: pack_unpack[OF assms])
qed

theorem uuid_text_roundtrip_witness:
  "uuid_parse (uuid_unparse (map word_of_nat [0..<16])) = Some (map word_of_nat [0..<16])"
  using uuid_text_roundtrip[of "map word_of_nat [0..<16]"] by simp


subsection \<open>Versions and variants\<close>

lemma set_field: "a \<le> k \<Longrightarrow> k < a + b \<Longrightarrow> k < 16 \<Longrightarrow> drop_bit a ((w AND mask a) OR push_bit k 1) AND mask b = (push_bit (k - a) 1 :: 16 word)"
  by (rule bit_word_eqI) (auto simp: bit_simps)

lemma other_bit: "a \<le> j \<Longrightarrow> j \<noteq> k \<Longrightarrow> ((w AND mask a) OR push_bit k 1) AND push_bit j 1 = (0 :: 16 word)"
  by (rule bit_word_eqI) (auto simp: bit_simps)

lemma same_bit: "k < 16 \<Longrightarrow> ((w AND mask a) OR push_bit k 1) AND push_bit k 1 \<noteq> (0 :: 16 word)"
proof
  assume k: "k < 16" and z: "((w AND mask a) OR push_bit k 1) AND push_bit k 1 = (0 :: 16 word)"
  have "bit (((w AND mask a) OR push_bit k 1) AND push_bit k 1 :: 16 word) k" using k by (simp add: bit_simps)
  then show False unfolding z by simp
qed

lemma version_bits: "drop_bit 12 ((w AND 0x0FFF) OR 0x4000) AND 0xF = (4 :: 16 word)"
  using set_field[of 12 14 4 w] by (simp add: mask_eq_exp_minus_1)

lemma variant_bits: "((w AND 0x3FFF) OR 0x8000) AND 0x8000 \<noteq> (0 :: 16 word)" "((w AND 0x3FFF) OR 0x8000) AND 0x4000 = (0 :: 16 word)"
  using same_bit[of 15 w 14] other_bit[of 14 14 15 w] by (simp_all add: mask_eq_exp_minus_1)

text \<open>A random UUID is of version 4 and of the standard variant, whatever the random bytes.\<close>

lemma random_uuid_version:
  assumes "length buf = 16"
  shows "uuid_type (uuid_generate_random buf) = 4" "uuid_variant (uuid_generate_random buf) = UUID_VARIANT_DCE"
  using assms by (simp_all add: uuid_generate_random_def uuid_type_def uuid_variant_def Let_def unpack_pack uuid_unpack2_def[of buf]
    version_bits variant_bits)

subsection \<open>Clocks\<close>

text \<open>
  The clock of \<^verbatim>\<open>gen_uuid.c\<close> gives the same time twice: eleven times within one microsecond are
  allowed and the eleventh equals the first of the next microsecond, with the same clock sequence.
\<close>

theorem get_clock_repeats:
  assumes "ck_last st = (s, u)" "(s, u) \<noteq> (0, 0)" "ck_adjustment st = 9"
  shows "\<exists>reg seq st1 st2. get_clock random st [(s, u)] = Some (reg, seq, st1, []) \<and>
           get_clock random st1 [(s, u + 1)] = Some (reg, seq, st2, [])"
  using assms by (auto simp: Let_def algebra_simps)

theorem get_clock_repeats_witness:
  "\<exists>reg seq st1 st2. get_clock 0 \<lparr>ck_adjustment = 9, ck_last = (1, 5), ck_seq = 3\<rparr> [(1, 5)] = Some (reg, seq, st1, []) \<and>
     get_clock 0 st1 [(1, 6)] = Some (reg, seq, st2, [])"
  using get_clock_repeats[of "\<lparr>ck_adjustment = 9, ck_last = (1, 5), ck_seq = 3\<rparr>" 1 5 0] by simp


subsection \<open>No UUID twice\<close>

text \<open>What two version 1 UUIDs of one node have in common when they are equal.\<close>

lemma format_time:
  assumes "format_uuid_v1 s t n = format_uuid_v1 s' t' n" "t < 2 ^ 60" "t' < 2 ^ 60"
  shows "t = t'"
proof (rule bit_word_eqI)
  fix i assume "i < LENGTH(64)"
  have m: "(0xFFFFFFFF :: 64 word) = mask 32" "(0xFFFF :: 64 word) = mask 16" "(0x0FFF :: 64 word) = mask 12"
    by (simp_all add: mask_eq_exp_minus_1)
  have low: "ucast (t AND mask 32) = (ucast (t' AND mask 32) :: 32 word)"
    and mid: "ucast (drop_bit 32 t AND mask 16) = (ucast (drop_bit 32 t' AND mask 16) :: 16 word)"
    and hi: "ucast (drop_bit 48 t AND mask 12) OR push_bit 12 1 = (ucast (drop_bit 48 t' AND mask 12) OR push_bit 12 1 :: 16 word)"
    using assms(1) unfolding format_uuid_v1_def m by (auto dest: arg_cong[where f=up_time_low] arg_cong[where f=up_time_mid]
      arg_cong[where f=up_time_hi_and_version])
  have top: "\<not> bit w i" if "w < 2 ^ 60" "60 \<le> i" for w :: "64 word"
  proof -
    have "unat w < 2 ^ 60" using that(1) by (simp add: word_less_nat_alt)
    then have "unat (take_bit 60 w) = unat w" by (simp add: unsigned_take_bit_eq take_bit_nat_eq_self)
    then have "w = take_bit 60 w" by (simp add: word_unat_eq_iff)
    then show ?thesis using that(2) by (metis bit_take_bit_iff not_less)
  qed
  consider "i < 32" | "32 \<le> i" "i < 48" | "48 \<le> i" "i < 60" | "60 \<le> i" by linarith
  then show "bit t i = bit t' i"
  proof cases
    case 1
    then show ?thesis using arg_cong[OF low, of "\<lambda>w. bit w i"] by (simp add: bit_simps)
  next
    case 2
    then have "i - 32 < 16" by simp
    then show ?thesis using 2 arg_cong[OF mid, of "\<lambda>w. bit w (i - 32)"] by (simp add: bit_simps)
  next
    case 3
    then have k: "i - 48 < 12" by simp
    then have "\<not> bit (push_bit 12 1 :: 16 word) (i - 48)" unfolding bit_push_bit_iff by simp
    then show ?thesis using 3 k arg_cong[OF hi, of "\<lambda>w. bit w (i - 48)"] by (simp add: bit_or_iff bit_unsigned_iff bit_and_iff bit_drop_bit_eq bit_mask_iff)
  next
    case 4
    then show ?thesis using top assms(2,3) by blast
  qed
qed

lemma format_seq:
  assumes "format_uuid_v1 s t n = format_uuid_v1 s' t' n"
  shows "take_bit 14 s = take_bit 14 s'"
proof (rule bit_word_eqI)
  fix i assume "i < LENGTH(16)"
  have m: "(0xFF :: 16 word) = mask 8" "(0x3F00 :: 16 word) = push_bit 8 (mask 6)" by (simp_all add: mask_eq_exp_minus_1)
  have low: "ucast (s AND mask 8) = (ucast (s' AND mask 8) :: byte8)"
    and hi: "ucast (drop_bit 8 (s AND push_bit 8 (mask 6))) OR 0x80 = (ucast (drop_bit 8 (s' AND push_bit 8 (mask 6))) OR 0x80 :: byte8)"
    using assms unfolding format_uuid_v1_def m by (auto dest: arg_cong[where f=up_clock_seq_low] arg_cong[where f=up_clock_seq_hi])
  consider "i < 8" | "8 \<le> i" "i < 14" | "14 \<le> i" by linarith
  then show "bit (take_bit 14 s) i = bit (take_bit 14 s') i"
  proof cases
    case 1
    then show ?thesis using arg_cong[OF low, of "\<lambda>w. bit w i"] by (simp add: bit_simps)
  next
    case 2
    then have k: "i - 8 < 6" "i - 8 \<in> {0, 1, 2, 3, 4, 5}" by auto
    then have "\<not> bit (0x80 :: byte8) (i - 8)" by auto
    then show ?thesis using 2 k(1) arg_cong[OF hi, of "\<lambda>w. bit w (i - 8)"]
      by (simp add: bit_or_iff bit_unsigned_iff bit_and_iff bit_drop_bit_eq bit_push_bit_iff bit_mask_iff bit_take_bit_iff)
  qed (simp add: bit_simps)
qed

text \<open>A run of the generator: every call with the readings of the clock it takes.\<close>

fun create_many :: "byte8 list \<Rightarrow> 16 word \<Rightarrow> generator \<Rightarrow> 64 word list list \<Rightarrow> uuid_upnp list option" where
  "create_many node random g [] = Some []"
| "create_many node random g (r # rs) =
     (case uuid_create node random g r of
        None \<Rightarrow> None
      | Some (u, g', _) \<Rightarrow> map_option (\<lambda>us. u # us) (create_many node random g' rs))"

definition ready :: "generator \<Rightarrow> byte8 list \<Rightarrow> bool" where
  "ready g node \<longleftrightarrow> ge_inited g \<and> ge_stateInited g \<and> ge_node g = node \<and> ge_time_last g = ge_ts g"

definition early :: "64 word list \<Rightarrow> bool" where
  "early r \<longleftrightarrow> (\<forall>t\<in>set r. t < 2 ^ 60 - 1024)"

lemma tick_loop_new:
  assumes "tick_loop l k r = Some (t, k', rest)"
  shows "t \<in> set r \<and> k' \<le> 1024 \<and> (k' = 0 \<longleftrightarrow> t \<noteq> l)"
  using assms
proof (induction l k r rule: tick_loop.induct)
  case (2 l k t0 r)
  show ?case
  proof (cases "l = t0 \<and> k < 1024")
    case True
    then have "unat (k + 1) = unat k + 1" "unat k < 1024" by (simp_all add: unat_word_ariths(1) word_less_nat_alt)
    then have "k + 1 \<le> 1024" "k + 1 \<noteq> 0" by (auto simp: word_le_nat_alt simp flip: unat_eq_0)
    then show ?thesis using 2(2) True by auto
  qed (use 2 in \<open>auto split: if_splits\<close>)
qed simp

lemma add_ticks:
  assumes "t < 2 ^ 60 - 1024" "k \<le> (1024 :: 16 word)"
  shows "unat (t + ucast k :: 64 word) = unat t + unat k" "unat t + unat k < 2 ^ 60"
proof -
  have k: "unat (ucast k :: 64 word) = unat k"
    using hex_fields(2)[of k] by (simp add: unsigned_ucast_eq take_bit_nat_eq_self)
  have l: "unat t < 2 ^ 60 - 1024" "unat k \<le> 1024" using assms by (simp_all add: word_less_nat_alt word_le_nat_alt)
  then show "unat t + unat k < 2 ^ 60" by simp
  then show "unat (t + ucast k :: 64 word) = unat t + unat k" by (simp add: unat_word_ariths(1) k)
qed

lemma create_step:
  assumes "uuid_create node random g r = Some (u, g', rest)" "early r"
  shows "ready g' node" "u = format_uuid_v1 (ge_cs g') (ge_ts g') node" "ge_ts g' < 2 ^ 60"
    "ready g node \<Longrightarrow> ge_cs g' = ge_cs g \<and> ge_ts g < ge_ts g' \<or> ge_cs g' = ge_cs g + 1 \<and> ge_ts g' < ge_ts g"
proof -
  define r1 where "r1 = (if ge_inited g then r else tl r)"
  define k0 where "k0 = (if ge_inited g then ge_ticks g else UUIDS_PER_TICK)"
  obtain t k where tk: "tick_loop (ge_time_last g) k0 r1 = Some (t, k, rest)"
    and g': "ge_ts g' = t + ucast k" "ge_time_last g' = t + ucast k" "ge_inited g'" "ge_stateInited g'" "ge_node g' = node"
      "ge_cs g' = (if \<not> ge_stateInited g \<or> ge_node g \<noteq> node then random else if t + ucast k < ge_ts g then ge_cs g + 1 else ge_cs g)"
      "u = format_uuid_v1 (ge_cs g') (t + ucast k) node"
    using assms(1) by (cases "ge_inited g")
      (auto simp: uuid_create_def get_current_time_def Let_def r1_def k0_def split: option.splits prod.splits)
  have t: "t \<in> set r1" "k \<le> 1024" "k = 0 \<longleftrightarrow> t \<noteq> ge_time_last g" using tick_loop_new[OF tk] by auto
  have "set r1 \<subseteq> set r" by (cases r) (auto simp: r1_def)
  then have "t < 2 ^ 60 - 1024" using t(1) assms(2) by (auto simp: early_def)
  note a = add_ticks[OF this t(2)]
  show "ready g' node" using g' by (simp add: ready_def)
  show "u = format_uuid_v1 (ge_cs g') (ge_ts g') node" using g' by simp
  show "ge_ts g' < 2 ^ 60" using a g'(1) by (simp add: word_less_nat_alt)
  assume ready: "ready g node"
  have "t + ucast k \<noteq> ge_ts g"
  proof (cases "k = 0")
    case False
    then have "unat k \<noteq> 0" by (simp add: unat_eq_0)
    then have "unat (t + ucast k) \<noteq> unat t" using a(1) by simp
    then show ?thesis using False t(3) ready by (auto simp: ready_def)
  qed (use t(3) ready in \<open>auto simp: ready_def\<close>)
  then show "ge_cs g' = ge_cs g \<and> ge_ts g < ge_ts g' \<or> ge_cs g' = ge_cs g + 1 \<and> ge_ts g' < ge_ts g"
    using g'(1,6) ready by (auto simp: ready_def not_less le_less)
qed

definition lex_less :: "nat \<times> 64 word \<Rightarrow> nat \<times> 64 word \<Rightarrow> bool" where
  "lex_less p q \<longleftrightarrow> fst p < fst q \<or> fst p = fst q \<and> snd p < snd q"

text \<open>
  The UUIDs of a run, by the number of times the clock sequence went up and the time: these pairs
  increase.
\<close>

lemma run_increases:
  assumes "ready g node" "create_many node random g rs = Some us" "\<forall>r\<in>set rs. early r"
  shows "\<exists>ps. us = map (\<lambda>(c, t). format_uuid_v1 (ge_cs g + word_of_nat c) t node) ps \<and>
     sorted_wrt lex_less ((0, ge_ts g) # ps) \<and> (\<forall>(c, t)\<in>set ps. c \<le> length rs \<and> t < 2 ^ 60)"
  using assms
proof (induction rs arbitrary: g us)
  case (Cons r rs)
  obtain u g' rest us' where u: "uuid_create node random g r = Some (u, g', rest)" "create_many node random g' rs = Some us'" "us = u # us'"
    using Cons.prems(2) by (auto split: option.splits)
  have e: "early r" "\<forall>r\<in>set rs. early r" using Cons.prems(3) by auto
  note step = create_step[OF u(1) e(1)]
  obtain ps where ps: "us' = map (\<lambda>(c, t). format_uuid_v1 (ge_cs g' + word_of_nat c) t node) ps"
    "sorted_wrt lex_less ((0, ge_ts g') # ps)" "\<forall>(c, t)\<in>set ps. c \<le> length rs \<and> t < 2 ^ 60"
    using Cons.IH[OF step(1) u(2) e(2)] by blast
  define b where "b = (if ge_cs g' = ge_cs g \<and> ge_ts g < ge_ts g' then 0 else 1 :: nat)"
  have b: "ge_cs g' = ge_cs g + word_of_nat b" "b \<le> 1" "b = 0 \<Longrightarrow> ge_ts g < ge_ts g'"
    using step(4)[OF Cons.prems(1)] by (auto simp: b_def)
  let ?ps = "(b, ge_ts g') # map (\<lambda>(c, t). (c + b, t)) ps"
  have "us = map (\<lambda>(c, t). format_uuid_v1 (ge_cs g + word_of_nat c) t node) ?ps"
    using u(3) ps(1) step(2) b(1) by (auto simp: algebra_simps)
  moreover have "sorted_wrt lex_less ((0, ge_ts g) # ?ps)"
  proof -
    have "sorted_wrt lex_less ps" using ps(2) by simp
    then have "sorted_wrt (\<lambda>x y. lex_less (case x of (c, t) \<Rightarrow> (c + b, t)) (case y of (c, t) \<Rightarrow> (c + b, t))) ps"
      by (rule sorted_wrt_mono_rel[rotated]) (auto simp: lex_less_def)
    then have "sorted_wrt lex_less (map (\<lambda>(c, t). (c + b, t)) ps)" by (simp only: sorted_wrt_map)
    moreover have "lex_less (0, ge_ts g) (b, ge_ts g')" using b by (cases "b = 0") (auto simp: lex_less_def)
    moreover have "lex_less (b, ge_ts g') (c + b, t)" if "(c, t) \<in> set ps" for c t using ps(2) that by (auto simp: lex_less_def)
    ultimately show ?thesis by (fastforce simp: lex_less_def)
  qed
  moreover have "\<forall>(c, t)\<in>set ?ps. c \<le> length (r # rs) \<and> t < 2 ^ 60" using ps(3) b(2) step(3) by fastforce
  ultimately show ?case by blast
qed simp

lemma sorted_wrt_distinct: "sorted_wrt (\<noteq>) xs \<Longrightarrow> distinct xs"
  by (induction xs) auto

lemma add_mod_inj: "(a + c) mod m = (a + d) mod m \<Longrightarrow> c < m \<Longrightarrow> d < m \<Longrightarrow> c = (d :: nat)"
proof (induction c d rule: linorder_wlog)
  case (le c d)
  then have "m dvd (a + d) - (a + c)" using mod_eq_dvd_iff_nat[of "a + c" "a + d" m] by simp
  then have "m dvd d - c" by simp
  then show ?case using le by (metis diff_is_0_eq dvd_imp_le le_antisym less_imp_diff_less not_less not_gr_zero)
qed simp

lemma seq_inj:
  assumes "take_bit 14 (s + word_of_nat c) = (take_bit 14 (s + word_of_nat d) :: 16 word)" "c < 16384" "d < 16384"
  shows "c = d"
proof -
  have u: "unat (take_bit 14 (s + word_of_nat c) :: 16 word) = (unat s + c) mod 16384" for c
  proof -
    have "unat (s + word_of_nat c) = (unat s + c) mod 65536"
      by (simp add: unat_word_ariths(1) unat_of_nat mod_add_right_eq)
    moreover have "unat (take_bit 14 (s + word_of_nat c)) = unat (s + word_of_nat c) mod 2 ^ 14"
      using trans[OF unsigned_take_bit_eq take_bit_eq_mod, of 14 "s + word_of_nat c"] by simp
    ultimately show ?thesis by (simp add: mod_mod_cancel)
  qed
  show ?thesis using add_mod_inj[of "unat s" c 16384 d] assms u[of c] u[of d] by simp
qed

text \<open>
  C19: The UUIDs made by one generator are all different, whatever the clock does (stand still, jump
  back or forward), for a run of up to 16384 UUIDs from any state of the generator: a time that is
  not later than the last one comes with a new clock sequence, of which there are 16384. (The
  times are below 2 to the 60, where the UUID has room for them.)
\<close>

theorem uuid_create_unique:
  assumes "uuid_create node random g r = Some (u, g', rest)" "create_many node random' g' rs = Some us"
    "early r" "\<forall>r\<in>set rs. early r" "length rs < 16384"
  shows "distinct (u # us)"
proof -
  note step = create_step[OF assms(1,3)]
  obtain ps where ps: "us = map (\<lambda>(c, t). format_uuid_v1 (ge_cs g' + word_of_nat c) t node) ps"
    "sorted_wrt lex_less ((0, ge_ts g') # ps)" "\<forall>(c, t)\<in>set ps. c \<le> length rs \<and> t < 2 ^ 60"
    using run_increases[OF step(1) assms(2,4)] by blast
  let ?f = "\<lambda>(c, t). format_uuid_v1 (ge_cs g' + word_of_nat c) t node"
  let ?ps = "(0, ge_ts g') # ps"
  have bound: "c < 16384 \<and> t < 2 ^ 60" if "(c, t) \<in> set ?ps" for c t
    using ps(3) step(3) assms(5) that by (auto dest: bspec)
  have inj: "inj_on ?f (set ?ps)"
  proof (rule inj_onI)
    fix x y assume xy: "x \<in> set ?ps" "y \<in> set ?ps" and eq: "?f x = ?f y"
    obtain c t d t' where p: "x = (c, t)" "y = (d, t')" by (metis surj_pair)
    have e: "format_uuid_v1 (ge_cs g' + word_of_nat c) t node = format_uuid_v1 (ge_cs g' + word_of_nat d) t' node"
      using eq by (simp add: p)
    have b: "c < 16384" "d < 16384" "t < 2 ^ 60" "t' < 2 ^ 60" using bound xy p by blast+
    have "t = t'" by (rule format_time[OF e b(3,4)])
    moreover have "c = d" by (rule seq_inj[OF format_seq[OF e] b(1,2)])
    ultimately show "x = y" using p by simp
  qed
  have "distinct ?ps"
  proof -
    have "sorted_wrt (\<noteq>) ?ps" by (rule sorted_wrt_mono_rel[OF _ ps(2)]) (auto simp: lex_less_def)
    then show ?thesis by (rule sorted_wrt_distinct)
  qed
  then have "distinct (map ?f ?ps)" using inj by (simp only: distinct_map)
  then show ?thesis using ps(1) step(2) by simp
qed

definition fresh_generator :: generator where
  "fresh_generator = \<lparr>ge_inited = False, ge_time_last = 0, ge_ticks = 0, ge_stateInited = False, ge_cs = 0, ge_ts = 0, ge_node = []\<rparr>"

theorem uuid_create_unique_witness:
  "\<exists>u g' rest us. uuid_create [1, 2, 3, 4, 5, 6] 7 fresh_generator [100, 100] = Some (u, g', rest) \<and>
     create_many [1, 2, 3, 4, 5, 6] 7 g' [[100], [100], [90]] = Some us \<and> length us = 3 \<and> distinct (u # us)"
proof -
  let ?n = "[1, 2, 3, 4, 5, 6] :: byte8 list"
  let ?g = "fresh_generator\<lparr>ge_inited := True, ge_time_last := 100, ge_ticks := 0, ge_stateInited := True, ge_cs := 7, ge_ts := 100, ge_node := ?n\<rparr>"
  have c: "uuid_create ?n 7 fresh_generator [100, 100] = Some (format_uuid_v1 7 100 ?n, ?g, [])"
    by (simp add: uuid_create_def get_current_time_def fresh_generator_def Let_def)
  have m: "create_many ?n 7 ?g [[100], [100], [90]] = Some [format_uuid_v1 7 101 ?n, format_uuid_v1 8 100 ?n, format_uuid_v1 9 90 ?n]"
    by (simp add: uuid_create_def get_current_time_def fresh_generator_def Let_def)
  have "early [100, 100]" "\<forall>r\<in>set [[100], [100], [90]]. early r" by (simp_all add: early_def)
  then have "distinct (format_uuid_v1 7 100 ?n # [format_uuid_v1 7 101 ?n, format_uuid_v1 8 100 ?n, format_uuid_v1 9 90 ?n])"
    by (intro uuid_create_unique[OF c m]) simp_all
  then show ?thesis using c m by auto
qed

text \<open>
  The last time is kept with the count of UUIDs added, so on a clock that stands still the count is
  lost every second time: the third time is the first one again, and only the clock sequence keeps
  the UUIDs apart.
\<close>

lemma times_repeat:
  assumes "ge_inited g" "ge_time_last g \<noteq> t" "t < 2 ^ 60"
  shows "\<exists>g1 g2 g3. get_current_time g [t] = Some (t, g1, []) \<and> get_current_time g1 [t] = Some (t + 1, g2, []) \<and>
           get_current_time g2 [t] = Some (t, g3, [])"
  using assms by (simp add: get_current_time_def Let_def)

end
