(* ===== verification/ServiceTable.thy ===== *)
theory ServiceTable
  imports HttpParser XmlElement "HOL-Library.Sublist"
begin

section \<open>The service table of a device (genlib/service\_table/service\_table.c)\<close>

text \<open>
  The services of a root device and their subscriptions. A linked list of structs that is reached
  by one chain of \<^verbatim>\<open>next\<close> pointers is a list, a pointer to one of its nodes is a position; the
  pointer \<^verbatim>\<open>endServiceList\<close> is a position that may be null. A fault is \<^term>\<open>None\<close>. Freeing has no
  counterpart, the strings and URL lists are values.
\<close>

abbreviation (input) SID_SIZE :: nat where "SID_SIZE \<equiv> 41"

record subscription =
  su_sid :: c_string
  su_eventKey :: int
  su_ToSendEventKey :: int
  su_expireTime :: int
  su_active :: bool
  su_DeliveryURLs :: URL_list

record service_info =
  si_serviceType :: "c_string option"
  si_serviceId :: "c_string option"
  si_SCPDURL :: "c_string option"
  si_controlURL :: "c_string option"
  si_eventURL :: "c_string option"
  si_UDN :: "c_string option"
  si_active :: bool
  si_TotalSubscriptions :: int
  si_subscriptionList :: "subscription list"

record service_table =
  st_URLBase :: "c_string option"
  st_serviceList :: "service_info list"
  st_endServiceList :: "nat option"

subsection \<open>Subscriptions\<close>

text \<open>
  The copy is written field by field into the caller's variable, so a failure leaves the fields
  before the URL list written.
\<close>

definition copy_subscription ::
  "int option \<Rightarrow> uri_type list option \<Rightarrow> subscription \<Rightarrow> subscription \<Rightarrow> int \<times> subscription" where
  "copy_subscription fresh raw src out =
     (let out1 = out\<lparr>su_sid := take SID_SIZE (su_sid src), su_eventKey := su_eventKey src,
                     su_ToSendEventKey := su_ToSendEventKey src, su_expireTime := su_expireTime src,
                     su_active := su_active src\<rparr>
      in case copy_URL_list fresh raw (su_DeliveryURLs src) of
           (rc, Some urls) \<Rightarrow> if rc \<noteq> HTTP_SUCCESS then (rc, out1) else (HTTP_SUCCESS, out1\<lparr>su_DeliveryURLs := urls\<rparr>)
         | (rc, None) \<Rightarrow> (rc, out1))"

text \<open>The loop stops at the first subscription it removes, since the finger is set to null there.\<close>

fun remove_loop :: "c_string \<Rightarrow> subscription list \<Rightarrow> subscription list \<times> int" where
  "remove_loop sid [] = ([], 0)"
| "remove_loop sid (s # ss) =
     (if sid = su_sid s then (ss, 1)
      else (case remove_loop sid ss of (ss', k) \<Rightarrow> (s # ss', k)))"

definition RemoveSubscriptionSID :: "c_string \<Rightarrow> service_info \<Rightarrow> service_info" where
  "RemoveSubscriptionSID sid service =
     (case remove_loop sid (si_subscriptionList service) of
        (l, k) \<Rightarrow> service\<lparr>si_subscriptionList := l, si_TotalSubscriptions := si_TotalSubscriptions service - k\<rparr>)"

definition expired :: "int \<Rightarrow> subscription \<Rightarrow> bool" where
  "expired current_time s \<longleftrightarrow> su_expireTime s \<noteq> 0 \<and> su_expireTime s < current_time"

text \<open>An expired subscription is taken out when it is looked for.\<close>

definition GetSubscriptionSID :: "int \<Rightarrow> c_string \<Rightarrow> service_info \<Rightarrow> nat option \<times> service_info" where
  "GetSubscriptionSID current_time sid service =
     (case find_pos (\<lambda>s. su_sid s = sid) (si_subscriptionList service) of
        None \<Rightarrow> (None, service)
      | Some i \<Rightarrow>
          if expired current_time (si_subscriptionList service ! i)
          then (None, service\<lparr>si_subscriptionList := take i (si_subscriptionList service) @ drop (Suc i) (si_subscriptionList service),
                              si_TotalSubscriptions := si_TotalSubscriptions service - 1\<rparr>)
          else (Some i, service))"

text \<open>
  The loop of \<open>GetNextSubscription\<close> on the nodes behind the current one: expired ones are taken out
  and counted, inactive ones are passed over. The result is the position of the next active one
  among those that are left.
\<close>

fun next_loop :: "int \<Rightarrow> subscription list \<Rightarrow> nat option \<times> subscription list \<times> int" where
  "next_loop now [] = (None, [], 0)"
| "next_loop now (s # ss) =
     (if expired now s then (case next_loop now ss of (r, ss', k) \<Rightarrow> (r, ss', k + 1))
      else if su_active s then (Some 0, s # ss, 0)
      else (case next_loop now ss of (r, ss', k) \<Rightarrow> (map_option Suc r, s # ss', k)))"

text \<open>
  The first \<open>n\<close> nodes end with the current one. \<open>GetFirstSubscription\<close> starts at a node of its own
  in front of the list.
\<close>

definition next_behind :: "int \<Rightarrow> service_info \<Rightarrow> nat \<Rightarrow> nat option \<times> service_info" where
  "next_behind now service n =
     (case next_loop now (drop n (si_subscriptionList service)) of
        (r, l, k) \<Rightarrow> (map_option (\<lambda>i. n + i) r,
          service\<lparr>si_subscriptionList := take n (si_subscriptionList service) @ l,
                  si_TotalSubscriptions := si_TotalSubscriptions service - k\<rparr>))"

definition GetNextSubscription :: "int \<Rightarrow> service_info \<Rightarrow> nat option \<Rightarrow> nat option \<times> service_info" where
  "GetNextSubscription now service current =
     (case current of None \<Rightarrow> (None, service) | Some i \<Rightarrow> next_behind now service (Suc i))"

definition GetFirstSubscription :: "int \<Rightarrow> service_info \<Rightarrow> nat option \<times> service_info" where
  "GetFirstSubscription now service = next_behind now service 0"

subsection \<open>Finding a service\<close>

fun find_service :: "(service_info \<Rightarrow> bool option) \<Rightarrow> service_info list \<Rightarrow> nat option option" where
  "find_service P [] = Some None"
| "find_service P (s # ss) =
     do { yes \<leftarrow> P s;
          if yes then Some (Some 0) else do { r \<leftarrow> find_service P ss; Some (map_option Suc r) } }"

definition FindServiceId :: "service_table \<Rightarrow> c_string \<Rightarrow> c_string \<Rightarrow> nat option option" where
  "FindServiceId table serviceId UDN =
     find_service
       (\<lambda>f. do { i \<leftarrow> si_serviceId f;
                 if serviceId \<noteq> i then Some False else do { u \<leftarrow> si_UDN f; Some (UDN = u) } })
       (st_serviceList table)"

text \<open>
  The searches by URL parse the URL of every service into one variable and test the result of
  \<open>parse_uri\<close> against zero only. An error code is not zero, and then the path in the variable is the
  one it held before: that of the previous service, or what was on the stack. A parsed path is
  kept here with the text it points to.
\<close>

type_synonym parsed_path = "uri_type \<times> c_string"

definition parse_path :: "resolver \<Rightarrow> allocator \<Rightarrow> c_string \<Rightarrow> parsed_path \<Rightarrow> int \<times> parsed_path" where
  "parse_path R A url old =
     (case parse_uri R A (1, url) (length url) (fst old) of
        (rc, u) \<Rightarrow> (rc, u, if rc = HTTP_SUCCESS then tok_text (1, url) (uri_pathquery u) else snd old))"

definition same_path :: "parsed_path \<Rightarrow> parsed_path \<Rightarrow> bool" where
  "same_path p q \<longleftrightarrow> token_cmp (uri_pathquery (fst p)) (snd p) (uri_pathquery (fst q)) (snd q) = 0"

fun find_path ::
  "resolver \<Rightarrow> allocator \<Rightarrow> (service_info \<Rightarrow> c_string option) \<Rightarrow> parsed_path \<Rightarrow> parsed_path \<Rightarrow> service_info list \<Rightarrow> nat option" where
  "find_path R A url parsed_url parsed_url_in [] = None"
| "find_path R A url parsed_url parsed_url_in (s # ss) =
     (case url s of
        None \<Rightarrow> map_option Suc (find_path R A url parsed_url parsed_url_in ss)
      | Some text \<Rightarrow>
          (case parse_path R A text parsed_url of
             (rc, parsed) \<Rightarrow>
               if rc \<noteq> 0 \<and> same_path parsed parsed_url_in then Some 0
               else map_option Suc (find_path R A url parsed parsed_url_in ss)))"

definition find_by_path ::
  "resolver \<Rightarrow> allocator \<Rightarrow> (service_info \<Rightarrow> c_string option) \<Rightarrow> parsed_path \<Rightarrow> parsed_path \<Rightarrow> service_table \<Rightarrow> c_string \<Rightarrow> nat option" where
  "find_by_path R A url stack1 stack2 table path =
     (case parse_path R A path stack2 of
        (rc, parsed_in) \<Rightarrow> if rc \<noteq> 0 then find_path R A url stack1 parsed_in (st_serviceList table) else None)"

definition FindServiceEventURLPath ::
  "resolver \<Rightarrow> allocator \<Rightarrow> parsed_path \<Rightarrow> parsed_path \<Rightarrow> service_table \<Rightarrow> c_string \<Rightarrow> nat option" where
  "FindServiceEventURLPath R A stack1 stack2 table eventURLPath =
     find_by_path R A si_eventURL stack1 stack2 table eventURLPath"

definition FindServiceControlURLPath ::
  "resolver \<Rightarrow> allocator \<Rightarrow> parsed_path \<Rightarrow> parsed_path \<Rightarrow> service_table \<Rightarrow> c_string \<Rightarrow> nat option" where
  "FindServiceControlURLPath R A stack1 stack2 table controlURLPath =
     find_by_path R A si_controlURL stack1 stack2 table controlURLPath"

subsection \<open>The table of a description document\<close>

definition getElementValue :: "dom_heap \<Rightarrow> nat \<Rightarrow> c_string option option" where
  "getElementValue h node =
     do { child \<leftarrow> ixmlNode_getFirstChild h (Some node);
          case child of
            None \<Rightarrow> Some None
          | Some c \<Rightarrow> do { n \<leftarrow> h c; Some (if dn_type n = eTEXT_NODE then dn_value n else None) } }"

partial_function (option) sub_element :: "dom_heap \<Rightarrow> c_string \<Rightarrow> nat option \<Rightarrow> nat option option" where
  "sub_element h element_name child =
     (case child of
        None \<Rightarrow> Some None
      | Some c \<Rightarrow>
          do { n \<leftarrow> h c;
               yes \<leftarrow> (if dn_type n = eELEMENT_NODE then map_option (\<lambda>name. name = element_name) (dn_name n) else Some False);
               if yes then Some (Some c) else sub_element h element_name (dn_next n) })"

definition getSubElement :: "dom_heap \<Rightarrow> c_string \<Rightarrow> nat \<Rightarrow> nat option option" where
  "getSubElement h element_name node =
     do { child \<leftarrow> ixmlNode_getFirstChild h (Some node); sub_element h element_name child }"

text \<open>
  The name resolver, the allocator of the URI code and the two URI variables on the stack of
  \<open>resolve_rel_url\<close>, as one argument.
\<close>

record url_env =
  ue_resolver :: resolver
  ue_allocator :: allocator
  ue_base :: uri_type
  ue_rel :: uri_type

definition resolve_url :: "url_env \<Rightarrow> c_string option \<Rightarrow> c_string option \<Rightarrow> c_string option option" where
  "resolve_url E base rel =
     resolve_rel_url (ue_resolver E) (ue_allocator E) (ue_base E) (ue_rel E)
       (map_option (\<lambda>s. (1, s)) base) (map_option (\<lambda>s. (1, s)) rel)"

text \<open>The value of a sub-element, or null when there is no such sub-element or it has no text.\<close>

definition sub_value :: "dom_heap \<Rightarrow> c_string \<Rightarrow> nat \<Rightarrow> c_string option option" where
  "sub_value h element_name node =
     do { e \<leftarrow> getSubElement h element_name node;
          case e of None \<Rightarrow> Some None | Some x \<Rightarrow> getElementValue h x }"

definition sub_url :: "url_env \<Rightarrow> dom_heap \<Rightarrow> c_string option \<Rightarrow> c_string \<Rightarrow> nat \<Rightarrow> c_string option option" where
  "sub_url E h URLBase element_name node =
     do { v \<leftarrow> sub_value h element_name node;
          case v of None \<Rightarrow> Some None | Some _ \<Rightarrow> resolve_url E URLBase v }"

text \<open>
  One service of a service list. \<open>fail\<close> is set by a missing type, id or description URL, and set
  back to zero by a missing control or event URL, whatever it was before.
\<close>

definition read_service ::
  "url_env \<Rightarrow> dom_heap \<Rightarrow> c_string option \<Rightarrow> nat \<Rightarrow> nat \<Rightarrow> service_info option option" where
  "read_service E h URLBase UDN current_service =
     do { udn \<leftarrow> getElementValue h UDN;
          serviceType \<leftarrow> sub_value h ''serviceType'' current_service;
          serviceId \<leftarrow> sub_value h ''serviceId'' current_service;
          SCPDURL \<leftarrow> sub_url E h URLBase ''SCPDURL'' current_service;
          let fail = (udn = None \<or> serviceType = None \<or> serviceId = None \<or> SCPDURL = None);
          controlURL \<leftarrow> sub_url E h URLBase ''controlURL'' current_service;
          let fail = (if controlURL = None then False else fail);
          eventURL \<leftarrow> sub_url E h URLBase ''eventSubURL'' current_service;
          let fail = (if eventURL = None then False else fail);
          Some (if fail then None
                else Some \<lparr>si_serviceType = serviceType, si_serviceId = serviceId, si_SCPDURL = SCPDURL,
                           si_controlURL = controlURL, si_eventURL = eventURL, si_UDN = udn, si_active = True,
                           si_TotalSubscriptions = 0, si_subscriptionList = []\<rparr>) }"

fun read_services ::
  "url_env \<Rightarrow> dom_heap \<Rightarrow> c_string option \<Rightarrow> nat \<Rightarrow> node_list \<Rightarrow> service_info list option" where
  "read_services E h URLBase UDN [] = Some []"
| "read_services E h URLBase UDN (item # l) =
     do { node \<leftarrow> item;
          s \<leftarrow> read_service E h URLBase UDN node;
          ss \<leftarrow> read_services E h URLBase UDN l;
          Some (case s of None \<Rightarrow> ss | Some x \<Rightarrow> x # ss) }"

definition last_pos :: "'a list \<Rightarrow> nat option" where
  "last_pos xs = (if xs = [] then None else Some (length xs - 1))"

text \<open>
  The services of one device, and what is stored through \<^verbatim>\<open>end\<close>: nothing when the device has no
  UDN or no service list.
\<close>

definition getServiceList ::
  "url_env \<Rightarrow> dom_heap \<Rightarrow> c_string option \<Rightarrow> nat \<Rightarrow> (service_info list \<times> nat option option) option" where
  "getServiceList E h URLBase node =
     do { UDN \<leftarrow> getSubElement h ''UDN'' node;
          case UDN of
            None \<Rightarrow> Some ([], None)
          | Some u \<Rightarrow>
              do { serviceList \<leftarrow> getSubElement h ''serviceList'' node;
                   case serviceList of
                     None \<Rightarrow> Some ([], None)
                   | Some sl \<Rightarrow>
                       do { l \<leftarrow> ixmlNode_getElementsByTagName h sl ''service'' [];
                            ss \<leftarrow> read_services E h URLBase u l;
                            Some (ss, Some (last_pos ss)) } } }"

text \<open>
  The loop over the devices. The services of a further device are put behind the node \<^verbatim>\<open>end\<close>, and
  \<^verbatim>\<open>end\<close> becomes \<^verbatim>\<open>next_end\<close>, which keeps its old value when the device has no service list.
\<close>

definition put_behind :: "service_info list \<Rightarrow> nat option \<Rightarrow> service_info list \<Rightarrow> service_info list option" where
  "put_behind L e new = (case e of None \<Rightarrow> None | Some i \<Rightarrow> Some (take (Suc i) L @ new))"

fun all_services ::
  "url_env \<Rightarrow> dom_heap \<Rightarrow> c_string option \<Rightarrow> node_list \<Rightarrow> service_info list \<Rightarrow> nat option \<Rightarrow> nat option \<Rightarrow>
   (service_info list \<times> nat option) option" where
  "all_services E h URLBase [] head last_node next_end = Some (head, last_node)"
| "all_services E h URLBase (item # l) head last_node next_end =
     do { currentDevice \<leftarrow> item;
          (ss, stored) \<leftarrow> getServiceList E h URLBase currentDevice;
          if head \<noteq> []
          then do { head' \<leftarrow> put_behind head last_node ss;
                    let next_end' = (case stored of None \<Rightarrow> next_end | Some e \<Rightarrow> map_option (\<lambda>i. length head' - length ss + i) e);
                    all_services E h URLBase l head' next_end' next_end' }
          else all_services E h URLBase l ss (case stored of None \<Rightarrow> last_node | Some e \<Rightarrow> e) next_end }"

definition getAllServiceList ::
  "url_env \<Rightarrow> dom_heap \<Rightarrow> nat \<Rightarrow> c_string option \<Rightarrow> (service_info list \<times> nat option) option" where
  "getAllServiceList E h node URLBase =
     do { deviceList \<leftarrow> ixmlNode_getElementsByTagName h node ''device'' [];
          all_services E h URLBase deviceList [] None None }"

definition base_url :: "dom_heap \<Rightarrow> nat \<Rightarrow> c_string option \<Rightarrow> c_string option option" where
  "base_url h root DefaultURLBase =
     do { URLBase \<leftarrow> getSubElement h ''URLBase'' root;
          case URLBase of
            Some b \<Rightarrow> getElementValue h b
          | None \<Rightarrow> Some (Some (case DefaultURLBase of Some d \<Rightarrow> d | None \<Rightarrow> [])) }"

definition getServiceTable ::
  "url_env \<Rightarrow> dom_heap \<Rightarrow> nat \<Rightarrow> service_table \<Rightarrow> c_string option \<Rightarrow> (int \<times> service_table) option" where
  "getServiceTable E h node out DefaultURLBase =
     do { root \<leftarrow> getSubElement h ''root'' node;
          case root of
            None \<Rightarrow> Some (0, out)
          | Some r \<Rightarrow>
              do { b \<leftarrow> base_url h r DefaultURLBase;
                   (ss, e) \<leftarrow> getAllServiceList E h r b;
                   Some (if ss \<noteq> [] then 1 else 0, \<lparr>st_URLBase = b, st_serviceList = ss, st_endServiceList = e\<rparr>) } }"

definition addServiceTable ::
  "url_env \<Rightarrow> dom_heap \<Rightarrow> nat \<Rightarrow> service_table \<Rightarrow> c_string option \<Rightarrow> (int \<times> service_table) option" where
  "addServiceTable E h node tab DefaultURLBase =
     (let tab = tab\<lparr>st_URLBase := None\<rparr> in
      do { root \<leftarrow> getSubElement h ''root'' node;
           case root of
             None \<Rightarrow> Some (0, tab)
           | Some r \<Rightarrow>
               do { b \<leftarrow> base_url h r DefaultURLBase;
                    (ss, e) \<leftarrow> getAllServiceList E h r b;
                    L \<leftarrow> put_behind (st_serviceList tab) (st_endServiceList tab) ss;
                    let tab1 = tab\<lparr>st_URLBase := b, st_serviceList := L\<rparr>;
                    Some (if ss \<noteq> [] then (1, tab1\<lparr>st_endServiceList := map_option (\<lambda>i. length L - length ss + i) e\<rparr>)
                          else (0, tab1)) } })"

subsection \<open>Facts on lists of subscriptions\<close>

lemma subseq_set: "subseq ys xs \<Longrightarrow> set ys \<subseteq> set xs"
  by (induction rule: list_emb.induct) auto

lemma subseq_distinct: "subseq ys xs \<Longrightarrow> distinct xs \<Longrightarrow> distinct ys"
  by (induction rule: list_emb.induct) (auto dest: subseq_set)

lemma subseq_delete: "subseq (take i xs @ drop (Suc i) xs) xs"
proof -
  have "drop (Suc i) xs = drop 1 (drop i xs)" by simp
  then have "subseq (drop (Suc i) xs) (drop i xs)" using suffix_imp_subseq[OF suffix_drop[of 1 "drop i xs"]] by (simp only:)
  then show ?thesis using list_emb_append_mono[OF subseq_order.order_refl, of "drop (Suc i) xs" "drop i xs" "take i xs"] by simp
qed

lemma find_pos_Some: "find_pos P xs = Some i \<Longrightarrow> i < length xs \<and> P (xs ! i)"
  by (induction xs arbitrary: i) (auto split: if_splits)

lemma GetSubscriptionSID_found:
  assumes "GetSubscriptionSID now sid service = (r, service')" "r = Some k"
  shows "service' = service \<and> k < length (si_subscriptionList service) \<and> su_sid (si_subscriptionList service ! k) = sid"
  using assms find_pos_Some by (fastforce simp: GetSubscriptionSID_def split: option.splits if_splits)

lemma remove_loop_subseq: "remove_loop sid l = (l', k) \<Longrightarrow> subseq l' l"
  by (induction l arbitrary: l' k) (auto split: if_splits prod.splits)

lemma next_loop_subseq: "next_loop now l = (r, l', k) \<Longrightarrow> subseq l' l"
  by (induction l arbitrary: r l' k) (auto split: if_splits prod.splits)

lemma next_loop_pos: "next_loop now l = (Some i, l', k) \<Longrightarrow> i < length l'"
  by (induction l arbitrary: i l' k) (auto split: if_splits prod.splits)

lemma next_loop_shorter: "next_loop now l = (r, l', k) \<Longrightarrow> length l' \<le> length l"
  by (induction l arbitrary: r l' k) (auto split: if_splits prod.splits intro: le_SucI)

subsection \<open>Well-formed services\<close>

text \<open>
  The number of subscriptions is counted, SIDs are different, and each subscription has a delivery
  URL.
\<close>

definition urls_ok :: "URL_list \<Rightarrow> bool" where
  "urls_ok urls \<longleftrightarrow> 0 < ul_size urls \<and> ul_size urls \<le> length (ul_parsedURLs urls)"

definition service_ok :: "service_info \<Rightarrow> bool" where
  "service_ok service \<longleftrightarrow>
     si_TotalSubscriptions service = int (length (si_subscriptionList service)) \<and>
     distinct (map su_sid (si_subscriptionList service)) \<and>
     (\<forall>s\<in>set (si_subscriptionList service). urls_ok (su_DeliveryURLs s))"

lemma service_okI:
  assumes "service_ok service" "subseq l (si_subscriptionList service)"
    "n = int (length l)"
  shows "service_ok (service\<lparr>si_subscriptionList := l, si_TotalSubscriptions := n\<rparr>)"
proof -
  have "distinct (map su_sid l)" using assms(1) subseq_distinct[OF subseq_map[OF assms(2), of su_sid]] by (simp add: service_ok_def)
  then show ?thesis using assms subseq_set[OF assms(2)] by (auto simp: service_ok_def)
qed

lemma remove_loop_length: "remove_loop sid l = (l', k) \<Longrightarrow> int (length l') = int (length l) - k"
  by (induction l arbitrary: l' k) (auto split: if_splits prod.splits)

lemma RemoveSubscriptionSID_ok: "service_ok service \<Longrightarrow> service_ok (RemoveSubscriptionSID sid service)"
  using service_okI[OF _ remove_loop_subseq, of service sid] remove_loop_length[of sid "si_subscriptionList service"]
  by (auto simp: RemoveSubscriptionSID_def service_ok_def split: prod.splits)

lemma GetSubscriptionSID_ok:
  assumes "service_ok service" "GetSubscriptionSID now sid service = (r, service')"
  shows "service_ok service'"
  using assms find_pos_Some[of _ "si_subscriptionList service"]
  by (auto simp: GetSubscriptionSID_def split: option.splits if_splits intro!: service_okI subseq_delete)
    (fastforce simp: service_ok_def)

lemma next_loop_length: "next_loop now l = (r, l', k) \<Longrightarrow> int (length l') = int (length l) - k"
  by (induction l arbitrary: r l' k) (auto split: if_splits prod.splits)

lemma next_behind_ok: "service_ok service \<Longrightarrow> next_behind now service n = (r, service') \<Longrightarrow> service_ok service'"
proof -
  assume ok: "service_ok service" and n: "next_behind now service n = (r, service')"
  obtain r' l k where l: "next_loop now (drop n (si_subscriptionList service)) = (r', l, k)" by (metis prod_cases3)
  have "subseq (take n (si_subscriptionList service) @ l) (si_subscriptionList service)"
    using list_emb_append_mono[OF subseq_order.order_refl next_loop_subseq[OF l], of "take n (si_subscriptionList service)"] by simp
  moreover have "si_TotalSubscriptions service - k = int (length (take n (si_subscriptionList service) @ l))"
    using next_loop_length[OF l] ok by (simp add: service_ok_def)
  ultimately show ?thesis using n l ok by (auto simp: next_behind_def intro!: service_okI)
qed

lemma service_ok_update:
  assumes "service_ok service" "k < length (si_subscriptionList service)"
    "su_sid s = su_sid (si_subscriptionList service ! k)" "su_DeliveryURLs s = su_DeliveryURLs (si_subscriptionList service ! k)"
  shows "service_ok (service\<lparr>si_subscriptionList := (si_subscriptionList service)[k := s]\<rparr>)"
proof -
  have "map su_sid ((si_subscriptionList service)[k := s]) = map su_sid (si_subscriptionList service)"
    using assms(2,3) by (simp add: map_update list_update_same_conv)
  then show ?thesis using assms set_update_subset_insert[of "si_subscriptionList service" k s] by (auto simp: service_ok_def)
qed

lemma service_ok_insert:
  "service_ok service \<Longrightarrow> urls_ok (su_DeliveryURLs s) \<Longrightarrow> su_sid s \<notin> su_sid ` set (si_subscriptionList service) \<Longrightarrow>
     service_ok (service\<lparr>si_subscriptionList := s # si_subscriptionList service, si_TotalSubscriptions := si_TotalSubscriptions service + 1\<rparr>)"
  by (simp add: service_ok_def)

subsection \<open>Properties\<close>

lemma getServiceList_result:
  assumes "getServiceList E h b d = Some (ss, e)"
  shows "e = Some (last_pos ss) \<or> ss = [] \<and> e = None"
  using assms by (auto simp: getServiceList_def bind_eq_Some_conv split: option.splits)

lemma put_behind_last: "head \<noteq> [] \<Longrightarrow> put_behind head (last_pos head) ss = Some (head @ ss)"
  by (simp add: put_behind_def last_pos_def)

text \<open>Each entry of the list of devices is there and has these services.\<close>

definition device_services :: "url_env \<Rightarrow> dom_heap \<Rightarrow> c_string option \<Rightarrow> node_list \<Rightarrow> service_info list list \<Rightarrow> bool" where
  "device_services E h b l sss \<longleftrightarrow> list_all2 (\<lambda>item ss. \<exists>d e. item = Some d \<and> getServiceList E h b d = Some (ss, e)) l sss"

lemma all_services_behind:
  "device_services E h b l sss \<Longrightarrow> [] \<notin> set sss \<Longrightarrow> head \<noteq> [] \<Longrightarrow>
     all_services E h b l head (last_pos head) next_end = Some (head @ concat sss, last_pos (head @ concat sss))"
  unfolding device_services_def
proof (induction l sss arbitrary: head next_end rule: list_all2_induct)
  case (Cons item l ss sss)
  then obtain d where d: "item = Some d" "getServiceList E h b d = Some (ss, Some (last_pos ss))"
    using getServiceList_result by fastforce
  have "map_option (\<lambda>i. length (head @ ss) - length ss + i) (last_pos ss) = last_pos (head @ ss)"
    using Cons.prems by (cases ss) (simp_all add: last_pos_def)
  then show ?case using Cons d put_behind_last[of head ss] by (simp add: Let_def)
qed simp

text \<open>
  C8: when every device of a description has services, the table holds the services of all devices, in
  the order of the document, and its end is the last of them. When the second of three devices has no
  service, the pointer to the end is lost, and the third makes the code write through a null pointer.
\<close>

theorem service_lists_joined:
  assumes "device_services E h b l sss"
  shows "([] \<notin> set sss \<longrightarrow> all_services E h b l [] None None = Some (concat sss, last_pos (concat sss))) \<and>
         (length sss \<ge> 3 \<and> sss ! 0 \<noteq> [] \<and> sss ! 1 = [] \<longrightarrow> all_services E h b l [] None None = None)"
proof (intro conjI impI)
  assume ne: "[] \<notin> set sss"
  show "all_services E h b l [] None None = Some (concat sss, last_pos (concat sss))"
  proof (cases sss)
    case Nil
    then show ?thesis using assms by (simp add: device_services_def last_pos_def)
  next
    case (Cons ss rest)
    then obtain item l' where l: "l = item # l'" "device_services E h b l' rest" "ss \<noteq> []" "[] \<notin> set rest"
      "\<exists>d e. item = Some d \<and> getServiceList E h b d = Some (ss, e)"
      using assms ne by (auto simp: device_services_def list_all2_Cons2)
    then obtain d where "item = Some d" "getServiceList E h b d = Some (ss, Some (last_pos ss))"
      using getServiceList_result by fastforce
    then show ?thesis using l all_services_behind[OF l(2,4,3)] Cons by simp
  qed
next
  assume "length sss \<ge> 3 \<and> sss ! 0 \<noteq> [] \<and> sss ! 1 = []"
  then obtain s1 s3 rest where sss: "sss = s1 # [] # s3 # rest" "s1 \<noteq> []"
    by (cases sss; cases "tl sss"; cases "tl (tl sss)") auto
  then obtain d1 e1 d2 e2 d3 e3 l' where l: "l = Some d1 # Some d2 # Some d3 # l'"
    "getServiceList E h b d1 = Some (s1, e1)" "getServiceList E h b d2 = Some ([], e2)" "getServiceList E h b d3 = Some (s3, e3)"
    using assms by (auto simp: device_services_def list_all2_Cons2)
  have "e1 = Some (last_pos s1)" "e2 = None \<or> e2 = Some None"
    using getServiceList_result l(2,3) sss(2) by (fastforce simp: last_pos_def)+
  then show "all_services E h b l [] None None = None"
    using l sss(2) put_behind_last[of s1 "[]"] by (auto simp: put_behind_def)
qed

text \<open>Two devices, one with a service list.\<close>

definition table_heap :: dom_heap where
  "table_heap = [0 \<mapsto> sample_node eELEMENT_NODE ''device'' None (Some 1) None None,
                 1 \<mapsto> sample_node eELEMENT_NODE ''UDN'' (Some 0) (Some 3) None (Some 2),
                 2 \<mapsto> sample_node eELEMENT_NODE ''serviceList'' (Some 0) (Some 4) (Some 1) None,
                 3 \<mapsto> (sample_node eTEXT_NODE ''#text'' (Some 1) None None None)\<lparr>dn_value := Some ''uuid:1''\<rparr>,
                 4 \<mapsto> sample_node eELEMENT_NODE ''service'' (Some 2) None None None,
                 5 \<mapsto> sample_node eELEMENT_NODE ''device'' None None None None]"

definition table_env :: url_env where
  "table_env = \<lparr>ue_resolver = one_host, ue_allocator = all_granted, ue_base = blank_uri, ue_rel = blank_uri\<rparr>"


definition table_service :: service_info where
  "table_service = \<lparr>si_serviceType = None, si_serviceId = None, si_SCPDURL = None, si_controlURL = None, si_eventURL = None,
     si_UDN = Some ''uuid:1'', si_active = True, si_TotalSubscriptions = 0, si_subscriptionList = []\<rparr>"

lemma walk_simps:
  "sub_element h element_name None = Some None"
  "sub_element h element_name (Some c) =
     do { n \<leftarrow> h c;
          yes \<leftarrow> (if dn_type n = eELEMENT_NODE then map_option (\<lambda>name. name = element_name) (dn_name n) else Some False);
          if yes then Some (Some c) else sub_element h element_name (dn_next n) }"
  by (simp_all add: sub_element.simps)

lemma table_nodes:
  "table_heap 0 = Some (sample_node eELEMENT_NODE ''device'' None (Some 1) None None)"
  "table_heap (Suc 0) = Some (sample_node eELEMENT_NODE ''UDN'' (Some 0) (Some 3) None (Some 2))"
  "table_heap 2 = Some (sample_node eELEMENT_NODE ''serviceList'' (Some 0) (Some 4) (Some 1) None)"
  "table_heap 3 = Some ((sample_node eTEXT_NODE ''#text'' (Some 1) None None None)\<lparr>dn_value := Some ''uuid:1''\<rparr>)"
  "table_heap 4 = Some (sample_node eELEMENT_NODE ''service'' (Some 2) None None None)"
  "table_heap 5 = Some (sample_node eELEMENT_NODE ''device'' None None None None)"
  by (simp_all add: table_heap_def)

lemma table_list: "ixmlNode_getElementsByTagName table_heap 2 ''service'' [] = Some [Some 4]"
  by (simp add: ixmlNode_getElementsByTagName_def ixmlNode_getElementsByTagNameRecursive_def collect.simps[of _ _ "Some _"] collect.simps[of _ _ None]
      table_nodes sample_node_def tag_matches_def ixmlNodeList_addToNodeList_def ixmlNodeList_init_def)

lemma table_lists:
  "getServiceList table_env table_heap None 0 = Some ([table_service], Some (Some 0))"
  "getServiceList table_env table_heap None 5 = Some ([], None)"
  by (simp_all add: getServiceList_def getSubElement_def ixmlNode_getFirstChild_def walk_simps table_list table_nodes sample_node_def
      read_service_def sub_value_def sub_url_def getElementValue_def table_service_def last_pos_def)

theorem service_lists_joined_witness:
  "all_services table_env table_heap None [Some 0, Some 0] [] None None = Some ([table_service, table_service], Some 1) \<and>
   all_services table_env table_heap None [Some 0, Some 5, Some 0] [] None None = None"
proof -
  have "device_services table_env table_heap None [Some 0, Some 0] [[table_service], [table_service]]"
    "device_services table_env table_heap None [Some 0, Some 5, Some 0] [[table_service], [], [table_service]]"
    by (simp_all add: device_services_def table_lists)
  then show ?thesis using service_lists_joined by (fastforce simp: last_pos_def)
qed

text \<open>
  A service without an event URL is put into the table whatever else it lacks, since the missing
  URL sets the error flag back. Without an id every search by id that comes to it reads a null pointer.
\<close>

theorem service_without_id_faults:
  assumes "read_service E h b UDN node = Some r" "sub_url E h b ''eventSubURL'' node = Some None" "sub_value h ''serviceId'' node = Some None"
  shows "\<exists>s. r = Some s \<and> si_serviceId s = None \<and>
           FindServiceId \<lparr>st_URLBase = b, st_serviceList = s # ss, st_endServiceList = e\<rparr> serviceId udn = None"
  using assms by (auto simp: read_service_def Let_def bind_eq_Some_conv FindServiceId_def)

theorem service_without_id_faults_witness:
  "read_service table_env table_heap None 1 4 = Some (Some table_service) \<and>
   FindServiceId \<lparr>st_URLBase = None, st_serviceList = [table_service], st_endServiceList = Some 0\<rparr> ''i'' ''uuid:1'' = None"
proof -
  have r: "read_service table_env table_heap None 1 4 = Some (Some table_service)"
    "sub_url table_env table_heap None ''eventSubURL'' 4 = Some None" "sub_value table_heap ''serviceId'' 4 = Some None"
    by (simp_all add: getSubElement_def ixmlNode_getFirstChild_def walk_simps table_nodes sample_node_def
        read_service_def sub_value_def sub_url_def getElementValue_def table_service_def)
  then show ?thesis using service_without_id_faults[OF r, of "[]" "Some 0" "''i''" "''uuid:1''"] by simp
qed

end
