(* ===== verification/GenaDevice.thy ===== *)
theory GenaDevice
  imports ServiceTable Uuid
begin

section \<open>Event subscriptions of a device (gena/gena\_device.c, gena/gena\_callback2.c)\<close>

text \<open>
  A control point subscribes to the events of a service with a SUBSCRIBE request, renews and
  cancels the subscription, and is sent the events as NOTIFY messages by jobs of the thread pool.
  The requests are parsed messages of \<^theory_text>\<open>HttpParser\<close>; a reply is what is handed to the socket.

  The handles of the library (api/upnpapi.c) are a table of 200 entries under one mutex. A function
  that takes the mutex returns \<^term>\<open>None\<close> when it is never released, as it does for a fault.
\<close>

abbreviation (input) NUM_HANDLE :: nat where "NUM_HANDLE \<equiv> 200"
abbreviation (input) HND_INVALID :: int where "HND_INVALID \<equiv> -1"
abbreviation (input) HND_CLIENT :: int where "HND_CLIENT \<equiv> 0"
abbreviation (input) HND_DEVICE :: int where "HND_DEVICE \<equiv> 1"
abbreviation (input) UPNP_E_INVALID_HANDLE :: int where "UPNP_E_INVALID_HANDLE \<equiv> -100"
abbreviation (input) UPNP_E_INVALID_PARAM :: int where "UPNP_E_INVALID_PARAM \<equiv> -101"
abbreviation (input) UPNP_E_OUTOF_HANDLE :: int where "UPNP_E_OUTOF_HANDLE \<equiv> -102"
abbreviation (input) GENA_SUCCESS :: int where "GENA_SUCCESS \<equiv> 0"
abbreviation (input) GENA_E_BAD_SERVICE :: int where "GENA_E_BAD_SERVICE \<equiv> -111"
abbreviation (input) GENA_E_BAD_SID :: int where "GENA_E_BAD_SID \<equiv> -109"
abbreviation (input) GENA_E_BAD_HANDLE :: int where "GENA_E_BAD_HANDLE \<equiv> -100"
abbreviation (input) GENA_E_NOTIFY_UNACCEPTED :: int where "GENA_E_NOTIFY_UNACCEPTED \<equiv> -303"
abbreviation (input) GENA_E_NOTIFY_UNACCEPTED_REMOVE_SUB :: int where "GENA_E_NOTIFY_UNACCEPTED_REMOVE_SUB \<equiv> -9"
abbreviation (input) DEFAULT_TIMEOUT :: int where "DEFAULT_TIMEOUT \<equiv> 1801"
abbreviation (input) HTTP_OK :: int where "HTTP_OK \<equiv> 200"
abbreviation (input) HTTP_NOT_FOUND :: int where "HTTP_NOT_FOUND \<equiv> 404"
abbreviation (input) HTTP_PRECONDITION_FAILED :: int where "HTTP_PRECONDITION_FAILED \<equiv> 412"
abbreviation (input) HDR_CALLBACK :: int where "HDR_CALLBACK \<equiv> 2"
abbreviation (input) HDR_NT :: int where "HDR_NT \<equiv> 14"
abbreviation (input) HDR_SID :: int where "HDR_SID \<equiv> 18"
abbreviation (input) HDR_TIMEOUT :: int where "HDR_TIMEOUT \<equiv> 21"

subsection \<open>The table of handles\<close>

record Handle_Info =
  hi_HType :: int
  hi_ServiceTable :: service_table
  hi_MaxSubscriptions :: int
  hi_MaxSubscriptionTimeOut :: int

type_synonym handle_table = "Handle_Info option list"

definition InitHandleList :: handle_table where
  "InitHandleList = replicate NUM_HANDLE None"

function free_loop :: "handle_table \<Rightarrow> nat \<Rightarrow> nat" where
  "free_loop tab i =
     (if i < NUM_HANDLE then (if tab ! i = None then i + 1 else free_loop tab (i + 1)) else i)"
  by pat_completeness auto
termination by (relation "measure (\<lambda>(tab, i). NUM_HANDLE - i)") auto

declare free_loop.simps [simp del]

definition GetFreeHandle :: "handle_table \<Rightarrow> int" where
  "GetFreeHandle tab =
     (let i = free_loop tab 1 in if i = NUM_HANDLE then UPNP_E_OUTOF_HANDLE else int i - 1)"

definition GetHandleInfo :: "handle_table \<Rightarrow> int \<Rightarrow> int \<times> nat option" where
  "GetHandleInfo tab Hnd =
     (if Hnd < 1 \<or> Hnd \<ge> int NUM_HANDLE then (UPNP_E_INVALID_HANDLE, None)
      else (case tab ! nat Hnd of
              Some hi \<Rightarrow> (hi_HType hi, Some (nat Hnd))
            | None \<Rightarrow> (UPNP_E_INVALID_HANDLE, None)))"

definition one_of_two :: "int \<Rightarrow> handle_table \<Rightarrow> int \<times> int \<times> nat option" where
  "one_of_two ty tab =
     (case GetHandleInfo tab 1 of (t1, h1) \<Rightarrow>
      if t1 = ty then (ty, 1, h1)
      else (case GetHandleInfo tab 2 of (t2, h2) \<Rightarrow>
            if t2 = ty then (ty, 2, h2) else (HND_INVALID, -1, if h2 = None then h1 else h2)))"

definition GetClientHandleInfo :: "handle_table \<Rightarrow> int \<times> int \<times> nat option" where
  "GetClientHandleInfo tab = one_of_two HND_CLIENT tab"

definition GetDeviceHandleInfo :: "handle_table \<Rightarrow> int \<times> int \<times> nat option" where
  "GetDeviceHandleInfo tab = one_of_two HND_DEVICE tab"

definition FreeHandle :: "handle_table \<Rightarrow> int \<Rightarrow> int \<times> handle_table" where
  "FreeHandle tab Hnd =
     (if Hnd < 1 \<or> Hnd \<ge> int NUM_HANDLE \<or> tab ! nat Hnd = None then (UPNP_E_INVALID_HANDLE, tab)
      else (UPNP_E_SUCCESS, tab[nat Hnd := None]))"

record gena_state =
  gs_handles :: handle_table
  gs_locked :: bool

definition HandleLock :: "gena_state \<Rightarrow> gena_state option" where
  "HandleLock g = (if gs_locked g then None else Some (g\<lparr>gs_locked := True\<rparr>))"

definition HandleUnlock :: "gena_state \<Rightarrow> gena_state" where
  "HandleUnlock g = g\<lparr>gs_locked := False\<rparr>"

text \<open>Access to the service at a position of a handle's table.\<close>

definition handle_at :: "gena_state \<Rightarrow> nat \<Rightarrow> Handle_Info option" where
  "handle_at g h = gs_handles g ! h"

definition service_at :: "Handle_Info \<Rightarrow> nat \<Rightarrow> service_info" where
  "service_at hi i = st_serviceList (hi_ServiceTable hi) ! i"

definition set_service :: "gena_state \<Rightarrow> nat \<Rightarrow> Handle_Info \<Rightarrow> nat \<Rightarrow> service_info \<Rightarrow> gena_state" where
  "set_service g h hi i s =
     g\<lparr>gs_handles := (gs_handles g)[h := Some (hi\<lparr>hi_ServiceTable :=
         (hi_ServiceTable hi)\<lparr>st_serviceList := (st_serviceList (hi_ServiceTable hi))[i := s]\<rparr>\<rparr>)]\<rparr>"

subsection \<open>Texts\<close>

definition XML_PROPERTYSET_HEADER :: c_string where
  "XML_PROPERTYSET_HEADER = ''<e:propertyset xmlns:e=\"urn:schemas-upnp-org:event-1-0\">\<newline>''"

text \<open>
  \<open>GeneratePropertySet\<close> computes a size in an \<^verbatim>\<open>int\<close>, allocates it and one byte more, and writes the
  text; a text longer than the block is a fault.
\<close>

definition propertyset_size :: "(c_string \<times> c_string) list \<Rightarrow> nat" where
  "propertyset_size vars =
     length XML_PROPERTYSET_HEADER + length ''</e:propertyset>\<newline>\<newline>'' +
     sum_list (map (\<lambda>(name, val). length ''<e:property>\<newline></e:property>\<newline>'' +
                                 (2 * length name + length val + length ''<></>\<newline>'')) vars)"

definition propertyset_text :: "(c_string \<times> c_string) list \<Rightarrow> c_string" where
  "propertyset_text vars =
     XML_PROPERTYSET_HEADER @
     concat (map (\<lambda>(name, val). ''<e:property>\<newline>'' @ ''<'' @ name @ ''>'' @ val @ ''</'' @ name @ ''>\<newline></e:property>\<newline>'') vars) @
     ''</e:propertyset>\<newline>\<newline>''"

definition GeneratePropertySet :: "allocator \<Rightarrow> (c_string \<times> c_string) list \<Rightarrow> (int \<times> c_string) option" where
  "GeneratePropertySet A vars =
     (case c_malloc A (nat ((wrap32 (int (propertyset_size vars)) + 1) mod 2 ^ 64)) of
        None \<Rightarrow> Some (UPNP_E_OUTOF_MEMORY, [])
      | Some block \<Rightarrow>
          if length (propertyset_text vars) + 1 \<le> length block then Some (UPNP_E_SUCCESS, propertyset_text vars) else None)"

definition headers_size :: nat where
  "headers_size =
     length (''CONTENT-TYPE text/xml; charset=UTF-8'' @ CRLF) + length (''CONTENT-LENGTH: '' @ CRLF) + 20 +
     length (''NT: upnp:event'' @ CRLF) + length (''NTS: upnp:propchange'' @ CRLF) + 1"

definition notify_headers :: "c_string \<Rightarrow> c_string" where
  "notify_headers propertySet =
     ''CONTENT-TYPE: text/xml; charset=UTF-8'' @ CRLF @ ''CONTENT-LENGTH: '' @ dec (length propertySet + 1) @
     CRLF @ ''NT: upnp:event'' @ CRLF @ ''NTS: upnp:propchange'' @ CRLF"

subsection \<open>Callback URLs\<close>

text \<open>
  A callback header holds URLs in angle brackets. They are counted in the header first; then the
  header is copied, an array of that many URIs is allocated (\<open>raw\<close> is what it holds) and the URLs are
  parsed again, each into the entry behind the accepted ones. Writing behind the array is a fault.
\<close>

definition url_starts :: "c_string \<Rightarrow> nat list" where
  "url_starts t = filter (\<lambda>i. t ! i = CHR ''<'' \<and> i + 1 < length t) [0..<length t]"

definition parse_at :: "resolver \<Rightarrow> allocator \<Rightarrow> c_ptr \<Rightarrow> uri_type \<Rightarrow> nat \<Rightarrow> int \<times> uri_type" where
  "parse_at R A p u i = parse_uri R A (advance p (i + 1)) (length (snd p) - i + 1) u"

definition usable :: "int \<times> uri_type \<Rightarrow> bool" where
  "usable r \<longleftrightarrow> fst r = HTTP_SUCCESS \<and> tk_size (hp_text (uri_hostport (snd r))) \<noteq> 0"

fun count_urls :: "resolver \<Rightarrow> allocator \<Rightarrow> c_ptr \<Rightarrow> uri_type \<Rightarrow> nat list \<Rightarrow> nat \<Rightarrow> int + nat" where
  "count_urls R A p temp [] n = Inr n"
| "count_urls R A p temp (i # is) n =
     (let r = parse_at R A p temp i in
      if usable r then count_urls R A p (snd r) is (n + 1)
      else if fst r = UPNP_E_OUTOF_MEMORY then Inl UPNP_E_OUTOF_MEMORY
      else count_urls R A p (snd r) is n)"

fun store_urls :: "resolver \<Rightarrow> allocator \<Rightarrow> c_ptr \<Rightarrow> nat list \<Rightarrow> uri_type list \<Rightarrow> nat \<Rightarrow> (int + uri_type list \<times> nat) option" where
  "store_urls R A p [] arr n = Some (Inr (arr, n))"
| "store_urls R A p (i # is) arr n =
     (if length arr \<le> n then None
      else
        (let r = parse_at R A p (arr ! n) i; arr' = arr[n := snd r] in
         if usable r then store_urls R A p is arr' (n + 1)
         else if fst r = UPNP_E_OUTOF_MEMORY then Some (Inl UPNP_E_OUTOF_MEMORY)
         else store_urls R A p is arr' n))"

definition no_urls :: URL_list where
  "no_urls = \<lparr>ul_size = 0, ul_URLs = (0, []), ul_parsedURLs = []\<rparr>"

definition create_url_list ::
  "resolver \<Rightarrow> allocator \<Rightarrow> int \<Rightarrow> uri_type \<Rightarrow> (nat \<Rightarrow> uri_type list option) \<Rightarrow> c_ptr \<Rightarrow> (int \<times> URL_list) option" where
  "create_url_list R A fresh temp raw url_list =
     (case count_urls R A url_list temp (url_starts (snd url_list)) 0 of
        Inl rc \<Rightarrow> Some (rc, no_urls)
      | Inr URLcount \<Rightarrow>
          if URLcount = 0 then Some (0, no_urls)
          else
            (case (c_malloc A (length (snd url_list) + 1), raw URLcount) of
               (Some _, Some arr) \<Rightarrow>
                 do { r \<leftarrow> store_urls R A (fresh, snd url_list) (url_starts (snd url_list)) arr 0;
                      Some (case r of
                              Inl rc \<Rightarrow> (rc, no_urls)
                            | Inr (arr', n) \<Rightarrow> (int n, \<lparr>ul_size = n, ul_URLs = (fresh, snd url_list), ul_parsedURLs = arr'\<rparr>)) }
             | _ \<Rightarrow> Some (UPNP_E_OUTOF_MEMORY, no_urls)))"

subsection \<open>Replies\<close>

text \<open>
  What is sent on the connection of a request: a status line, or the acceptance of a subscription
  with its SID and TIMEOUT headers. The environment of a request: the URI code with its stack
  variables, the clock, the next UUID, whether memory for a subscription is granted, the address of
  the header and of its copy, and whether the reply can be made and sent.
\<close>

datatype reply = Status int | Accepted c_string c_string

record gena_env =
  en_url :: url_env
  en_stack1 :: parsed_path
  en_stack2 :: parsed_path
  en_now :: int
  en_uid :: uuid_upnp
  en_mem :: bool
  en_hdr :: int
  en_copy :: int
  en_raw :: "nat \<Rightarrow> uri_type list option"
  en_made :: bool
  en_sent :: int

definition error_respond :: "int \<Rightarrow> reply list" where
  "error_respond error_code = [Status error_code]"

definition timeout_str :: "int \<Rightarrow> c_string" where
  "timeout_str time_out =
     (if time_out \<ge> 0 then ''TIMEOUT: Second-'' @ dec (nat time_out) else ''TIMEOUT: Second-infinite'')"

definition respond_ok :: "gena_env \<Rightarrow> int \<Rightarrow> subscription \<Rightarrow> int \<times> reply list" where
  "respond_ok env time_out sub =
     (if \<not> en_made env then (UPNP_E_OUTOF_MEMORY, error_respond HTTP_INTERNAL_SERVER_ERROR)
      else (en_sent env, if en_sent env = UPNP_E_SUCCESS then [Accepted (su_sid sub) (timeout_str time_out)] else []))"

definition header_text :: "http_message_t \<Rightarrow> int \<Rightarrow> c_string option" where
  "header_text request name = map_option (hdr_value request) (httpmsg_find_hdr request name)"

text \<open>The path of the request URL, a token of the copy that the parser made.\<close>

definition request_path :: "http_message_t \<Rightarrow> c_string" where
  "request_path request =
     (case hm_urlbuf request of None \<Rightarrow> [] | Some b \<Rightarrow> tok_text (0, b) (uri_pathquery (hm_uri request)))"

definition no_uri_conv :: "gena_env \<Rightarrow> c_string \<Rightarrow> int \<times> uri_type" where
  "no_uri_conv env s = (UPNP_E_INVALID_URL, ue_base (en_url env))"

text \<open>The timeout a request asks for, and the bound of the device on it.\<close>

definition requested_timeout :: "gena_env \<Rightarrow> http_message_t \<Rightarrow> int option" where
  "requested_timeout env request =
     (case header_text request HDR_TIMEOUT of
        None \<Rightarrow> Some 1801
      | Some t \<Rightarrow>
          do { (st, caps) \<leftarrow> matchstr (no_uri_conv env) t (length t) ''%iSecond-%d%0'';
               case (st, caps) of
                 (PARSE_OK, [CapInt n]) \<Rightarrow> Some n
               | (PARSE_OK, _) \<Rightarrow> None
               | _ \<Rightarrow> Some (if memptr_cmp_nocase (as_memptr t) ''Second-infinite'' = 0 then -1 else DEFAULT_TIMEOUT) })"

definition limit_timeout :: "Handle_Info \<Rightarrow> int \<Rightarrow> int" where
  "limit_timeout hi time_out =
     (if hi_MaxSubscriptionTimeOut hi \<noteq> -1 \<and> (time_out = -1 \<or> time_out > hi_MaxSubscriptionTimeOut hi)
      then hi_MaxSubscriptionTimeOut hi else time_out)"


subsection \<open>The requests of control points\<close>

text \<open>
  Each request handler returns the replies, the state, and for an accepted subscription the
  request struct (service id, UDN, SID) that is handed to the callback of the application after
  the mutex is released.
\<close>

type_synonym handled = "reply list \<times> gena_state \<times> (c_string option \<times> c_string option \<times> c_string) option"

text \<open>The end of a handler that has taken the mutex and releases it.\<close>

definition refuse :: "int \<Rightarrow> gena_state \<Rightarrow> handled option" where
  "refuse error_code g = Some (error_respond error_code, HandleUnlock g, None)"

definition new_subscription :: subscription where
  "new_subscription =
     \<lparr>su_sid = [], su_eventKey = 0, su_ToSendEventKey = 0, su_expireTime = 0, su_active = False, su_DeliveryURLs = no_urls\<rparr>"

definition event_service :: "gena_env \<Rightarrow> Handle_Info \<Rightarrow> c_string \<Rightarrow> nat option" where
  "event_service env hi path =
     FindServiceEventURLPath (ue_resolver (en_url env)) (ue_allocator (en_url env)) (en_stack1 env) (en_stack2 env)
       (hi_ServiceTable hi) path"

text \<open>What follows when the service is found and has room: the new subscription is made and accepted.\<close>

definition accept_subscription ::
  "gena_env \<Rightarrow> http_message_t \<Rightarrow> gena_state \<Rightarrow> nat \<Rightarrow> Handle_Info \<Rightarrow> nat \<Rightarrow> service_info \<Rightarrow> handled option" where
  "accept_subscription env request g h hi i service =
     (if \<not> en_mem env then refuse HTTP_INTERNAL_SERVER_ERROR g
      else
        (case header_text request HDR_CALLBACK of
           None \<Rightarrow> refuse HTTP_PRECONDITION_FAILED g
         | Some callback_hdr \<Rightarrow>
             do { (return_code, urls) \<leftarrow> create_url_list (ue_resolver (en_url env)) (ue_allocator (en_url env))
                    (en_copy env) (ue_rel (en_url env)) (en_raw env) (en_hdr env, callback_hdr);
                  if return_code = 0 then refuse HTTP_PRECONDITION_FAILED g
                  else if return_code = UPNP_E_OUTOF_MEMORY then refuse HTTP_INTERNAL_SERVER_ERROR g
                  else
                    do { requested \<leftarrow> requested_timeout env request;
                         let time_out = limit_timeout hi requested;
                         let sub = new_subscription
                               \<lparr>su_DeliveryURLs := urls,
                                su_expireTime := (if time_out \<ge> 0 then en_now env + time_out else 0),
                                su_sid := ''uuid:'' @ uuid_unpack (en_uid env)\<rparr>;
                         let (rc, replies) = respond_ok env time_out sub;
                         if rc \<noteq> UPNP_E_SUCCESS then Some (replies, HandleUnlock g, None)
                         else Some (replies,
                               HandleUnlock (set_service g h hi i
                                 (service\<lparr>si_subscriptionList := sub # si_subscriptionList service,
                                          si_TotalSubscriptions := si_TotalSubscriptions service + 1\<rparr>)),
                               Some (si_serviceId service, si_UDN service, su_sid sub)) } }))"

definition gena_process_subscription_request ::
  "gena_env \<Rightarrow> http_message_t \<Rightarrow> gena_state \<Rightarrow> handled option" where
  "gena_process_subscription_request env request g =
     (case header_text request HDR_NT of
        None \<Rightarrow> Some (error_respond HTTP_BAD_REQUEST, g, None)
      | Some nt_hdr \<Rightarrow>
          if memptr_cmp_nocase (as_memptr nt_hdr) ''upnp:event'' \<noteq> 0
          then Some (error_respond HTTP_PRECONDITION_FAILED, g, None)
          else if httpmsg_find_hdr request HDR_SID \<noteq> None
          then Some (error_respond HTTP_BAD_REQUEST, g, None)
          else
            do { r \<leftarrow> str_alloc (ue_allocator (en_url env)) (request_path request) (length (request_path request));
                 case r of
                   None \<Rightarrow> Some (error_respond HTTP_INTERNAL_SERVER_ERROR, g, None)
                 | Some event_url_path \<Rightarrow>
                     do { g \<leftarrow> HandleLock g;
                          case GetDeviceHandleInfo (gs_handles g) of
                            (ty, _, hnd) \<Rightarrow>
                              if ty \<noteq> HND_DEVICE then refuse HTTP_INTERNAL_SERVER_ERROR g
                              else
                                do { h \<leftarrow> hnd;
                                     hi \<leftarrow> handle_at g h;
                                     case event_service env hi (cstr event_url_path) of
                                       None \<Rightarrow> refuse HTTP_NOT_FOUND g
                                     | Some i \<Rightarrow>
                                         (let service = service_at hi i in
                                          if \<not> si_active service then refuse HTTP_NOT_FOUND g
                                          else if hi_MaxSubscriptions hi \<noteq> -1 \<and>
                                                  si_TotalSubscriptions service \<ge> hi_MaxSubscriptions hi
                                          then refuse HTTP_INTERNAL_SERVER_ERROR g
                                          else accept_subscription env request g h hi i service) } } })"

text \<open>
  What renewal and cancellation do first: no CALLBACK and no NT header may be there, the SID must
  fit, and the path is copied into a buffer. Nothing is copied of an empty path, and the buffer is
  then a null pointer that \<^verbatim>\<open>strlen\<close> faults on.
\<close>

definition sid_request ::
  "gena_env \<Rightarrow> http_message_t \<Rightarrow> gena_state \<Rightarrow> (c_string \<Rightarrow> c_string \<Rightarrow> handled option) \<Rightarrow> handled option" where
  "sid_request env request g go_on =
     (if httpmsg_find_hdr request HDR_CALLBACK \<noteq> None \<or> httpmsg_find_hdr request HDR_NT \<noteq> None
      then Some (error_respond HTTP_BAD_REQUEST, g, None)
      else
        (case header_text request HDR_SID of
           None \<Rightarrow> Some (error_respond HTTP_PRECONDITION_FAILED, g, None)
         | Some sid \<Rightarrow>
             if length sid > SID_SIZE then Some (error_respond HTTP_PRECONDITION_FAILED, g, None)
             else
               do { (rc, event_url_path) \<leftarrow> membuffer_append (ue_allocator (en_url env)) (membuffer_init zero_membuffer)
                      (Some (request_path request)) (length (request_path request));
                    if rc \<noteq> 0 then Some (error_respond HTTP_INTERNAL_SERVER_ERROR, g, None)
                    else go_on (cstr sid) (case mb_buf event_url_path of None \<Rightarrow> [] | Some b \<Rightarrow> b) }))"

text \<open>
  The lookups under the mutex that both make: the device, the service of the path, the subscription.
\<close>

definition find_subscription ::
  "gena_env \<Rightarrow> c_string \<Rightarrow> c_block \<Rightarrow> gena_state \<Rightarrow> nat \<Rightarrow> ((nat \<times> Handle_Info \<times> nat \<times> nat) option \<times> gena_state) option" where
  "find_subscription env sid path g h =
     do { hi \<leftarrow> handle_at g h;
          if path = [] then None
          else
            (case event_service env hi (cstr path) of
               None \<Rightarrow> Some (None, g)
             | Some i \<Rightarrow>
                 if \<not> si_active (service_at hi i) then Some (None, g)
                 else
                   (case GetSubscriptionSID (en_now env) sid (service_at hi i) of
                      (r, service) \<Rightarrow>
                        (let g1 = set_service g h hi i service in
                         case r of
                           None \<Rightarrow> Some (None, g1)
                         | Some k \<Rightarrow> do { hi1 \<leftarrow> handle_at g1 h; Some (Some (h, hi1, i, k), g1) }))) }"

text \<open>Without a device the mutex is not released.\<close>

definition gena_process_subscription_renewal_request ::
  "gena_env \<Rightarrow> http_message_t \<Rightarrow> gena_state \<Rightarrow> handled option" where
  "gena_process_subscription_renewal_request env request g =
     sid_request env request g (\<lambda>sid path.
       do { g \<leftarrow> HandleLock g;
            case GetDeviceHandleInfo (gs_handles g) of
              (ty, _, hnd) \<Rightarrow>
                if ty \<noteq> HND_DEVICE then Some (error_respond HTTP_PRECONDITION_FAILED, g, None)
                else
                  do { h \<leftarrow> hnd;
                       (found, g) \<leftarrow> find_subscription env sid path g h;
                       case found of
                         None \<Rightarrow> refuse HTTP_PRECONDITION_FAILED g
                       | Some (h, hi, i, k) \<Rightarrow>
                           (let service = service_at hi i; sub = si_subscriptionList service ! k in
                            if hi_MaxSubscriptions hi \<noteq> -1 \<and> si_TotalSubscriptions service > hi_MaxSubscriptions hi
                            then refuse HTTP_INTERNAL_SERVER_ERROR
                                   (set_service g h hi i (RemoveSubscriptionSID (su_sid sub) service))
                            else
                              do { requested \<leftarrow> requested_timeout env request;
                                   let time_out = limit_timeout hi requested;
                                   let sub1 = sub\<lparr>su_expireTime := (if time_out = -1 then 0 else en_now env + time_out)\<rparr>;
                                   let service1 = service\<lparr>si_subscriptionList := (si_subscriptionList service)[k := sub1]\<rparr>;
                                   let (rc, replies) = respond_ok env time_out sub1;
                                   Some (replies,
                                     HandleUnlock (set_service g h hi i
                                       (if rc \<noteq> UPNP_E_SUCCESS then RemoveSubscriptionSID (su_sid sub1) service1 else service1)),
                                     None) }) } })"

definition gena_process_unsubscribe_request ::
  "gena_env \<Rightarrow> http_message_t \<Rightarrow> gena_state \<Rightarrow> handled option" where
  "gena_process_unsubscribe_request env request g =
     sid_request env request g (\<lambda>sid path.
       do { g \<leftarrow> HandleLock g;
            case GetDeviceHandleInfo (gs_handles g) of
              (ty, _, hnd) \<Rightarrow>
                if ty \<noteq> HND_DEVICE then refuse HTTP_PRECONDITION_FAILED g
                else
                  do { h \<leftarrow> hnd;
                       (found, g) \<leftarrow> find_subscription env sid path g h;
                       case found of
                         None \<Rightarrow> refuse HTTP_PRECONDITION_FAILED g
                       | Some (h, hi, i, k) \<Rightarrow>
                           Some (error_respond HTTP_OK,
                             HandleUnlock (set_service g h hi i (RemoveSubscriptionSID sid (service_at hi i))), None) } })"

text \<open>The dispatch of \<^verbatim>\<open>genaCallback\<close>; what a control point does with a NOTIFY is the argument \<open>notified\<close>.\<close>

definition genaCallback ::
  "(http_message_t \<Rightarrow> gena_state \<Rightarrow> handled option) \<Rightarrow> gena_env \<Rightarrow> http_message_t \<Rightarrow> gena_state \<Rightarrow> handled option" where
  "genaCallback notified env request g =
     (if hm_method request = HTTPMETHOD_SUBSCRIBE
      then (if httpmsg_find_hdr request HDR_NT = None
            then gena_process_subscription_renewal_request env request g
            else gena_process_subscription_request env request g)
      else if hm_method request = HTTPMETHOD_UNSUBSCRIBE then gena_process_unsubscribe_request env request g
      else if hm_method request = HTTPMETHOD_NOTIFY then notified request g
      else Some (error_respond HTTP_NOT_IMPLEMENTED, g, None))"


end
