(* ===== verification/GenaRequests.thy ===== *)
theory GenaRequests
  imports GenaDevice
begin

section \<open>What the requests of control points do to a device\<close>

text \<open>
  The properties of the request handlers of \<^theory_text>\<open>GenaDevice\<close>: which callback lists overrun their array,
  the outcomes of subscribing, renewing and cancelling, the invariant of the services, and the paths on
  which the mutex is kept or a null pointer is read.
\<close>

subsection \<open>Callback lists\<close>

text \<open>Whether a URL is accepted does not depend on its address or on what the URI variable held before.\<close>

lemma resolve_host_code: "fst (resolve_host R h d sa) = fst (resolve_host R h d sa')"
  by (auto simp: resolve_host_def Let_def split: option.splits prod.splits)

lemma host_result:
  fixes c d :: int
  assumes "\<And>sa sa'. fst (f sa) = fst (f sa')"
  shows "fst (if P then (c, x1) else if Q then (d, x2)
              else (case f x3 of (ok, sa) \<Rightarrow> if ok then (int n, \<lparr>hp_text = \<lparr>tk_buff = b, tk_size = n\<rparr>, hp_IPv4address = sa\<rparr>) else (c, g sa))) =
         fst (if P then (c, x1') else if Q then (d, x2')
              else (case f x3' of (ok, sa) \<Rightarrow> if ok then (int n, \<lparr>hp_text = \<lparr>tk_buff = b', tk_size = n\<rparr>, hp_IPv4address = sa\<rparr>) else (c, g' sa)))"
    and "c < 0 \<Longrightarrow> d < 0 \<Longrightarrow> fst (if P then (c, x1) else if Q then (d, x2)
              else (case f x3 of (ok, sa) \<Rightarrow> if ok then (int n, \<lparr>hp_text = \<lparr>tk_buff = b, tk_size = n\<rparr>, hp_IPv4address = sa\<rparr>) else (c, g sa))) \<ge> 0 \<Longrightarrow>
      tk_size (hp_text (snd (if P then (c, x1) else if Q then (d, x2)
              else (case f x3 of (ok, sa) \<Rightarrow> if ok then (int n, \<lparr>hp_text = \<lparr>tk_buff = b, tk_size = n\<rparr>, hp_IPv4address = sa\<rparr>) else (c, g sa))))) = tk_size (hp_text (snd (if P then (c, x1') else if Q then (d, x2')
              else (case f x3' of (ok, sa) \<Rightarrow> if ok then (int n, \<lparr>hp_text = \<lparr>tk_buff = b', tk_size = n\<rparr>, hp_IPv4address = sa\<rparr>) else (c, g' sa)))))"
  using assms[of x3 x3'] by (auto split: prod.splits if_splits)

lemma parse_hostport_code:
  shows "fst (parse_hostport R A p mx out) = fst (parse_hostport R A (a, snd p) mx out')"
    and "fst (parse_hostport R A p mx out) \<ge> 0 \<Longrightarrow>
      tk_size (hp_text (snd (parse_hostport R A p mx out))) = tk_size (hp_text (snd (parse_hostport R A (a, snd p) mx out')))"
proof -
  obtain hs ld where h: "host_loop (snd p) 0 (-1) mx = (hs, ld)" by fastforce
  obtain dg pt where d: "parse_port (mx - (hs + 1)) (drop (hs + 1) (snd p)) = (dg, pt)" by fastforce
  show "fst (parse_hostport R A p mx out) = fst (parse_hostport R A (a, snd p) mx out')"
    unfolding parse_hostport_def Let_def snd_conv h d prod.case by (rule host_result, rule resolve_host_code)
  show "fst (parse_hostport R A p mx out) \<ge> 0 \<Longrightarrow>
      tk_size (hp_text (snd (parse_hostport R A p mx out))) = tk_size (hp_text (snd (parse_hostport R A (a, snd p) mx out')))"
    unfolding parse_hostport_def Let_def snd_conv h d prod.case by (rule host_result(2), rule resolve_host_code, simp_all)
qed

lemma parse_uri_tail_host: "uri_hostport (parse_uri_tail p mx k out) = uri_hostport out"
  by (auto simp: parse_uri_tail_def Let_def split: prod.splits)

lemma parse_uri_usable:
  "fst (parse_uri R A p mx out) = fst (parse_uri R A (a, snd p) mx out') \<and>
   usable (parse_uri R A p mx out) = usable (parse_uri R A (a, snd p) mx out')"
proof -
  obtain sz sch where s: "parse_scheme p mx = (sz, sch)" by fastforce
  have "fst (parse_scheme (a, snd p) mx) = fst (parse_scheme p mx)" by (simp add: parse_scheme_def split: option.splits)
  then obtain sch' where s': "parse_scheme (a, snd p) mx = (sz, sch')" using s by (metis fst_conv prod.collapse)
  let ?bh = "if sz \<noteq> 0 then sz + 1 else 0"
  let ?H = "\<lambda>o1. parse_hostport R A (advance p (?bh + 2)) (mx - (?bh + 2)) o1"
  let ?H' = "\<lambda>o1. parse_hostport R A (advance (a, snd p) (?bh + 2)) (mx - (?bh + 2)) o1"
  have hp: "fst (?H o1) = fst (?H' o2)" "fst (?H o1) \<ge> 0 \<Longrightarrow> tk_size (hp_text (snd (?H o1))) = tk_size (hp_text (snd (?H' o2)))" for o1 o2
    using parse_hostport_code[of R A "advance p (?bh + 2)" "mx - (?bh + 2)" o1 "a + int (?bh + 2)" o2] by (simp_all add: advance_def)
  show ?thesis
  proof (cases "?bh + 1 < mx \<and> rd (snd p) ?bh = CHR ''/'' \<and> rd (snd p) (?bh + 1) = CHR ''/''")
    case True
    obtain n hp1 hp2 where H: "?H (uri_hostport out) = (n, hp1)" "?H' (uri_hostport out') = (n, hp2)" using hp(1) by (metis prod.collapse)
    have u: "uri_hostport (if b then out\<lparr>uri_scheme := x, uri_ty := y, uri_path_type := z\<rparr> else out\<lparr>uri_scheme := x, uri_ty := y', uri_path_type := z'\<rparr>) = uri_hostport out"
      for b x y z y' z' and out :: uri_type by simp
    have "n \<ge> 0 \<Longrightarrow> tk_size (hp_text hp1) = tk_size (hp_text hp2)" using hp(2)[of "uri_hostport out" "uri_hostport out'"] H by simp
    then show ?thesis
      using True unfolding parse_uri_def s s' prod.case Let_def snd_conv u H
      by (simp only: if_True simp_thms H prod.case fst_conv snd_conv usable_def parse_uri_tail_host split: if_split) auto
  next
    case False
    then show ?thesis
      unfolding parse_uri_def s s' prod.case Let_def snd_conv usable_def
      by (simp only: if_False fst_conv snd_conv parse_uri_tail_host) (simp add: NULL_token_def)
  qed
qed


text \<open>The URLs of a callback header that count: the text after the bracket parses and names a host.\<close>

definition url_accepted :: "resolver \<Rightarrow> allocator \<Rightarrow> c_string \<Rightarrow> nat \<Rightarrow> bool" where
  "url_accepted R A t i \<longleftrightarrow> usable (parse_at R A (0, t) blank_uri i)"

definition urls_granted :: "resolver \<Rightarrow> allocator \<Rightarrow> c_string \<Rightarrow> bool" where
  "urls_granted R A t \<longleftrightarrow> (\<forall>i\<in>set (url_starts t). fst (parse_at R A (0, t) blank_uri i) \<noteq> UPNP_E_OUTOF_MEMORY)"

lemma parse_at_any:
  "fst (parse_at R A (a, t) u i) = fst (parse_at R A (0, t) blank_uri i)"
  "usable (parse_at R A (a, t) u i) \<longleftrightarrow> url_accepted R A t i"
  using parse_uri_usable[of R A "advance (a, t) (i + 1)" "length t - i + 1" u "int (i + 1)" blank_uri]
  by (simp_all add: parse_at_def url_accepted_def advance_def)

lemma count_urls_all:
  "\<forall>i\<in>set is. fst (parse_at R A (0, t) blank_uri i) \<noteq> UPNP_E_OUTOF_MEMORY \<Longrightarrow>
     count_urls R A (a, t) u is n = Inr (n + length (filter (url_accepted R A t) is))"
  by (induction "is" arbitrary: u n) (simp_all add: Let_def parse_at_any[of R A a t])

lemma store_urls_all:
  "\<forall>i\<in>set is. fst (parse_at R A (0, t) blank_uri i) \<noteq> UPNP_E_OUTOF_MEMORY \<Longrightarrow>
     length arr = n + length (filter (url_accepted R A t) is) \<Longrightarrow>
     (if is \<noteq> [] \<and> \<not> url_accepted R A t (last is) then store_urls R A (a, t) is arr n = None
      else \<exists>arr'. store_urls R A (a, t) is arr n = Some (Inr (arr', length arr)) \<and> length arr' = length arr)"
proof (induction "is" arbitrary: arr n)
  case (Cons i "is")
  let ?arr = "arr[n := snd (parse_at R A (a, t) (arr ! n) i)]"
  show ?case
  proof (cases "length arr \<le> n")
    case True
    then have "filter (url_accepted R A t) (i # is) = []" using Cons.prems(2) by simp
    then have "\<not> url_accepted R A t (last (i # is))" by (metis filter_empty_conv last_in_set list.distinct(1))
    then show ?thesis using True by simp
  next
    case False
    show ?thesis
    proof (cases "url_accepted R A t i")
      case True
      then show ?thesis using False Cons.prems Cons.IH[of ?arr "Suc n"]
        by (cases "is = []") (simp_all add: Let_def parse_at_any[of R A a t] split: if_splits)
    next
      case no: False
      then have "is \<noteq> []" using False Cons.prems(2) by auto
      then show ?thesis using False no Cons.prems Cons.IH[of ?arr n] by (simp add: Let_def parse_at_any[of R A a t] split: if_splits)
    qed
  qed
qed simp

text \<open>
  C2: the URLs of a callback header are counted first and then parsed again into an array of that
  size. The second pass leaves the array exactly when the last opening bracket of the header is not
  followed by an acceptable URL, although there is one before: the header of a subscription request
  makes the device write behind a block of its heap. In all other cases the list has exactly the
  acceptable URLs, and without one nothing is allocated.
\<close>

theorem callback_overflow:
  assumes good: "good = filter (url_accepted R A t) (url_starts t)"
    and granted: "urls_granted R A t" "c_malloc A (length t + 1) \<noteq> None" "raw (length good) = Some arr" "length arr = length good"
  shows "case create_url_list R A fresh temp raw (a, t) of
           None \<Rightarrow> good \<noteq> [] \<and> \<not> url_accepted R A t (last (url_starts t))
         | Some (rc, urls) \<Rightarrow> (good = [] \<or> url_accepted R A t (last (url_starts t))) \<and>
             rc = int (length good) \<and> ul_size urls = length good \<and> length (ul_parsedURLs urls) = length good"
proof -
  have count: "count_urls R A (a, t) temp (url_starts t) 0 = Inr (length good)"
    using count_urls_all granted(1) by (simp add: urls_granted_def good)
  have store: "if url_starts t \<noteq> [] \<and> \<not> url_accepted R A t (last (url_starts t)) then store_urls R A (fresh, t) (url_starts t) arr 0 = None
      else \<exists>arr'. store_urls R A (fresh, t) (url_starts t) arr 0 = Some (Inr (arr', length arr)) \<and> length arr' = length arr"
    using store_urls_all[of "url_starts t" R A t arr 0 fresh] granted by (simp add: urls_granted_def good)
  have ne: "good \<noteq> [] \<Longrightarrow> url_starts t \<noteq> []" by (auto simp: good)
  obtain b where b: "c_malloc A (length t + 1) = Some b" using granted(2) by blast
  show ?thesis
  proof (cases "good = []")
    case True
    then show ?thesis using count by (simp add: create_url_list_def no_urls_def)
  next
    case False
    then have "create_url_list R A fresh temp raw (a, t) =
        do { r \<leftarrow> store_urls R A (fresh, t) (url_starts t) arr 0;
             Some (case r of Inl rc \<Rightarrow> (rc, no_urls)
                   | Inr (arr', n) \<Rightarrow> (int n, \<lparr>ul_size = n, ul_URLs = (fresh, t), ul_parsedURLs = arr'\<rparr>)) }"
      using count b granted(3) unfolding create_url_list_def snd_conv count sum.case by simp
    then show ?thesis using store ne[OF False] False granted(4) by (cases "url_accepted R A t (last (url_starts t))") auto
  qed
qed

theorem callback_overflow_witness:
  "create_url_list one_host all_granted 1 blank_uri (\<lambda>n. Some (replicate n blank_uri)) (2, ''<http://tomb/><b>'') = None"
proof -
  let ?t = "''<http://tomb/><b>''"
  have ok: "url_accepted one_host all_granted ?t 0" "\<not> url_accepted one_host all_granted ?t 14" "url_starts ?t = [0, 14]"
    "urls_granted one_host all_granted ?t"
    by code_simp+
  have good: "[0] = filter (url_accepted one_host all_granted ?t) (url_starts ?t)" by (simp add: ok)
  have malloc: "c_malloc all_granted (length ?t + 1) \<noteq> None" by (simp add: c_malloc_def all_granted_def grants_def)
  show ?thesis
    using callback_overflow[OF good ok(4) malloc, of "\<lambda>n. Some (replicate n blank_uri)" "[blank_uri]" 1 blank_uri 2] ok(2,3)
    by (auto split: option.splits)
qed

subsection \<open>The state between requests\<close>

definition handle_ok :: "Handle_Info \<Rightarrow> bool" where
  "handle_ok hi \<longleftrightarrow> (\<forall>s\<in>set (st_serviceList (hi_ServiceTable hi)). service_ok s)"

definition handles_ok :: "handle_table \<Rightarrow> bool" where
  "handles_ok tab \<longleftrightarrow> length tab = NUM_HANDLE \<and> (\<forall>hi. Some hi \<in> set tab \<longrightarrow> handle_ok hi)"

definition all_sids :: "handle_table \<Rightarrow> c_string set" where
  "all_sids tab = {su_sid s | s hi service. Some hi \<in> set tab \<and> service \<in> set (st_serviceList (hi_ServiceTable hi)) \<and>
                     s \<in> set (si_subscriptionList service)}"

lemma find_path_Some: "find_path R A url p q ss = Some i \<Longrightarrow> i < length ss"
  by (induction ss arbitrary: p i) (auto split: option.splits prod.splits if_splits)

lemma event_service_pos: "event_service env hi path = Some i \<Longrightarrow> i < length (st_serviceList (hi_ServiceTable hi))"
  by (auto simp: event_service_def FindServiceEventURLPath_def find_by_path_def find_path_Some split: prod.splits if_splits)

lemma GetDeviceHandleInfo_pos:
  assumes "GetDeviceHandleInfo tab = (HND_DEVICE, k, Some h)"
  shows "h < NUM_HANDLE" "\<exists>hi. tab ! h = Some hi \<and> hi_HType hi = HND_DEVICE" "k = int h"
  using assms by (auto simp: GetDeviceHandleInfo_def one_of_two_def GetHandleInfo_def split: prod.splits if_splits option.splits)

lemma GetDeviceHandleInfo_None: "GetDeviceHandleInfo tab \<noteq> (HND_DEVICE, k, None)"
  by (auto simp: GetDeviceHandleInfo_def one_of_two_def GetHandleInfo_def split: prod.splits if_splits option.splits)

lemma service_at_ok:
  assumes "handles_ok tab" "h < NUM_HANDLE" "tab ! h = Some hi" "i < length (st_serviceList (hi_ServiceTable hi))"
  shows "service_ok (service_at hi i)"
proof -
  have "Some hi \<in> set tab" using assms(1-3) nth_mem[of h tab] by (simp add: handles_ok_def)
  then show ?thesis using assms(1,4) by (simp add: handles_ok_def handle_ok_def service_at_def)
qed

lemma set_service_ok:
  assumes "handles_ok (gs_handles g)" "h < NUM_HANDLE" "gs_handles g ! h = Some hi" "service_ok s"
  shows "handles_ok (gs_handles (set_service g h hi i s))"
proof -
  let ?hi = "hi\<lparr>hi_ServiceTable := (hi_ServiceTable hi)\<lparr>st_serviceList := (st_serviceList (hi_ServiceTable hi))[i := s]\<rparr>\<rparr>"
  have "Some hi \<in> set (gs_handles g)" using assms(1-3) nth_mem[of h "gs_handles g"] by (simp add: handles_ok_def)
  then have "handle_ok ?hi"
    using assms(1,4) set_update_subset_insert[of "st_serviceList (hi_ServiceTable hi)" i s] by (auto simp: handles_ok_def handle_ok_def)
  then show ?thesis
    using assms(1) set_update_subset_insert[of "gs_handles g" h "Some ?hi"] by (auto simp: handles_ok_def set_service_def)
qed

lemma set_service_at:
  assumes "h < length (gs_handles g)" "i < length (st_serviceList (hi_ServiceTable hi))"
  shows "handle_at (set_service g h hi i s) h = Some (hi\<lparr>hi_ServiceTable := (hi_ServiceTable hi)\<lparr>st_serviceList := (st_serviceList (hi_ServiceTable hi))[i := s]\<rparr>\<rparr>)"
    "service_at (hi\<lparr>hi_ServiceTable := (hi_ServiceTable hi)\<lparr>st_serviceList := (st_serviceList (hi_ServiceTable hi))[i := s]\<rparr>\<rparr>) i = s"
  using assms by (simp_all add: set_service_def handle_at_def service_at_def)

lemma lock_simps [simp]:
  "gs_handles (HandleUnlock g) = gs_handles g" "\<not> gs_locked (HandleUnlock g)"
  "HandleLock g = Some g1 \<longleftrightarrow> \<not> gs_locked g \<and> g1 = g\<lparr>gs_locked := True\<rparr>"
  by (auto simp: HandleUnlock_def HandleLock_def)

text \<open>The subscription that a list of callback URLs gives has a delivery URL.\<close>

lemma store_urls_bound:
  "store_urls R A p is arr n = Some (Inr (arr', m)) \<Longrightarrow> n \<le> length arr \<Longrightarrow> n \<le> m \<and> m \<le> length arr' \<and> length arr' = length arr"
proof (induction "is" arbitrary: arr n)
  case (Cons i "is")
  let ?arr = "arr[n := snd (parse_at R A p (arr ! n) i)]"
  have "n < length arr" and "store_urls R A p is ?arr n = Some (Inr (arr', m)) \<or> store_urls R A p is ?arr (n + 1) = Some (Inr (arr', m))"
    using Cons.prems(1) by (simp_all add: Let_def split: if_splits)
  then show ?case using Cons.IH[of ?arr n] Cons.IH[of ?arr "n + 1"] by auto
qed simp

lemma count_urls_error: "count_urls R A p u is n = Inl rc \<Longrightarrow> rc = UPNP_E_OUTOF_MEMORY"
  by (induction R A p u "is" n rule: count_urls.induct) (auto simp: Let_def split: if_splits)

lemma store_urls_error: "store_urls R A p is arr n = Some (Inl rc) \<Longrightarrow> rc = UPNP_E_OUTOF_MEMORY"
  by (induction R A p "is" arr n rule: store_urls.induct) (auto simp: Let_def split: if_splits)

lemma create_url_list_ok:
  assumes "create_url_list R A fresh temp raw p = Some (rc, urls)" "rc \<noteq> 0" "rc \<noteq> UPNP_E_OUTOF_MEMORY"
  shows "urls_ok urls"
proof (cases "count_urls R A p temp (url_starts (snd p)) 0")
  case (Inl e)
  then show ?thesis using assms count_urls_error by (fastforce simp: create_url_list_def)
next
  case (Inr n)
  with assms obtain r arr where r: "store_urls R A (fresh, snd p) (url_starts (snd p)) arr 0 = Some r"
    "(rc, urls) = (case r of Inl rc \<Rightarrow> (rc, no_urls)
       | Inr (arr', n) \<Rightarrow> (int n, \<lparr>ul_size = n, ul_URLs = (fresh, snd p), ul_parsedURLs = arr'\<rparr>))"
    by (auto simp: create_url_list_def bind_eq_Some_conv split: if_splits option.splits)
  then obtain arr' m where "r = Inr (arr', m)" using assms(3) store_urls_error by (cases r) auto
  then show ?thesis using r assms(2) store_urls_bound[of R A "(fresh, snd p)" "url_starts (snd p)" arr 0 arr' m] by (auto simp: urls_ok_def)
qed

subsection \<open>What the requests do\<close>

text \<open>The subscription that is granted.\<close>

definition granted_sub :: "gena_env \<Rightarrow> URL_list \<Rightarrow> int \<Rightarrow> subscription" where
  "granted_sub env urls time_out =
     \<lparr>su_sid = ''uuid:'' @ uuid_unpack (en_uid env), su_eventKey = 0, su_ToSendEventKey = 0,
      su_expireTime = (if time_out \<ge> 0 then en_now env + time_out else 0), su_active = False, su_DeliveryURLs = urls\<rparr>"

definition with_sub :: "service_info \<Rightarrow> subscription \<Rightarrow> service_info" where
  "with_sub service sub =
     service\<lparr>si_subscriptionList := sub # si_subscriptionList service, si_TotalSubscriptions := si_TotalSubscriptions service + 1\<rparr>"

lemma respond_ok_cases:
  "respond_ok env t sub = (rc, replies) \<Longrightarrow> rc = UPNP_E_SUCCESS \<Longrightarrow> replies = [Accepted (su_sid sub) (timeout_str t)]"
  by (auto simp: respond_ok_def split: if_splits)

lemma accept_cases:
  assumes "accept_subscription env request g h hi i service = Some (replies, g', cb)"
  shows "(g' = HandleUnlock g \<and> cb = None) \<or>
    (\<exists>urls requested. urls_ok urls \<and> requested_timeout env request = Some requested \<and>
       replies = [Accepted (''uuid:'' @ uuid_unpack (en_uid env)) (timeout_str (limit_timeout hi requested))] \<and>
       g' = HandleUnlock (set_service g h hi i (with_sub service (granted_sub env urls (limit_timeout hi requested)))) \<and>
       cb = Some (si_serviceId service, si_UDN service, ''uuid:'' @ uuid_unpack (en_uid env)))"
proof (cases "\<not> en_mem env \<or> header_text request HDR_CALLBACK = None")
  case True
  then show ?thesis using assms by (auto simp: accept_subscription_def refuse_def split: option.splits if_splits)
next
  case False
  then obtain hdr where hdr: "header_text request HDR_CALLBACK = Some hdr" "en_mem env" by blast
  let ?c = "create_url_list (ue_resolver (en_url env)) (ue_allocator (en_url env)) (en_copy env) (ue_rel (en_url env)) (en_raw env) (en_hdr env, hdr)"
  obtain rc urls where c: "?c = Some (rc, urls)"
    using assms by (auto simp: accept_subscription_def hdr bind_eq_Some_conv)
  show ?thesis
  proof (cases "rc = 0 \<or> rc = UPNP_E_OUTOF_MEMORY")
    case True
    then show ?thesis using assms by (auto simp: accept_subscription_def hdr c refuse_def)
  next
    case False
    obtain requested where r: "requested_timeout env request = Some requested"
      using assms False by (auto simp: accept_subscription_def hdr c bind_eq_Some_conv)
    let ?sub = "granted_sub env urls (limit_timeout hi requested)"
    obtain rc' rs where ro: "respond_ok env (limit_timeout hi requested) ?sub = (rc', rs)" by fastforce
    have "accept_subscription env request g h hi i service =
        (if rc' \<noteq> UPNP_E_SUCCESS then Some (rs, HandleUnlock g, None)
         else Some (rs, HandleUnlock (set_service g h hi i (with_sub service ?sub)),
                    Some (si_serviceId service, si_UDN service, su_sid ?sub)))"
      using False ro by (simp add: accept_subscription_def hdr c r Let_def new_subscription_def granted_sub_def with_sub_def)
    then show ?thesis
      using assms r respond_ok_cases[OF ro] create_url_list_ok[OF c] False by (auto simp: granted_sub_def split: if_splits)
  qed
qed

text \<open>
  The outcome of a subscription request: the state is as before with the mutex free, or one
  service that was found by the path of the request, is active and has room got the subscription
  that the reply grants and the callback of the application is told.
\<close>

definition subscribed :: "gena_env \<Rightarrow> http_message_t \<Rightarrow> gena_state \<Rightarrow> reply list \<Rightarrow> gena_state \<Rightarrow> URL_list \<Rightarrow> int \<Rightarrow> nat \<Rightarrow> Handle_Info \<Rightarrow> nat \<Rightarrow> bool" where
  "subscribed env request g replies g' urls requested h hi i \<longleftrightarrow>
     GetDeviceHandleInfo (gs_handles g) = (HND_DEVICE, int h, Some h) \<and> handle_at g h = Some hi \<and>
     event_service env hi (cstr (request_path request)) = Some i \<and> si_active (service_at hi i) \<and>
     (hi_MaxSubscriptions hi = -1 \<or> si_TotalSubscriptions (service_at hi i) < hi_MaxSubscriptions hi) \<and>
     urls_ok urls \<and> requested_timeout env request = Some requested \<and>
     replies = [Accepted (''uuid:'' @ uuid_unpack (en_uid env)) (timeout_str (limit_timeout hi requested))] \<and>
     g' = set_service g h hi i (with_sub (service_at hi i) (granted_sub env urls (limit_timeout hi requested)))"

lemma str_alloc_all: "str_alloc A s (length s) = Some (Some b) \<Longrightarrow> cstr b = cstr s"
proof -
  assume a: "str_alloc A s (length s) = Some (Some b)"
  then obtain blk s1 where m: "c_malloc A (size_add (length s) 1) = Some blk" "mem_write blk 0 s = Some s1" "mem_write s1 (length s) [NUL] = Some b"
    by (auto simp: str_alloc_def mem_read_def bind_eq_Some_conv split: option.splits)
  then have "length s \<le> length blk" "s1 = s @ drop (length s) blk" by (auto simp: mem_write_def split: if_splits)
  then have "b = s @ [NUL] @ drop (Suc (length s)) s1" using m(3) by (auto simp: mem_write_def split: if_splits)
  moreover have "cstr (xs @ NUL # r) = cstr xs" for xs r by (induction xs) (simp_all add: cstr_def)
  ultimately show "cstr b = cstr s" by simp
qed

lemma subscription_cases:
  assumes req: "gena_process_subscription_request env request g = Some (replies, g', cb)" and free: "\<not> gs_locked g"
  shows "(g' = g \<and> cb = None) \<or>
    (\<exists>urls requested h hi i. subscribed env request g replies g' urls requested h hi i \<and>
       cb = Some (si_serviceId (service_at hi i), si_UDN (service_at hi i), ''uuid:'' @ uuid_unpack (en_uid env)))"
proof (cases "g' = g \<and> cb = None")
  case changed: False
  have g: "HandleUnlock (g\<lparr>gs_locked := True\<rparr>) = g" using free by (simp add: HandleUnlock_def)
  obtain nt where nt: "header_text request HDR_NT = Some nt" "memptr_cmp_nocase (as_memptr nt) ''upnp:event'' = 0"
    "httpmsg_find_hdr request HDR_SID = None"
    using req changed by (auto simp: gena_process_subscription_request_def split: option.splits if_splits)
  obtain b where b: "str_alloc (ue_allocator (en_url env)) (request_path request) (length (request_path request)) = Some (Some b)"
    using req changed nt by (auto simp: gena_process_subscription_request_def bind_eq_Some_conv split: option.splits if_splits)
  obtain ty k hnd where d: "GetDeviceHandleInfo (gs_handles g) = (ty, k, hnd)" by (metis prod_cases3)
  let ?g = "g\<lparr>gs_locked := True\<rparr>"
  let ?found = "\<lambda>h hi. case event_service env hi (cstr (request_path request)) of None \<Rightarrow> refuse HTTP_NOT_FOUND ?g
       | Some i \<Rightarrow> (let service = service_at hi i in
           if \<not> si_active service then refuse HTTP_NOT_FOUND ?g
           else if hi_MaxSubscriptions hi \<noteq> -1 \<and> si_TotalSubscriptions service \<ge> hi_MaxSubscriptions hi
           then refuse HTTP_INTERNAL_SERVER_ERROR ?g
           else accept_subscription env request ?g h hi i service)"
  have lock: "HandleLock g = Some ?g" and handles: "gs_handles ?g = gs_handles g" using free by simp_all
  have core: "(if ty \<noteq> HND_DEVICE then refuse HTTP_INTERNAL_SERVER_ERROR ?g else do { h \<leftarrow> hnd; hi \<leftarrow> handle_at ?g h; ?found h hi })
      = Some (replies, g', cb)"
    using req unfolding gena_process_subscription_request_def nt(1) option.case nt(2,3) b lock bind.simps str_alloc_all[OF b] handles d prod.case
    by simp
  have ty: "ty = HND_DEVICE" using core changed g by (auto simp: refuse_def split: if_splits)
  then obtain h where "hnd = Some h" using core by (cases hnd) simp_all
  then have dev: "GetDeviceHandleInfo (gs_handles g) = (HND_DEVICE, int h, Some h)" using GetDeviceHandleInfo_pos(3) d ty by simp
  obtain hi where hi: "handle_at g h = Some hi" using GetDeviceHandleInfo_pos(2)[OF dev] by (auto simp: handle_at_def)
  have rest: "?found h hi = Some (replies, g', cb)"
    using core ty \<open>hnd = Some h\<close> hi by (simp add: handle_at_def)
  obtain i where i: "event_service env hi (cstr (request_path request)) = Some i"
    using rest changed g by (auto simp: refuse_def split: option.splits)
  have s: "si_active (service_at hi i)" "hi_MaxSubscriptions hi = -1 \<or> si_TotalSubscriptions (service_at hi i) < hi_MaxSubscriptions hi"
    "accept_subscription env request (g\<lparr>gs_locked := True\<rparr>) h hi i (service_at hi i) = Some (replies, g', cb)"
    using rest i changed g by (auto simp: refuse_def Let_def split: if_splits)
  have "HandleUnlock (set_service (g\<lparr>gs_locked := True\<rparr>) h hi i x) = set_service g h hi i x" for x
    using free by (simp add: HandleUnlock_def set_service_def)
  then show ?thesis using accept_cases[OF s(3)] g dev hi i s(1,2) changed unfolding subscribed_def by metis
qed simp

text \<open>The outcome of a renewal or a cancellation.\<close>

lemma find_subscription_cases:
  assumes "find_subscription env sid path g h = Some (found, g1)"
  shows "\<exists>hi. handle_at g h = Some hi \<and> path \<noteq> [] \<and>
    (case found of
       None \<Rightarrow> g1 = g \<or> (\<exists>i. event_service env hi (cstr path) = Some i \<and> g1 = set_service g h hi i (snd (GetSubscriptionSID (en_now env) sid (service_at hi i))))
     | Some (h1, hi1, i, k) \<Rightarrow> h1 = h \<and> event_service env hi (cstr path) = Some i \<and> si_active (service_at hi i) \<and>
         GetSubscriptionSID (en_now env) sid (service_at hi i) = (Some k, service_at hi i) \<and>
         g1 = set_service g h hi i (service_at hi i) \<and> handle_at g1 h = Some hi1)"
proof -
  obtain hi where hi: "handle_at g h = Some hi" and p: "path \<noteq> []"
    using assms by (auto simp: find_subscription_def bind_eq_Some_conv split: if_splits)
  show ?thesis
  proof (cases "event_service env hi (cstr path)")
    case None
    then have "found = None" "g1 = g" using assms hi p by (simp_all add: find_subscription_def)
    then show ?thesis using hi p by simp
  next
    case (Some i)
    obtain r sv where gs: "GetSubscriptionSID (en_now env) sid (service_at hi i) = (r, sv)" by fastforce
    have eq: "find_subscription env sid path g h =
        (if \<not> si_active (service_at hi i) then Some (None, g)
         else (case r of None \<Rightarrow> Some (None, set_service g h hi i sv)
               | Some k \<Rightarrow> do { hi1 \<leftarrow> handle_at (set_service g h hi i sv) h; Some (Some (h, hi1, i, k), set_service g h hi i sv) }))"
      using hi p Some gs by (simp add: find_subscription_def Let_def)
    show ?thesis
    proof (cases r)
      case None
      then show ?thesis using assms hi p Some gs unfolding eq by (auto split: if_splits)
    next
      case k: (Some k)
      then have "sv = service_at hi i" using GetSubscriptionSID_found[OF gs] by simp
      then show ?thesis using assms hi p Some gs k unfolding eq by (auto simp: bind_eq_Some_conv split: if_splits)
    qed
  qed
qed

text \<open>A request that names a subscription: its SID and the copy of its path.\<close>

definition sid_given :: "gena_env \<Rightarrow> http_message_t \<Rightarrow> c_string \<Rightarrow> c_block \<Rightarrow> bool" where
  "sid_given env request sid path \<longleftrightarrow>
     httpmsg_find_hdr request HDR_CALLBACK = None \<and> httpmsg_find_hdr request HDR_NT = None \<and>
     (\<exists>hdr m. header_text request HDR_SID = Some hdr \<and> length hdr \<le> SID_SIZE \<and> sid = cstr hdr \<and>
        membuffer_append (ue_allocator (en_url env)) (membuffer_init zero_membuffer) (Some (request_path request))
          (length (request_path request)) = Some (0, m) \<and>
        path = (case mb_buf m of None \<Rightarrow> [] | Some b \<Rightarrow> b))"

lemma sid_request_go: "sid_given env request sid path \<Longrightarrow> sid_request env request g go_on = go_on sid path"
  by (auto simp: sid_given_def sid_request_def)

lemma sid_request_cases:
  assumes "sid_request env request g go_on = Some (replies, g', cb)"
  shows "(g' = g \<and> cb = None) \<or> (\<exists>sid path. sid_given env request sid path \<and> go_on sid path = Some (replies, g', cb))"
proof (cases "\<exists>sid path. sid_given env request sid path")
  case True
  then show ?thesis using assms sid_request_go by metis
next
  case False
  then show ?thesis using assms
    by (auto simp: sid_given_def sid_request_def bind_eq_Some_conv split: if_splits option.splits)
qed

lemma append_path:
  assumes "length p < 2 ^ 63"
  shows "\<exists>rc m. membuffer_append A (membuffer_init zero_membuffer) (Some p) (length p) = Some (rc, m) \<and>
    (rc = UPNP_E_OUTOF_MEMORY \<or> rc = 0 \<and> (if p = [] then mb_buf m = None else \<exists>b. mb_buf m = Some b \<and> b \<noteq> [] \<and> cstr b = cstr p))"
proof (cases "p = []")
  case True
  then show ?thesis by (simp add: membuffer_append_def membuffer_insert_def membuffer_init_def membuffer_initialize_def zero_membuffer_def)
next
  case False
  let ?m = "membuffer_init zero_membuffer"
  have l: "mb_length ?m = 0" by (simp add: membuffer_init_def membuffer_initialize_def)
  then obtain rc m where r: "membuffer_append A ?m (Some p) (length p) = Some (rc, m)"
    "rc = 0 \<and> mb_inv m \<and> mb_terminated m \<and> mb_data m = p \<or> rc = UPNP_E_OUTOF_MEMORY"
    using membuffer_insert_spec[of ?m 0 "length p" p A] assms False by (auto simp: membuffer_append_def)
  have "\<exists>b. mb_buf m = Some b \<and> b \<noteq> [] \<and> cstr b = cstr p" if m: "mb_inv m" "mb_terminated m" "mb_data m = p"
  proof -
    obtain b where b: "mb_buf m = Some b" using False m(3) by (cases "mb_buf m") (simp_all add: mb_data_def)
    have "mb_length m = length p" using length_mb_data[OF m(1)] m(3) by simp
    moreover have "length b = Suc (mb_capacity m)" "mb_length m \<le> mb_capacity m" using m(1) b by (simp_all add: mb_inv_def)
    ultimately have "b = p @ b ! length p # drop (Suc (length p)) b"
      using m(3) b id_take_nth_drop[of "length p" b] by (simp add: mb_data_def)
    moreover have "b ! length p = NUL" using m(2) b \<open>mb_length m = length p\<close> by (simp add: mb_terminated_def)
    moreover have "cstr (xs @ NUL # r) = cstr xs" for xs r by (induction xs) (simp_all add: cstr_def)
    ultimately show ?thesis using b by (metis append_is_Nil_conv list.distinct(1))
  qed
  then show ?thesis using r False by auto
qed

lemma sid_given_path:
  assumes "sid_given env request sid path" "length (request_path request) < 2 ^ 63"
  shows "if request_path request = [] then path = [] else path \<noteq> [] \<and> cstr path = cstr (request_path request)"
  using assms(1) append_path[OF assms(2), of "ue_allocator (en_url env)"] by (auto simp: sid_given_def split: if_splits)

lemma set_service_same:
  "handle_at g h = Some hi \<Longrightarrow> set_service g h hi i (service_at hi i) = g"
proof -
  assume "handle_at g h = Some hi"
  then have "(gs_handles g)[h := Some hi] = gs_handles g" by (metis handle_at_def list_update_id)
  then show ?thesis by (simp add: set_service_def service_at_def)
qed

lemma find_subscription_eq:
  assumes "handle_at g h = Some hi" "path \<noteq> []"
  shows "find_subscription env sid path g h =
    (case event_service env hi (cstr path) of
       None \<Rightarrow> Some (None, g)
     | Some i \<Rightarrow>
         if \<not> si_active (service_at hi i) then Some (None, g)
         else (case GetSubscriptionSID (en_now env) sid (service_at hi i) of
                 (None, service) \<Rightarrow> Some (None, set_service g h hi i service)
               | (Some k, _) \<Rightarrow> Some (Some (h, hi, i, k), g)))"
proof -
  have same: "service = service_at hi i" if "GetSubscriptionSID (en_now env) sid (service_at hi i) = (Some k, service)" for i k service
    using GetSubscriptionSID_found[OF that] by simp
  then show ?thesis
    using assms by (auto simp: find_subscription_def Let_def set_service_same dest: same split: option.splits prod.splits)
qed

lemma HandleUnlock_set [simp]: "\<not> gs_locked g \<Longrightarrow> HandleUnlock (set_service (g\<lparr>gs_locked := True\<rparr>) h hi i s) = set_service g h hi i s"
  "\<not> gs_locked g \<Longrightarrow> HandleUnlock (g\<lparr>gs_locked := True\<rparr>) = g" "gs_locked (set_service g h hi i s) = gs_locked g"
  "set_service (set_service g h hi i s1) h hi i s = set_service g h hi i s"
  by (simp_all add: HandleUnlock_def set_service_def)

text \<open>A request changes at most one service, and keeps it well-formed.\<close>

definition service_changed :: "gena_state \<Rightarrow> gena_state \<Rightarrow> bool" where
  "service_changed g g' \<longleftrightarrow>
     (\<exists>h hi i s. h < NUM_HANDLE \<and> handle_at g h = Some hi \<and> i < length (st_serviceList (hi_ServiceTable hi)) \<and>
        (service_ok (service_at hi i) \<longrightarrow> service_ok s) \<and> g' = set_service g h hi i s)"

lemma service_changed_ok: "service_changed g g' \<Longrightarrow> handles_ok (gs_handles g) \<Longrightarrow> handles_ok (gs_handles g')"
  using service_at_ok set_service_ok unfolding service_changed_def handle_at_def by metis

lemma service_changedI:
  assumes "h < NUM_HANDLE" "handle_at g h = Some hi" "event_service env hi path = Some i"
    "service_ok (service_at hi i) \<Longrightarrow> service_ok s"
  shows "service_changed g (set_service g h hi i s)"
  using assms event_service_pos unfolding service_changed_def by blast

text \<open>Cancelling.\<close>

lemma unsubscribe_eq:
  assumes given: "sid_given env request sid path" "path \<noteq> []" and free: "\<not> gs_locked g"
    and dev: "GetDeviceHandleInfo (gs_handles g) = (HND_DEVICE, k, Some h)" "handle_at g h = Some hi"
  shows "gena_process_unsubscribe_request env request g =
    (case event_service env hi (cstr path) of
       None \<Rightarrow> Some (error_respond HTTP_PRECONDITION_FAILED, g, None)
     | Some i \<Rightarrow>
         if \<not> si_active (service_at hi i) then Some (error_respond HTTP_PRECONDITION_FAILED, g, None)
         else (case GetSubscriptionSID (en_now env) sid (service_at hi i) of
                 (None, service) \<Rightarrow> Some (error_respond HTTP_PRECONDITION_FAILED, set_service g h hi i service, None)
               | (Some k, _) \<Rightarrow> Some (error_respond HTTP_OK, set_service g h hi i (RemoveSubscriptionSID sid (service_at hi i)), None)))"
proof -
  let ?g = "g\<lparr>gs_locked := True\<rparr>"
  have at: "handle_at ?g h = Some hi" "gs_handles ?g = gs_handles g" using dev(2) by (simp_all add: handle_at_def)
  have lock: "HandleLock g = Some ?g" using free by simp
  show ?thesis
    unfolding gena_process_unsubscribe_request_def sid_request_go[OF given(1)] lock bind.simps at(2) dev(1) prod.case
    using find_subscription_eq[OF at(1) given(2)] free
    by (simp add: refuse_def split: option.splits prod.splits)
qed

lemma unsubscribe_cases:
  assumes req: "gena_process_unsubscribe_request env request g = Some (replies, g', cb)" and free: "\<not> gs_locked g"
  shows "g' = g \<or> service_changed g g'"
proof -
  let ?g = "g\<lparr>gs_locked := True\<rparr>"
  have lock: "HandleLock g = Some ?g" and hs: "gs_handles ?g = gs_handles g" using free by simp_all
  have "g' = g \<or> (\<exists>sid path. sid_given env request sid path)"
    using sid_request_cases[of env request g] req unfolding gena_process_unsubscribe_request_def by blast
  moreover have "g' = g \<or> service_changed g g'" if given: "sid_given env request sid path" for sid path
  proof -
    obtain ty k hnd where d: "GetDeviceHandleInfo (gs_handles g) = (ty, k, hnd)" by (metis prod_cases3)
    note eq = req[unfolded gena_process_unsubscribe_request_def sid_request_go[OF given] lock bind.simps hs d prod.case]
    show ?thesis
    proof (cases "ty = HND_DEVICE")
      case True
      then obtain h where h: "hnd = Some h" using GetDeviceHandleInfo_None[of "gs_handles g" k] d by (cases hnd) auto
      then have dev: "GetDeviceHandleInfo (gs_handles g) = (HND_DEVICE, k, Some h)" using d True by simp
      obtain hi where hi: "handle_at g h = Some hi" "h < NUM_HANDLE" using GetDeviceHandleInfo_pos(1,2)[OF dev] by (auto simp: handle_at_def)
      then have at: "handle_at ?g h = Some hi" by (simp add: handle_at_def)
      have "path \<noteq> []" using eq True h at by (auto simp: find_subscription_def)
      note eq2 = unsubscribe_eq[OF given this free dev hi(1)]
      show ?thesis
        using req[unfolded eq2]
        by (auto split: option.splits if_splits prod.splits intro!: service_changedI[OF hi(2,1)] RemoveSubscriptionSID_ok
            intro: GetSubscriptionSID_ok)
    qed (use eq free in \<open>simp add: refuse_def\<close>)
  qed
  ultimately show ?thesis by blast
qed

text \<open>Renewing.\<close>

definition no_device :: "gena_state \<Rightarrow> bool" where
  "no_device g \<longleftrightarrow> fst (GetDeviceHandleInfo (gs_handles g)) \<noteq> HND_DEVICE"

lemma device_cases:
  assumes "\<not> no_device g"
  obtains h hi where "GetDeviceHandleInfo (gs_handles g) = (HND_DEVICE, int h, Some h)" "handle_at g h = Some hi" "h < NUM_HANDLE"
proof -
  obtain ty k hnd where d: "GetDeviceHandleInfo (gs_handles g) = (ty, k, hnd)" by (metis prod_cases3)
  then have ty: "ty = HND_DEVICE" using assms by (simp add: no_device_def)
  then obtain h where "hnd = Some h" using GetDeviceHandleInfo_None[of "gs_handles g" k] d by (cases hnd) auto
  then have dev: "GetDeviceHandleInfo (gs_handles g) = (HND_DEVICE, k, Some h)" using d ty by simp
  show ?thesis using that dev GetDeviceHandleInfo_pos[OF dev] by (auto simp: handle_at_def)
qed

lemma renewal_stuck:
  assumes "sid_given env request sid path" "\<not> gs_locked g" "no_device g"
  shows "gena_process_subscription_renewal_request env request g =
           Some (error_respond HTTP_PRECONDITION_FAILED, g\<lparr>gs_locked := True\<rparr>, None)"
proof -
  obtain ty k hnd where d: "GetDeviceHandleInfo (gs_handles g) = (ty, k, hnd)" by (metis prod_cases3)
  have lock: "HandleLock g = Some (g\<lparr>gs_locked := True\<rparr>)" and hs: "gs_handles (g\<lparr>gs_locked := True\<rparr>) = gs_handles g"
    using assms(2) by simp_all
  have "ty \<noteq> HND_DEVICE" using assms(3) d by (simp add: no_device_def)
  then show ?thesis
    unfolding gena_process_subscription_renewal_request_def sid_request_go[OF assms(1)] lock bind.simps hs d prod.case by simp
qed

lemma renewal_cases:
  assumes req: "gena_process_subscription_renewal_request env request g = Some (replies, g', cb)" and free: "\<not> gs_locked g"
  shows "g' = g \<or> \<not> no_device g \<and> service_changed g g' \<or>
    g' = g\<lparr>gs_locked := True\<rparr> \<and> no_device g \<and> (\<exists>sid path. sid_given env request sid path)"
proof -
  let ?g = "g\<lparr>gs_locked := True\<rparr>"
  have lock: "HandleLock g = Some ?g" and hs: "gs_handles ?g = gs_handles g" using free by simp_all
  have "g' = g \<or> (\<exists>sid path. sid_given env request sid path)"
    using sid_request_cases[of env request g] req unfolding gena_process_subscription_renewal_request_def by blast
  moreover have "g' = g \<or> service_changed g g'" if given: "sid_given env request sid path" and dev: "\<not> no_device g" for sid path
  proof -
    obtain h hi where d: "GetDeviceHandleInfo (gs_handles g) = (HND_DEVICE, int h, Some h)" "handle_at g h = Some hi" "h < NUM_HANDLE"
      using device_cases dev by blast
    then have at: "handle_at ?g h = Some hi" by (simp add: handle_at_def)
    note eq = req[unfolded gena_process_subscription_renewal_request_def sid_request_go[OF given] lock bind.simps hs d prod.case]
    have "path \<noteq> []" using eq at by (auto simp: find_subscription_def)
    note eq2 = eq[unfolded find_subscription_eq[OF at this]]
    show ?thesis
    proof (cases "event_service env hi (cstr path)")
      case None
      then show ?thesis using eq2 free by (simp add: refuse_def)
    next
      case (Some i)
      obtain r sv where gs: "GetSubscriptionSID (en_now env) sid (service_at hi i) = (r, sv)" by fastforce
      note ch = service_changedI[OF d(3,2) Some]
      show ?thesis
      proof (cases "si_active (service_at hi i)")
        case active: True
        show ?thesis
        proof (cases r)
          case None
          then have "g' = set_service g h hi i sv" using eq2 Some gs active free by (auto simp: refuse_def)
          then show ?thesis using ch[OF GetSubscriptionSID_ok[OF _ gs]] by simp
        next
          case k: (Some k)
          let ?s = "service_at hi i"
          let ?sub = "si_subscriptionList ?s ! k"
          have kk: "k < length (si_subscriptionList ?s)" using GetSubscriptionSID_found[OF gs] k by simp
          let ?new = "\<lambda>t. ?s\<lparr>si_subscriptionList := (si_subscriptionList ?s)[k := ?sub\<lparr>su_expireTime := t\<rparr>]\<rparr>"
          have new: "service_ok ?s \<Longrightarrow> service_ok (?new t)" for t
            using service_ok_update[OF _ kk, of "?sub\<lparr>su_expireTime := t\<rparr>"] by simp
          have "\<exists>s. g' = set_service g h hi i s \<and> (service_ok ?s \<longrightarrow> service_ok s)"
          proof (cases "hi_MaxSubscriptions hi \<noteq> -1 \<and> si_TotalSubscriptions ?s > hi_MaxSubscriptions hi")
            case True
            then show ?thesis
              using eq2 Some gs active k free RemoveSubscriptionSID_ok
              by (auto simp: refuse_def Let_def intro!: exI[of _ "RemoveSubscriptionSID (su_sid ?sub) ?s"])
          next
            case False
            note eq3 = eq2[unfolded Some option.case, unfolded gs k prod.case option.case Let_def bind.simps]
            obtain q where q: "requested_timeout env request = Some q"
              using eq3 active False by (auto simp: bind_eq_Some_conv)
            let ?t = "if limit_timeout hi q = -1 then 0 else en_now env + limit_timeout hi q"
            have "g' = set_service g h hi i (RemoveSubscriptionSID (su_sid ?sub) (?new ?t)) \<or> g' = set_service g h hi i (?new ?t)"
              using eq3 active False q free by (auto split: prod.splits if_splits)
            then show ?thesis using new[of ?t] RemoveSubscriptionSID_ok by blast
          qed
          then show ?thesis using ch by blast
        qed
      qed (use eq2 Some free in \<open>simp add: refuse_def\<close>)
    qed
  qed
  moreover have "g' = ?g" if "sid_given env request sid path" "no_device g" for sid path
    using renewal_stuck[OF that(1) free that(2)] req by simp
  ultimately show ?thesis by blast
qed

lemma find_path_urls: "map url ss = map url ss' \<Longrightarrow> find_path R A url p q ss = find_path R A url p q ss'"
proof (induction ss arbitrary: ss' p)
  case (Cons s ss)
  then obtain t ts where "ss' = t # ts" "url t = url s" "map url ss = map url ts" by (cases ss') auto
  then show ?case using Cons.IH by (auto split: option.splits prod.splits)
qed simp

lemma same_types:
  assumes "handle_at g h = Some hi"
  shows "GetDeviceHandleInfo (gs_handles (set_service g h hi i s)) = GetDeviceHandleInfo (gs_handles g)"
proof -
  have at: "gs_handles (set_service g h hi i s) ! j = gs_handles g ! j \<or>
      (j = h \<and> (\<exists>x. gs_handles (set_service g h hi i s) ! j = Some x \<and> hi_HType x = hi_HType hi))" for j
    by (cases "h < length (gs_handles g)"; cases "j = h") (simp_all add: set_service_def list_update_beyond)
  have "GetHandleInfo (gs_handles (set_service g h hi i s)) k = GetHandleInfo (gs_handles g) k" for k
  proof (cases "gs_handles (set_service g h hi i s) ! nat k = gs_handles g ! nat k")
    case False
    then obtain x where "nat k = h" "gs_handles (set_service g h hi i s) ! nat k = Some x" "hi_HType x = hi_HType hi"
      using at[of "nat k"] by blast
    then show ?thesis using assms by (simp add: GetHandleInfo_def handle_at_def)
  qed (simp add: GetHandleInfo_def)
  then show ?thesis unfolding GetDeviceHandleInfo_def one_of_two_def by (simp only:)
qed

subsection \<open>Properties of the requests\<close>

definition answered :: "http_message_t \<Rightarrow> bool" where
  "answered request \<longleftrightarrow> hm_method request \<noteq> HTTPMETHOD_NOTIFY"

lemma callback_cases:
  assumes "genaCallback notified env request g = Some (replies, g', cb)" "answered request" "\<not> gs_locked g"
  shows "g' = g \<or> service_changed g g' \<and> gs_locked g' = gs_locked g \<or>
    (\<exists>urls requested h hi i. gena_process_subscription_request env request g = Some (replies, g', cb) \<and>
       subscribed env request g replies g' urls requested h hi i) \<or>
    g' = g\<lparr>gs_locked := True\<rparr> \<and> no_device g \<and> hm_method request = HTTPMETHOD_SUBSCRIBE \<and>
      httpmsg_find_hdr request HDR_NT = None \<and> (\<exists>sid path. sid_given env request sid path)"
proof -
  have lock: "service_changed g x \<Longrightarrow> gs_locked x = gs_locked g" for x by (auto simp: service_changed_def)
  consider (renew) "hm_method request = HTTPMETHOD_SUBSCRIBE" "httpmsg_find_hdr request HDR_NT = None"
      "gena_process_subscription_renewal_request env request g = Some (replies, g', cb)"
    | (subscribe) "gena_process_subscription_request env request g = Some (replies, g', cb)"
    | (cancel) "gena_process_unsubscribe_request env request g = Some (replies, g', cb)"
    | (none) "g' = g"
    using assms(1,2) unfolding genaCallback_def answered_def by (metis option.inject prod.inject)
  then show ?thesis
  proof cases
    case renew
    then show ?thesis using renewal_cases[OF renew(3) assms(3)] lock by blast
  next
    case subscribe
    then show ?thesis using subscription_cases[OF subscribe assms(3)] by blast
  next
    case cancel
    then show ?thesis using unsubscribe_cases[OF cancel assms(3)] lock by blast
  qed simp
qed

lemma subscribed_parts:
  assumes "subscribed env request g replies g' urls requested h hi i"
  shows "handle_at g h = Some hi" "h < NUM_HANDLE" "i < length (st_serviceList (hi_ServiceTable hi))" "gs_locked g' = gs_locked g"
  using assms GetDeviceHandleInfo_pos(1) event_service_pos by (auto simp: subscribed_def)

text \<open>
  C3: whatever requests a control point sends, the services of a device stay well-formed: the number
  of subscriptions that the limit is checked against is the number in the list, SIDs stay different,
  and every subscription keeps a delivery URL. The UUIDs that are given out are new.
\<close>

theorem requests_keep_services:
  assumes "genaCallback notified env request g = Some (replies, g', cb)" "answered request" "\<not> gs_locked g"
    and "handles_ok (gs_handles g)" "''uuid:'' @ uuid_unpack (en_uid env) \<notin> all_sids (gs_handles g)"
  shows "handles_ok (gs_handles g')"
  using callback_cases[OF assms(1-3)]
proof (elim disjE exE conjE)
  fix urls requested h hi i assume s: "subscribed env request g replies g' urls requested h hi i"
  note p = subscribed_parts[OF s]
  have hi: "gs_handles g ! h = Some hi" using p(1) by (simp add: handle_at_def)
  then have "Some hi \<in> set (gs_handles g)" using p(2) assms(4) nth_mem[of h "gs_handles g"] by (simp add: handles_ok_def)
  then have "''uuid:'' @ uuid_unpack (en_uid env) \<notin> su_sid ` set (si_subscriptionList (service_at hi i))"
    using assms(5) nth_mem[OF p(3)] unfolding all_sids_def service_at_def by blast
  moreover have "service_ok (service_at hi i)" by (rule service_at_ok[OF assms(4) p(2) hi p(3)])
  ultimately have "service_ok (with_sub (service_at hi i) (granted_sub env urls t))" for t
    using s service_ok_insert unfolding with_sub_def granted_sub_def subscribed_def by simp
  then show ?thesis using s set_service_ok[OF assms(4) p(2) hi] by (simp add: subscribed_def)
qed (use assms(4) service_changed_ok in auto)


text \<open>
  C7: a device that bounds the time of subscriptions grants at most that time, to a request for an
  infinite time as well, but not when the time of the request is negative otherwise: such a
  subscription never expires.
\<close>

theorem granted_time:
  assumes "gena_process_subscription_request env request g = Some (replies, g', Some cb)" "\<not> gs_locked g"
    and "requested_timeout env request = Some requested" "GetDeviceHandleInfo (gs_handles g) = (HND_DEVICE, k, Some h)"
    and "handle_at g h = Some hi" "0 \<le> hi_MaxSubscriptionTimeOut hi" "0 < en_now env" "length (gs_handles g) = NUM_HANDLE"
  shows "\<exists>hi' i sub. event_service env hi (cstr (request_path request)) = Some i \<and> handle_at g' h = Some hi' \<and>
    si_subscriptionList (service_at hi' i) = sub # si_subscriptionList (service_at hi i) \<and>
    (if requested < -1 then (\<forall>now. \<not> expired now sub) \<and> replies = [Accepted (su_sid sub) ''TIMEOUT: Second-infinite'']
     else (\<forall>now. expired now sub \<longleftrightarrow> en_now env + limit_timeout hi requested < now) \<and>
          0 \<le> limit_timeout hi requested \<and> limit_timeout hi requested \<le> hi_MaxSubscriptionTimeOut hi)"
proof -
  obtain urls i where s: "subscribed env request g replies g' urls requested h hi i"
    using subscription_cases[OF assms(1,2)] assms(3-5) by (auto simp: subscribed_def)
  note p = subscribed_parts[OF s]
  let ?sub = "granted_sub env urls (limit_timeout hi requested)"
  have g': "g' = set_service g h hi i (with_sub (service_at hi i) ?sub)" "replies = [Accepted (su_sid ?sub) (timeout_str (limit_timeout hi requested))]"
    using s by (simp_all add: subscribed_def granted_sub_def)
  have "h < length (gs_handles g)" using p(2) assms(8) by simp
  note at = set_service_at[OF this p(3), of "with_sub (service_at hi i) ?sub"]
  have list: "si_subscriptionList (service_at (hi\<lparr>hi_ServiceTable := (hi_ServiceTable hi)\<lparr>st_serviceList :=
      (st_serviceList (hi_ServiceTable hi))[i := with_sub (service_at hi i) ?sub]\<rparr>\<rparr>) i) = ?sub # si_subscriptionList (service_at hi i)"
    unfolding at(2) by (simp add: with_sub_def)
  have "if requested < -1 then (\<forall>now. \<not> expired now ?sub) \<and> replies = [Accepted (su_sid ?sub) ''TIMEOUT: Second-infinite'']
     else (\<forall>now. expired now ?sub \<longleftrightarrow> en_now env + limit_timeout hi requested < now) \<and>
          0 \<le> limit_timeout hi requested \<and> limit_timeout hi requested \<le> hi_MaxSubscriptionTimeOut hi"
    using assms(6,7) g'(2) by (auto simp: expired_def granted_sub_def limit_timeout_def timeout_str_def)
  then show ?thesis using at(1)[folded g'(1)] list s unfolding subscribed_def by blast
qed

text \<open>
  C4: a subscription that is cancelled with the SID it got before it has expired leaves the device
  exactly as it was before the subscription.
\<close>

theorem subscribe_unsubscribe:
  assumes "gena_process_subscription_request env request g = Some (replies, g', Some cb)" "\<not> gs_locked g" "length (gs_handles g) = NUM_HANDLE"
    and "requested_timeout env request = Some requested" "GetDeviceHandleInfo (gs_handles g) = (HND_DEVICE, k, Some h)" "handle_at g h = Some hi"
    and "limit_timeout hi requested < 0 \<or> en_now env2 \<le> en_now env + limit_timeout hi requested"
    and "sid_given env2 request2 (''uuid:'' @ uuid_unpack (en_uid env)) path" "cstr path = cstr (request_path request)" "path \<noteq> []"
    and "en_url env2 = en_url env" "en_stack1 env2 = en_stack1 env" "en_stack2 env2 = en_stack2 env"
  shows "gena_process_unsubscribe_request env2 request2 g' = Some (error_respond HTTP_OK, g, None)"
proof -
  obtain urls i where s: "subscribed env request g replies g' urls requested h hi i"
    using subscription_cases[OF assms(1,2)] assms(4-6) by (auto simp: subscribed_def)
  note p = subscribed_parts[OF s]
  let ?s = "service_at hi i" and ?sub = "granted_sub env urls (limit_timeout hi requested)"
  let ?hi = "hi\<lparr>hi_ServiceTable := (hi_ServiceTable hi)\<lparr>st_serviceList := (st_serviceList (hi_ServiceTable hi))[i := with_sub ?s ?sub]\<rparr>\<rparr>"
  have g': "g' = set_service g h hi i (with_sub ?s ?sub)" using s by (simp add: subscribed_def)
  have h: "h < length (gs_handles g)" using p(2) assms(3) by simp
  note at = set_service_at[OF h p(3), of "with_sub ?s ?sub", folded g']
  have dev: "GetDeviceHandleInfo (gs_handles g') = (HND_DEVICE, k, Some h)"
    using same_types[of g h hi] assms(5,6) g' by simp
  have "map si_eventURL (st_serviceList (hi_ServiceTable ?hi)) = map si_eventURL (st_serviceList (hi_ServiceTable hi))"
    using p(3) by (simp add: map_update with_sub_def service_at_def list_update_same_conv)
  note urls = find_path_urls[OF this]
  have ev: "event_service env2 ?hi (cstr path) = Some i"
    using s unfolding subscribed_def event_service_def FindServiceEventURLPath_def find_by_path_def assms(9,11-13) urls by simp
  have get: "GetSubscriptionSID (en_now env2) (''uuid:'' @ uuid_unpack (en_uid env)) (with_sub ?s ?sub) = (Some 0, with_sub ?s ?sub)"
    using assms(7) by (auto simp: GetSubscriptionSID_def with_sub_def granted_sub_def expired_def)
  have rem: "RemoveSubscriptionSID (''uuid:'' @ uuid_unpack (en_uid env)) (with_sub ?s ?sub) = ?s"
    by (simp add: RemoveSubscriptionSID_def with_sub_def granted_sub_def)
  have "\<not> gs_locked g'" "si_active (with_sub ?s ?sub)" using p(4) assms(2) s by (simp_all add: subscribed_def with_sub_def)
  moreover have "set_service g' h ?hi i ?s = g"
    using set_service_same[OF p(1), of i] g' by (simp add: set_service_def)
  ultimately show ?thesis
    using unsubscribe_eq[OF assms(8,10) _ dev at(1)] ev get rem at(2) by simp
qed

text \<open>
  A renewal or a cancellation with an empty request path, which an absolute URL without a path
  has, reads a null pointer.
\<close>

theorem empty_path_faults:
  assumes "sid_given env request sid path" "request_path request = []" "\<not> gs_locked g" "\<not> no_device g"
  shows "gena_process_unsubscribe_request env request g = None \<and> gena_process_subscription_renewal_request env request g = None"
proof -
  obtain h hi where d: "GetDeviceHandleInfo (gs_handles g) = (HND_DEVICE, int h, Some h)" "handle_at g h = Some hi"
    using device_cases assms(4) by blast
  let ?g = "g\<lparr>gs_locked := True\<rparr>"
  have lock: "HandleLock g = Some ?g" and hs: "gs_handles ?g = gs_handles g" using assms(3) by simp_all
  have "path = []" using sid_given_path[OF assms(1)] assms(2) by simp
  then have "find_subscription env sid path ?g h = None"
    using d(2) by (simp add: find_subscription_def handle_at_def)
  then show ?thesis
    unfolding gena_process_subscription_renewal_request_def gena_process_unsubscribe_request_def
      sid_request_go[OF assms(1)] lock bind.simps hs d(1) prod.case by simp
qed

subsection \<open>A device with one service, and requests to it\<close>

definition text_buffer :: "c_string \<Rightarrow> membuffer" where
  "text_buffer s = \<lparr>mb_buf = Some (s @ [NUL]), mb_length = length s, mb_capacity = length s, mb_size_inc = 5\<rparr>"

definition request_for :: "int \<Rightarrow> c_string \<Rightarrow> (int \<times> c_string) list \<Rightarrow> http_message_t" where
  "request_for method path hdrs =
     zero_message\<lparr>hm_method := method, hm_uri := zero_uri\<lparr>uri_pathquery := \<lparr>tk_buff = 0, tk_size = length path\<rparr>\<rparr>, hm_urlbuf := Some path,
       hm_headers := map (\<lambda>(name, val). \<lparr>hh_name_buf = text_buffer [], hh_name_id = name, hh_value = text_buffer val\<rparr>) hdrs\<rparr>"

definition zero_uuid :: uuid_upnp where
  "zero_uuid = \<lparr>up_time_low = 0, up_time_mid = 0, up_time_hi_and_version = 0, up_clock_seq_hi = 0, up_clock_seq_low = 0,
                up_node = [0, 0, 0, 0, 0, 0]\<rparr>"

definition zero_sid :: c_string where
  "zero_sid = ''uuid:00000000-0000-0000-0000-000000000000''"

definition demo_env :: gena_env where
  "demo_env = \<lparr>en_url = \<lparr>ue_resolver = one_host, ue_allocator = all_granted, ue_base = blank_uri, ue_rel = blank_uri\<rparr>,
     en_stack1 = (blank_uri, []), en_stack2 = (blank_uri, []), en_now = 1000, en_uid = zero_uuid, en_mem = True, en_hdr = 2, en_copy = 3,
     en_raw = (\<lambda>n. Some (replicate n blank_uri)), en_made = True, en_sent = UPNP_E_SUCCESS\<rparr>"

definition demo_service :: service_info where
  "demo_service = \<lparr>si_serviceType = Some ''t'', si_serviceId = Some ''i'', si_SCPDURL = Some ''/d'', si_controlURL = Some ''/c'',
     si_eventURL = Some ''/e'', si_UDN = Some ''u'', si_active = True, si_TotalSubscriptions = 0, si_subscriptionList = []\<rparr>"

definition demo_device :: Handle_Info where
  "demo_device = \<lparr>hi_HType = HND_DEVICE, hi_ServiceTable = \<lparr>st_URLBase = None, st_serviceList = [demo_service], st_endServiceList = Some 0\<rparr>,
     hi_MaxSubscriptions = 4, hi_MaxSubscriptionTimeOut = 1800\<rparr>"

definition demo_state :: "Handle_Info option \<Rightarrow> gena_state" where
  "demo_state hi = \<lparr>gs_handles = InitHandleList[1 := hi], gs_locked = False\<rparr>"

definition subscribe_for :: "c_string \<Rightarrow> http_message_t" where
  "subscribe_for timeout = request_for HTTPMETHOD_SUBSCRIBE ''/e''
     [(HDR_NT, ''upnp:event''), (HDR_CALLBACK, ''<http://tomb/>''), (HDR_TIMEOUT, timeout)]"

lemma demo_parts:
  "\<not> gs_locked (demo_state hi)" "length (gs_handles (demo_state hi)) = NUM_HANDLE" "handle_at (demo_state hi) 1 = hi"
  "GetDeviceHandleInfo (gs_handles (demo_state (Some demo_device))) = (HND_DEVICE, 1, Some 1)" "no_device (demo_state None)"
  "\<not> no_device (demo_state (Some demo_device))"
  by (simp_all add: demo_state_def InitHandleList_def handle_at_def GetDeviceHandleInfo_def one_of_two_def GetHandleInfo_def demo_device_def no_device_def)

lemma demo_time: "requested_timeout demo_env (subscribe_for ''Second-4294967294'') = Some (-2)"
  "requested_timeout demo_env (subscribe_for ''infinite'') = Some 1801"
  by code_simp+

definition accepted :: "handled option \<Rightarrow> bool" where
  "accepted r \<longleftrightarrow> (case r of Some (replies, g, Some cb) \<Rightarrow> True | _ \<Rightarrow> False)"

lemma acceptedE:
  assumes "accepted r"
  obtains replies g' cb where "r = Some (replies, g', Some cb)"
  using assms by (auto simp: accepted_def split: option.splits)

lemma demo_accepted: "accepted (gena_process_subscription_request demo_env (subscribe_for ''Second-4294967294'') (demo_state (Some demo_device)))"
  by code_simp

lemma demo_ok: "handles_ok (gs_handles (demo_state (Some demo_device)))"
  "zero_sid \<notin> all_sids (gs_handles (demo_state (Some demo_device)))" "''uuid:'' @ uuid_unpack (en_uid demo_env) = zero_sid"
proof -
  have "set (gs_handles (demo_state (Some demo_device))) \<subseteq> {None, Some demo_device}"
    using set_update_subset_insert[of InitHandleList 1 "Some demo_device"] by (auto simp: demo_state_def InitHandleList_def)
  then show "handles_ok (gs_handles (demo_state (Some demo_device)))" "zero_sid \<notin> all_sids (gs_handles (demo_state (Some demo_device)))"
    using demo_parts(2) by (auto simp: handles_ok_def handle_ok_def demo_device_def service_ok_def demo_service_def all_sids_def)
  show "''uuid:'' @ uuid_unpack (en_uid demo_env) = zero_sid" by code_simp
qed

theorem requests_keep_services_witness:
  "\<exists>replies g' cb. genaCallback (\<lambda>_ _. None) demo_env (subscribe_for ''Second-4294967294'') (demo_state (Some demo_device)) =
       Some (replies, g', Some cb) \<and> handles_ok (gs_handles g')"
proof -
  obtain replies g' cb where r: "gena_process_subscription_request demo_env (subscribe_for ''Second-4294967294'') (demo_state (Some demo_device)) =
      Some (replies, g', Some cb)" using demo_accepted by (rule acceptedE)
  have m: "hm_method (subscribe_for ''Second-4294967294'') = HTTPMETHOD_SUBSCRIBE"
    "httpmsg_find_hdr (subscribe_for ''Second-4294967294'') HDR_NT \<noteq> None" by code_simp+
  then have c: "genaCallback (\<lambda>_ _. None) demo_env (subscribe_for ''Second-4294967294'') (demo_state (Some demo_device)) = Some (replies, g', Some cb)"
    using r by (auto simp: genaCallback_def)
  have "answered (subscribe_for ''Second-4294967294'')" using m(1) by (simp add: answered_def)
  from requests_keep_services[OF c this demo_parts(1) demo_ok(1)] show ?thesis unfolding demo_ok(3) using demo_ok(2) c by blast
qed

theorem granted_time_witness:
  "\<exists>replies g' cb hi' sub.
     gena_process_subscription_request demo_env (subscribe_for ''Second-4294967294'') (demo_state (Some demo_device)) = Some (replies, g', Some cb) \<and>
     handle_at g' 1 = Some hi' \<and> si_subscriptionList (service_at hi' 0) = [sub] \<and> (\<forall>now. \<not> expired now sub) \<and>
     hi_MaxSubscriptionTimeOut demo_device = 1800"
proof -
  obtain replies g' cb where r: "gena_process_subscription_request demo_env (subscribe_for ''Second-4294967294'') (demo_state (Some demo_device)) =
      Some (replies, g', Some cb)" using demo_accepted by (rule acceptedE)
  have pos: "0 \<le> hi_MaxSubscriptionTimeOut demo_device" "0 < en_now demo_env" by (simp_all add: demo_device_def demo_env_def)
  have ev: "event_service demo_env demo_device (cstr (request_path (subscribe_for ''Second-4294967294''))) = Some 0" by code_simp
  have none: "si_subscriptionList (service_at demo_device 0) = []" by (simp add: demo_device_def service_at_def demo_service_def)
  obtain hi' sub where "handle_at g' 1 = Some hi'" "si_subscriptionList (service_at hi' 0) = [sub]" "\<forall>now. \<not> expired now sub"
    using granted_time[OF r demo_parts(1) demo_time(1) demo_parts(4,3) pos demo_parts(2)] ev none by auto
  moreover have "hi_MaxSubscriptionTimeOut demo_device = 1800" by (simp add: demo_device_def)
  ultimately show ?thesis using r by blast
qed

text \<open>Requests that name the SID.\<close>

definition request_by_sid :: "int \<Rightarrow> c_string \<Rightarrow> http_message_t" where
  "request_by_sid method path = request_for method path [(HDR_SID, zero_sid)]"

lemma demo_sid:
  "sid_given demo_env (request_by_sid method ''/e'') zero_sid [CHR ''/'', CHR ''e'', NUL, NUL, NUL, NUL]"
  "sid_given demo_env (request_by_sid method []) zero_sid []"
  "request_path (request_by_sid method []) = []"
proof -
  have "map_option (\<lambda>(rc, m). (rc, mb_buf m)) (membuffer_append all_granted (membuffer_init zero_membuffer) (Some ''/e'') (length ''/e'')) =
      Some (0, Some [CHR ''/'', CHR ''e'', NUL, NUL, NUL, NUL])"
    "map_option (\<lambda>(rc, m). (rc, mb_buf m)) (membuffer_append all_granted (membuffer_init zero_membuffer) (Some []) (length ([] :: c_string))) = Some (0, None)"
    by code_simp+
  then obtain m m0 where m: "membuffer_append all_granted (membuffer_init zero_membuffer) (Some ''/e'') (length ''/e'') = Some (0, m)"
    "mb_buf m = Some [CHR ''/'', CHR ''e'', NUL, NUL, NUL, NUL]"
    "membuffer_append all_granted (membuffer_init zero_membuffer) (Some []) (length ([] :: c_string)) = Some (0, m0)" "mb_buf m0 = None" by auto
  have p: "request_path (request_by_sid method q) = q" for q
    by (simp add: request_path_def request_by_sid_def request_for_def tok_text_def)
  show "request_path (request_by_sid method []) = []" by (rule p)
  have hdr: "httpmsg_find_hdr (request_by_sid method q) HDR_CALLBACK = None" "httpmsg_find_hdr (request_by_sid method q) HDR_NT = None"
    "header_text (request_by_sid method q) HDR_SID = Some zero_sid" for q
    by (simp_all add: request_by_sid_def request_for_def httpmsg_find_hdr_def httpmsg_compare_def header_text_def hdr_value_def text_buffer_def mb_data_def)
  have z: "length zero_sid \<le> SID_SIZE" "zero_sid = cstr zero_sid" by code_simp+
  have A: "ue_allocator (en_url demo_env) = all_granted" by (simp add: demo_env_def)
  show "sid_given demo_env (request_by_sid method ''/e'') zero_sid [CHR ''/'', CHR ''e'', NUL, NUL, NUL, NUL]"
    unfolding sid_given_def p hdr A using m(1,2) z by (intro conjI refl exI[of _ zero_sid] exI[of _ m]) simp_all
  show "sid_given demo_env (request_by_sid method []) zero_sid []"
    unfolding sid_given_def p hdr A using m(3,4) z by (intro conjI refl exI[of _ zero_sid] exI[of _ m0]) simp_all
qed


theorem empty_path_faults_witness:
  "gena_process_unsubscribe_request demo_env (request_by_sid HTTPMETHOD_UNSUBSCRIBE []) (demo_state (Some demo_device)) = None"
  using empty_path_faults[OF demo_sid(2,3) demo_parts(1,6)] by blast

theorem subscribe_unsubscribe_witness:
  "\<exists>replies g' cb. gena_process_subscription_request demo_env (subscribe_for ''infinite'') (demo_state (Some demo_device)) = Some (replies, g', Some cb) \<and>
     gena_process_unsubscribe_request (demo_env\<lparr>en_now := 1500\<rparr>) (request_by_sid HTTPMETHOD_UNSUBSCRIBE ''/e'') g' =
       Some (error_respond HTTP_OK, demo_state (Some demo_device), None)"
proof -
  let ?r = "subscribe_for ''infinite''" and ?g = "demo_state (Some demo_device)" and ?p = "[CHR ''/'', CHR ''e'', NUL, NUL, NUL, NUL]"
  have "accepted (gena_process_subscription_request demo_env ?r ?g)" by code_simp
  then obtain replies g' cb where r: "gena_process_subscription_request demo_env ?r ?g = Some (replies, g', Some cb)" by (rule acceptedE)
  have t: "limit_timeout demo_device 1801 < 0 \<or> en_now (demo_env\<lparr>en_now := 1500\<rparr>) \<le> en_now demo_env + limit_timeout demo_device 1801"
    by (simp add: limit_timeout_def demo_device_def demo_env_def)
  have sid: "sid_given (demo_env\<lparr>en_now := 1500\<rparr>) (request_by_sid HTTPMETHOD_UNSUBSCRIBE ''/e'') (''uuid:'' @ uuid_unpack (en_uid demo_env)) ?p"
    unfolding demo_ok(3) using demo_sid(1) by (simp add: sid_given_def)
  have p: "cstr ?p = cstr (request_path ?r)" "?p \<noteq> []" by code_simp+
  have "gena_process_unsubscribe_request (demo_env\<lparr>en_now := 1500\<rparr>) (request_by_sid HTTPMETHOD_UNSUBSCRIBE ''/e'') g' = Some (error_respond HTTP_OK, ?g, None)"
    by (rule subscribe_unsubscribe[OF r demo_parts(1,2) demo_time(2) demo_parts(4,3) t sid p]) simp_all
  then show ?thesis using r by blast
qed

end
