(* ===== verification/GenaNotify.thy ===== *)
theory GenaNotify
  imports GenaDevice ThreadPool "HOL-Library.Sublist"
begin

section \<open>Sending events to subscribers (gena/gena\_device.c)\<close>

text \<open>
  An event of a service becomes one job for each subscription, numbered by the subscription's event
  key. A job that runs before its turn puts itself back into the pool; one whose turn it is sends the
  message outside the mutex and then moves the subscription on to the next key.
\<close>

record notify_job =
  nj_device :: int
  nj_servId :: c_string
  nj_UDN :: c_string
  nj_sid :: c_string
  nj_eventKey :: int
  nj_headers :: c_string
  nj_propertySet :: c_string

text \<open>
  What memory and the pool grant: the copies of the names, the block for the headers, and for the
  n-th job of a call its struct and the result of \<open>ThreadPoolAdd\<close>.
\<close>

record notify_mem =
  nm_copies :: bool
  nm_headers :: bool
  nm_struct :: "nat \<Rightarrow> bool"
  nm_add :: "nat \<Rightarrow> int"

text \<open>The key after a key: the addition wraps around to a negative number, which becomes 1.\<close>

definition next_key :: "int \<Rightarrow> int" where
  "next_key k = (if k + 1 > 2147483647 then 1 else k + 1)"

definition pool_code :: "int \<Rightarrow> int" where
  "pool_code rc = (if rc = EOUTOFMEM then UPNP_E_OUTOF_MEMORY else rc)"

text \<open>The headers are printed into a block of \<open>headers_size\<close> bytes.\<close>

definition print_headers :: "c_string \<Rightarrow> c_string option" where
  "print_headers propertySet =
     (if length (notify_headers propertySet) + 1 \<le> headers_size then Some (notify_headers propertySet) else None)"

subsection \<open>The initial event\<close>

text \<open>
  The part on the service. \<open>prop\<close> is the property set or the error of making it; \<open>mk\<close> makes the job
  from a SID, a key, headers and property set.
\<close>

type_synonym job_maker = "c_string \<Rightarrow> int \<Rightarrow> c_string \<Rightarrow> c_string \<Rightarrow> notify_job"

definition init_on_service ::
  "notify_mem \<Rightarrow> int \<Rightarrow> job_maker \<Rightarrow> (int \<times> c_string) option \<Rightarrow> c_string \<Rightarrow> service_info \<Rightarrow>
   (int \<times> service_info \<times> notify_job list) option" where
  "init_on_service nm now mk prop sid service0 =
     (case GetSubscriptionSID now sid service0 of
        (None, service) \<Rightarrow> Some (GENA_E_BAD_SID, service, [])
      | (Some k, service) \<Rightarrow>
          (let sub = si_subscriptionList service ! k in
           if su_active sub then Some (GENA_E_BAD_SID, service, [])
           else
             do { let sub1 = sub\<lparr>su_active := True\<rparr>;
                  let service1 = service\<lparr>si_subscriptionList := (si_subscriptionList service)[k := sub1]\<rparr>;
                  (rc, propertySet) \<leftarrow> prop;
                  if rc \<noteq> 0 then Some (rc, service1, [])
                  else if \<not> nm_headers nm then Some (UPNP_E_OUTOF_MEMORY, service1, [])
                  else
                    do { headers \<leftarrow> print_headers propertySet;
                         if \<not> nm_struct nm 0 then Some (UPNP_E_OUTOF_MEMORY, service1, [])
                         else
                           (let job = mk sid (su_eventKey sub1) headers propertySet;
                                service2 = service1\<lparr>si_subscriptionList :=
                                  (si_subscriptionList service1)[k := sub1\<lparr>su_eventKey := su_eventKey sub1 + 1\<rparr>]\<rparr>
                            in Some (if nm_add nm 0 \<noteq> 0 then (pool_code (nm_add nm 0), service2, [])
                                     else (GENA_SUCCESS, service2, [job]))) } }))"

definition on_service ::
  "int \<Rightarrow> c_string \<Rightarrow> c_string \<Rightarrow> gena_state \<Rightarrow>
   (service_info \<Rightarrow> (int \<times> service_info \<times> notify_job list) option) \<Rightarrow> (int \<times> gena_state \<times> notify_job list) option" where
  "on_service device_handle servId UDN g f =
     do { g \<leftarrow> HandleLock g;
          case GetHandleInfo (gs_handles g) device_handle of
            (ty, hnd) \<Rightarrow>
              if ty \<noteq> HND_DEVICE then Some (GENA_E_BAD_HANDLE, HandleUnlock g, [])
              else
                do { h \<leftarrow> hnd;
                     hi \<leftarrow> handle_at g h;
                     s \<leftarrow> FindServiceId (hi_ServiceTable hi) servId UDN;
                     case s of
                       None \<Rightarrow> Some (GENA_E_BAD_SERVICE, HandleUnlock g, [])
                     | Some i \<Rightarrow>
                         do { (rc, service, jobs) \<leftarrow> f (service_at hi i);
                              Some (rc, HandleUnlock (set_service g h hi i service), jobs) } } }"

definition job_for :: "int \<Rightarrow> c_string \<Rightarrow> c_string \<Rightarrow> job_maker" where
  "job_for device_handle servId UDN sid key headers propertySet =
     \<lparr>nj_device = device_handle, nj_servId = servId, nj_UDN = UDN, nj_sid = sid, nj_eventKey = key,
      nj_headers = headers, nj_propertySet = propertySet\<rparr>"

definition genaInitNotify ::
  "notify_mem \<Rightarrow> allocator \<Rightarrow> int \<Rightarrow> int \<Rightarrow> c_string \<Rightarrow> c_string \<Rightarrow> (c_string \<times> c_string) list \<Rightarrow> c_string \<Rightarrow> gena_state \<Rightarrow>
   (int \<times> gena_state \<times> notify_job list) option" where
  "genaInitNotify nm A now device_handle UDN servId vars sid g =
     (if \<not> nm_copies nm then Some (UPNP_E_OUTOF_MEMORY, g, [])
      else on_service device_handle servId UDN g
             (init_on_service nm now (job_for device_handle servId UDN) (GeneratePropertySet A vars) sid))"

text \<open>The variant that prints a document; \<open>printed\<close> is what \<open>ixmlPrintNode\<close> gives.\<close>

definition printed_set :: "c_string option \<Rightarrow> int \<times> c_string" where
  "printed_set printed = (case printed of None \<Rightarrow> (UPNP_E_INVALID_PARAM, []) | Some t \<Rightarrow> (0, t))"

definition genaInitNotifyExt ::
  "notify_mem \<Rightarrow> int \<Rightarrow> int \<Rightarrow> c_string \<Rightarrow> c_string \<Rightarrow> c_string option \<Rightarrow> c_string \<Rightarrow> gena_state \<Rightarrow>
   (int \<times> gena_state \<times> notify_job list) option" where
  "genaInitNotifyExt nm now device_handle UDN servId printed sid g =
     (if \<not> nm_copies nm then Some (UPNP_E_OUTOF_MEMORY, g, [])
      else on_service device_handle servId UDN g
             (init_on_service nm now (job_for device_handle servId UDN) (Some (printed_set printed)) sid))"

subsection \<open>An event for all subscribers\<close>

text \<open>
  The loop over the subscriptions from the finger on. The two variants differ when memory or the
  pool refuses: \<open>ext\<close> stops at every error of the pool and keeps its result when a struct is refused.
\<close>

function notify_loop ::
  "bool \<Rightarrow> notify_mem \<Rightarrow> int \<Rightarrow> (c_string \<Rightarrow> int \<Rightarrow> notify_job) \<Rightarrow> nat option \<times> service_info \<Rightarrow> nat \<Rightarrow> int \<Rightarrow>
   int \<times> service_info \<times> notify_job list" where
  "notify_loop ext nm now mk (None, service) n rc = (rc, service, [])"
| "notify_loop ext nm now mk (Some i, service) n rc =
     (if \<not> i < length (si_subscriptionList service) \<or> \<not> nm_struct nm n
      then (if ext then rc else UPNP_E_OUTOF_MEMORY, service, [])
      else
        (let sub = si_subscriptionList service ! i;
             job = mk (su_sid sub) (su_eventKey sub);
             service1 = service\<lparr>si_subscriptionList := (si_subscriptionList service)[i := sub\<lparr>su_eventKey := next_key (su_eventKey sub)\<rparr>]\<rparr>
         in if nm_add nm n \<noteq> 0 \<and> (ext \<or> nm_add nm n = EOUTOFMEM) then (pool_code (nm_add nm n), service1, [])
            else (case notify_loop ext nm now mk (GetNextSubscription now service1 (Some i)) (Suc n) (nm_add nm n) of
                    (rc', service2, jobs) \<Rightarrow> (rc', service2, if nm_add nm n = 0 then job # jobs else jobs))))"
  by pat_completeness auto

termination
  by (relation "measure (\<lambda>(ext, nm, now, mk, (f, service), n, rc).
        case f of None \<Rightarrow> 0 | Some i \<Rightarrow> Suc (length (si_subscriptionList service)) - i)")
    (auto simp: GetNextSubscription_def next_behind_def split: option.splits prod.splits
      dest!: next_loop_pos next_loop_shorter)

declare notify_loop.simps [simp del]

definition notify_all_on ::
  "bool \<Rightarrow> notify_mem \<Rightarrow> int \<Rightarrow> (c_string \<Rightarrow> int \<Rightarrow> notify_job) \<Rightarrow> service_info \<Rightarrow> int \<times> service_info \<times> notify_job list" where
  "notify_all_on ext nm now mk service = notify_loop ext nm now mk (GetFirstSubscription now service) 0 GENA_SUCCESS"

text \<open>The property set and the headers are made before the mutex is taken.\<close>

definition notify_all ::
  "bool \<Rightarrow> notify_mem \<Rightarrow> (int \<times> c_string) option \<Rightarrow> int \<Rightarrow> int \<Rightarrow> c_string \<Rightarrow> c_string \<Rightarrow> gena_state \<Rightarrow>
   (int \<times> gena_state \<times> notify_job list) option" where
  "notify_all ext nm prop now device_handle UDN servId g =
     (if \<not> nm_copies nm then Some (UPNP_E_OUTOF_MEMORY, g, [])
      else
        do { (rc, propertySet) \<leftarrow> prop;
             if rc \<noteq> 0 then Some (rc, g, [])
             else if \<not> nm_headers nm then Some (UPNP_E_OUTOF_MEMORY, g, [])
             else
               do { headers \<leftarrow> print_headers propertySet;
                    on_service device_handle servId UDN g
                      (\<lambda>service. Some (notify_all_on ext nm now
                         (\<lambda>sid key. job_for device_handle servId UDN sid key headers propertySet) service)) } })"

definition genaNotifyAll ::
  "notify_mem \<Rightarrow> allocator \<Rightarrow> int \<Rightarrow> int \<Rightarrow> c_string \<Rightarrow> c_string \<Rightarrow> (c_string \<times> c_string) list \<Rightarrow> gena_state \<Rightarrow>
   (int \<times> gena_state \<times> notify_job list) option" where
  "genaNotifyAll nm A now device_handle UDN servId vars g =
     notify_all False nm (GeneratePropertySet A vars) now device_handle UDN servId g"

definition genaNotifyAllExt ::
  "notify_mem \<Rightarrow> int \<Rightarrow> int \<Rightarrow> c_string \<Rightarrow> c_string \<Rightarrow> c_string option \<Rightarrow> gena_state \<Rightarrow>
   (int \<times> gena_state \<times> notify_job list) option" where
  "genaNotifyAllExt nm now device_handle UDN servId printed g =
     notify_all True nm (Some (printed_set printed)) now device_handle UDN servId g"

subsection \<open>The job\<close>

text \<open>
  Sending to the delivery URLs until one answers; \<open>send\<close> is the exchange with one URL, its result
  and the status of the answer, \<open>made\<close> whether the message could be made.
\<close>

fun send_loop :: "(uri_type \<Rightarrow> int \<times> int) \<Rightarrow> uri_type list \<Rightarrow> int \<times> int" where
  "send_loop send [] = (-1, 0)"
| "send_loop send [u] = send u"
| "send_loop send (u # us) = (if fst (send u) = UPNP_E_SUCCESS then send u else send_loop send us)"

definition genaNotify :: "bool \<Rightarrow> (uri_type \<Rightarrow> int \<times> int) \<Rightarrow> subscription \<Rightarrow> int" where
  "genaNotify made send sub =
     (if \<not> made then UPNP_E_OUTOF_MEMORY
      else (case send_loop send (take (ul_size (su_DeliveryURLs sub)) (ul_parsedURLs (su_DeliveryURLs sub))) of
              (return_code, status) \<Rightarrow>
                if return_code \<noteq> UPNP_E_SUCCESS then return_code
                else if status = HTTP_OK then GENA_SUCCESS
                else if status = HTTP_PRECONDITION_FAILED then GENA_E_NOTIFY_UNACCEPTED_REMOVE_SUB
                else GENA_E_NOTIFY_UNACCEPTED))"

text \<open>
  The first half of \<open>genaNotifyThread\<close>: the job is dropped, put back into the pool, or sends to a copy
  of the subscription. \<open>copy\<close> is \<open>copy_subscription\<close> with its memory.
\<close>

datatype thread_start = Dropped | Again | Send subscription

definition start_on_service ::
  "(subscription \<Rightarrow> int \<times> subscription) \<Rightarrow> int \<Rightarrow> notify_job \<Rightarrow> service_info \<Rightarrow> thread_start \<times> service_info" where
  "start_on_service copy now job service0 =
     (if \<not> si_active service0 then (Dropped, service0)
      else
        (case GetSubscriptionSID now (nj_sid job) service0 of
           (None, service) \<Rightarrow> (Dropped, service)
         | (Some k, service) \<Rightarrow>
             (let sub = si_subscriptionList service ! k in
              case copy sub of
                (rc, sub_copy) \<Rightarrow>
                  if rc \<noteq> HTTP_SUCCESS then (Dropped, service)
                  else if nj_eventKey job \<noteq> su_ToSendEventKey sub then (Again, service)
                  else (Send sub_copy, service))))"

text \<open>The second half, after the message was sent: the subscription moves on, or is removed.\<close>

definition finish_on_service :: "int \<Rightarrow> int \<Rightarrow> notify_job \<Rightarrow> service_info \<Rightarrow> service_info" where
  "finish_on_service now return_code job service0 =
     (if \<not> si_active service0 then service0
      else
        (case GetSubscriptionSID now (nj_sid job) service0 of
           (None, service) \<Rightarrow> service
         | (Some k, service) \<Rightarrow>
             (let sub = si_subscriptionList service ! k;
                  service1 = service\<lparr>si_subscriptionList :=
                    (si_subscriptionList service)[k := sub\<lparr>su_ToSendEventKey := next_key (su_ToSendEventKey sub)\<rparr>]\<rparr>
              in if return_code = GENA_E_NOTIFY_UNACCEPTED_REMOVE_SUB
                 then RemoveSubscriptionSID (nj_sid job) service1 else service1)))"

text \<open>Both halves look the service up under the mutex; without it the job is dropped.\<close>

definition with_service ::
  "notify_job \<Rightarrow> gena_state \<Rightarrow> 'a \<Rightarrow> (service_info \<Rightarrow> 'a \<times> service_info) \<Rightarrow> ('a \<times> gena_state) option" where
  "with_service job g gone f =
     do { g \<leftarrow> HandleLock g;
          case GetHandleInfo (gs_handles g) (nj_device job) of
            (ty, hnd) \<Rightarrow>
              if ty \<noteq> HND_DEVICE then Some (gone, HandleUnlock g)
              else
                do { h \<leftarrow> hnd;
                     hi \<leftarrow> handle_at g h;
                     s \<leftarrow> FindServiceId (hi_ServiceTable hi) (nj_servId job) (nj_UDN job);
                     case s of
                       None \<Rightarrow> Some (gone, HandleUnlock g)
                     | Some i \<Rightarrow>
                         (case f (service_at hi i) of
                            (r, service) \<Rightarrow> Some (r, HandleUnlock (set_service g h hi i service))) } }"

definition genaNotifyThread_start ::
  "(subscription \<Rightarrow> int \<times> subscription) \<Rightarrow> int \<Rightarrow> notify_job \<Rightarrow> gena_state \<Rightarrow> (thread_start \<times> gena_state) option" where
  "genaNotifyThread_start copy now job g = with_service job g Dropped (start_on_service copy now job)"

definition genaNotifyThread_finish ::
  "int \<Rightarrow> int \<Rightarrow> notify_job \<Rightarrow> gena_state \<Rightarrow> (unit \<times> gena_state) option" where
  "genaNotifyThread_finish now return_code job g =
     with_service job g () (\<lambda>service. ((), finish_on_service now return_code job service))"

definition genaUnregisterDevice :: "int \<Rightarrow> gena_state \<Rightarrow> (int \<times> gena_state) option" where
  "genaUnregisterDevice device_handle g =
     do { g \<leftarrow> HandleLock g;
          case GetHandleInfo (gs_handles g) device_handle of
            (ty, hnd) \<Rightarrow>
              if ty \<noteq> HND_DEVICE then Some (GENA_E_BAD_HANDLE, HandleUnlock g)
              else
                do { h \<leftarrow> hnd;
                     hi \<leftarrow> handle_at g h;
                     Some (UPNP_E_SUCCESS,
                       HandleUnlock (g\<lparr>gs_handles := (gs_handles g)[h := Some (hi\<lparr>hi_ServiceTable :=
                         (hi_ServiceTable hi)\<lparr>st_serviceList := [], st_endServiceList := None\<rparr>\<rparr>)]\<rparr>)) } }"

subsection \<open>A service and its events as a transition system\<close>

text \<open>
  The states of one service between the sections that hold the mutex: the service, the jobs in the
  pool, the jobs that are sending. Three fields record history: the SIDs that were ever given out,
  the property sets of the events of each SID in the order they were generated, and the messages
  sent, in the order their sending began.
\<close>

record notify_sys =
  ns_service :: service_info
  ns_queue :: "notify_job multiset"
  ns_sending :: "notify_job multiset"
  ns_used :: "c_string set"
  ns_events :: "c_string \<Rightarrow> c_string list"
  ns_log :: "(c_string \<times> c_string) list"

text \<open>
  An event reaches the subscriptions whose key a call has moved on. The history is extended for
  them, whether or not the pool took their job.
\<close>

definition key_of :: "service_info \<Rightarrow> c_string \<Rightarrow> int option" where
  "key_of service sid = map_option su_eventKey (find (\<lambda>s. su_sid s = sid) (si_subscriptionList service))"

definition record_event ::
  "service_info \<Rightarrow> service_info \<Rightarrow> c_string \<Rightarrow> (c_string \<Rightarrow> c_string list) \<Rightarrow> c_string \<Rightarrow> c_string list" where
  "record_event service service' propertySet ev sid =
     (case (key_of service sid, key_of service' sid) of
        (Some k, Some k') \<Rightarrow> if k \<noteq> k' then ev sid @ [propertySet] else ev sid
      | _ \<Rightarrow> ev sid)"

definition keys_small :: "service_info \<Rightarrow> bool" where
  "keys_small service \<longleftrightarrow> (\<forall>s\<in>set (si_subscriptionList service). su_eventKey s < 2147483647)"

text \<open>
  The steps are the sections of the code on the service: a subscription is accepted, renewed or
  cancelled; an initial event or an event for all is generated; a job starts or ends. Event keys
  are used once only as long as they do not wrap around, which a step that makes events requires
  here (\<open>keys_small\<close>). A SID is not given out twice.
\<close>

inductive notify_step :: "notify_sys \<Rightarrow> notify_sys \<Rightarrow> bool" where
  accept: "notify_step y (y\<lparr>ns_service := (ns_service y)\<lparr>si_subscriptionList := sub # si_subscriptionList (ns_service y),
                              si_TotalSubscriptions := si_TotalSubscriptions (ns_service y) + 1\<rparr>,
                            ns_used := insert (su_sid sub) (ns_used y)\<rparr>)"
    if "su_sid sub \<notin> ns_used y" "su_eventKey sub = 0" "su_ToSendEventKey sub = 0"
| renew: "notify_step y (y\<lparr>ns_service := service\<lparr>si_subscriptionList := (si_subscriptionList service)[k :=
                             (si_subscriptionList service ! k)\<lparr>su_expireTime := t\<rparr>]\<rparr>\<rparr>)"
    if "GetSubscriptionSID now sid (ns_service y) = (Some k, service)"
| look: "notify_step y (y\<lparr>ns_service := snd (GetSubscriptionSID now sid (ns_service y))\<rparr>)"
| cancel: "notify_step y (y\<lparr>ns_service := RemoveSubscriptionSID sid (ns_service y)\<rparr>)"
| init: "notify_step y (y\<lparr>ns_service := service, ns_queue := ns_queue y + mset jobs,
                          ns_events := record_event (ns_service y) service propertySet (ns_events y)\<rparr>)"
    if "keys_small (ns_service y)"
       "init_on_service nm now (job_for device servId UDN) (Some (0, propertySet)) sid (ns_service y) = Some (rc, service, jobs)"
| event: "notify_step y (y\<lparr>ns_service := service, ns_queue := ns_queue y + mset jobs,
                           ns_events := record_event (ns_service y) service propertySet (ns_events y)\<rparr>)"
    if "keys_small (ns_service y)"
       "notify_all_on ext nm now (\<lambda>sid key. job_for device servId UDN sid key headers propertySet) (ns_service y) =
          (rc, service, jobs)"
| dropped: "notify_step y (y\<lparr>ns_service := service, ns_queue := ns_queue y - {#job#}\<rparr>)"
    if "job \<in># ns_queue y" "start_on_service copy now job (ns_service y) = (Dropped, service)"
| again: "notify_step y (y\<lparr>ns_service := service, ns_queue := (if taken then ns_queue y else ns_queue y - {#job#})\<rparr>)"
    if "job \<in># ns_queue y" "start_on_service copy now job (ns_service y) = (Again, service)"
| send: "notify_step y (y\<lparr>ns_service := service, ns_queue := ns_queue y - {#job#}, ns_sending := ns_sending y + {#job#},
                          ns_log := ns_log y @ [(nj_sid job, nj_propertySet job)]\<rparr>)"
    if "job \<in># ns_queue y" "start_on_service copy now job (ns_service y) = (Send sub, service)"
| finish: "notify_step y (y\<lparr>ns_service := finish_on_service now rc job (ns_service y), ns_sending := ns_sending y - {#job#}\<rparr>)"
    if "job \<in># ns_sending y"

definition notify_init :: "notify_sys \<Rightarrow> bool" where
  "notify_init y \<longleftrightarrow> si_active (ns_service y) \<and> si_subscriptionList (ns_service y) = [] \<and> ns_queue y = {#} \<and> ns_sending y = {#} \<and>
     ns_used y = {} \<and> ns_events y = (\<lambda>_. []) \<and> ns_log y = []"

text \<open>The messages sent to a SID.\<close>

definition sent_to :: "c_string \<Rightarrow> (c_string \<times> c_string) list \<Rightarrow> c_string list" where
  "sent_to sid log = map snd (filter (\<lambda>(s, _). s = sid) log)"


subsection \<open>The events of a subscription are sent in order\<close>

text \<open>What the order depends on: SID, event key and the key to send, of each subscription.\<close>

type_synonym sub_key = "c_string \<times> int \<times> int"

definition sub_key :: "subscription \<Rightarrow> sub_key" where
  "sub_key s = (su_sid s, su_eventKey s, su_ToSendEventKey s)"

definition sub_keys :: "service_info \<Rightarrow> sub_key list" where
  "sub_keys service = map sub_key (si_subscriptionList service)"

text \<open>
  What making an event does to the subscriptions: some are removed, some stay, the keys of some move
  on, and of these some get a job.
\<close>

inductive fan :: "(c_string \<Rightarrow> int \<Rightarrow> notify_job) \<Rightarrow> sub_key list \<Rightarrow> sub_key list \<Rightarrow> notify_job list \<Rightarrow> bool"
  for mk where
  nil: "fan mk [] [] []"
| gone: "fan mk (s # ks) ks' js" if "fan mk ks ks' js"
| keep: "fan mk (s # ks) (s # ks') js" if "fan mk ks ks' js"
| lost: "fan mk ((s, e, t) # ks) ((s, next_key e, t) # ks') js" if "fan mk ks ks' js"
| sent: "fan mk ((s, e, t) # ks) ((s, next_key e, t) # ks') (mk s e # js)" if "fan mk ks ks' js"

lemma fan_subseq: "fan mk ks ks' js \<Longrightarrow> subseq (map fst ks') (map fst ks)"
  by (induction rule: fan.induct) auto

lemma fan_keys: "fan mk ks ks' js \<Longrightarrow> (s, e', t) \<in> set ks' \<Longrightarrow> \<exists>e. (s, e, t) \<in> set ks \<and> (e' = e \<or> e' = next_key e)"
  by (induction rule: fan.induct) auto

lemma fan_sids: "fan mk ks ks' js \<Longrightarrow> fst ` set ks' \<subseteq> fst ` set ks"
  by (induction rule: fan.induct) auto

lemma sid_in: "(s, e, t) \<in> set ks \<Longrightarrow> s \<in> fst ` set ks"
  by (rule rev_image_eqI, assumption) simp

lemma fan_jobs:
  "fan mk ks ks' js \<Longrightarrow> distinct (map fst ks) \<Longrightarrow> j \<in> set js \<Longrightarrow>
     \<exists>s e t. (s, e, t) \<in> set ks \<and> j = mk s e \<and> (\<forall>e' t'. (s, e', t') \<in> set ks' \<longrightarrow> e' = next_key e)"
proof (induction rule: fan.induct)
  case (gone ks ks' js s)
  then obtain s1 e1 t1 where "(s1, e1, t1) \<in> set ks" "j = mk s1 e1" "\<forall>e' t'. (s1, e', t') \<in> set ks' \<longrightarrow> e' = next_key e1" by auto
  then show ?case by auto
next
  case (keep ks ks' js s)
  then obtain s1 e1 t1 where o: "(s1, e1, t1) \<in> set ks" "j = mk s1 e1" "\<forall>e' t'. (s1, e', t') \<in> set ks' \<longrightarrow> e' = next_key e1" by auto
  moreover have "s1 \<noteq> fst s" using sid_in[OF o(1)] keep.prems(1) by (metis distinct.simps(2) fst_conv list.set_map list.simps(9))
  ultimately show ?case by (intro exI[of _ s1] exI[of _ e1] exI[of _ t1]) auto
next
  case (lost ks ks' js s e t)
  then obtain s1 e1 t1 where o: "(s1, e1, t1) \<in> set ks" "j = mk s1 e1" "\<forall>e' t'. (s1, e', t') \<in> set ks' \<longrightarrow> e' = next_key e1" by auto
  moreover have "s1 \<noteq> s" using sid_in[OF o(1)] lost.prems(1) by (metis distinct.simps(2) fst_conv list.set_map list.simps(9))
  ultimately show ?case by auto
next
  case (sent ks ks' js s e t)
  have new: "s \<notin> fst ` set ks'" using fan_sids[OF sent.hyps] sent.prems(1) by auto
  show ?case
  proof (cases "j \<in> set js")
    case True
    then obtain s1 e1 t1 where o: "(s1, e1, t1) \<in> set ks" "j = mk s1 e1" "\<forall>e' t'. (s1, e', t') \<in> set ks' \<longrightarrow> e' = next_key e1"
      using sent by auto
    moreover have "s1 \<noteq> s" using sid_in[OF o(1)] sent.prems(1) by (metis distinct.simps(2) fst_conv list.set_map list.simps(9))
    ultimately show ?thesis by auto
  next
    case False
    then have "j = mk s e" using sent.prems(2) by simp
    then show ?thesis using new by (intro exI[of _ s] exI[of _ e] exI[of _ t]) force
  qed
qed simp

lemma fan_distinct:
  assumes "\<And>s e. nj_sid (mk s e) = s"
  shows "fan mk ks ks' js \<Longrightarrow> distinct (map fst ks) \<Longrightarrow> distinct (map nj_sid js) \<and> nj_sid ` set js \<subseteq> fst ` set ks"
  by (induction rule: fan.induct) (auto simp: assms)

lemma fan_gone: "fan mk ks ks' js \<Longrightarrow> fan mk (ys @ ks) ks' js"
  by (induction ys) (auto intro: fan.gone)

lemma fan_skip: "subseq l pre \<Longrightarrow> fan mk ks ks' js \<Longrightarrow> fan mk (pre @ ks) (l @ ks') js"
  by (induction rule: list_emb.induct) (auto intro: fan_gone fan.gone fan.keep)

lemma fan_refl: "fan mk ks ks []"
  by (induction ks) (auto intro: fan.intros)

lemma fan_of_subseq: "subseq ks' ks \<Longrightarrow> fan mk ks ks' []"
  using fan_skip[OF _ fan.nil] by fastforce

text \<open>The loop over the subscriptions and the initial event make events in this sense.\<close>

lemma next_loop_split:
  "next_loop now l = (Some i, l', k) \<Longrightarrow> \<exists>pre rest. l = pre @ rest \<and> subseq (take i l') pre \<and> drop i l' = rest"
proof (induction l arbitrary: i l' k)
  case (Cons s ss)
  then show ?case
  proof (cases "expired now s \<or> \<not> su_active s")
    case True
    obtain r ss' k' where r: "next_loop now ss = (r, ss', k')" by (metis prod_cases3)
    then obtain j where j: "r = Some j" "i = (if expired now s then j else Suc j)" "l' = (if expired now s then ss' else s # ss')"
      using Cons.prems True by (auto split: if_splits)
    obtain pre rest where "ss = pre @ rest" "subseq (take j ss') pre" "drop j ss' = rest" using Cons.IH r j(1) by blast
    then show ?thesis using j by (intro exI[of _ "s # pre"] exI[of _ rest]) (auto intro: list_emb_Cons)
  next
    case False
    then show ?thesis using Cons.prems by (intro exI[of _ "[]"] exI[of _ "s # ss"]) auto
  qed
qed simp

lemma notify_loop_fan:
  assumes "\<And>s e. nj_sid (mk s e) = s"
    and "notify_loop ext nm now mk (Some i, service) n rc = (rc', service', jobs)"
    and "i < length (si_subscriptionList service)"
  shows "\<exists>tail. si_subscriptionList service' = take i (si_subscriptionList service) @ tail \<and>
           fan mk (map sub_key (drop i (si_subscriptionList service))) (map sub_key tail) jobs"
  using assms(2,3)
proof (induction "Suc (length (si_subscriptionList service)) - i" arbitrary: i service n rc rc' service' jobs rule: less_induct)
  case less
  let ?L = "si_subscriptionList service"
  let ?sub = "?L ! i"
  let ?sub1 = "?sub\<lparr>su_eventKey := next_key (su_eventKey ?sub)\<rparr>"
  let ?s1 = "service\<lparr>si_subscriptionList := ?L[i := ?sub1]\<rparr>"
  have L: "drop i ?L = ?sub # drop (Suc i) ?L" using less.prems(2) by (simp add: Cons_nth_drop_Suc)
  have L1: "take (Suc i) (?L[i := ?sub1]) = take i ?L @ [?sub1]" "drop (Suc i) (?L[i := ?sub1]) = drop (Suc i) ?L"
    using less.prems(2) by (simp_all add: take_Suc_conv_app_nth)
  have upd: "?L[i := ?sub1] = take i ?L @ ?sub1 # drop (Suc i) ?L" using less.prems(2) by (simp add: upd_conv_take_nth_drop)
  have bump: "sub_key ?sub1 = (su_sid ?sub, next_key (su_eventKey ?sub), su_ToSendEventKey ?sub)" by (simp add: sub_key_def)
  consider (no) "\<not> nm_struct nm n"
    | (stop) "nm_struct nm n" "nm_add nm n \<noteq> 0 \<and> (ext \<or> nm_add nm n = EOUTOFMEM)"
    | (go) "nm_struct nm n" "\<not> (nm_add nm n \<noteq> 0 \<and> (ext \<or> nm_add nm n = EOUTOFMEM))" by blast
  then show ?case
  proof cases
    case no
    then show ?thesis using less.prems by (auto simp: notify_loop.simps fan_refl intro!: exI[of _ "drop i ?L"])
  next
    case stop
    then have "service' = ?s1" "jobs = []" using less.prems by (auto simp: notify_loop.simps Let_def)
    then show ?thesis using upd L bump fan.lost[OF fan_refl] by (intro exI[of _ "?sub1 # drop (Suc i) ?L"]) (simp add: sub_key_def)
  next
    case go
    obtain r l k where nl: "next_loop now (drop (Suc i) ?L) = (r, l, k)" by (metis prod_cases3)
    define s2 where "s2 = ?s1\<lparr>si_subscriptionList := take i ?L @ ?sub1 # l, si_TotalSubscriptions := si_TotalSubscriptions service - k\<rparr>"
    have gn: "GetNextSubscription now ?s1 (Some i) = (map_option (\<lambda>j. Suc i + j) r, s2)"
      by (simp add: GetNextSubscription_def next_behind_def nl L1 s2_def)
    obtain rc1 jobs1 where rec: "notify_loop ext nm now mk (map_option (\<lambda>j. Suc i + j) r, s2) (Suc n) (nm_add nm n) = (rc1, service', jobs1)"
      and jobs: "jobs = (if nm_add nm n = 0 then mk (su_sid ?sub) (su_eventKey ?sub) # jobs1 else jobs1)"
      using less.prems go gn by (auto simp: notify_loop.simps Let_def split: prod.splits)
    have "\<exists>tail. si_subscriptionList service' = take i ?L @ ?sub1 # tail \<and>
            fan mk (map sub_key (drop (Suc i) ?L)) (map sub_key tail) jobs1"
    proof (cases r)
      case None
      then have "service' = s2" "jobs1 = []" using rec by (simp_all add: notify_loop.simps)
      then show ?thesis using next_loop_subseq[OF nl] by (simp add: s2_def fan_of_subseq subseq_map)
    next
      case (Some j)
      have j: "j < length l" using next_loop_pos nl Some by blast
      have pos: "Suc i + j < length (si_subscriptionList s2)" using j less.prems(2) by (simp add: s2_def)
      have tk: "take (Suc i + j) (si_subscriptionList s2) = take i ?L @ ?sub1 # take j l"
        "drop (Suc i + j) (si_subscriptionList s2) = drop j l" using less.prems(2) by (simp_all add: s2_def)
      have "length l \<le> length (drop (Suc i) ?L)" using next_loop_shorter[OF nl] .
      then have less': "Suc (length (si_subscriptionList s2)) - (Suc i + j) < Suc (length ?L) - i"
        using less.prems(2) j by (simp add: s2_def)
      obtain tail where tail: "si_subscriptionList service' = take (Suc i + j) (si_subscriptionList s2) @ tail"
        "fan mk (map sub_key (drop (Suc i + j) (si_subscriptionList s2))) (map sub_key tail) jobs1"
        using less.hyps[OF less' _ pos] rec Some by (metis option.simps(9))
      obtain pre rest where pr: "drop (Suc i) ?L = pre @ rest" "subseq (take j l) pre" "drop j l = rest"
        using next_loop_split nl Some by blast
      have "fan mk (map sub_key (drop (Suc i) ?L)) (map sub_key (take j l @ tail)) jobs1"
        using fan_skip[OF subseq_map[OF pr(2)]] tail(2) tk(2) pr by simp
      then show ?thesis using tail(1) tk(1) by (intro exI[of _ "take j l @ tail"]) simp
    qed
    then obtain tail where tail: "si_subscriptionList service' = take i ?L @ ?sub1 # tail"
      "fan mk (map sub_key (drop (Suc i) ?L)) (map sub_key tail) jobs1" by blast
    show ?thesis
      using fan.lost[OF tail(2)] fan.sent[OF tail(2)] tail(1) L jobs bump
      by (intro exI[of _ "?sub1 # tail"]) (simp add: sub_key_def)
  qed
qed


lemma notify_all_fan:
  assumes "\<And>s e. nj_sid (mk s e) = s" "notify_all_on ext nm now mk service = (rc, service', jobs)"
  shows "fan mk (sub_keys service) (sub_keys service') jobs"
proof -
  obtain r l k where nl: "next_loop now (si_subscriptionList service) = (r, l, k)" by (metis prod_cases3)
  define s2 where "s2 = service\<lparr>si_subscriptionList := l, si_TotalSubscriptions := si_TotalSubscriptions service - k\<rparr>"
  have loop: "notify_loop ext nm now mk (r, s2) 0 0 = (rc, service', jobs)"
    using assms(2) by (simp add: notify_all_on_def GetFirstSubscription_def next_behind_def nl s2_def option.map_ident)
  show ?thesis
  proof (cases r)
    case None
    then show ?thesis using loop fan_of_subseq[OF subseq_map[OF next_loop_subseq[OF nl]], of mk sub_key]
      by (auto simp: notify_loop.simps s2_def sub_keys_def)
  next
    case (Some j)
    have "j < length (si_subscriptionList s2)" using nl Some next_loop_pos by (auto simp: s2_def)
    then obtain tail where tail: "si_subscriptionList service' = take j l @ tail"
      "fan mk (map sub_key (drop j l)) (map sub_key tail) jobs"
      using notify_loop_fan[OF assms(1) loop[unfolded Some]] by (auto simp: s2_def)
    obtain pre rest where "si_subscriptionList service = pre @ rest" "subseq (take j l) pre" "drop j l = rest"
      using next_loop_split nl Some by blast
    then show ?thesis using fan_skip[OF subseq_map] tail by (simp add: sub_keys_def)
  qed
qed

lemma GetSubscriptionSID_keys:
  assumes "GetSubscriptionSID now sid service = (r, service')"
  shows "subseq (sub_keys service') (sub_keys service)" "si_active service' = si_active service"
    and "r = Some k \<Longrightarrow> service' = service \<and> k < length (si_subscriptionList service) \<and> su_sid (si_subscriptionList service ! k) = sid"
proof -
  show "subseq (sub_keys service') (sub_keys service)" "si_active service' = si_active service"
    using assms by (auto simp: GetSubscriptionSID_def sub_keys_def split: option.splits if_splits simp del: map_append intro!: subseq_map[OF subseq_delete] intro: subseq_map)
  show "service' = service \<and> k < length (si_subscriptionList service) \<and> su_sid (si_subscriptionList service ! k) = sid" if "r = Some k"
    by (rule GetSubscriptionSID_found[OF assms that])
qed

lemma RemoveSubscriptionSID_keys:
  "subseq (sub_keys (RemoveSubscriptionSID sid service)) (sub_keys service)" "si_active (RemoveSubscriptionSID sid service) = si_active service"
  using remove_loop_subseq by (auto simp: RemoveSubscriptionSID_def sub_keys_def split: prod.splits intro: subseq_map)

lemma sub_keys_update:
  "k < length (si_subscriptionList service) \<Longrightarrow>
     sub_keys (service\<lparr>si_subscriptionList := (si_subscriptionList service)[k := s]\<rparr>) = (sub_keys service)[k := sub_key s]"
  by (simp add: sub_keys_def map_update)

lemma fan_one:
  assumes "k < length ks" "ks ! k = (s, e, t)"
  shows "fan mk ks (ks[k := (s, next_key e, t)]) []" "fan mk ks (ks[k := (s, next_key e, t)]) [mk s e]"
proof -
  have ks: "ks = take k ks @ (s, e, t) # drop (Suc k) ks" using assms by (metis id_take_nth_drop)
  have "fan mk (take k ks @ (s, e, t) # drop (Suc k) ks) (take k ks @ (s, next_key e, t) # drop (Suc k) ks) []"
    "fan mk (take k ks @ (s, e, t) # drop (Suc k) ks) (take k ks @ (s, next_key e, t) # drop (Suc k) ks) [mk s e]"
    by (auto intro: fan_skip fan.lost fan.sent fan_refl)
  then show "fan mk ks (ks[k := (s, next_key e, t)]) []" "fan mk ks (ks[k := (s, next_key e, t)]) [mk s e]"
    using assms(1) ks by (simp_all add: upd_conv_take_nth_drop)
qed

lemma init_eq:
  assumes "GetSubscriptionSID now sid service = (Some k, service)"
  shows "init_on_service nm now mk (Some (0, p)) sid service =
    (let sub = si_subscriptionList service ! k;
         after = (\<lambda>s. service\<lparr>si_subscriptionList := (si_subscriptionList service)[k := s]\<rparr>) in
     if su_active sub then Some (GENA_E_BAD_SID, service, [])
     else if \<not> nm_headers nm then Some (UPNP_E_OUTOF_MEMORY, after (sub\<lparr>su_active := True\<rparr>), [])
     else if print_headers p = None then None
     else if \<not> nm_struct nm 0 then Some (UPNP_E_OUTOF_MEMORY, after (sub\<lparr>su_active := True\<rparr>), [])
     else if nm_add nm 0 \<noteq> 0 then Some (pool_code (nm_add nm 0), after (sub\<lparr>su_active := True, su_eventKey := su_eventKey sub + 1\<rparr>), [])
     else Some (GENA_SUCCESS, after (sub\<lparr>su_active := True, su_eventKey := su_eventKey sub + 1\<rparr>),
                [mk sid (su_eventKey sub) (the (print_headers p)) p]))"
  by (cases "print_headers p") (simp_all add: init_on_service_def assms Let_def)

lemma init_fan:
  assumes "keys_small service"
    and init: "init_on_service nm now mk (Some (0, p)) sid service = Some (rc, service', jobs)"
  shows "fan (\<lambda>s e. mk s e (notify_headers p) p) (sub_keys service) (sub_keys service') jobs \<and> si_active service' = si_active service"
proof -
  let ?mk = "\<lambda>s e. mk s e (notify_headers p) p"
  obtain r sv where g: "GetSubscriptionSID now sid service = (r, sv)" by fastforce
  note gk = GetSubscriptionSID_keys[OF g]
  show ?thesis
  proof (cases r)
    case None
    then show ?thesis using init g gk(1,2) by (auto simp: init_on_service_def intro: fan_of_subseq)
  next
    case (Some k)
    let ?sub = "si_subscriptionList service ! k"
    have sv: "sv = service" and k: "k < length (si_subscriptionList service)" "su_sid ?sub = sid" using gk(3) Some by auto
    have small: "next_key (su_eventKey ?sub) = su_eventKey ?sub + 1" using assms(1) nth_mem[OF k(1)] unfolding keys_small_def next_key_def by fastforce
    have kk: "sub_keys service ! k = (sid, su_eventKey ?sub, su_ToSendEventKey ?sub)" "k < length (sub_keys service)"
      using k by (simp_all add: sub_keys_def sub_key_def)
    let ?act = "service\<lparr>si_subscriptionList := (si_subscriptionList service)[k := ?sub\<lparr>su_active := True\<rparr>]\<rparr>"
    let ?moved = "service\<lparr>si_subscriptionList := (si_subscriptionList service)[k := ?sub\<lparr>su_active := True, su_eventKey := su_eventKey ?sub + 1\<rparr>]\<rparr>"
    have gk: "GetSubscriptionSID now sid service = (Some k, service)" using g Some sv by simp
    have ph: "print_headers p = None \<or> print_headers p = Some (notify_headers p)" by (simp add: print_headers_def)
    consider (same) "service' = service" "jobs = []" | (active) "service' = ?act" "jobs = []"
      | (moved) "service' = ?moved" "jobs = [] \<or> jobs = [?mk sid (su_eventKey ?sub)]"
      using init[unfolded init_eq[OF gk] Let_def] ph by (metis option.distinct(1) option.inject option.sel prod.inject)
    then show ?thesis
    proof cases
      case same
      then show ?thesis by (simp add: fan_refl)
    next
      case active
      have "sub_key (?sub\<lparr>su_active := True\<rparr>) = sub_keys service ! k" by (simp add: kk) (simp add: sub_key_def k)
      then show ?thesis using active k(1) by (simp add: sub_keys_update fan_refl)
    next
      case moved
      have "sub_key (?sub\<lparr>su_active := True, su_eventKey := su_eventKey ?sub + 1\<rparr>) = (sid, next_key (su_eventKey ?sub), su_ToSendEventKey ?sub)"
        using k by (simp add: sub_key_def small)
      then show ?thesis using moved fan_one[OF kk(2,1), of ?mk] k(1) by (auto simp: sub_keys_update)
    qed
  qed
qed


text \<open>
  One subscription with its pending jobs \<open>P\<close>, of which \<open>S\<close> are sending, its events and the messages
  sent to it: the pending keys are different, lie between the key to send and the next event key and
  carry the events of these numbers; what is sending is the event to send; what was sent are the
  events before it, and it.
\<close>

definition in_order :: "notify_job multiset \<Rightarrow> notify_job multiset \<Rightarrow> c_string list \<Rightarrow> c_string list \<Rightarrow> int \<Rightarrow> int \<Rightarrow> bool" where
  "in_order P S ev out e t \<longleftrightarrow>
     e = int (length ev) \<and> e \<le> 2147483647 \<and> 0 \<le> t \<and> t \<le> e \<and>
     (\<forall>j\<in>#P. t \<le> nj_eventKey j \<and> nj_eventKey j < e \<and> nj_propertySet j = ev ! nat (nj_eventKey j)) \<and>
     (\<forall>i. size {#j \<in># P. nj_eventKey j = i#} \<le> 1) \<and>
     S \<subseteq># P \<and> (\<forall>j\<in>#S. nj_eventKey j = t) \<and> out = take (nat t + size S) ev"

lemma filter_all: "\<forall>x\<in>#M. P x \<Longrightarrow> filter_mset P M = M"
  by (induction M) auto

lemma filter_none: "filter_mset P M = {#} \<longleftrightarrow> (\<forall>x\<in>#M. \<not> P x)"
  by (induction M) auto

lemma in_order_size: "in_order P S ev out e t \<Longrightarrow> size S \<le> 1 \<and> nat t + size S \<le> length ev"
proof -
  assume io: "in_order P S ev out e t"
  have "S = {#j \<in># S. nj_eventKey j = t#}" using io by (intro filter_all[symmetric]) (auto simp: in_order_def)
  also have "\<dots> \<subseteq># {#j \<in># P. nj_eventKey j = t#}" using io by (intro multiset_filter_mono) (simp add: in_order_def)
  finally have "size S \<le> size {#j \<in># P. nj_eventKey j = t#}" by (rule size_mset_mono)
  then have s1: "size S \<le> 1" using io unfolding in_order_def by (meson order_trans)
  show ?thesis
  proof (cases "S = {#}")
    case False
    then obtain j where "j \<in># S" by blast
    then have "nj_eventKey j = t" "j \<in># P" using io by (auto simp: in_order_def dest: mset_subset_eqD)
    then have "t < e" using io by (auto simp: in_order_def)
    then show ?thesis using s1 io by (auto simp: in_order_def)
  qed (use io in \<open>auto simp: in_order_def\<close>)
qed

lemma in_order_fewer: "in_order P S ev out e t \<Longrightarrow> P' \<subseteq># P \<Longrightarrow> S \<subseteq># P' \<Longrightarrow> in_order P' S ev out e t"
  using size_mset_mono[OF multiset_filter_mono, of P' P] unfolding in_order_def by (meson mset_subset_eqD order_trans)

lemma in_order_event: "in_order P S ev out e t \<Longrightarrow> e < 2147483647 \<Longrightarrow> in_order P S (ev @ [p]) out (e + 1) t"
  using in_order_size[of P S ev out e t] unfolding in_order_def by (auto simp: nth_append)

lemma in_order_job:
  assumes "in_order P S ev out e t" "e < 2147483647" "nj_eventKey j = e" "nj_propertySet j = p"
  shows "in_order (add_mset j P) S (ev @ [p]) out (e + 1) t"
proof -
  have io: "in_order P S (ev @ [p]) out (e + 1) t" using in_order_event assms(1,2) by blast
  have "{#k \<in># P. nj_eventKey k = e#} = {#}" using assms(1) by (auto simp: in_order_def filter_none)
  moreover have "nat e = length ev" "0 \<le> t" "t \<le> e" using assms(1) by (auto simp: in_order_def)
  ultimately show ?thesis using io assms(3,4) unfolding in_order_def by (auto simp: subset_mset.le_iff_add)
qed

lemma in_order_send:
  assumes "in_order P S ev out e t" "add_mset j S \<subseteq># P" "nj_eventKey j = t"
  shows "in_order P (add_mset j S) ev (out @ [nj_propertySet j]) e t"
proof -
  have j: "j \<in># P" using assms(2) by (meson insert_subset_eq_iff)
  then have t: "t < e" "nj_propertySet j = ev ! nat t" using assms(1,3) by (auto simp: in_order_def)
  have "add_mset j S \<subseteq># {#k \<in># P. nj_eventKey k = t#}"
  proof -
    have "filter_mset (\<lambda>k. nj_eventKey k = t) (add_mset j S) = add_mset j S"
      using assms(1,3) by (intro filter_all) (auto simp: in_order_def)
    then show ?thesis using multiset_filter_mono[OF assms(2), of "\<lambda>k. nj_eventKey k = t"] by (simp only:)
  qed
  then have "size (add_mset j S) \<le> 1" using size_mset_mono assms(1) unfolding in_order_def by (meson order_trans)
  then have "S = {#}" by simp
  then show ?thesis using assms t unfolding in_order_def by (auto simp: take_Suc_conv_app_nth)
qed

lemma in_order_done:
  assumes "in_order P S ev out e t" "j \<in># S"
  shows "in_order (P - {#j#}) (S - {#j#}) ev out e (t + 1)"
proof -
  have S: "S = {#j#}" using in_order_size[OF assms(1)] assms(2) by (metis One_nat_def add_mset_add_single insert_DiffM
      le_zero_eq not_less_eq_eq size_add_mset size_eq_0_iff_empty Suc_le_mono)
  have j: "j \<in># P" "nj_eventKey j = t" using assms S by (auto simp: in_order_def)
  obtain Q where Q: "P = add_mset j Q" using j(1) by (metis insert_DiffM)
  have "size {#k \<in># P. nj_eventKey k = t#} \<le> 1" using assms(1) by (auto simp: in_order_def)
  then have "{#k \<in># Q. nj_eventKey k = t#} = {#}" using j(2) by (simp add: Q)
  then have ne: "\<forall>k\<in>#Q. nj_eventKey k \<noteq> t" by (simp add: filter_none)
  have "{#k \<in># Q. nj_eventKey k = i#} \<subseteq># {#k \<in># P. nj_eventKey k = i#}" for i
    by (intro multiset_filter_mono) (simp add: Q)
  then have cnt: "\<forall>i. size {#k \<in># Q. nj_eventKey k = i#} \<le> 1"
    using assms(1) unfolding in_order_def by (meson size_mset_mono order_trans)
  have te: "0 \<le> t" "t < e" "nat (t + 1) = nat t + 1" using assms(1) j unfolding in_order_def by auto
  have keys: "\<forall>k\<in>#Q. t + 1 \<le> nj_eventKey k \<and> nj_eventKey k < e \<and> nj_propertySet k = ev ! nat (nj_eventKey k)"
  proof
    fix k assume k: "k \<in># Q"
    then have "k \<in># P" by (simp add: Q)
    then have "t \<le> nj_eventKey k \<and> nj_eventKey k < e \<and> nj_propertySet k = ev ! nat (nj_eventKey k)"
      using assms(1) unfolding in_order_def by blast
    then show "t + 1 \<le> nj_eventKey k \<and> nj_eventKey k < e \<and> nj_propertySet k = ev ! nat (nj_eventKey k)" using ne k by force
  qed
  show ?thesis using assms(1) cnt te keys unfolding in_order_def Q S by simp
qed


abbreviation of_sid :: "c_string \<Rightarrow> notify_job multiset \<Rightarrow> notify_job multiset" where
  "of_sid s M \<equiv> filter_mset (\<lambda>j. nj_sid j = s) M"

definition order_inv :: "notify_sys \<Rightarrow> bool" where
  "order_inv y \<longleftrightarrow>
     si_active (ns_service y) \<and> distinct (map fst (sub_keys (ns_service y))) \<and>
     fst ` set (sub_keys (ns_service y)) \<subseteq> ns_used y \<and> nj_sid ` set_mset (ns_queue y + ns_sending y) \<subseteq> ns_used y \<and>
     (\<forall>s. s \<notin> ns_used y \<longrightarrow> ns_events y s = [] \<and> sent_to s (ns_log y) = []) \<and>
     (\<forall>s. prefix (sent_to s (ns_log y)) (ns_events y s)) \<and>
     (\<forall>(s, e, t)\<in>set (sub_keys (ns_service y)).
        in_order (of_sid s (ns_queue y + ns_sending y)) (of_sid s (ns_sending y)) (ns_events y s) (sent_to s (ns_log y)) e t)"

lemma order_inv_parts:
  assumes "order_inv y"
  shows "si_active (ns_service y)" "distinct (map fst (sub_keys (ns_service y)))"
    "fst ` set (sub_keys (ns_service y)) \<subseteq> ns_used y" "nj_sid ` set_mset (ns_queue y + ns_sending y) \<subseteq> ns_used y"
    "\<And>s. s \<notin> ns_used y \<Longrightarrow> ns_events y s = [] \<and> sent_to s (ns_log y) = []"
    "\<And>s. prefix (sent_to s (ns_log y)) (ns_events y s)"
    "\<And>s e t. (s, e, t) \<in> set (sub_keys (ns_service y)) \<Longrightarrow>
        in_order (of_sid s (ns_queue y + ns_sending y)) (of_sid s (ns_sending y)) (ns_events y s) (sent_to s (ns_log y)) e t"
proof -
  note inv = assms[unfolded order_inv_def]
  show "si_active (ns_service y)" by (rule inv[THEN conjunct1])
  show "distinct (map fst (sub_keys (ns_service y)))" by (rule inv[THEN conjunct2, THEN conjunct1])
  show "fst ` set (sub_keys (ns_service y)) \<subseteq> ns_used y" by (rule inv[THEN conjunct2, THEN conjunct2, THEN conjunct1])
  show "nj_sid ` set_mset (ns_queue y + ns_sending y) \<subseteq> ns_used y"
    by (rule inv[THEN conjunct2, THEN conjunct2, THEN conjunct2, THEN conjunct1])
  show "s \<notin> ns_used y \<Longrightarrow> ns_events y s = [] \<and> sent_to s (ns_log y) = []" for s
    using inv by (elim conjE) (erule allE[of _ s], erule mp)
  show "prefix (sent_to s (ns_log y)) (ns_events y s)" for s
    using inv by (elim conjE) (erule allE[of _ s], assumption)
  have all: "\<forall>(s, e, t)\<in>set (sub_keys (ns_service y)).
        in_order (of_sid s (ns_queue y + ns_sending y)) (of_sid s (ns_sending y)) (ns_events y s) (sent_to s (ns_log y)) e t"
    by (rule inv[THEN conjunct2, THEN conjunct2, THEN conjunct2, THEN conjunct2, THEN conjunct2, THEN conjunct2])
  show "in_order (of_sid s (ns_queue y + ns_sending y)) (of_sid s (ns_sending y)) (ns_events y s) (sent_to s (ns_log y)) e t"
    if "(s, e, t) \<in> set (sub_keys (ns_service y))" for s e t
    using bspec[OF all that] by (simp only: prod.case)
qed

lemma order_invI:
  assumes "si_active (ns_service y)" "distinct (map fst (sub_keys (ns_service y)))"
    "fst ` set (sub_keys (ns_service y)) \<subseteq> ns_used y" "nj_sid ` set_mset (ns_queue y + ns_sending y) \<subseteq> ns_used y"
    "\<And>s. s \<notin> ns_used y \<Longrightarrow> ns_events y s = [] \<and> sent_to s (ns_log y) = []"
    "\<And>s. prefix (sent_to s (ns_log y)) (ns_events y s)"
    "\<And>s e t. (s, e, t) \<in> set (sub_keys (ns_service y)) \<Longrightarrow>
        in_order (of_sid s (ns_queue y + ns_sending y)) (of_sid s (ns_sending y)) (ns_events y s) (sent_to s (ns_log y)) e t"
  shows "order_inv y"
  unfolding order_inv_def
proof (intro conjI allI impI ballI)
  fix x assume x: "x \<in> set (sub_keys (ns_service y))"
  obtain s e t where "x = (s, e, t)" by (metis prod_cases3)
  then show "case x of (s, e, t) \<Rightarrow> in_order (of_sid s (ns_queue y + ns_sending y)) (of_sid s (ns_sending y)) (ns_events y s) (sent_to s (ns_log y)) e t"
    using assms(7) x by (simp only: prod.case)
qed (use assms in \<open>blast+\<close>)

text \<open>Removing subscriptions and waiting jobs keeps the order.\<close>

lemma order_inv_fewer:
  assumes inv: "order_inv y" and ks: "subseq (sub_keys service) (sub_keys (ns_service y))" "si_active service"
    and Q: "Q \<subseteq># ns_queue y"
  shows "order_inv (y\<lparr>ns_service := service, ns_queue := Q\<rparr>)"
proof -
  note old = order_inv_parts[OF inv]
  have sub: "set (sub_keys service) \<subseteq> set (sub_keys (ns_service y))" using ks(1) by (rule subseq_set)
  have QS: "Q + ns_sending y \<subseteq># ns_queue y + ns_sending y" using Q by simp
  show ?thesis
  proof (rule order_invI, goal_cases)
    case 1 show ?case using ks(2) by simp
  next
    case 2 show ?case using subseq_distinct[OF subseq_map[OF ks(1)] old(2)] by simp
  next
    case 3 show ?case using image_mono[OF sub, of fst] old(3) by simp
  next
    case 4 show ?case using image_mono[OF set_mset_mono[OF QS], of nj_sid] old(4) by simp
  next
    case (5 s) then show ?case using old(5)[of s] by simp
  next
    case (6 s) show ?case using old(6)[of s] by simp
  next
    case (7 s e t)
    then show ?case using sub in_order_fewer[OF old(7)[of s e t] multiset_filter_mono[OF QS, of "\<lambda>j. nj_sid j = s"]] by auto
  qed
qed

lemma key_of_in: "distinct (map fst (sub_keys service)) \<Longrightarrow> (s, e, t) \<in> set (sub_keys service) \<Longrightarrow> key_of service s = Some e"
proof -
  have "distinct (map su_sid l) \<Longrightarrow> x \<in> set l \<Longrightarrow> find (\<lambda>y. su_sid y = su_sid x) l = Some x" for x l
    by (induction l) auto
  moreover assume "distinct (map fst (sub_keys service))" "(s, e, t) \<in> set (sub_keys service)"
  ultimately show ?thesis by (auto simp: key_of_def sub_keys_def sub_key_def comp_def)
qed

lemma key_of_out: "s \<notin> fst ` set (sub_keys service) \<Longrightarrow> key_of service s = None"
  by (force simp: key_of_def sub_keys_def sub_key_def find_None_iff)

lemma filter_one: "distinct (map f xs) \<Longrightarrow> x \<in> set xs \<Longrightarrow> filter (\<lambda>y. f y = f x) xs = [x]"
  by (induction xs) (auto simp: filter_empty_conv image_iff)

text \<open>Making an event keeps it.\<close>

lemma order_inv_fan:
  assumes inv: "order_inv y" and small: "keys_small (ns_service y)" and act: "si_active service"
    and fan: "fan mk (sub_keys (ns_service y)) (sub_keys service) js"
    and mk: "\<And>s e. nj_sid (mk s e) = s \<and> nj_eventKey (mk s e) = e \<and> nj_propertySet (mk s e) = p"
  shows "order_inv (y\<lparr>ns_service := service, ns_queue := ns_queue y + mset js,
                      ns_events := record_event (ns_service y) service p (ns_events y)\<rparr>)"
proof -
  let ?K = "sub_keys (ns_service y)" and ?K' = "sub_keys service" and ?ev = "record_event (ns_service y) service p (ns_events y)"
  note inv_old = order_inv_parts[OF inv]
  note d = inv_old(2) and used = inv_old(3)
  have d': "distinct (map fst ?K')" using fan_subseq[OF fan] d by (metis subseq_distinct)
  have dj: "distinct (map nj_sid js)" "nj_sid ` set js \<subseteq> fst ` set ?K" using fan_distinct[OF _ fan d] mk by auto
  have sids: "fst ` set ?K' \<subseteq> fst ` set ?K" by (rule fan_sids[OF fan])
  have old: "?ev s = ns_events y s" if "s \<notin> fst ` set ?K" for s
    using key_of_out[OF that] by (simp add: record_event_def)
  have ext: "prefix (ns_events y s) (?ev s)" for s
    by (auto simp: record_event_def split: option.splits)
  have io: "in_order (of_sid s (ns_queue y + mset js + ns_sending y)) (of_sid s (ns_sending y)) (?ev s) (sent_to s (ns_log y)) e' t"
    if k': "(s, e', t) \<in> set ?K'" for s e' t
  proof -
    obtain e where k: "(s, e, t) \<in> set ?K" "e' = e \<or> e' = next_key e" using fan_keys[OF fan k'] by blast
    have "e < 2147483647" using small k(1) by (auto simp: keys_small_def sub_keys_def sub_key_def)
    then have nk: "next_key e = e + 1" "e < 2147483647" by (auto simp: next_key_def)
    have ko: "key_of (ns_service y) s = Some e" "key_of service s = Some e'" using key_of_in d k(1) d' k' by blast+
    note io = inv_old(7)[OF k(1)]
    have job: "nj_eventKey j = e \<and> nj_propertySet j = p \<and> e' = next_key e" if j: "j \<in> set js" "nj_sid j = s" for j
    proof -
      obtain s1 e1 t1 where 1: "(s1, e1, t1) \<in> set ?K" "j = mk s1 e1" "\<forall>e' t'. (s1, e', t') \<in> set ?K' \<longrightarrow> e' = next_key e1"
        using fan_jobs[OF fan d j(1)] by blast
      then have "s1 = s" using mk j(2) by simp
      moreover have "e1 = e" using key_of_in[OF d 1(1)] ko(1) \<open>s1 = s\<close> by simp
      ultimately show ?thesis using 1 mk k' by auto
    qed
    show ?thesis
    proof (cases "e' = e")
      case True
      then have "of_sid s (mset js) = {#}" using job nk by (fastforce simp: filter_none)
      then have "of_sid s (ns_queue y + mset js + ns_sending y) = of_sid s (ns_queue y + ns_sending y)" by simp
      then show ?thesis using io True ko by (simp only: record_event_def option.case prod.case if_False refl simp_thms)
    next
      case False
      then have e': "e' = e + 1" "?ev s = ns_events y s @ [p]" using k(2) nk ko by (auto simp: record_event_def)
      show ?thesis
      proof (cases "of_sid s (mset js) = {#}")
        case True
        then have "of_sid s (ns_queue y + mset js + ns_sending y) = of_sid s (ns_queue y + ns_sending y)" by simp
        then show ?thesis using in_order_event[OF io nk(2), of p] by (simp only: e')
      next
        case False
        then obtain j where j: "j \<in> set js" "nj_sid j = s" by (auto simp: filter_none)
        have "filter (\<lambda>j. nj_sid j = s) js = [j]"
          using filter_one[OF dj(1) j(1)] j(2) by simp
        then have "of_sid s (mset js) = {#j#}" by (metis mset_filter mset_single_iff)
        then have "of_sid s (ns_queue y + mset js + ns_sending y) = add_mset j (of_sid s (ns_queue y + ns_sending y))" by simp
        then show ?thesis using in_order_job[OF io nk(2), of j p] job[OF j] by (simp only: e')
      qed
    qed
  qed
  show ?thesis
  proof (rule order_invI, goal_cases)
    case 1 show ?case using act by simp
  next
    case 2 show ?case using d' by simp
  next
    case 3 show ?case using sids used by simp
  next
    case 4 show ?case using inv_old(4) subset_trans[OF dj(2) used] by (simp add: image_Un)
  next
    case (5 s) then show ?case using inv_old(5)[of s] old[of s] used by auto
  next
    case (6 s) show ?case using prefix_order.order_trans[OF inv_old(6) ext, of s] by simp
  next
    case (7 s e t) then show ?case using io[of s e t] by simp
  qed
qed


lemma in_order_prefix: "in_order P S ev out e t \<Longrightarrow> prefix out ev"
  by (simp add: in_order_def take_is_prefix)

text \<open>The steps of a job: it starts sending, and it ends.\<close>

lemma start_Send:
  assumes "start_on_service copy now job sv = (Send sub, service)"
  shows "service = sv \<and> (\<exists>e. (nj_sid job, e, nj_eventKey job) \<in> set (sub_keys sv))"
proof -
  obtain r sv1 where g: "GetSubscriptionSID now (nj_sid job) sv = (r, sv1)" by fastforce
  obtain k where k: "r = Some k" "service = sv1" "nj_eventKey job = su_ToSendEventKey (si_subscriptionList sv1 ! k)"
    using assms g unfolding start_on_service_def by (auto simp: Let_def split: if_splits option.splits prod.splits)
  note gk = GetSubscriptionSID_keys(3)[OF g k(1)]
  have "sub_keys sv ! k = (nj_sid job, su_eventKey (si_subscriptionList sv ! k), nj_eventKey job)" "k < length (sub_keys sv)"
    using gk k(3) by (auto simp: sub_keys_def sub_key_def)
  then show ?thesis using gk k(2) by (metis nth_mem)
qed

lemma start_fewer:
  assumes "start_on_service copy now job sv = (r, service)"
  shows "subseq (sub_keys service) (sub_keys sv) \<and> si_active service = si_active sv"
proof -
  obtain q sv1 where g: "GetSubscriptionSID now (nj_sid job) sv = (q, sv1)" by fastforce
  have "service = sv \<or> service = sv1"
    using assms g unfolding start_on_service_def by (auto simp: Let_def split: if_splits option.splits prod.splits)
  then show ?thesis using GetSubscriptionSID_keys(1,2)[OF g] by auto
qed

lemma order_inv_send:
  assumes inv: "order_inv y" and job: "job \<in># ns_queue y" and k: "(nj_sid job, e, nj_eventKey job) \<in> set (sub_keys (ns_service y))"
  shows "order_inv (y\<lparr>ns_queue := ns_queue y - {#job#}, ns_sending := ns_sending y + {#job#},
                      ns_log := ns_log y @ [(nj_sid job, nj_propertySet job)]\<rparr>)"
proof -
  note old = order_inv_parts[OF inv]
  let ?s = "nj_sid job"
  obtain Q where Q: "ns_queue y = add_mset job Q" using job by (metis insert_DiffM)
  let ?y = "y\<lparr>ns_queue := ns_queue y - {#job#}, ns_sending := ns_sending y + {#job#},
              ns_log := ns_log y @ [(nj_sid job, nj_propertySet job)]\<rparr>"
  have same: "ns_queue ?y + ns_sending ?y = ns_queue y + ns_sending y" "ns_used ?y = ns_used y"
    "ns_service ?y = ns_service y" "ns_events ?y = ns_events y" "of_sid s (ns_sending ?y) = of_sid s (ns_sending y + {#job#})"
    "ns_log ?y = ns_log y @ [(?s, nj_propertySet job)]" for s by (simp_all add: Q)
  have out: "sent_to s (ns_log y @ [(?s, nj_propertySet job)]) = sent_to s (ns_log y) @ (if s = ?s then [nj_propertySet job] else [])" for s
    by (simp add: sent_to_def)
  have "add_mset job (of_sid ?s (ns_sending y)) \<subseteq># of_sid ?s (ns_queue y + ns_sending y)" by (simp add: Q)
  then have io: "in_order (of_sid ?s (ns_queue y + ns_sending y)) (add_mset job (of_sid ?s (ns_sending y))) (ns_events y ?s)
      (sent_to ?s (ns_log y) @ [nj_propertySet job]) e (nj_eventKey job)"
    using in_order_send[OF old(7)[OF k]] by simp
  show ?thesis
  proof (rule order_invI, goal_cases)
    case 1 show ?case using old(1) by simp
  next
    case 2 show ?case using old(2) by simp
  next
    case 3 show ?case using old(3) by simp
  next
    case 4 show ?case using old(4) by (simp only: same)
  next
    case (5 s) then show ?case using old(5)[of s] old(3) sid_in[OF k] by (auto simp: out)
  next
    case (6 s)
    show ?case
    proof (cases "s = ?s")
      case True
      then show ?thesis using in_order_prefix[OF io] by (simp only: same out if_True refl)
    qed (use old(6) in \<open>simp add: out\<close>)
  next
    case (7 s e' t')
    show ?case
    proof (cases "s = ?s")
      case True
      then have "e' = e" "t' = nj_eventKey job" using 7 k old(2) by (auto dest: eq_key_imp_eq_value)
      moreover have "of_sid ?s (ns_sending y + {#job#}) = add_mset job (of_sid ?s (ns_sending y))" by simp
      ultimately show ?thesis using io True by (simp only: same out if_True refl)
    next
      case False
      have "of_sid s (ns_sending y + {#job#}) = of_sid s (ns_sending y)" using False by simp
      moreover have "(s, e', t') \<in> set (sub_keys (ns_service y))" using 7 by simp
      ultimately show ?thesis using old(7)[of s e' t'] False by (simp only: same out if_False append_Nil2)
    qed
  qed
qed

lemma GetSubscriptionSID_gone:
  assumes "GetSubscriptionSID now sid service = (None, service')" "distinct (map fst (sub_keys service))"
  shows "sid \<notin> fst ` set (sub_keys service')"
proof (cases "find_pos (\<lambda>s. su_sid s = sid) (si_subscriptionList service)")
  case None
  have "find_pos P xs = None \<Longrightarrow> \<forall>x\<in>set xs. \<not> P x" for P and xs :: "subscription list"
    by (induction xs) (auto split: if_splits)
  then have "\<forall>x\<in>set (si_subscriptionList service). su_sid x \<noteq> sid" using None by blast
  then show ?thesis using assms(1) None by (auto simp: GetSubscriptionSID_def sub_keys_def sub_key_def)
next
  case (Some i)
  let ?L = "si_subscriptionList service"
  have i: "i < length ?L" "su_sid (?L ! i) = sid" using find_pos_Some[OF Some] by auto
  have "?L = take i ?L @ ?L ! i # drop (Suc i) ?L" using i(1) by (rule id_take_nth_drop)
  then have "distinct (map su_sid (take i ?L @ ?L ! i # drop (Suc i) ?L))"
    using assms(2) by (simp add: sub_keys_def sub_key_def comp_def)
  then have "sid \<notin> su_sid ` set (take i ?L @ drop (Suc i) ?L)" using i(2) by auto
  then show ?thesis using assms(1) Some by (auto simp: GetSubscriptionSID_def sub_keys_def sub_key_def split: if_splits)
qed

lemma order_inv_done:
  assumes inv: "order_inv y" and job: "job \<in># ns_sending y"
    and keys: "\<And>s e t. (s, e, t) \<in> set (sub_keys service) \<Longrightarrow>
                 if s = nj_sid job then (s, e, t - 1) \<in> set (sub_keys (ns_service y)) else (s, e, t) \<in> set (sub_keys (ns_service y))"
    and d: "distinct (map fst (sub_keys service))" "si_active service"
  shows "order_inv (y\<lparr>ns_service := service, ns_sending := ns_sending y - {#job#}\<rparr>)"
proof -
  note old = order_inv_parts[OF inv]
  obtain S where S: "ns_sending y = add_mset job S" using job by (metis insert_DiffM)
  have sids: "fst ` set (sub_keys service) \<subseteq> fst ` set (sub_keys (ns_service y))"
    using keys by (force split: if_splits)
  have io: "in_order (of_sid s (ns_queue y + (ns_sending y - {#job#}))) (of_sid s (ns_sending y - {#job#})) (ns_events y s) (sent_to s (ns_log y)) e t"
    if "(s, e, t) \<in> set (sub_keys service)" for s e t
  proof (cases "s = nj_sid job")
    case True
    then have "in_order (of_sid s (ns_queue y + ns_sending y)) (of_sid s (ns_sending y)) (ns_events y s) (sent_to s (ns_log y)) e (t - 1)"
      using keys[OF that] old(7) by simp
    then show ?thesis using in_order_done[of "of_sid s (ns_queue y + ns_sending y)" "of_sid s (ns_sending y)" _ _ e "t - 1" job] True
      by (simp add: S)
  next
    case False
    then show ?thesis using keys[OF that] old(7)[of s e t] by (simp add: S)
  qed
  show ?thesis
  proof (rule order_invI, goal_cases)
    case 3 show ?case using sids old(3) by simp
  next
    case 4 show ?case using old(4) by (simp add: S image_Un)
  next
    case (5 s) then show ?case using old(5)[of s] by simp
  next
    case (6 s) show ?case using old(6)[of s] by simp
  next
    case (7 s e t) then show ?case using io[of s e t] by simp
  qed (use d in simp_all)
qed


lemma update_in:
  assumes "distinct (map fst K)" "k < length K" "K ! k = (sid, e, t)" "(s, e', t') \<in> set (K[k := (sid, e, u)])"
  shows "if s = sid then e' = e \<and> t' = u else (s, e', t') \<in> set K"
proof -
  obtain i where i: "i < length K" "K[k := (sid, e, u)] ! i = (s, e', t')" using assms(4) by (auto simp: in_set_conv_nth)
  show ?thesis
  proof (cases "i = k")
    case False
    have "map fst K ! i \<noteq> map fst K ! k" using False assms(1,2) i(1) by (subst nth_eq_iff_index_eq) auto
    then show ?thesis using False i assms(2,3) nth_mem[OF i(1)] by auto
  qed (use i assms(2) in auto)
qed

lemma finish_keys:
  assumes inv: "order_inv y" and job: "job \<in># ns_sending y"
    and f: "finish_on_service now rc job (ns_service y) = sv'"
  shows "(s, e, t) \<in> set (sub_keys sv') \<Longrightarrow>
      if s = nj_sid job then (s, e, t - 1) \<in> set (sub_keys (ns_service y)) else (s, e, t) \<in> set (sub_keys (ns_service y))"
    and "distinct (map fst (sub_keys sv'))" "si_active sv'"
proof -
  let ?sv = "ns_service y" and ?sid = "nj_sid job"
  note old = order_inv_parts[OF inv]
  obtain r sv1 where g: "GetSubscriptionSID now ?sid ?sv = (r, sv1)" by fastforce
  note gk = GetSubscriptionSID_keys[OF g]
  have "((s, e, t) \<in> set (sub_keys sv') \<longrightarrow>
      (if s = ?sid then (s, e, t - 1) \<in> set (sub_keys ?sv) else (s, e, t) \<in> set (sub_keys ?sv))) \<and>
      distinct (map fst (sub_keys sv')) \<and> si_active sv'" for s e t
  proof (cases r)
    case None
    have f: "sv' = sv1" using f old(1) g None by (simp add: finish_on_service_def)
    have "?sid \<notin> fst ` set (sub_keys sv1)" using GetSubscriptionSID_gone[OF _ old(2)] g None by blast
    then have "s \<noteq> ?sid \<and> (s, e, t) \<in> set (sub_keys ?sv)" if "(s, e, t) \<in> set (sub_keys sv1)"
      using sid_in[OF that] subsetD[OF subseq_set[OF gk(1)] that] by metis
    then show ?thesis using gk(2) old(1) subseq_distinct[OF subseq_map[OF gk(1)] old(2)] by (simp add: f)
  next
    case (Some k)
    define sub where "sub = si_subscriptionList ?sv ! k"
    let ?e = "su_eventKey sub" and ?t = "su_ToSendEventKey sub"
    have sv1: "sv1 = ?sv" and k: "k < length (si_subscriptionList ?sv)" "su_sid sub = ?sid"
      using gk(3)[OF Some] by (auto simp: sub_def)
    have kk: "sub_keys ?sv ! k = (?sid, ?e, ?t)" "k < length (sub_keys ?sv)" using k by (simp_all add: sub_keys_def sub_key_def sub_def)
    have mem: "(?sid, ?e, ?t) \<in> set (sub_keys ?sv)" using kk nth_mem by metis
    have io: "in_order (of_sid ?sid (ns_queue y + ns_sending y)) (of_sid ?sid (ns_sending y)) (ns_events y ?sid) (sent_to ?sid (ns_log y)) ?e ?t"
      by (rule old(7)[OF mem])
    have "job \<in># of_sid ?sid (ns_sending y)" using job by simp
    then have t: "nj_eventKey job = ?t" using io unfolding in_order_def by blast
    have "job \<in># of_sid ?sid (ns_queue y + ns_sending y)" using job by simp
    then have "?t < ?e" "?e \<le> 2147483647" using io t unfolding in_order_def by auto
    then have nk: "next_key ?t = ?t + 1" by (simp add: next_key_def)
    define sv2 where "sv2 = ?sv\<lparr>si_subscriptionList := (si_subscriptionList ?sv)[k := sub\<lparr>su_ToSendEventKey := next_key ?t\<rparr>]\<rparr>"
    have k2: "sub_keys sv2 = (sub_keys ?sv)[k := (?sid, ?e, ?t + 1)]"
      using k unfolding sv2_def by (simp add: sub_keys_update sub_key_def nk)
    have d2: "map fst (sub_keys sv2) = map fst (sub_keys ?sv)" using kk by (simp add: k2 map_update list_update_same_conv)
    have f3: "sv' = sv2 \<or> sv' = RemoveSubscriptionSID ?sid sv2"
      using f old(1) g Some sv1 by (auto simp: finish_on_service_def Let_def sv2_def sub_def)
    have s3: "subseq (sub_keys sv') (sub_keys sv2)" "si_active sv'"
      using f3 RemoveSubscriptionSID_keys old(1) by (auto simp: sv2_def)
    have "if s = ?sid then (s, e, t - 1) \<in> set (sub_keys ?sv) else (s, e, t) \<in> set (sub_keys ?sv)"
      if "(s, e, t) \<in> set (sub_keys sv')"
      using update_in[OF old(2) kk(2,1), of s e t "?t + 1"] subseq_set[OF s3(1)] that mem by (auto simp: k2 split: if_splits)
    moreover have "distinct (map fst (sub_keys sv'))" using subseq_distinct[OF subseq_map[OF s3(1)]] d2 old(2) by metis
    ultimately show ?thesis using s3(2) by blast
  qed
  then show "(s, e, t) \<in> set (sub_keys sv') \<Longrightarrow>
      if s = nj_sid job then (s, e, t - 1) \<in> set (sub_keys (ns_service y)) else (s, e, t) \<in> set (sub_keys (ns_service y))"
    "distinct (map fst (sub_keys sv'))" "si_active sv'" by blast+
qed

lemma order_inv_finish:
  assumes inv: "order_inv y" and job: "job \<in># ns_sending y"
  shows "order_inv (y\<lparr>ns_service := finish_on_service now rc job (ns_service y), ns_sending := ns_sending y - {#job#}\<rparr>)"
  using order_inv_done[OF inv job] finish_keys[OF inv job refl] by blast

lemma order_inv_accept:
  assumes inv: "order_inv y" and new: "su_sid sub \<notin> ns_used y" "su_eventKey sub = 0" "su_ToSendEventKey sub = 0"
  shows "order_inv (y\<lparr>ns_service := (ns_service y)\<lparr>si_subscriptionList := sub # si_subscriptionList (ns_service y),
                        si_TotalSubscriptions := n\<rparr>, ns_used := insert (su_sid sub) (ns_used y)\<rparr>)"
proof -
  note old = order_inv_parts[OF inv]
  let ?sv = "(ns_service y)\<lparr>si_subscriptionList := sub # si_subscriptionList (ns_service y), si_TotalSubscriptions := n\<rparr>"
  have ks: "sub_keys ?sv = (su_sid sub, 0, 0) # sub_keys (ns_service y)" using new by (simp add: sub_keys_def sub_key_def)
  have none: "of_sid (su_sid sub) (ns_queue y + ns_sending y) = {#}" "of_sid (su_sid sub) (ns_sending y) = {#}"
    using old(4) new(1) by (auto simp: filter_none)
  have io: "in_order (of_sid (su_sid sub) (ns_queue y + ns_sending y)) (of_sid (su_sid sub) (ns_sending y)) (ns_events y (su_sid sub))
      (sent_to (su_sid sub) (ns_log y)) 0 0"
    unfolding none using old(5)[OF new(1)] by (simp add: in_order_def)
  show ?thesis
  proof (rule order_invI, goal_cases)
    case 1 show ?case using old(1) by simp
  next
    case 2 show ?case using old(2,3) new(1) by (auto simp: ks)
  next
    case 3 show ?case using old(3) by (auto simp: ks)
  next
    case 4 show ?case using old(4) by auto
  next
    case (5 s) then show ?case using old(5)[of s] by simp
  next
    case (6 s) show ?case using old(6)[of s] by simp
  next
    case (7 s e t)
    then have "(s, e, t) = (su_sid sub, 0, 0) \<or> (s, e, t) \<in> set (sub_keys (ns_service y))" by (simp add: ks)
    then show ?case using io old(7)[of s e t] by auto
  qed
qed

lemma notify_loop_active:
  "notify_loop ext nm now mk (f, service) n rc = (rc', service', jobs) \<Longrightarrow> si_active service' = si_active service"
proof (induction ext nm now mk "(f, service)" n rc arbitrary: f service rc' service' jobs rule: notify_loop.induct)
  case (2 ext nm now mk i service n rc)
  define sub where "sub = si_subscriptionList service ! i"
  define s1 where "s1 = service\<lparr>si_subscriptionList := (si_subscriptionList service)[i := sub\<lparr>su_eventKey := next_key (su_eventKey sub)\<rparr>]\<rparr>"
  obtain f2 s2 where gn: "GetNextSubscription now s1 (Some i) = (f2, s2)" by fastforce
  have s2: "si_active s2 = si_active service"
    using gn by (auto simp: GetNextSubscription_def next_behind_def s1_def split: prod.splits)
  obtain rc1 s3 jobs1 where rec: "notify_loop ext nm now mk (f2, s2) (Suc n) (nm_add nm n) = (rc1, s3, jobs1)" by (metis prod_cases3)
  consider "service' = service" | "service' = s1"
    | "\<not> (\<not> i < length (si_subscriptionList service) \<or> \<not> nm_struct nm n)"
      "\<not> (nm_add nm n \<noteq> 0 \<and> (ext \<or> nm_add nm n = EOUTOFMEM))" "service' = s3"
    using 2(2) unfolding notify_loop.simps(2) Let_def sub_def[symmetric] s1_def[symmetric] gn rec prod.case
    by (metis prod.inject)
  then show ?case
  proof cases
    case 3
    have "si_active s3 = si_active s2"
      using 2(1)[OF 3(1) refl refl refl 3(2) gn[unfolded s1_def sub_def] rec] .
    then show ?thesis using 3(3) s2 by simp
  qed (simp_all add: s1_def)
qed (simp add: notify_loop.simps)

lemma notify_all_active:
  "notify_all_on ext nm now mk service = (rc, service', jobs) \<Longrightarrow> si_active service' = si_active service"
  unfolding notify_all_on_def GetFirstSubscription_def next_behind_def
  by (auto dest!: notify_loop_active split: prod.splits)

theorem order_inv_step: "notify_step y y' \<Longrightarrow> order_inv y \<Longrightarrow> order_inv y'"
proof (induction rule: notify_step.induct)
  case (accept sub y)
  then show ?case by (intro order_inv_accept)
next
  case (renew now sid y k service t)
  note gk = GetSubscriptionSID_keys[OF renew.hyps]
  have "sub_key ((si_subscriptionList service ! k)\<lparr>su_expireTime := t\<rparr>) = sub_keys (ns_service y) ! k"
    using gk(3) by (simp add: sub_keys_def) (simp add: sub_key_def)
  then have "sub_keys (service\<lparr>si_subscriptionList := (si_subscriptionList service)[k := (si_subscriptionList service ! k)\<lparr>su_expireTime := t\<rparr>]\<rparr>)
      = sub_keys (ns_service y)"
    using gk(3) by (simp add: sub_keys_update)
  then show ?case
    using order_inv_fewer[OF renew.prems, of _ "ns_queue y"] gk(3) order_inv_parts(1)[OF renew.prems] by simp
next
  case (look y now sid)
  obtain r sv where g: "GetSubscriptionSID now sid (ns_service y) = (r, sv)" by fastforce
  show ?case
    using order_inv_fewer[OF look, of sv "ns_queue y"] GetSubscriptionSID_keys(1,2)[OF g] order_inv_parts(1)[OF look] g by simp
next
  case (cancel y sid)
  show ?case
    using order_inv_fewer[OF cancel, of _ "ns_queue y"] RemoveSubscriptionSID_keys order_inv_parts(1)[OF cancel] by simp
next
  case (init y nm now device servId UDN propertySet sid rc service jobs)
  note f = init_fan[OF init.hyps]
  show ?case
    by (rule order_inv_fan[OF init.prems init.hyps(1) _ f[THEN conjunct1]])
      (use f order_inv_parts(1)[OF init.prems] in \<open>auto simp: job_for_def\<close>)
next
  case (event y ext nm now device servId UDN headers propertySet rc service jobs)
  have "fan (\<lambda>sid key. job_for device servId UDN sid key headers propertySet) (sub_keys (ns_service y)) (sub_keys service) jobs"
    by (rule notify_all_fan[OF _ event.hyps(2)]) (simp add: job_for_def)
  moreover have "si_active service" using notify_all_active[OF event.hyps(2)] order_inv_parts(1)[OF event.prems] by simp
  ultimately show ?case by (intro order_inv_fan[OF event.prems event.hyps(1)]) (auto simp: job_for_def)
next
  case (dropped job y copy now service)
  then show ?case using order_inv_fewer[OF dropped.prems, of service "ns_queue y - {#job#}"] start_fewer[OF dropped.hyps(2)]
      order_inv_parts(1)[OF dropped.prems] by simp
next
  case (again job y copy now service taken)
  then show ?case using order_inv_fewer[OF again.prems, of service "ns_queue y - {#job#}"] order_inv_fewer[OF again.prems, of service "ns_queue y"]
      start_fewer[OF again.hyps(2)] order_inv_parts(1)[OF again.prems] by simp
next
  case (send job y copy now sub service)
  then show ?case using start_Send[OF send.hyps(2)] order_inv_send[OF send.prems send.hyps(1)] by auto
next
  case (finish job y now rc)
  then show ?case by (intro order_inv_finish)
qed


interpretation ordered: transitions notify_init notify_step order_inv
proof
  fix y assume "notify_init y"
  then show "order_inv y" by (auto simp: notify_init_def order_inv_def sub_keys_def sent_to_def)
qed (rule order_inv_step)

text \<open>
  An event whose job is gone: the subscription waits for a key that no job has any more.
\<close>

definition waits_for_lost :: "c_string \<Rightarrow> int \<Rightarrow> c_string list \<Rightarrow> notify_sys \<Rightarrow> bool" where
  "waits_for_lost s T out y \<longleftrightarrow>
     order_inv y \<and> s \<in> ns_used y \<and> sent_to s (ns_log y) = out \<and>
     (\<forall>e t. (s, e, t) \<in> set (sub_keys (ns_service y)) \<longrightarrow> t = T \<and> T < e) \<and>
     (\<forall>j\<in>#ns_queue y + ns_sending y. nj_sid j = s \<longrightarrow> nj_eventKey j \<noteq> T)"

lemma waits_parts:
  assumes "waits_for_lost s T out y"
  shows "order_inv y" "s \<in> ns_used y" "sent_to s (ns_log y) = out"
    "\<And>e t. (s, e, t) \<in> set (sub_keys (ns_service y)) \<Longrightarrow> t = T \<and> T < e"
    "\<And>j. j \<in># ns_queue y + ns_sending y \<Longrightarrow> nj_sid j = s \<Longrightarrow> nj_eventKey j \<noteq> T"
  using assms unfolding waits_for_lost_def by blast+

lemma waitsI:
  assumes "order_inv y" "s \<in> ns_used y" "sent_to s (ns_log y) = out"
    "\<And>e t. (s, e, t) \<in> set (sub_keys (ns_service y)) \<Longrightarrow> t = T \<and> T < e"
    "\<And>j. j \<in># ns_queue y + ns_sending y \<Longrightarrow> nj_sid j = s \<Longrightarrow> nj_eventKey j \<noteq> T"
  shows "waits_for_lost s T out y"
  unfolding waits_for_lost_def using assms by blast

lemma waits_fewer:
  assumes "waits_for_lost s T out y" "order_inv y'" "ns_used y \<subseteq> ns_used y'" "ns_log y' = ns_log y"
    "\<And>e t. (s, e, t) \<in> set (sub_keys (ns_service y')) \<Longrightarrow> (s, e, t) \<in> set (sub_keys (ns_service y))"
    "ns_queue y' + ns_sending y' \<subseteq># ns_queue y + ns_sending y"
  shows "waits_for_lost s T out y'"
  unfolding waits_for_lost_def
  using assms(2,3,4) waits_parts(2,3)[OF assms(1)] waits_parts(4)[OF assms(1) assms(5)]
    waits_parts(5)[OF assms(1) mset_subset_eqD[OF assms(6)]] by (metis subsetD)

lemma waits_fan:
  assumes "waits_for_lost s T out y" "order_inv y'" "ns_used y' = ns_used y" "ns_log y' = ns_log y"
    and small: "keys_small (ns_service y)" and fan: "fan mk (sub_keys (ns_service y)) (sub_keys (ns_service y')) js"
    and mk: "\<And>s e. nj_sid (mk s e) = s \<and> nj_eventKey (mk s e) = e"
    and q: "ns_queue y' = ns_queue y + mset js" "ns_sending y' = ns_sending y"
  shows "waits_for_lost s T out y'"
proof -
  note w = waits_parts(4,5,1)[OF assms(1)]
  have "t = T \<and> T < e'" if k': "(s, e', t) \<in> set (sub_keys (ns_service y'))" for e' t
  proof -
    obtain e where e: "(s, e, t) \<in> set (sub_keys (ns_service y))" "e' = e \<or> e' = next_key e" using fan_keys[OF fan k'] by blast
    then have "e < 2147483647" using small by (auto simp: keys_small_def sub_keys_def sub_key_def)
    then show ?thesis using e w(1)[OF e(1)] by (auto simp: next_key_def)
  qed
  moreover have "nj_eventKey j \<noteq> T" if j: "j \<in> set js" "nj_sid j = s" for j
  proof -
    obtain s1 e t where "(s1, e, t) \<in> set (sub_keys (ns_service y))" "j = mk s1 e"
      using fan_jobs[OF fan order_inv_parts(2)[OF w(3)] j(1)] by blast
    then show ?thesis using mk j(2) w(1) by force
  qed
  moreover have "j \<in> set js \<or> j \<in># ns_queue y + ns_sending y" if "j \<in># ns_queue y' + ns_sending y'" for j
    using that by (auto simp: q)
  ultimately show ?thesis
    by (intro waitsI) (use assms(2-4) waits_parts(2,3)[OF assms(1)] w(2) in \<open>metis+\<close>)
qed

lemma waits_step: "notify_step y y' \<Longrightarrow> waits_for_lost s T out y \<Longrightarrow> waits_for_lost s T out y'"
proof -
  assume st: "notify_step y y'" and w: "waits_for_lost s T out y"
  have inv: "order_inv y" using w by (simp add: waits_for_lost_def)
  have inv': "order_inv y'" using order_inv_step[OF st inv] .
  note old = order_inv_parts[OF inv]
  show ?thesis
    using st
  proof cases
    case (accept sub)
    have "su_sid sub \<noteq> s" using accept w by (auto simp: waits_for_lost_def)
    then show ?thesis by (intro waits_fewer[OF w inv']) (auto simp: accept sub_keys_def sub_key_def)
  next
    case (renew now sid k service t)
    note gk = GetSubscriptionSID_keys(3)[OF renew(2), of k]
    have "sub_key ((si_subscriptionList service ! k)\<lparr>su_expireTime := t\<rparr>) = sub_keys (ns_service y) ! k"
      using gk by (simp add: sub_keys_def) (simp add: sub_key_def)
    then have "sub_keys (ns_service y') = sub_keys (ns_service y)" using gk by (simp add: renew(1) sub_keys_update)
    then show ?thesis by (intro waits_fewer[OF w inv']) (auto simp: renew(1))
  next
    case (look now sid)
    obtain r sv where g: "GetSubscriptionSID now sid (ns_service y) = (r, sv)" by fastforce
    show ?thesis using subseq_set[OF GetSubscriptionSID_keys(1)[OF g]] by (intro waits_fewer[OF w inv']) (auto simp: look g)
  next
    case (cancel sid)
    show ?thesis using subseq_set[OF RemoveSubscriptionSID_keys(1)[of sid "ns_service y"]]
      by (intro waits_fewer[OF w inv']) (auto simp: cancel)
  next
    case (init nm now device servId UDN propertySet sid rc service jobs)
    show ?thesis
      by (rule waits_fan[OF w inv' _ _ init(2), of "\<lambda>s e. job_for device servId UDN s e (notify_headers propertySet) propertySet" jobs])
        (use init_fan[OF init(2,3)] in \<open>auto simp: init(1) job_for_def\<close>)
  next
    case (event ext nm now device servId UDN headers propertySet rc service jobs)
    have "fan (\<lambda>sid key. job_for device servId UDN sid key headers propertySet) (sub_keys (ns_service y)) (sub_keys service) jobs"
      by (rule notify_all_fan[OF _ event(3)]) (simp add: job_for_def)
    then show ?thesis
      by (intro waits_fan[OF w inv' _ _ event(2), of "\<lambda>sid key. job_for device servId UDN sid key headers propertySet" jobs])
        (auto simp: event(1) job_for_def)
  next
    case (dropped job copy now service)
    show ?thesis using subseq_set start_fewer[OF dropped(3)] by (intro waits_fewer[OF w inv']) (auto simp: dropped(1))
  next
    case (again job copy now service taken)
    show ?thesis using subseq_set start_fewer[OF again(3)] by (intro waits_fewer[OF w inv']) (auto simp: again(1))
  next
    case (send job copy now sub service)
    obtain e where sv: "service = ns_service y" "(nj_sid job, e, nj_eventKey job) \<in> set (sub_keys (ns_service y))"
      using start_Send[OF send(3)] by blast
    have "nj_sid job \<noteq> s" using w sv(2) send(2) unfolding waits_for_lost_def by auto
    then have "sent_to s (ns_log y') = sent_to s (ns_log y)" by (simp add: send(1) sent_to_def)
    moreover have "ns_queue y' + ns_sending y' = ns_queue y + ns_sending y" using send(2) by (simp add: send(1))
    moreover have "ns_service y' = ns_service y" "ns_used y' = ns_used y" by (simp_all add: send(1) sv(1))
    ultimately show ?thesis using w inv' unfolding waits_for_lost_def by metis
  next
    case (finish job now rc)
    have "(s, e, t) \<in> set (sub_keys (ns_service y))" if k: "(s, e, t) \<in> set (sub_keys (ns_service y'))" for e t
    proof (cases "s = nj_sid job")
      case True
      then have "(s, e, t - 1) \<in> set (sub_keys (ns_service y))" using finish_keys(1)[OF inv finish(2) refl] k by (simp add: finish(1))
      then have "\<forall>j\<in>#of_sid s (ns_sending y). nj_eventKey j = T"
        using old(7) w unfolding in_order_def waits_for_lost_def by blast
      then have "nj_eventKey job = T" using True finish(2) by simp
      then show ?thesis using w True finish(2) unfolding waits_for_lost_def by auto
    next
      case False
      then show ?thesis using finish_keys(1)[OF inv finish(2) refl, where e = e and t = t and s = s] k by (simp add: finish(1))
    qed
    then show ?thesis by (intro waits_fewer[OF w inv']) (auto simp: finish(1) intro: subset_mset.add_left_mono)
  qed
qed

interpretation blocked: transitions "\<lambda>y. waits_for_lost s T out y" notify_step "waits_for_lost s T out"
  for s T out
  by unfold_locales (auto intro: waits_step)

subsection \<open>Properties\<close>

text \<open>
  C1: the messages sent to a subscriber are, in this order, the events generated for it from the
  first one on, without a gap and without a repetition, in whatever order the pool runs the jobs,
  whenever jobs are refused by the pool or put back, and however subscriptions are renewed, looked
  up, cancelled or expire in between.
\<close>

theorem events_in_order:
  assumes "notify_init y" "notify_step\<^sup>*\<^sup>* y y'"
  shows "prefix (sent_to sid (ns_log y')) (ns_events y' sid)"
  by (rule order_inv_parts(6)[OF ordered.reachable_inv[OF assms]])

text \<open>A run with one subscription: it is accepted, the initial event is made, its job starts.\<close>

definition run_service :: "subscription list \<Rightarrow> int \<Rightarrow> service_info" where
  "run_service subs n =
     \<lparr>si_serviceType = None, si_serviceId = Some ''i'', si_SCPDURL = None, si_controlURL = None, si_eventURL = None,
      si_UDN = Some ''u'', si_active = True, si_TotalSubscriptions = n, si_subscriptionList = subs\<rparr>"

definition run_start :: notify_sys where
  "run_start = \<lparr>ns_service = run_service [] 0, ns_queue = {#}, ns_sending = {#}, ns_used = {}, ns_events = \<lambda>_. [], ns_log = []\<rparr>"

definition run_job :: notify_job where
  "run_job = job_for 1 ''i'' ''u'' ''s'' 0 (notify_headers ''p'') ''p''"

definition run_sub :: subscription where
  "run_sub = new_subscription\<lparr>su_sid := ''s''\<rparr>"

definition run_mem :: "int \<Rightarrow> notify_mem" where
  "run_mem rc = \<lparr>nm_copies = True, nm_headers = True, nm_struct = \<lambda>_. True, nm_add = \<lambda>_. rc\<rparr>"

lemma EOUTOFMEM_nonzero: "EOUTOFMEM \<noteq> 0"
  by code_simp

lemma run_print: "print_headers ''p'' = Some (notify_headers ''p'')"
  by code_simp

definition run_made :: "int \<Rightarrow> notify_sys" where
  "run_made rc = run_start\<lparr>ns_service := run_service [run_sub\<lparr>su_active := True, su_eventKey := 1\<rparr>] 1,
     ns_queue := (if rc = 0 then {#run_job#} else {#}), ns_used := {''s''},
     ns_events := (\<lambda>sid. if sid = ''s'' then [''p''] else [])\<rparr>"

lemma run_first:
  "notify_init run_start"
  "notify_step\<^sup>*\<^sup>* run_start (run_made rc)"
proof -
  show "notify_init run_start" by (simp add: notify_init_def run_start_def run_service_def)
  let ?y = "run_start\<lparr>ns_service := run_service [run_sub] 1, ns_used := {''s''}\<rparr>"
  have 1: "notify_step run_start ?y"
    using notify_step.accept[of run_sub run_start] by (simp add: run_start_def run_service_def run_sub_def new_subscription_def)
  have i: "init_on_service (run_mem rc) 0 (job_for 1 ''i'' ''u'') (Some (0, ''p'')) ''s'' (run_service [run_sub] 1) =
      Some (if rc = 0 then 0 else pool_code rc, run_service [run_sub\<lparr>su_active := True, su_eventKey := 1\<rparr>] 1, if rc = 0 then [run_job] else [])"
    by (simp add: init_on_service_def GetSubscriptionSID_def run_service_def run_sub_def new_subscription_def expired_def
        run_mem_def run_print run_job_def)
  have "record_event (run_service [run_sub] 1) (run_service [run_sub\<lparr>su_active := True, su_eventKey := 1\<rparr>] 1) ''p'' (\<lambda>_. []) =
      (\<lambda>sid. if sid = ''s'' then [''p''] else [])"
    by (auto simp: record_event_def key_of_def run_service_def run_sub_def new_subscription_def fun_eq_iff)
  note ev = this
  have y: "ns_service ?y = run_service [run_sub] 1" "ns_queue ?y = {#}" "ns_events ?y = (\<lambda>_. [])" by (simp_all add: run_start_def)
  have ks: "keys_small (run_service [run_sub] 1)" by (simp add: keys_small_def run_service_def run_sub_def new_subscription_def)
  have 2: "notify_step ?y (run_made rc)"
    using notify_step.init[of ?y, unfolded y, OF ks i] by (cases "rc = 0") (simp_all add: ev run_made_def run_start_def)
  show "notify_step\<^sup>*\<^sup>* run_start (run_made rc)" using 1 2 by (meson converse_rtranclp_into_rtranclp rtranclp.rtrancl_refl)
qed

theorem events_in_order_witness:
  "\<exists>y'. notify_step\<^sup>*\<^sup>* run_start y' \<and> sent_to ''s'' (ns_log y') = [''p''] \<and>
     prefix (sent_to ''s'' (ns_log y')) (ns_events y' ''s'')"
proof -
  let ?sv = "run_service [run_sub\<lparr>su_active := True, su_eventKey := 1\<rparr>] 1"
  have y: "ns_service (run_made 0) = ?sv" "ns_queue (run_made 0) = {#run_job#}" "ns_log (run_made 0) = []"
    by (simp_all add: run_made_def run_start_def)
  have st: "start_on_service (\<lambda>s. (HTTP_SUCCESS, s)) 0 run_job ?sv = (Send (run_sub\<lparr>su_active := True, su_eventKey := 1\<rparr>), ?sv)"
    by (simp add: start_on_service_def run_service_def GetSubscriptionSID_def run_sub_def new_subscription_def run_job_def
        job_for_def expired_def Let_def)
  have in_pool: "run_job \<in># {#run_job#}" by simp
  let ?y = "run_made 0\<lparr>ns_service := ?sv, ns_queue := {#run_job#} - {#run_job#}, ns_sending := ns_sending (run_made 0) + {#run_job#},
                       ns_log := [] @ [(nj_sid run_job, nj_propertySet run_job)]\<rparr>"
  have "notify_step (run_made 0) ?y" using notify_step.send[of run_job "run_made 0", unfolded y, OF in_pool st] .
  then have run: "notify_step\<^sup>*\<^sup>* run_start ?y" using run_first(2)[of 0] by (rule rtranclp.rtrancl_into_rtrancl[rotated])
  have "sent_to ''s'' (ns_log ?y) = [''p'']" by (simp add: sent_to_def run_job_def job_for_def)
  then show ?thesis using run events_in_order[OF run_first(1) run] by blast
qed




subsection \<open>The texts fit into their blocks\<close>

lemma propertyset_length: "length (propertyset_text vars) = propertyset_size vars"
proof -
  have "length (concat (map (\<lambda>(name, val). ''<e:property>\<newline>'' @ ''<'' @ name @ ''>'' @ val @ ''</'' @ name @ ''>\<newline></e:property>\<newline>'') vars)) =
      sum_list (map (\<lambda>(name, val). length ''<e:property>\<newline></e:property>\<newline>'' +
                                 (2 * length name + length val + length ''<></>\<newline>'')) vars)"
    by (induction vars) auto
  then show ?thesis by (simp add: propertyset_text_def propertyset_size_def)
qed

lemma dec_length: "n < 10 ^ Suc k \<Longrightarrow> length (dec n) \<le> Suc k"
proof (induction k arbitrary: n)
  case (Suc k)
  have "n div 10 < 10 ^ Suc k" using Suc.prems by (simp add: less_mult_imp_div_less mult.commute)
  then show ?case using Suc.IH[of "n div 10"] by (subst dec.simps) simp
qed (subst dec.simps, simp)

lemma print_headers_fit: "length p + 1 < 10 ^ 19 \<Longrightarrow> print_headers p = Some (notify_headers p)"
  using dec_length[of "length p + 1" 18] by (simp add: print_headers_def notify_headers_def headers_size_def)



text \<open>
  C9: the texts of a message fit into their blocks. The property set is written without leaving its
  block and is the text of the variables, as long as its size is below the range of \<^verbatim>\<open>int\<close>; the headers
  for it are written without leaving theirs, although the size computed for them forgets a colon.
\<close>

theorem notify_texts_fit:
  assumes "propertyset_size vars < 2147483647"
  shows "\<exists>rc propertySet. GeneratePropertySet A vars = Some (rc, propertySet) \<and>
           (rc = UPNP_E_SUCCESS \<longrightarrow> propertySet = propertyset_text vars) \<and>
           print_headers propertySet = Some (notify_headers propertySet)"
proof -
  have "wrap32 (int (propertyset_size vars)) = int (propertyset_size vars)" using assms by (intro wrap32_id) auto
  then have sz: "nat ((wrap32 (int (propertyset_size vars)) + 1) mod 2 ^ 64) = length (propertyset_text vars) + 1"
    using assms by (simp add: propertyset_length nat_add_distrib)
  have "length p < 9999999999999999999 \<Longrightarrow> print_headers p = Some (notify_headers p)" for p
    using print_headers_fit[of p] by simp
  note print = this
  show ?thesis
  proof (cases "c_malloc A (length (propertyset_text vars) + 1)")
    case None
    then show ?thesis using print[of "[]"] unfolding GeneratePropertySet_def sz by simp
  next
    case (Some b)
    then have "length b = length (propertyset_text vars) + 1" by (auto simp: c_malloc_def split: if_splits)
    then have "GeneratePropertySet A vars = Some (UPNP_E_SUCCESS, propertyset_text vars)"
      using Some unfolding GeneratePropertySet_def sz by simp
    then show ?thesis using print[of "propertyset_text vars"] assms by (simp add: propertyset_length)
  qed
qed

theorem notify_texts_fit_witness:
  "\<exists>rc propertySet. GeneratePropertySet all_granted [(''Status'', ''1'')] = Some (rc, propertySet) \<and>
     print_headers propertySet = Some (notify_headers propertySet)"
proof -
  have "propertyset_size [(''Status'', ''1'')] < 2147483647" by (simp add: propertyset_size_def XML_PROPERTYSET_HEADER_def)
  then show ?thesis using notify_texts_fit by blast
qed

end
